(* ===== verification/Prelude.thy ===== *)
theory Prelude
  imports Main "HOL-Library.Word"
begin

unbundle bit_operations_syntax

text \<open>
  The vocabulary shared by the components: the C integer types of the 32-bit target the sources
  are built for, the errors the code raises, sequencing of operations that may raise one, and
  generic facts on lists, bits and result values that the component theories use.
\<close>

section \<open>C integers\<close>

text \<open>
  The target is ILP32: \<open>int\<close>, \<open>size_t\<close> and pointers have 32 bits, \<open>char\<close> has 8. Unsigned
  quantities are words. A signed \<open>int\<close> is an \<^typ>\<open>int\<close>; a definition converts with
  \<open>c_int\<close> and \<open>c_uint\<close> where the C code casts, and wraps where an overflow can happen.
\<close>

type_synonym byte = "8 word"
type_synonym wchar = "16 word"
type_synonym u32 = "32 word"

definition c_uint :: "int \<Rightarrow> u32" where
  "c_uint x = word_of_int x"

definition c_int :: "u32 \<Rightarrow> int" where
  "c_int w = sint w"

definition cast_byte :: "int \<Rightarrow> byte" where
  "cast_byte x = word_of_int x"

text \<open>\<open>INT_MAX\<close>, and the margins \<open>MAX_INT\<close> and \<open>MAX_SIZET\<close> of \<open>llimits.h\<close>.\<close>

definition INT_MAX :: int where
  "INT_MAX = 2147483647"

definition MAX_INT :: int where
  "MAX_INT = INT_MAX - 2"

definition MAX_SIZET :: u32 where
  "MAX_SIZET = NOT 0 - 2"

lemma c_int_c_uint [simp]: "- 2147483648 \<le> x \<Longrightarrow> x < 2147483648 \<Longrightarrow> c_int (c_uint x) = x"
  by (simp add: c_int_def c_uint_def sint_sbintrunc' signed_take_bit_int_eq_self)

lemma uint_c_uint [simp]: "0 \<le> x \<Longrightarrow> x < 4294967296 \<Longrightarrow> uint (c_uint x) = x"
  by (simp add: c_uint_def uint_word_of_int)

lemma unat_c_uint [simp]: "0 \<le> x \<Longrightarrow> x < 4294967296 \<Longrightarrow> unat (c_uint x) = nat x"
  by (simp add: unat_eq_nat_uint)

lemma unat_drop_bit: "unat (drop_bit n w) = unat w div 2 ^ n" for w :: "'a::len word"
  by (simp add: unsigned_drop_bit_eq take_bit_nat_eq_self flip: drop_bit_eq_div)

lemma uint_drop_bit: "uint (drop_bit n w) = uint w div 2 ^ n" for w :: "'a::len word"
proof -
  have "int (unat (drop_bit n w)) = int (unat w div 2 ^ n)" by (simp only: unat_drop_bit)
  then show ?thesis by (simp add: zdiv_int)
qed

lemma unat_add_1_le: "unat (w + 1) \<le> unat w + 1" for w :: "'a::len word"
  by (simp add: unat_word_ariths mod_less_eq_dividend)

section \<open>Errors and sequencing\<close>

text \<open>
  An error of the interpreter unwinds with \<open>longjmp\<close> (\<open>luaD_throw\<close>) and carries a status and
  a message. \<open>OutOfBounds\<close> stands for a read outside every buffer the code owns: the C
  behaviour is undefined there, and the model stops instead of inventing a value.
\<close>

datatype lua_error =
    ErrSyntax string int   \<comment> \<open>\<open>luaX_lexerror\<close>: the message and the token it names (0: none)\<close>
  | ErrRun string          \<comment> \<open>\<open>luaG_runerror\<close>\<close>
  | ErrMem                 \<comment> \<open>\<open>LUA_ERRMEM\<close>\<close>
  | OutOfBounds            \<comment> \<open>a read or write outside the buffer\<close>
  | OutOfFuel              \<comment> \<open>the bound on nested calls given to a definition is used up\<close>

type_synonym 'a result = "lua_error + 'a"

text \<open>\<open>bnd m f\<close> runs \<open>m\<close> and, unless it raised, continues with \<open>f\<close>.\<close>

definition bnd :: "'e + 'a \<Rightarrow> ('a \<Rightarrow> 'e + 'b) \<Rightarrow> 'e + 'b" where
  "bnd m f = (case m of Inl e \<Rightarrow> Inl e | Inr x \<Rightarrow> f x)"

named_theorems results "rules that take a sequence of fallible operations apart"

lemma bnd_Inr [simp]: "bnd (Inr x) f = f x"
  by (simp add: bnd_def)

lemma bnd_Inl [simp]: "bnd (Inl e) f = Inl e"
  by (simp add: bnd_def)

lemma bnd_eq_Inr [results]: "bnd m f = Inr y \<longleftrightarrow> (\<exists>x. m = Inr x \<and> f x = Inr y)"
  by (cases m) simp_all

lemma bnd_eq_Inl [results]:
  "bnd m f = Inl e \<longleftrightarrow> m = Inl e \<or> (\<exists>x. m = Inr x \<and> f x = Inl e)"
  by (cases m) auto

lemma bnd_cong [fundef_cong]:
  "m = m' \<Longrightarrow> (\<And>x. m' = Inr x \<Longrightarrow> f x = f' x) \<Longrightarrow> bnd m f = bnd m' f'"
  by (cases m') auto

lemma bnd_assoc: "bnd (bnd m f) g = bnd m (\<lambda>x. bnd (f x) g)"
  by (cases m) simp_all

text \<open>A guard that raises \<open>e\<close> where the condition fails (the \<open>check\<close> macros).\<close>

definition require :: "bool \<Rightarrow> 'e \<Rightarrow> 'e + unit" where
  "require b e = (if b then Inr () else Inl e)"

lemma require_Inr [results, simp]: "require b e = Inr u \<longleftrightarrow> b"
  by (simp add: require_def)

lemma require_Inl [results, simp]: "require b e = Inl e' \<longleftrightarrow> \<not> b \<and> e' = e"
  by (auto simp: require_def)

text \<open>
  What an operation bounded by \<open>fuel\<close> has to do: it does not run out, and what it returns, if it
  raises no error of the program, satisfies \<open>P\<close>.
\<close>

definition yields :: "('a \<Rightarrow> bool) \<Rightarrow> 'a result \<Rightarrow> bool" where
  "yields P m \<longleftrightarrow> (case m of Inl e \<Rightarrow> e \<noteq> OutOfFuel | Inr x \<Rightarrow> P x)"

lemma yields_Inr [simp]: "yields P (Inr x) \<longleftrightarrow> P x"
  by (simp add: yields_def)

lemma yields_Inl [simp]: "yields P (Inl e) \<longleftrightarrow> e \<noteq> OutOfFuel"
  by (simp add: yields_def)

lemma yields_bnd: "yields P m \<Longrightarrow> (\<And>x. P x \<Longrightarrow> yields Q (f x)) \<Longrightarrow> yields Q (bnd m f)"
  by (cases m) simp_all

lemma yields_mono: "yields P m \<Longrightarrow> (\<And>x. P x \<Longrightarrow> Q x) \<Longrightarrow> yields Q m"
  by (cases m) simp_all

section \<open>Lists and bits\<close>

lemma nth_update_other [simp]: "i \<noteq> j \<Longrightarrow> xs[i := x] ! j = xs ! j"
  by simp

lemma take_update_ge [simp]: "n \<le> i \<Longrightarrow> take n (xs[i := x]) = take n xs"
  by (simp add: take_update_swap list_update_beyond)

text \<open>A \<open>C\<close> string ends at its first zero byte (\<open>strlen\<close>).\<close>

definition c_str :: "byte list \<Rightarrow> byte list" where
  "c_str bs = takeWhile (\<lambda>b. b \<noteq> 0) bs"

lemma c_str_no_zero: "0 \<notin> set bs \<Longrightarrow> c_str (bs @ 0 # rest) = bs"
  unfolding c_str_def by (subst takeWhile_append2) auto

lemma c_str_id: "0 \<notin> set bs \<Longrightarrow> c_str bs = bs"
  unfolding c_str_def by (simp add: takeWhile_eq_all_conv) metis

lemma length_c_str: "length (c_str bs) \<le> length bs"
  unfolding c_str_def by (rule length_takeWhile_le)

text \<open>The bytes of a literal.\<close>

definition bytes_of :: "string \<Rightarrow> byte list" where
  "bytes_of s = map (\<lambda>c. of_char c) s"

lemma length_bytes_of [simp]: "length (bytes_of s) = length s"
  by (simp add: bytes_of_def)

end
