(* ===== verification/Opcodes.thy ===== *)
theory Opcodes
  imports Prelude
begin

text \<open>
  \<open>lopcodes.h\<close> and \<open>lopcodes.c\<close>: the 32-bit instruction word, the macros that read and write
  its fields, the opcode enumeration and the table of opcode properties.
\<close>

section \<open>Instruction format\<close>

type_synonym Instruction = u32

datatype OpMode = iABC | iABx | iAsBx

definition SIZE_C :: nat where "SIZE_C = 9"
definition SIZE_B :: nat where "SIZE_B = 9"
definition SIZE_Bx :: nat where "SIZE_Bx = SIZE_C + SIZE_B"
definition SIZE_A :: nat where "SIZE_A = 8"
definition SIZE_OP :: nat where "SIZE_OP = 6"
definition POS_OP :: nat where "POS_OP = 0"
definition POS_A :: nat where "POS_A = POS_OP + SIZE_OP"
definition POS_C :: nat where "POS_C = POS_A + SIZE_A"
definition POS_B :: nat where "POS_B = POS_C + SIZE_C"
definition POS_Bx :: nat where "POS_Bx = POS_C"

lemmas field_layout = SIZE_C_def SIZE_B_def SIZE_Bx_def SIZE_A_def SIZE_OP_def
  POS_OP_def POS_A_def POS_C_def POS_B_def POS_Bx_def

definition MAXARG_Bx :: int where "MAXARG_Bx = 2 ^ SIZE_Bx - 1"
definition MAXARG_sBx :: int where "MAXARG_sBx = drop_bit 1 MAXARG_Bx"
definition MAXARG_A :: int where "MAXARG_A = 2 ^ SIZE_A - 1"
definition MAXARG_B :: int where "MAXARG_B = 2 ^ SIZE_B - 1"
definition MAXARG_C :: int where "MAXARG_C = 2 ^ SIZE_C - 1"

definition MASK1 :: "nat \<Rightarrow> nat \<Rightarrow> Instruction" where
  "MASK1 n p = push_bit p (NOT (push_bit n (NOT 0)))"

definition MASK0 :: "nat \<Rightarrow> nat \<Rightarrow> Instruction" where
  "MASK0 n p = NOT (MASK1 n p)"

text \<open>
  \<open>GET_OPCODE\<close> casts six bits to the enumeration; the cast may give a number no opcode has, so
  the model keeps the number and compares it with \<open>opcode\<close> of a constructor.
\<close>

definition GET_OPCODE :: "Instruction \<Rightarrow> nat" where
  "GET_OPCODE i = unat (drop_bit POS_OP i AND MASK1 SIZE_OP 0)"

definition SET_OPCODE :: "Instruction \<Rightarrow> nat \<Rightarrow> Instruction" where
  "SET_OPCODE i op =
     (i AND MASK0 SIZE_OP POS_OP) OR (push_bit POS_OP (of_nat op) AND MASK1 SIZE_OP POS_OP)"

definition GETARG_A :: "Instruction \<Rightarrow> int" where
  "GETARG_A i = c_int (drop_bit POS_A i AND MASK1 SIZE_A 0)"

definition SETARG_A :: "Instruction \<Rightarrow> int \<Rightarrow> Instruction" where
  "SETARG_A i u =
     (i AND MASK0 SIZE_A POS_A) OR (push_bit POS_A (c_uint u) AND MASK1 SIZE_A POS_A)"

definition GETARG_B :: "Instruction \<Rightarrow> int" where
  "GETARG_B i = c_int (drop_bit POS_B i AND MASK1 SIZE_B 0)"

definition SETARG_B :: "Instruction \<Rightarrow> int \<Rightarrow> Instruction" where
  "SETARG_B i b =
     (i AND MASK0 SIZE_B POS_B) OR (push_bit POS_B (c_uint b) AND MASK1 SIZE_B POS_B)"

definition GETARG_C :: "Instruction \<Rightarrow> int" where
  "GETARG_C i = c_int (drop_bit POS_C i AND MASK1 SIZE_C 0)"

definition SETARG_C :: "Instruction \<Rightarrow> int \<Rightarrow> Instruction" where
  "SETARG_C i b =
     (i AND MASK0 SIZE_C POS_C) OR (push_bit POS_C (c_uint b) AND MASK1 SIZE_C POS_C)"

definition GETARG_Bx :: "Instruction \<Rightarrow> int" where
  "GETARG_Bx i = c_int (drop_bit POS_Bx i AND MASK1 SIZE_Bx 0)"

definition SETARG_Bx :: "Instruction \<Rightarrow> int \<Rightarrow> Instruction" where
  "SETARG_Bx i b =
     (i AND MASK0 SIZE_Bx POS_Bx) OR (push_bit POS_Bx (c_uint b) AND MASK1 SIZE_Bx POS_Bx)"

definition GETARG_sBx :: "Instruction \<Rightarrow> int" where
  "GETARG_sBx i = GETARG_Bx i - MAXARG_sBx"

definition SETARG_sBx :: "Instruction \<Rightarrow> int \<Rightarrow> Instruction" where
  "SETARG_sBx i b = SETARG_Bx i (b + MAXARG_sBx)"

definition CREATE_ABC :: "nat \<Rightarrow> int \<Rightarrow> int \<Rightarrow> int \<Rightarrow> Instruction" where
  "CREATE_ABC op a b c =
     push_bit POS_OP (of_nat op) OR push_bit POS_A (c_uint a)
       OR push_bit POS_B (c_uint b) OR push_bit POS_C (c_uint c)"

definition CREATE_ABx :: "nat \<Rightarrow> int \<Rightarrow> int \<Rightarrow> Instruction" where
  "CREATE_ABx op a bc =
     push_bit POS_OP (of_nat op) OR push_bit POS_A (c_uint a) OR push_bit POS_Bx (c_uint bc)"

text \<open>RK operands: bit 8 tells a constant from a register.\<close>

definition BITRK :: int where "BITRK = push_bit (SIZE_B - 1) 1"

definition ISK :: "int \<Rightarrow> bool" where
  "ISK x \<longleftrightarrow> x AND BITRK \<noteq> 0"

definition INDEXK :: "int \<Rightarrow> int" where
  "INDEXK r = r AND NOT BITRK"

definition MAXINDEXRK :: int where "MAXINDEXRK = BITRK - 1"

definition RKASK :: "int \<Rightarrow> int" where
  "RKASK x = x OR BITRK"

definition NO_REG :: int where "NO_REG = MAXARG_A"

section \<open>Opcodes and their properties\<close>

datatype OpCode =
    OP_MOVE | OP_LOADK | OP_LOADBOOL | OP_LOADNIL | OP_GETUPVAL | OP_GETGLOBAL
  | OP_GETTABLE | OP_SETGLOBAL | OP_SETUPVAL | OP_SETTABLE | OP_NEWTABLE | OP_SELF
  | OP_ADD | OP_SUB | OP_MUL | OP_DIV | OP_MOD | OP_POW
  | OP_UNM | OP_NOT | OP_LEN | OP_CONCAT | OP_JMP | OP_EQ
  | OP_LT | OP_LE | OP_TEST | OP_TESTSET | OP_CALL | OP_TAILCALL
  | OP_RETURN | OP_FORLOOP | OP_FORPREP | OP_TFORLOOP | OP_SETLIST | OP_CLOSE
  | OP_CLOSURE | OP_VARARG | OP_BAND | OP_BOR | OP_BXOR | OP_BSHL
  | OP_BSHR

primrec opcode :: "OpCode \<Rightarrow> nat" where
  "opcode OP_MOVE = 0"
| "opcode OP_LOADK = 1"
| "opcode OP_LOADBOOL = 2"
| "opcode OP_LOADNIL = 3"
| "opcode OP_GETUPVAL = 4"
| "opcode OP_GETGLOBAL = 5"
| "opcode OP_GETTABLE = 6"
| "opcode OP_SETGLOBAL = 7"
| "opcode OP_SETUPVAL = 8"
| "opcode OP_SETTABLE = 9"
| "opcode OP_NEWTABLE = 10"
| "opcode OP_SELF = 11"
| "opcode OP_ADD = 12"
| "opcode OP_SUB = 13"
| "opcode OP_MUL = 14"
| "opcode OP_DIV = 15"
| "opcode OP_MOD = 16"
| "opcode OP_POW = 17"
| "opcode OP_UNM = 18"
| "opcode OP_NOT = 19"
| "opcode OP_LEN = 20"
| "opcode OP_CONCAT = 21"
| "opcode OP_JMP = 22"
| "opcode OP_EQ = 23"
| "opcode OP_LT = 24"
| "opcode OP_LE = 25"
| "opcode OP_TEST = 26"
| "opcode OP_TESTSET = 27"
| "opcode OP_CALL = 28"
| "opcode OP_TAILCALL = 29"
| "opcode OP_RETURN = 30"
| "opcode OP_FORLOOP = 31"
| "opcode OP_FORPREP = 32"
| "opcode OP_TFORLOOP = 33"
| "opcode OP_SETLIST = 34"
| "opcode OP_CLOSE = 35"
| "opcode OP_CLOSURE = 36"
| "opcode OP_VARARG = 37"
| "opcode OP_BAND = 38"
| "opcode OP_BOR = 39"
| "opcode OP_BXOR = 40"
| "opcode OP_BSHL = 41"
| "opcode OP_BSHR = 42"

definition NUM_OPCODES :: nat where
  "NUM_OPCODES = opcode OP_BSHR + 1"

datatype OpArgMask = OpArgN | OpArgU | OpArgR | OpArgK

primrec oparg_num :: "OpArgMask \<Rightarrow> byte" where
  "oparg_num OpArgN = 0"
| "oparg_num OpArgU = 1"
| "oparg_num OpArgR = 2"
| "oparg_num OpArgK = 3"

primrec opmode_num :: "OpMode \<Rightarrow> byte" where
  "opmode_num iABC = 0"
| "opmode_num iABx = 1"
| "opmode_num iAsBx = 2"

definition opmode :: "byte \<Rightarrow> byte \<Rightarrow> OpArgMask \<Rightarrow> OpArgMask \<Rightarrow> OpMode \<Rightarrow> byte" where
  "opmode t a b c m =
     push_bit 7 t OR push_bit 6 a OR push_bit 4 (oparg_num b) OR push_bit 2 (oparg_num c)
       OR opmode_num m"

definition luaP_opmodes :: "byte list" where
  "luaP_opmodes =
    [
     opmode 0 1 OpArgR OpArgN iABC,  \<comment> \<open>OP_MOVE\<close>
     opmode 0 1 OpArgK OpArgN iABx,  \<comment> \<open>OP_LOADK\<close>
     opmode 0 1 OpArgU OpArgU iABC,  \<comment> \<open>OP_LOADBOOL\<close>
     opmode 0 1 OpArgR OpArgN iABC,  \<comment> \<open>OP_LOADNIL\<close>
     opmode 0 1 OpArgU OpArgN iABC,  \<comment> \<open>OP_GETUPVAL\<close>
     opmode 0 1 OpArgK OpArgN iABx,  \<comment> \<open>OP_GETGLOBAL\<close>
     opmode 0 1 OpArgR OpArgK iABC,  \<comment> \<open>OP_GETTABLE\<close>
     opmode 0 0 OpArgK OpArgN iABx,  \<comment> \<open>OP_SETGLOBAL\<close>
     opmode 0 0 OpArgU OpArgN iABC,  \<comment> \<open>OP_SETUPVAL\<close>
     opmode 0 0 OpArgK OpArgK iABC,  \<comment> \<open>OP_SETTABLE\<close>
     opmode 0 1 OpArgU OpArgU iABC,  \<comment> \<open>OP_NEWTABLE\<close>
     opmode 0 1 OpArgR OpArgK iABC,  \<comment> \<open>OP_SELF\<close>
     opmode 0 1 OpArgK OpArgK iABC,  \<comment> \<open>OP_ADD\<close>
     opmode 0 1 OpArgK OpArgK iABC,  \<comment> \<open>OP_SUB\<close>
     opmode 0 1 OpArgK OpArgK iABC,  \<comment> \<open>OP_MUL\<close>
     opmode 0 1 OpArgK OpArgK iABC,  \<comment> \<open>OP_DIV\<close>
     opmode 0 1 OpArgK OpArgK iABC,  \<comment> \<open>OP_MOD\<close>
     opmode 0 1 OpArgK OpArgK iABC,  \<comment> \<open>OP_POW\<close>
     opmode 0 1 OpArgR OpArgN iABC,  \<comment> \<open>OP_UNM\<close>
     opmode 0 1 OpArgR OpArgN iABC,  \<comment> \<open>OP_NOT\<close>
     opmode 0 1 OpArgR OpArgN iABC,  \<comment> \<open>OP_LEN\<close>
     opmode 0 1 OpArgR OpArgR iABC,  \<comment> \<open>OP_CONCAT\<close>
     opmode 0 0 OpArgR OpArgN iAsBx,  \<comment> \<open>OP_JMP\<close>
     opmode 1 0 OpArgK OpArgK iABC,  \<comment> \<open>OP_EQ\<close>
     opmode 1 0 OpArgK OpArgK iABC,  \<comment> \<open>OP_LT\<close>
     opmode 1 0 OpArgK OpArgK iABC,  \<comment> \<open>OP_LE\<close>
     opmode 1 1 OpArgR OpArgU iABC,  \<comment> \<open>OP_TEST\<close>
     opmode 1 1 OpArgR OpArgU iABC,  \<comment> \<open>OP_TESTSET\<close>
     opmode 0 1 OpArgU OpArgU iABC,  \<comment> \<open>OP_CALL\<close>
     opmode 0 1 OpArgU OpArgU iABC,  \<comment> \<open>OP_TAILCALL\<close>
     opmode 0 0 OpArgU OpArgN iABC,  \<comment> \<open>OP_RETURN\<close>
     opmode 0 1 OpArgR OpArgN iAsBx,  \<comment> \<open>OP_FORLOOP\<close>
     opmode 0 1 OpArgR OpArgN iAsBx,  \<comment> \<open>OP_FORPREP\<close>
     opmode 1 0 OpArgN OpArgU iABC,  \<comment> \<open>OP_TFORLOOP\<close>
     opmode 0 0 OpArgU OpArgU iABC,  \<comment> \<open>OP_SETLIST\<close>
     opmode 0 0 OpArgN OpArgN iABC,  \<comment> \<open>OP_CLOSE\<close>
     opmode 0 1 OpArgU OpArgN iABx,  \<comment> \<open>OP_CLOSURE\<close>
     opmode 0 1 OpArgU OpArgN iABC,  \<comment> \<open>OP_VARARG\<close>
     opmode 0 1 OpArgK OpArgK iABC,  \<comment> \<open>OP_BAND\<close>
     opmode 0 1 OpArgK OpArgK iABC,  \<comment> \<open>OP_BOR\<close>
     opmode 0 1 OpArgK OpArgK iABC,  \<comment> \<open>OP_BXOR\<close>
     opmode 0 1 OpArgK OpArgK iABC,  \<comment> \<open>OP_BSHL\<close>
     opmode 0 1 OpArgK OpArgK iABC]"  \<comment> \<open>OP_BSHR\<close>

definition luaP_opnames :: "string list" where
  "luaP_opnames =
    [
     ''MOVE'', ''LOADK'', ''LOADBOOL'', ''LOADNIL'', ''GETUPVAL'', ''GETGLOBAL'', ''GETTABLE'',
     ''SETGLOBAL'', ''SETUPVAL'', ''SETTABLE'', ''NEWTABLE'', ''SELF'', ''ADD'', ''SUB'',
     ''MUL'', ''DIV'', ''MOD'', ''POW'', ''UNM'', ''NOT'', ''LEN'',
     ''CONCAT'', ''JMP'', ''EQ'', ''LT'', ''LE'', ''TEST'', ''TESTSET'',
     ''CALL'', ''TAILCALL'', ''RETURN'', ''FORLOOP'', ''FORPREP'', ''TFORLOOP'', ''SETLIST'',
     ''CLOSE'', ''CLOSURE'', ''VARARG'', ''BAND'', ''BOR'', ''BXOR'', ''BSHL'',
     ''BSHR'']"

definition mode_of_num :: "byte \<Rightarrow> OpMode" where
  "mode_of_num b = (if b = 0 then iABC else if b = 1 then iABx else iAsBx)"

definition mask_of_num :: "byte \<Rightarrow> OpArgMask" where
  "mask_of_num b =
     (if b = 0 then OpArgN else if b = 1 then OpArgU else if b = 2 then OpArgR else OpArgK)"

text \<open>The table accessors; they index \<open>luaP_opmodes\<close>, so a number of no opcode is undefined.\<close>

definition getOpMode :: "nat \<Rightarrow> OpMode" where
  "getOpMode m = mode_of_num (luaP_opmodes ! m AND 3)"

definition getBMode :: "nat \<Rightarrow> OpArgMask" where
  "getBMode m = mask_of_num (drop_bit 4 (luaP_opmodes ! m) AND 3)"

definition getCMode :: "nat \<Rightarrow> OpArgMask" where
  "getCMode m = mask_of_num (drop_bit 2 (luaP_opmodes ! m) AND 3)"

definition testAMode :: "nat \<Rightarrow> bool" where
  "testAMode m \<longleftrightarrow> luaP_opmodes ! m AND push_bit 6 1 \<noteq> 0"

definition testTMode :: "nat \<Rightarrow> bool" where
  "testTMode m \<longleftrightarrow> luaP_opmodes ! m AND push_bit 7 1 \<noteq> 0"

definition LFIELDS_PER_FLUSH :: int where "LFIELDS_PER_FLUSH = 50"

section \<open>Field laws\<close>

text \<open>
  Every accessor reads or overwrites a run of \<open>n\<close> bits at position \<open>p\<close>. The laws are proved
  once for such a run and specialised to the macros.
\<close>

definition fld :: "nat \<Rightarrow> nat \<Rightarrow> Instruction \<Rightarrow> Instruction" where
  "fld n p i = drop_bit p i AND MASK1 n 0"

definition setfld :: "nat \<Rightarrow> nat \<Rightarrow> Instruction \<Rightarrow> Instruction \<Rightarrow> Instruction" where
  "setfld n p i u = (i AND MASK0 n p) OR (push_bit p u AND MASK1 n p)"

lemma bit_MASK1: "bit (MASK1 n p) k \<longleftrightarrow> p \<le> k \<and> k < n + p \<and> k < 32"
  by (auto simp: MASK1_def bit_simps)

lemma bit_fld: "bit (fld n p i) k \<longleftrightarrow> k < n \<and> bit i (p + k)"
  using bit_imp_le_length [of i "p + k"] by (auto simp: fld_def bit_MASK1 bit_simps)

lemma bit_setfld:
  "bit (setfld n p i u) k \<longleftrightarrow>
     (if p \<le> k \<and> k < n + p then k < 32 \<and> bit u (k - p) else bit i k)"
  using bit_imp_le_length [of i k] by (auto simp: setfld_def MASK0_def bit_MASK1 bit_simps)

lemma fld_setfld_same: "n + p \<le> 32 \<Longrightarrow> fld n p (setfld n p i u) = take_bit n u"
  by (rule bit_word_eqI) (auto simp: bit_fld bit_setfld bit_simps)

lemma fld_setfld_other:
  "p' + n' \<le> p \<or> p + n \<le> p' \<Longrightarrow> fld n' p' (setfld n p i u) = fld n' p' i"
  by (rule bit_word_eqI) (auto simp: bit_fld bit_setfld)

lemma fld_or: "fld n p (x OR y) = fld n p x OR fld n p y"
  by (rule bit_word_eqI) (auto simp: bit_fld bit_simps)

lemma fld_push_same: "n + p \<le> 32 \<Longrightarrow> fld n p (push_bit p u) = take_bit n u"
  by (rule bit_word_eqI) (auto simp: bit_fld bit_simps)

lemma fld_push_above: "p + n \<le> q \<Longrightarrow> fld n p (push_bit q u) = 0"
  by (rule bit_word_eqI) (auto simp: bit_fld bit_simps)

lemma fld_push_below: "take_bit m u = u \<Longrightarrow> q + m \<le> p \<Longrightarrow> fld n p (push_bit q u) = 0"
proof (rule bit_word_eqI)
  fix k assume "take_bit m u = u" and "q + m \<le> p"
  then have "\<not> bit u (p + k - q)"
    by (metis add_diff_inverse_nat add_leD1 bit_take_bit_iff diff_diff_add diff_is_0_eq
        le_add1 le_add_diff_inverse2 nat_add_left_cancel_less not_le trans_less_add1)
  then show "bit (fld n p (push_bit q u)) k = bit 0 k"
    by (simp add: bit_fld bit_simps)
qed

text \<open>An instruction is determined by its four fields.\<close>

lemma instruction_eqI:
  assumes "fld 6 0 i = fld 6 0 j" and "fld 8 6 i = fld 8 6 j"
    and "fld 9 14 i = fld 9 14 j" and "fld 9 23 i = fld 9 23 j"
  shows "i = j"
proof (rule bit_word_eqI)
  fix k assume "k < LENGTH(32)"
  then consider "k < 6" | "6 \<le> k" "k < 14" | "14 \<le> k" "k < 23" | "23 \<le> k" "k < 32"
    by force
  then show "bit i k = bit j k"
  proof cases
    case 1
    with assms(1) show ?thesis by (metis add_0 bit_fld)
  next
    case 2
    then have "k - 6 < 8" and "6 + (k - 6) = k" by simp_all
    with assms(2) show ?thesis by (metis bit_fld)
  next
    case 3
    then have "k - 14 < 9" and "14 + (k - 14) = k" by simp_all
    with assms(3) show ?thesis by (metis bit_fld)
  next
    case 4
    then have "k - 23 < 9" and "23 + (k - 23) = k" by simp_all
    with assms(4) show ?thesis by (metis bit_fld)
  qed
qed

text \<open>The macros in terms of \<open>fld\<close> and \<open>setfld\<close>.\<close>

lemma macro_get:
  "GET_OPCODE i = unat (fld 6 0 i)" "GETARG_A i = c_int (fld 8 6 i)"
  "GETARG_B i = c_int (fld 9 23 i)" "GETARG_C i = c_int (fld 9 14 i)"
  "GETARG_Bx i = c_int (fld 18 14 i)"
  by (simp_all add: GET_OPCODE_def GETARG_A_def GETARG_B_def GETARG_C_def GETARG_Bx_def
      fld_def field_layout)

lemma macro_set:
  "SET_OPCODE i op = setfld 6 0 i (of_nat op)" "SETARG_A i u = setfld 8 6 i (c_uint u)"
  "SETARG_B i u = setfld 9 23 i (c_uint u)" "SETARG_C i u = setfld 9 14 i (c_uint u)"
  "SETARG_Bx i u = setfld 18 14 i (c_uint u)"
  by (simp_all add: SET_OPCODE_def SETARG_A_def SETARG_B_def SETARG_C_def SETARG_Bx_def
      setfld_def field_layout)

lemma c_int_take_bit: "n < 32 \<Longrightarrow> c_int (take_bit n (c_uint u)) = take_bit n u"
proof -
  assume n: "n < 32"
  have "take_bit n u < 2 ^ n" by simp
  also have "(2::int) ^ n \<le> 2 ^ 31" using n by (intro power_increasing) auto
  finally have "take_bit n u < 2147483648" by simp
  moreover have "- 2147483648 \<le> take_bit n u" by (rule order_trans [of _ 0]) simp_all
  ultimately have "c_int (c_uint (take_bit n u)) = take_bit n u"
    by (intro c_int_c_uint)
  moreover have "take_bit n (c_uint u) = c_uint (take_bit n u)"
    by (rule bit_word_eqI) (simp add: c_uint_def bit_simps)
  ultimately show ?thesis by simp
qed

lemma c_uint_take_bit: "0 \<le> u \<Longrightarrow> u < 2 ^ n \<Longrightarrow> take_bit n (c_uint u) = c_uint u"
  by (rule bit_word_eqI)
    (metis bit_take_bit_iff bit_word_of_int_iff c_uint_def take_bit_int_eq_self)

lemma GETARG_range:
  "0 \<le> GETARG_A i" "GETARG_A i < 256" "0 \<le> GETARG_B i" "GETARG_B i < 512"
  "0 \<le> GETARG_C i" "GETARG_C i < 512" "0 \<le> GETARG_Bx i" "GETARG_Bx i < 262144"
  "GET_OPCODE i < 64"
proof -
  have *: "0 \<le> c_int (fld n p i) \<and> c_int (fld n p i) < 2 ^ n" if "n < 32" for n p
  proof -
    have "fld n p i = take_bit n (c_uint (uint (fld n p i)))"
      by (rule bit_word_eqI) (auto simp: bit_fld c_uint_def bit_simps)
    with that have "c_int (fld n p i) = take_bit n (uint (fld n p i))"
      using c_int_take_bit by metis
    then show ?thesis by simp
  qed
  have "fld 6 0 i = take_bit 6 (fld 6 0 i)"
    by (rule bit_word_eqI) (auto simp: bit_fld bit_simps)
  then have "unat (fld 6 0 i) = take_bit 6 (unat (fld 6 0 i))"
    by (metis unsigned_take_bit_eq)
  then have "unat (fld 6 0 i) < 2 ^ 6"
    by (metis take_bit_nat_less_exp)
  then show "GET_OPCODE i < 64" by (simp add: macro_get)
  show "0 \<le> GETARG_A i" "GETARG_A i < 256" "0 \<le> GETARG_B i" "GETARG_B i < 512"
    "0 \<le> GETARG_C i" "GETARG_C i < 512" "0 \<le> GETARG_Bx i" "GETARG_Bx i < 262144"
    using * [of 8 6] * [of 9 23] * [of 9 14] * [of 18 14] by (simp_all add: macro_get)
qed

text \<open>Reading a field after writing it, and after writing another one.\<close>

named_theorems fields "field accessors after field updates"

lemma GETARG_SETARG [fields]:
  "GETARG_A (SETARG_A i u) = take_bit 8 u" "GETARG_B (SETARG_B i u) = take_bit 9 u"
  "GETARG_C (SETARG_C i u) = take_bit 9 u" "GETARG_Bx (SETARG_Bx i u) = take_bit 18 u"
  by (simp_all add: macro_get macro_set fld_setfld_same c_int_take_bit)

lemma GETARG_SETARG_other [fields]:
  "GET_OPCODE (SETARG_A i u) = GET_OPCODE i" "GET_OPCODE (SETARG_B i u) = GET_OPCODE i"
  "GET_OPCODE (SETARG_C i u) = GET_OPCODE i" "GET_OPCODE (SETARG_Bx i u) = GET_OPCODE i"
  "GETARG_A (SETARG_B i u) = GETARG_A i" "GETARG_A (SETARG_C i u) = GETARG_A i"
  "GETARG_A (SETARG_Bx i u) = GETARG_A i" "GETARG_B (SETARG_A i u) = GETARG_B i"
  "GETARG_B (SETARG_C i u) = GETARG_B i" "GETARG_C (SETARG_A i u) = GETARG_C i"
  "GETARG_C (SETARG_B i u) = GETARG_C i" "GETARG_Bx (SETARG_A i u) = GETARG_Bx i"
  by (simp_all add: macro_get macro_set fld_setfld_other)

lemma GETARG_sBx_SETARG_sBx [fields]:
  "- MAXARG_sBx \<le> d \<Longrightarrow> d \<le> MAXARG_sBx + 1 \<Longrightarrow> GETARG_sBx (SETARG_sBx i d) = d"
  by (simp add: GETARG_sBx_def SETARG_sBx_def fields MAXARG_sBx_def MAXARG_Bx_def field_layout
      drop_bit_eq_div take_bit_int_eq_self)

lemma sBx_fields_other [fields]:
  "GET_OPCODE (SETARG_sBx i u) = GET_OPCODE i" "GETARG_A (SETARG_sBx i u) = GETARG_A i"
  "GETARG_sBx (SETARG_A i u) = GETARG_sBx i"
  by (simp_all add: SETARG_sBx_def GETARG_sBx_def fields)

lemma GETARG_sBx_range: "- MAXARG_sBx \<le> GETARG_sBx i" "GETARG_sBx i \<le> MAXARG_sBx + 1"
  using GETARG_range [of i]
  by (simp_all add: GETARG_sBx_def MAXARG_sBx_def MAXARG_Bx_def field_layout drop_bit_eq_div)

text \<open>Decoding what \<open>CREATE_ABC\<close> and \<open>CREATE_ABx\<close> encode.\<close>

lemma take_bit_op: "op < 64 \<Longrightarrow> take_bit 6 (of_nat op :: Instruction) = of_nat op"
  by (simp add: take_bit_of_nat take_bit_nat_eq_self)

lemma unat_of_op: "op < 64 \<Longrightarrow> unat (of_nat op :: Instruction) = op"
  by (simp add: unat_of_nat)

lemma opcode_bound: "opcode op < NUM_OPCODES" "opcode op < 64"
  by (cases op; simp add: NUM_OPCODES_def)+

text \<open>The opcodes in the order of the enumeration; the inverse of \<open>opcode\<close>.\<close>

definition all_opcodes :: "OpCode list" where
  "all_opcodes =
    [OP_MOVE, OP_LOADK, OP_LOADBOOL, OP_LOADNIL, OP_GETUPVAL, OP_GETGLOBAL, OP_GETTABLE,
     OP_SETGLOBAL, OP_SETUPVAL, OP_SETTABLE, OP_NEWTABLE, OP_SELF, OP_ADD, OP_SUB,
     OP_MUL, OP_DIV, OP_MOD, OP_POW, OP_UNM, OP_NOT, OP_LEN,
     OP_CONCAT, OP_JMP, OP_EQ, OP_LT, OP_LE, OP_TEST, OP_TESTSET,
     OP_CALL, OP_TAILCALL, OP_RETURN, OP_FORLOOP, OP_FORPREP, OP_TFORLOOP, OP_SETLIST,
     OP_CLOSE, OP_CLOSURE, OP_VARARG, OP_BAND, OP_BOR, OP_BXOR, OP_BSHL,
     OP_BSHR]"

lemma map_opcode_all: "map opcode all_opcodes = [0..<NUM_OPCODES]"
  by code_simp

lemma opcode_nth: "n < NUM_OPCODES \<Longrightarrow> opcode (all_opcodes ! n) = n"
  by (metis add_0 diff_zero length_map length_upt map_opcode_all nth_map nth_upt)

lemma opcode_surj: "n < NUM_OPCODES \<Longrightarrow> \<exists>op. n = opcode op"
  by (metis opcode_nth)

lemma opcode_inject [simp]: "opcode x = opcode y \<longleftrightarrow> x = y"
proof -
  have "z \<in> set all_opcodes" for z by (cases z) (simp_all add: all_opcodes_def)
  moreover have "distinct (map opcode all_opcodes)" by (simp add: map_opcode_all)
  ultimately show ?thesis by (metis distinct_map inj_on_contraD)
qed

definition abc_range :: "int \<Rightarrow> int \<Rightarrow> int \<Rightarrow> bool" where
  "abc_range a b c \<longleftrightarrow> 0 \<le> a \<and> a < 256 \<and> 0 \<le> b \<and> b < 512 \<and> 0 \<le> c \<and> c < 512"

definition abx_range :: "int \<Rightarrow> int \<Rightarrow> bool" where
  "abx_range a bx \<longleftrightarrow> 0 \<le> a \<and> a < 256 \<and> 0 \<le> bx \<and> bx < 262144"

lemma fld_CREATE_ABC:
  assumes "op < 64" and "abc_range a b c"
  shows "fld 6 0 (CREATE_ABC op a b c) = of_nat op" "fld 8 6 (CREATE_ABC op a b c) = c_uint a"
    "fld 9 23 (CREATE_ABC op a b c) = c_uint b" "fld 9 14 (CREATE_ABC op a b c) = c_uint c"
proof -
  from assms have t: "take_bit 6 (of_nat op :: Instruction) = of_nat op"
    "take_bit 8 (c_uint a) = c_uint a" "take_bit 9 (c_uint b) = c_uint b"
    "take_bit 9 (c_uint c) = c_uint c"
    by (auto simp: abc_range_def take_bit_op intro!: c_uint_take_bit)
  note z = fld_push_above fld_push_below [OF t(1)] fld_push_below [OF t(2)]
    fld_push_below [OF t(3)] fld_push_below [OF t(4)] fld_push_same t
  note d = CREATE_ABC_def field_layout fld_or
  show "fld 6 0 (CREATE_ABC op a b c) = of_nat op"
    unfolding d using fld_push_same [of 6 0 "of_nat op"] by (simp add: z)
  show "fld 8 6 (CREATE_ABC op a b c) = c_uint a"
    unfolding d using fld_push_below [OF t(1), of 0 6 8] by (simp add: z)
  show "fld 9 23 (CREATE_ABC op a b c) = c_uint b"
    unfolding d using fld_push_below [OF t(1), of 0 23 9] by (simp add: z)
  show "fld 9 14 (CREATE_ABC op a b c) = c_uint c"
    unfolding d using fld_push_below [OF t(1), of 0 14 9] by (simp add: z)
qed

lemma fld_CREATE_ABx:
  assumes "op < 64" and "abx_range a bx"
  shows "fld 6 0 (CREATE_ABx op a bx) = of_nat op" "fld 8 6 (CREATE_ABx op a bx) = c_uint a"
    "fld 18 14 (CREATE_ABx op a bx) = c_uint bx"
proof -
  from assms have t: "take_bit 6 (of_nat op :: Instruction) = of_nat op"
    "take_bit 8 (c_uint a) = c_uint a" "take_bit 18 (c_uint bx) = c_uint bx"
    by (auto simp: abx_range_def take_bit_op intro!: c_uint_take_bit)
  note z = fld_push_above fld_push_below [OF t(2)] fld_push_below [OF t(3)] fld_push_same t
  note d = CREATE_ABx_def field_layout fld_or
  show "fld 6 0 (CREATE_ABx op a bx) = of_nat op"
    unfolding d using fld_push_same [of 6 0 "of_nat op"] by (simp add: z)
  show "fld 8 6 (CREATE_ABx op a bx) = c_uint a"
    unfolding d using fld_push_below [OF t(1), of 0 6 8] by (simp add: z)
  show "fld 18 14 (CREATE_ABx op a bx) = c_uint bx"
    unfolding d using fld_push_below [OF t(1), of 0 14 18] by (simp add: z)
qed

lemma CREATE_ABC_fields:
  assumes "op < 64" and "abc_range a b c"
  shows "GET_OPCODE (CREATE_ABC op a b c) = op" "GETARG_A (CREATE_ABC op a b c) = a"
    "GETARG_B (CREATE_ABC op a b c) = b" "GETARG_C (CREATE_ABC op a b c) = c"
  using assms by (auto simp: macro_get fld_CREATE_ABC [OF assms] abc_range_def unat_of_op)

lemma CREATE_ABx_fields:
  assumes "op < 64" and "abx_range a bx"
  shows "GET_OPCODE (CREATE_ABx op a bx) = op" "GETARG_A (CREATE_ABx op a bx) = a"
    "GETARG_Bx (CREATE_ABx op a bx) = bx"
  using assms by (auto simp: macro_get fld_CREATE_ABx [OF assms] abx_range_def unat_of_op)

text \<open>
  The accessors undo the packing of \<open>opmode\<close>: what the table says of every opcode.
\<close>

lemmas opmode_unpack = opmode_def mode_of_num_def mask_of_num_def

lemma length_opmodes: "length luaP_opmodes = NUM_OPCODES"
  by (simp add: luaP_opmodes_def NUM_OPCODES_def)

lemma getOpMode_opcode:
  "getOpMode (opcode op) =
     (if op \<in> {OP_LOADK, OP_GETGLOBAL, OP_SETGLOBAL, OP_CLOSURE} then iABx
      else if op \<in> {OP_JMP, OP_FORLOOP, OP_FORPREP} then iAsBx else iABC)"
  by (cases op) (simp_all add: getOpMode_def luaP_opmodes_def opmode_unpack)

lemma getBMode_opcode:
  "getBMode (opcode op) =
     (if op \<in> {OP_TFORLOOP, OP_CLOSE} then OpArgN
      else if op \<in> {OP_LOADBOOL, OP_GETUPVAL, OP_SETUPVAL, OP_NEWTABLE, OP_CALL, OP_TAILCALL, 
        OP_RETURN, OP_SETLIST, OP_CLOSURE, OP_VARARG} then OpArgU
      else if op \<in> {OP_MOVE, OP_LOADNIL, OP_GETTABLE, OP_SELF, OP_UNM, OP_NOT, OP_LEN, OP_CONCAT, 
        OP_JMP, OP_TEST, OP_TESTSET, OP_FORLOOP, OP_FORPREP} then OpArgR else OpArgK)"
  by (cases op) (simp_all add: getBMode_def luaP_opmodes_def opmode_unpack)

lemma getCMode_opcode:
  "getCMode (opcode op) =
     (if op \<in> {OP_LOADBOOL, OP_NEWTABLE, OP_TEST, OP_TESTSET, OP_CALL, OP_TAILCALL, 
        OP_TFORLOOP, OP_SETLIST} then OpArgU
      else if op \<in> {OP_CONCAT} then OpArgR
      else if op \<in> {OP_GETTABLE, OP_SETTABLE, OP_SELF, OP_ADD, OP_SUB, OP_MUL, OP_DIV, OP_MOD, 
        OP_POW, OP_EQ, OP_LT, OP_LE, OP_BAND, OP_BOR, OP_BXOR, OP_BSHL, OP_BSHR} then OpArgK else OpArgN)"
  by (cases op) (simp_all add: getCMode_def luaP_opmodes_def opmode_unpack)

lemma testAMode_opcode:
  "testAMode (opcode op) \<longleftrightarrow>
     op \<notin> {OP_SETGLOBAL, OP_SETUPVAL, OP_SETTABLE, OP_JMP, OP_EQ, OP_LT, OP_LE, 
        OP_RETURN, OP_TFORLOOP, OP_SETLIST, OP_CLOSE}"
  by (cases op) (simp_all add: testAMode_def luaP_opmodes_def opmode_unpack)

lemma testTMode_opcode:
  "testTMode (opcode op) \<longleftrightarrow> op \<in> {OP_EQ, OP_LT, OP_LE, OP_TEST, OP_TESTSET, OP_TFORLOOP}"
  by (cases op) (simp_all add: testTMode_def luaP_opmodes_def opmode_unpack)

lemmas opmodes = getOpMode_opcode getBMode_opcode getCMode_opcode testAMode_opcode testTMode_opcode

lemma opcode_lt: "opcode op < NUM_OPCODES" "opcode op < 64"
  by (cases op; simp add: NUM_OPCODES_def)+

lemma ISK_mask: "ISK r \<longleftrightarrow> r AND 256 \<noteq> 0" and INDEXK_mask: "INDEXK r = r AND - 257"
  by (simp_all add: ISK_def INDEXK_def BITRK_def SIZE_B_def)

text \<open>Facts that evaluate the fields of concrete instructions without unfolding their bits.\<close>

lemmas encoded = CREATE_ABC_fields CREATE_ABx_fields opcode_lt abc_range_def abx_range_def
  GETARG_sBx_def MAXARG_sBx_def MAXARG_Bx_def SIZE_Bx_def SIZE_B_def SIZE_C_def
  NO_REG_def MAXARG_A_def SIZE_A_def ISK_mask INDEXK_mask

text \<open>From here on opcodes are compared by name.\<close>

declare opcode.simps [simp del]

end
