(* ===== verification/LuaNumber.thy ===== *)
theory LuaNumber
  imports Prelude
begin

text \<open>
  \<open>lua_Number\<close> is \<open>double\<close> (\<open>luaconf.h\<close>). A double is its 64 bits; the operators the code
  applies to doubles (\<open>+ - * / < ==\<close>, conversions, \<open>floor\<close>, \<open>strtod\<close>) are the IEEE 754
  binary64 operations with rounding to nearest even, written out on exact integers: a finite
  double is \<open>m * 2 ^ e\<close>, an operation computes the exact result as a fraction and
  \<open>double_of_ratio\<close> rounds it once.
\<close>

type_synonym lua_Number = "64 word"

section \<open>Representation\<close>

definition dsign :: "lua_Number \<Rightarrow> bool" where
  "dsign x \<longleftrightarrow> 2 ^ 63 \<le> uint x"

definition dmag :: "lua_Number \<Rightarrow> int" where
  "dmag x = uint x mod 2 ^ 63"

definition dexp :: "lua_Number \<Rightarrow> int" where
  "dexp x = dmag x div 2 ^ 52"

definition dfrac :: "lua_Number \<Rightarrow> int" where
  "dfrac x = dmag x mod 2 ^ 52"

definition inf_mag :: int where
  "inf_mag = 2047 * 2 ^ 52"

definition is_nan :: "lua_Number \<Rightarrow> bool" where
  "is_nan x \<longleftrightarrow> inf_mag < dmag x"

definition is_inf :: "lua_Number \<Rightarrow> bool" where
  "is_inf x \<longleftrightarrow> dmag x = inf_mag"

definition make_double :: "bool \<Rightarrow> int \<Rightarrow> lua_Number" where
  "make_double s mag = word_of_int ((if s then 2 ^ 63 else 0) + mag)"

definition quiet_nan :: lua_Number where
  "quiet_nan = make_double False (inf_mag + 2 ^ 51)"

text \<open>A finite double as the exact number \<open>mant x * 2 ^ expo x\<close>.\<close>

definition expo :: "lua_Number \<Rightarrow> int" where
  "expo x = (if dexp x = 0 then -1074 else dexp x - 1075)"

definition mant :: "lua_Number \<Rightarrow> int" where
  "mant x = (if dsign x then -1 else 1)
     * (if dexp x = 0 then dfrac x else dfrac x + 2 ^ 52)"

section \<open>Rounding\<close>

function flog2 :: "int \<Rightarrow> int" where
  "flog2 n = (if n < 2 then 0 else 1 + flog2 (n div 2))"
  by pat_completeness auto
termination
  by (relation "measure nat") auto

declare flog2.simps [simp del]

text \<open>The exponent of the last place of the double nearest to \<open>n / d\<close>.\<close>

definition ulp_expo :: "int \<Rightarrow> int \<Rightarrow> int" where
  "ulp_expo n d =
     (let e0 = flog2 n - flog2 d;
          e = (if n * 2 ^ nat (- e0) < d * 2 ^ nat e0 then e0 - 1 else e0)
      in max (e - 52) (-1074))"

definition round_even :: "int \<Rightarrow> int \<Rightarrow> int" where
  "round_even n d =
     (let m = n div d; r = n mod d
      in if d < 2 * r \<or> (2 * r = d \<and> odd m) then m + 1 else m)"

definition double_of_ratio :: "bool \<Rightarrow> int \<Rightarrow> int \<Rightarrow> lua_Number" where
  "double_of_ratio s n d =
     (if n = 0 then make_double s 0
      else
        let q = ulp_expo n d;
            m = round_even (n * 2 ^ nat (- q)) (d * 2 ^ nat q)
        in make_double s (min ((q + 1074) * 2 ^ 52 + m) inf_mag))"

text \<open>The exact value \<open>m * 2 ^ e\<close>, rounded; \<open>z\<close> is the sign a zero result gets.\<close>

definition double_of_dyadic :: "bool \<Rightarrow> int \<Rightarrow> int \<Rightarrow> lua_Number" where
  "double_of_dyadic z m e =
     (if m = 0 then make_double z 0
      else double_of_ratio (m < 0) (\<bar>m\<bar> * 2 ^ nat e) (2 ^ nat (- e)))"

section \<open>The operations of \<open>luaconf.h\<close>\<close>

definition cast_num :: "int \<Rightarrow> lua_Number" where
  "cast_num k = double_of_dyadic False k 0"

text \<open>Comparison is on sign and magnitude: both zeros have key 0.\<close>

definition numkey :: "lua_Number \<Rightarrow> int" where
  "numkey x = (if dsign x then - dmag x else dmag x)"

definition luai_numeq :: "lua_Number \<Rightarrow> lua_Number \<Rightarrow> bool" where
  "luai_numeq a b \<longleftrightarrow> \<not> is_nan a \<and> \<not> is_nan b \<and> numkey a = numkey b"

definition luai_numlt :: "lua_Number \<Rightarrow> lua_Number \<Rightarrow> bool" where
  "luai_numlt a b \<longleftrightarrow> \<not> is_nan a \<and> \<not> is_nan b \<and> numkey a < numkey b"

definition luai_numle :: "lua_Number \<Rightarrow> lua_Number \<Rightarrow> bool" where
  "luai_numle a b \<longleftrightarrow> \<not> is_nan a \<and> \<not> is_nan b \<and> numkey a \<le> numkey b"

definition luai_numisnan :: "lua_Number \<Rightarrow> bool" where
  "luai_numisnan a \<longleftrightarrow> \<not> luai_numeq a a"

definition luai_numunm :: "lua_Number \<Rightarrow> lua_Number" where
  "luai_numunm a = a XOR push_bit 63 1"

definition luai_numadd :: "lua_Number \<Rightarrow> lua_Number \<Rightarrow> lua_Number" where
  "luai_numadd a b =
     (if is_nan a \<or> is_nan b then quiet_nan
      else if is_inf a then (if is_inf b \<and> dsign a \<noteq> dsign b then quiet_nan else a)
      else if is_inf b then b
      else
        let e = min (expo a) (expo b)
        in double_of_dyadic (dsign a \<and> dsign b \<and> mant a = 0 \<and> mant b = 0)
             (mant a * 2 ^ nat (expo a - e) + mant b * 2 ^ nat (expo b - e)) e)"

definition luai_numsub :: "lua_Number \<Rightarrow> lua_Number \<Rightarrow> lua_Number" where
  "luai_numsub a b = luai_numadd a (luai_numunm b)"

definition luai_nummul :: "lua_Number \<Rightarrow> lua_Number \<Rightarrow> lua_Number" where
  "luai_nummul a b =
     (let s = (dsign a \<noteq> dsign b)
      in if is_nan a \<or> is_nan b then quiet_nan
         else if is_inf a \<or> is_inf b
           then (if numkey a = 0 \<or> numkey b = 0 then quiet_nan else make_double s inf_mag)
         else double_of_dyadic s (mant a * mant b) (expo a + expo b))"

definition luai_numdiv :: "lua_Number \<Rightarrow> lua_Number \<Rightarrow> lua_Number" where
  "luai_numdiv a b =
     (let s = (dsign a \<noteq> dsign b)
      in if is_nan a \<or> is_nan b then quiet_nan
         else if is_inf a then (if is_inf b then quiet_nan else make_double s inf_mag)
         else if is_inf b then make_double s 0
         else if numkey b = 0
           then (if numkey a = 0 then quiet_nan else make_double s inf_mag)
         else let e = expo a - expo b
           in double_of_ratio s (\<bar>mant a\<bar> * 2 ^ nat e) (\<bar>mant b\<bar> * 2 ^ nat (- e)))"

text \<open>The integer part of a finite double, rounded towards minus infinity or towards zero.\<close>

definition floor_int :: "lua_Number \<Rightarrow> int" where
  "floor_int x = mant x * 2 ^ nat (expo x) div 2 ^ nat (- expo x)"

definition trunc_int :: "lua_Number \<Rightarrow> int" where
  "trunc_int x = sgn (mant x) * (\<bar>mant x\<bar> * 2 ^ nat (expo x) div 2 ^ nat (- expo x))"

definition c_floor :: "lua_Number \<Rightarrow> lua_Number" where
  "c_floor x =
     (if is_nan x then quiet_nan else if is_inf x then x
      else double_of_dyadic (dsign x) (floor_int x) 0)"

definition luai_nummod :: "lua_Number \<Rightarrow> lua_Number \<Rightarrow> lua_Number" where
  "luai_nummod a b = luai_numsub a (luai_nummul (c_floor (luai_numdiv a b)) b)"

text \<open>
  \<open>lua_number2int\<close> is the C conversion \<open>(int)d\<close>. Outside the range of \<open>int\<close> the C result is
  undefined; the target's conversion instruction delivers the \<^emph>\<open>integer indefinite\<close> value
  \<open>INT_MIN\<close>, which the model returns.
\<close>

definition lua_number2int :: "lua_Number \<Rightarrow> int" where
  "lua_number2int x =
     (if is_nan x \<or> is_inf x then - 2147483648
      else let t = trunc_int x
        in if - 2147483648 \<le> t \<and> t \<le> 2147483647 then t else - 2147483648)"

text \<open>\<open>(unsigned int)d\<close>: defined for \<open>0 .. UINT_MAX\<close>; the target keeps the low 32 bits.\<close>

definition number2uint :: "lua_Number \<Rightarrow> u32" where
  "number2uint x = (if is_nan x \<or> is_inf x then 0 else word_of_int (trunc_int x))"

section \<open>\<open>strtod\<close> and \<open>strtoul\<close>\<close>

definition c_isspace :: "byte \<Rightarrow> bool" where
  "c_isspace b \<longleftrightarrow> b = 32 \<or> (9 \<le> b \<and> b \<le> 13)"

definition c_isdigit :: "byte \<Rightarrow> bool" where
  "c_isdigit b \<longleftrightarrow> 48 \<le> b \<and> b \<le> 57"

definition c_isxdigit :: "byte \<Rightarrow> bool" where
  "c_isxdigit b \<longleftrightarrow> c_isdigit b \<or> (65 \<le> b \<and> b \<le> 70) \<or> (97 \<le> b \<and> b \<le> 102)"

definition xdigit_val :: "byte \<Rightarrow> int" where
  "xdigit_val b =
     (if c_isdigit b then uint b - 48 else if b \<le> 70 then uint b - 55 else uint b - 87)"

definition digits_val :: "int \<Rightarrow> byte list \<Rightarrow> int" where
  "digits_val base ds = foldl (\<lambda>n b. n * base + xdigit_val b) 0 ds"

text \<open>An optional sign: whether it is a minus, and the rest.\<close>

definition take_sign :: "byte list \<Rightarrow> bool \<times> byte list" where
  "take_sign s =
     (case s of [] \<Rightarrow> (False, s)
      | c # r \<Rightarrow> if c = 45 then (True, r) else if c = 43 then (False, r) else (False, s))"

text \<open>An exponent part: its value and the rest, or 0 and everything where there is none.\<close>

definition take_exponent :: "byte list \<Rightarrow> int \<times> byte list" where
  "take_exponent s =
     (case s of [] \<Rightarrow> (0, s)
      | c # r \<Rightarrow>
          (let (neg, r') = take_sign r; ds = takeWhile c_isdigit r'
           in if (c = 101 \<or> c = 69) \<and> ds \<noteq> []
              then ((if neg then - 1 else 1) * digits_val 10 ds, dropWhile c_isdigit r')
              else (0, s)))"

text \<open>
  \<open>strtod\<close> on a C string, with the locale's decimal point: the value and what is left at
  \<open>endptr\<close>; everything is left when no number starts the string.
\<close>

definition strtod :: "byte \<Rightarrow> byte list \<Rightarrow> lua_Number \<times> byte list" where
  "strtod point s =
     (let (neg, s1) = take_sign (dropWhile c_isspace s);
          ip = takeWhile c_isdigit s1;
          s2 = dropWhile c_isdigit s1;
          dot = (s2 \<noteq> [] \<and> hd s2 = point);
          fp = (if dot then takeWhile c_isdigit (tl s2) else []);
          s3 = (if dot then dropWhile c_isdigit (tl s2) else s2)
      in if ip = [] \<and> fp = [] then (0, s)
         else
           let (ex, s4) = take_exponent s3;
               x = ex - int (length fp)
           in (double_of_ratio neg (digits_val 10 (ip @ fp) * 10 ^ nat x) (10 ^ nat (- x)), s4))"

text \<open>\<open>strtoul(s, &endptr, 16)\<close>: saturates at \<open>ULONG_MAX\<close>, negates modulo \<open>2 ^ 32\<close>.\<close>

definition strtoul16 :: "byte list \<Rightarrow> u32 \<times> byte list" where
  "strtoul16 s =
     (let (neg, s1) = take_sign (dropWhile c_isspace s);
          s2 = (case s1 of a # b # c # r \<Rightarrow>
                   if a = 48 \<and> (b = 120 \<or> b = 88) \<and> c_isxdigit c then c # r else s1
                 | _ \<Rightarrow> s1);
          ds = takeWhile c_isxdigit s2;
          v = digits_val 16 ds
      in if ds = [] then (0, s)
         else if 4294967295 < v then (4294967295, dropWhile c_isxdigit s2)
         else (if neg then - word_of_int v else word_of_int v, dropWhile c_isxdigit s2))"

section \<open>Facts\<close>

lemma dmag_bounds: "0 \<le> dmag x" "dmag x < 2 ^ 63"
  by (simp_all add: dmag_def)

lemma double_eqI: "dsign x = dsign y \<Longrightarrow> dmag x = dmag y \<Longrightarrow> x = y"
proof -
  have u: "uint z = (if dsign z then 2 ^ 63 else 0) + dmag z" for z :: lua_Number
  proof -
    have b: "0 \<le> uint z" "uint z < 2 ^ 64" using uint_bounded [of z] by simp_all
    have "uint z mod 2 ^ 63 = (if 2 ^ 63 \<le> uint z then uint z - 2 ^ 63 else uint z)"
      using b minus_mod_self2 [of "uint z" "2 ^ 63"]
        mod_pos_pos_trivial [of "uint z - 2 ^ 63" "2 ^ 63"] by auto
    then show ?thesis by (simp add: dsign_def dmag_def)
  qed
  assume "dsign x = dsign y" and "dmag x = dmag y"
  then have "uint x = uint y" by (simp only: u)
  then show ?thesis by (rule word_uint_eqI)
qed

lemma make_double_parts:
  assumes "0 \<le> mag" and "mag < 2 ^ 63"
  shows "dsign (make_double s mag) = s" "dmag (make_double s mag) = mag"
proof -
  have "uint (make_double s mag) = (if s then 2 ^ 63 else 0) + mag"
    unfolding make_double_def uint_word_of_int
    using assms by (intro mod_pos_pos_trivial) auto
  with assms show "dsign (make_double s mag) = s" "dmag (make_double s mag) = mag"
    by (simp_all add: dsign_def dmag_def)
qed

text \<open>Equality of numbers: the bits agree, or both are a zero.\<close>

lemma luai_numeq_cases: "luai_numeq a b \<Longrightarrow> a = b \<or> (dmag a = 0 \<and> dmag b = 0)"
  using dmag_bounds [of a] dmag_bounds [of b]
  by (auto simp: luai_numeq_def numkey_def intro: double_eqI split: if_splits)

lemma luai_numeq_refl: "luai_numeq a a \<longleftrightarrow> \<not> is_nan a"
  by (simp add: luai_numeq_def)

lemma luai_numeq_sym: "luai_numeq a b \<Longrightarrow> luai_numeq b a"
  by (simp add: luai_numeq_def)

lemma luai_numeq_trans: "luai_numeq a b \<Longrightarrow> luai_numeq b c \<Longrightarrow> luai_numeq a c"
  by (simp add: luai_numeq_def)

lemma zero_parts: "dmag a = 0 \<Longrightarrow> expo a = -1074 \<and> mant a = 0 \<and> \<not> is_nan a \<and> \<not> is_inf a"
  by (simp add: expo_def mant_def dexp_def dfrac_def is_nan_def is_inf_def inf_mag_def)

text \<open>Adding 1 does not tell the two zeros apart; this is what \<open>hashnum\<close> relies on.\<close>

lemma numadd_cong:
  assumes "luai_numeq a b" and "dmag c \<noteq> 0"
  shows "luai_numadd a c = luai_numadd b c"
proof (cases "a = b")
  case False
  with assms(1) have z: "dmag a = 0" "dmag b = 0"
    by (auto dest: luai_numeq_cases)
  have "mant c \<noteq> 0"
    using assms(2) dmag_bounds [of c] by (auto simp: mant_def dexp_def dfrac_def)
  then show ?thesis
    by (simp add: luai_numadd_def zero_parts [OF z(1)] zero_parts [OF z(2)])
qed simp

text \<open>Integers of at most 53 bits are represented exactly.\<close>

lemma flog2_nonneg: "0 \<le> flog2 n"
  by (induction n rule: flog2.induct) (subst flog2.simps, simp)

lemma flog2_bounds: "1 \<le> n \<Longrightarrow> 2 ^ nat (flog2 n) \<le> n \<and> n < 2 * 2 ^ nat (flog2 n)"
proof (induction n rule: flog2.induct)
  case (1 n)
  show ?case
  proof (cases "n < 2")
    case True
    with 1 show ?thesis by (subst (1 2) flog2.simps) simp
  next
    case False
    with 1 have "2 ^ nat (flog2 (n div 2)) \<le> n div 2 \<and> n div 2 < 2 * 2 ^ nat (flog2 (n div 2))"
      by simp
    moreover have "nat (flog2 n) = Suc (nat (flog2 (n div 2)))"
      using False flog2_nonneg [of "n div 2"] by (subst flog2.simps) simp
    then have "(2::int) ^ nat (flog2 n) = 2 * 2 ^ nat (flog2 (n div 2))" by simp
    moreover have "n = 2 * (n div 2) + n mod 2" and "0 \<le> n mod 2" and "n mod 2 < 2" by simp_all
    ultimately show ?thesis by (intro conjI; linarith)
  qed
qed

lemma flog2_less:
  assumes "1 \<le> n" and "n < 2 ^ b"
  shows "flog2 n < int b"
proof -
  from assms flog2_bounds [of n] have "(2::int) ^ nat (flog2 n) < 2 ^ b" by linarith
  then have "nat (flog2 n) < b" by (rule power_less_imp_less_exp [rotated]) simp
  then show ?thesis using flog2_nonneg [of n] by linarith
qed

lemma round_even_1 [simp]: "round_even n 1 = n"
  by (simp add: round_even_def)

lemma flog2_1 [simp]: "flog2 1 = 0"
  by (subst flog2.simps) simp

definition int_mag :: "int \<Rightarrow> int" where
  "int_mag k = (if k = 0 then 0 else (flog2 \<bar>k\<bar> + 1022) * 2 ^ 52 + \<bar>k\<bar> * 2 ^ nat (52 - flog2 \<bar>k\<bar>))"

lemma int_mag_scaled:
  assumes "k \<noteq> 0" and "\<bar>k\<bar> < 2 ^ 53"
  shows "2 ^ 52 \<le> \<bar>k\<bar> * 2 ^ nat (52 - flog2 \<bar>k\<bar>)" "\<bar>k\<bar> * 2 ^ nat (52 - flog2 \<bar>k\<bar>) < 2 ^ 53"
    "0 \<le> flog2 \<bar>k\<bar>" "flog2 \<bar>k\<bar> \<le> 52"
proof -
  let ?f = "flog2 \<bar>k\<bar>"
  have k: "1 \<le> \<bar>k\<bar>" using assms(1) by linarith
  show f: "0 \<le> ?f" "?f \<le> 52"
    using flog2_less [OF k assms(2)] flog2_nonneg by auto
  have e: "(2::int) ^ 52 = 2 ^ nat ?f * 2 ^ nat (52 - ?f)"
    using f by (simp add: power_add [symmetric] nat_diff_distrib)
  have b: "2 ^ nat ?f \<le> \<bar>k\<bar>" "\<bar>k\<bar> < 2 * 2 ^ nat ?f"
    using flog2_bounds [OF k] by auto
  show "2 ^ 52 \<le> \<bar>k\<bar> * 2 ^ nat (52 - ?f)"
    unfolding e using b(1) by (intro mult_right_mono) auto
  have "\<bar>k\<bar> * 2 ^ nat (52 - ?f) < 2 * 2 ^ nat ?f * 2 ^ nat (52 - ?f)"
    using b(2) by (intro mult_strict_right_mono) auto
  also have "\<dots> = 2 * 2 ^ 52" unfolding e by simp
  finally show "\<bar>k\<bar> * 2 ^ nat (52 - ?f) < 2 ^ 53" by simp
qed

lemma int_mag_bounds:
  assumes "\<bar>k\<bar> < 2 ^ 53"
  shows "0 \<le> int_mag k" "int_mag k < inf_mag" "inf_mag < 2 ^ 63"
  using assms int_mag_scaled [of k] by (auto simp: int_mag_def inf_mag_def)

lemma cast_num_eq:
  assumes "\<bar>k\<bar> < 2 ^ 53"
  shows "cast_num k = make_double (k < 0) (int_mag k)"
proof (cases "k = 0")
  case False
  note b = int_mag_scaled [OF False assms]
  have q: "ulp_expo \<bar>k\<bar> 1 = flog2 \<bar>k\<bar> - 52"
  proof -
    have "1 \<le> \<bar>k\<bar>" using False by linarith
    then have "\<not> \<bar>k\<bar> < 2 ^ nat (flog2 \<bar>k\<bar>)" using flog2_bounds by fastforce
    with b show ?thesis by (simp add: ulp_expo_def Let_def)
  qed
  have "int_mag k \<le> inf_mag" using int_mag_bounds [OF assms] by simp
  then show ?thesis
    using False b by (simp add: cast_num_def double_of_dyadic_def double_of_ratio_def q
        int_mag_def Let_def min_absorb1 diff_add_eq add.commute add.left_commute)
qed (simp add: cast_num_def double_of_dyadic_def int_mag_def)

lemma cast_num_parts:
  assumes "\<bar>k\<bar> < 2 ^ 53"
  shows "dsign (cast_num k) = (k < 0)" "dmag (cast_num k) = int_mag k"
    "\<not> is_nan (cast_num k)" "\<not> is_inf (cast_num k)"
  using int_mag_bounds [OF assms]
  by (simp_all add: cast_num_eq [OF assms] make_double_parts is_nan_def is_inf_def)

lemma cast_num_mant:
  assumes "k \<noteq> 0" and "\<bar>k\<bar> < 2 ^ 53"
  shows "expo (cast_num k) = flog2 \<bar>k\<bar> - 52" "mant (cast_num k) = k * 2 ^ nat (52 - flog2 \<bar>k\<bar>)"
proof -
  let ?m = "\<bar>k\<bar> * 2 ^ nat (52 - flog2 \<bar>k\<bar>)"
  note b = int_mag_scaled [OF assms]
  have m: "int_mag k = (?m - 2 ^ 52) + (flog2 \<bar>k\<bar> + 1023) * 2 ^ 52"
    using assms(1) by (simp add: int_mag_def algebra_simps)
  have r: "0 \<le> ?m - 2 ^ 52" "?m - 2 ^ 52 < 2 ^ 52" using b by simp_all
  have e: "dexp (cast_num k) = flog2 \<bar>k\<bar> + 1023"
    unfolding dexp_def cast_num_parts [OF assms(2)] m using r
    by (simp add: div_pos_pos_trivial del: power_numeral)
  have f: "dfrac (cast_num k) = ?m - 2 ^ 52"
    unfolding dfrac_def cast_num_parts [OF assms(2)] m mod_mult_self1
    using r by (rule mod_pos_pos_trivial)
  show "expo (cast_num k) = flog2 \<bar>k\<bar> - 52"
    using b by (simp add: expo_def e)
  show "mant (cast_num k) = k * 2 ^ nat (52 - flog2 \<bar>k\<bar>)"
    using b assms(1) by (simp add: mant_def e f cast_num_parts [OF assms(2)])
qed

lemma cast_num_0 [simp]: "cast_num 0 = 0"
  by (simp add: cast_num_def double_of_dyadic_def make_double_def)

lemma trunc_cast_num:
  assumes "\<bar>k\<bar> < 2 ^ 53"
  shows "trunc_int (cast_num k) = k"
proof (cases "k = 0")
  case True
  then show ?thesis
    by (simp add: trunc_int_def mant_def dexp_def dfrac_def dmag_def)
next
  case False
  note b = int_mag_scaled [OF False assms]
  have "nat (flog2 \<bar>k\<bar> - 52) = 0" and "nat (- (flog2 \<bar>k\<bar> - 52)) = nat (52 - flog2 \<bar>k\<bar>)"
    using b by simp_all
  then show ?thesis
    unfolding trunc_int_def cast_num_mant [OF False assms] using False
    by (simp add: abs_mult sgn_mult mult_sgn_abs)
qed

lemma number2int_cast_num [simp]:
  "- 2147483648 \<le> k \<Longrightarrow> k < 2147483648 \<Longrightarrow> lua_number2int (cast_num k) = k"
proof -
  assume k: "- 2147483648 \<le> k" "k < 2147483648"
  then have "\<bar>k\<bar> < 2 ^ 53" by simp
  from trunc_cast_num [OF this] cast_num_parts [OF this] k show ?thesis
    by (simp add: lua_number2int_def)
qed

lemma number2int_range: "- 2147483648 \<le> lua_number2int x" "lua_number2int x < 2147483648"
  by (auto simp: lua_number2int_def Let_def)

lemma int_mag_inject:
  assumes "\<bar>j\<bar> < 2 ^ 53" "\<bar>k\<bar> < 2 ^ 53" and "int_mag j = int_mag k" and "(j < 0) = (k < 0)"
  shows "j = k"
proof -
  have "cast_num j = cast_num k" using assms by (simp add: cast_num_eq)
  with assms(1,2) show ?thesis by (metis trunc_cast_num)
qed

lemma numeq_cast_num:
  assumes "\<bar>j\<bar> < 2 ^ 53" "\<bar>k\<bar> < 2 ^ 53"
  shows "luai_numeq (cast_num j) (cast_num k) \<longleftrightarrow> j = k"
proof
  assume "luai_numeq (cast_num j) (cast_num k)"
  then consider "cast_num j = cast_num k" | "int_mag j = 0" "int_mag k = 0"
    using assms by (auto dest!: luai_numeq_cases simp: cast_num_parts)
  then show "j = k"
  proof cases
    case 1
    with assms show ?thesis by (metis trunc_cast_num)
  next
    case 2
    have z: "i = 0" if "\<bar>i\<bar> < 2 ^ 53" "int_mag i = 0" for i
    proof (rule ccontr)
      assume "i \<noteq> 0"
      from int_mag_scaled [OF this that(1)] that(2) \<open>i \<noteq> 0\<close> show False
        by (simp add: int_mag_def)
    qed
    with 2 assms show ?thesis by blast
  qed
qed (use assms in \<open>simp add: luai_numeq_refl cast_num_parts\<close>)

text \<open>A number equal to an integer converts to that integer.\<close>

lemma number2int_numeq:
  assumes "luai_numeq (cast_num k) x" and "- 2147483648 \<le> k" "k < 2147483648"
  shows "lua_number2int x = k"
proof -
  have k: "\<bar>k\<bar> < 2 ^ 53" using assms(2,3) by simp
  from luai_numeq_cases [OF assms(1)] show ?thesis
  proof
    assume "cast_num k = x"
    with assms(2,3) show ?thesis by auto
  next
    assume z: "dmag (cast_num k) = 0 \<and> dmag x = 0"
    then have "luai_numeq (cast_num k) (cast_num 0)"
      using assms(1) cast_num_parts(2) [of 0]
      by (simp add: luai_numeq_def numkey_def int_mag_def is_nan_def inf_mag_def dmag_def)
    with k have "k = 0" by (simp add: numeq_cast_num [of k 0, simplified])
    with z zero_parts [of x] show ?thesis by (simp add: lua_number2int_def trunc_int_def)
  qed
qed

end
