(* ===== verification/LuaObject.thy ===== *)
theory LuaObject
  imports LuaNumber
begin

text \<open>
  \<open>lobject.h\<close> and \<open>lobject.c\<close>: tagged values and the generic functions over them. Strings are
  interned (\<open>lstring.c\<close>, theory \<open>StringTable\<close>), so pointer equality of two \<open>TString\<close>s is
  equality of their contents, and a string value carries its contents; every other collectable
  object is its address.
\<close>

section \<open>Tagged values\<close>

type_synonym addr = u32

datatype TValue =
    LNil
  | LBool int            \<comment> \<open>\<open>value.b\<close>\<close>
  | LLight addr          \<comment> \<open>\<open>value.p\<close>\<close>
  | LNumber lua_Number   \<comment> \<open>\<open>value.n\<close>\<close>
  | LString "byte list"  \<comment> \<open>\<open>value.gc\<close> of an interned string\<close>
  | LTable addr
  | LFunction addr
  | LUserdata addr
  | LThread addr
  | LWString "wchar list"
  | LProto addr
  | LUpval addr
  | LDeadKey addr

primrec ttype :: "TValue \<Rightarrow> int" where
  "ttype LNil = 0"
| "ttype (LBool b) = 1"
| "ttype (LLight p) = 2"
| "ttype (LNumber n) = 3"
| "ttype (LString s) = 4"
| "ttype (LTable a) = 5"
| "ttype (LFunction a) = 6"
| "ttype (LUserdata a) = 7"
| "ttype (LThread a) = 8"
| "ttype (LWString s) = 9"
| "ttype (LProto a) = 10"
| "ttype (LUpval a) = 11"
| "ttype (LDeadKey a) = 12"

definition ttisnil :: "TValue \<Rightarrow> bool" where
  "ttisnil o1 \<longleftrightarrow> ttype o1 = 0"

definition ttisnumber :: "TValue \<Rightarrow> bool" where
  "ttisnumber o1 \<longleftrightarrow> ttype o1 = 3"

definition ttisstring :: "TValue \<Rightarrow> bool" where
  "ttisstring o1 \<longleftrightarrow> ttype o1 = 4"

definition ttiswstring :: "TValue \<Rightarrow> bool" where
  "ttiswstring o1 \<longleftrightarrow> ttype o1 = 9"

definition iscollectable :: "TValue \<Rightarrow> bool" where
  "iscollectable o1 \<longleftrightarrow> 4 \<le> ttype o1"

definition l_isfalse :: "TValue \<Rightarrow> bool" where
  "l_isfalse o1 \<longleftrightarrow> (case o1 of LNil \<Rightarrow> True | LBool b \<Rightarrow> b = 0 | _ \<Rightarrow> False)"

lemma ttis_simps [simp]:
  "ttisnil v \<longleftrightarrow> v = LNil" "ttisnumber v \<longleftrightarrow> (\<exists>n. v = LNumber n)"
  "ttisstring v \<longleftrightarrow> (\<exists>s. v = LString s)" "ttiswstring v \<longleftrightarrow> (\<exists>s. v = LWString s)"
  by (cases v; simp add: ttisnil_def ttisnumber_def ttisstring_def ttiswstring_def)+

definition luaO_rawequalObj :: "TValue \<Rightarrow> TValue \<Rightarrow> bool" where
  "luaO_rawequalObj t1 t2 =
     (if ttype t1 \<noteq> ttype t2 then False
      else case (t1, t2) of
        (LNil, _) \<Rightarrow> True
      | (LNumber m, LNumber n) \<Rightarrow> luai_numeq m n
      | (LBool b, LBool c) \<Rightarrow> b = c
      | (LLight p, LLight q) \<Rightarrow> p = q
      | _ \<Rightarrow> t1 = t2)"  \<comment> \<open>\<open>gcvalue(t1) == gcvalue(t2)\<close>\<close>

lemma rawequal_cases:
  "luaO_rawequalObj v w \<longleftrightarrow>
     (case (v, w) of (LNumber m, LNumber n) \<Rightarrow> luai_numeq m n | _ \<Rightarrow> v = w)"
  by (cases v; cases w) (auto simp: luaO_rawequalObj_def)

text \<open>A key a table accepts: neither nil nor NaN.\<close>

definition valid_key :: "TValue \<Rightarrow> bool" where
  "valid_key v \<longleftrightarrow> (case v of LNil \<Rightarrow> False | LNumber n \<Rightarrow> \<not> luai_numisnan n | _ \<Rightarrow> True)"

lemma rawequal_refl: "luaO_rawequalObj v v \<longleftrightarrow> (\<forall>n. v = LNumber n \<longrightarrow> \<not> is_nan n)"
  by (cases v) (simp_all add: rawequal_cases luai_numeq_refl)

lemma rawequal_sym: "luaO_rawequalObj v w \<Longrightarrow> luaO_rawequalObj w v"
  by (cases v; cases w) (auto simp: rawequal_cases intro: luai_numeq_sym)

lemma rawequal_trans: "luaO_rawequalObj u v \<Longrightarrow> luaO_rawequalObj v w \<Longrightarrow> luaO_rawequalObj u w"
  by (cases u; cases v; cases w) (auto simp: rawequal_cases intro: luai_numeq_trans)

lemma valid_key_refl: "valid_key v \<Longrightarrow> luaO_rawequalObj v v"
  by (auto simp: rawequal_refl valid_key_def luai_numisnan_def luai_numeq_refl)

section \<open>Sizes as floating point bytes\<close>

text \<open>The loop \<open>while (x >= 16)\<close> of \<open>luaO_int2fb\<close>; \<open>x + 1\<close> wraps to 0 for \<open>UINT_MAX\<close> only.\<close>

function int2fb_loop :: "u32 \<Rightarrow> int \<Rightarrow> u32 \<times> int" where
  "int2fb_loop x e = (if 16 \<le> x then int2fb_loop (drop_bit 1 (x + 1)) (e + 1) else (x, e))"
  by pat_completeness auto
termination
proof (relation "measure (\<lambda>(x, e). unat x)")
  fix x :: u32 and e :: int
  assume "16 \<le> x"
  then have "16 \<le> unat x" by (simp add: word_le_nat_alt)
  moreover have "unat (x + 1) \<le> unat x + 1" by (rule unat_add_1_le)
  ultimately show "((drop_bit 1 (x + 1), e + 1), (x, e)) \<in> measure (\<lambda>(x, e). unat x)"
    by (simp add: unat_drop_bit)
qed simp

definition luaO_int2fb :: "u32 \<Rightarrow> int" where
  "luaO_int2fb x =
     (let (x, e) = int2fb_loop x 0
      in if x < 8 then c_int x else push_bit 3 (e + 1) OR (c_int x - 8))"

definition luaO_fb2int :: "int \<Rightarrow> int" where
  "luaO_fb2int x =
     (let e = drop_bit 3 x AND 31
      in if e = 0 then x else push_bit (nat (e - 1)) ((x AND 7) + 8))"

definition log_2 :: "int list" where
  "log_2 =
    [0, 1, 2, 2, 3, 3, 3, 3, 4, 4, 4, 4, 4, 4, 4, 4, 5, 5, 5, 5, 5, 5, 5, 5, 5, 5, 5, 5, 5, 5, 5, 5,
     6, 6, 6, 6, 6, 6, 6, 6, 6, 6, 6, 6, 6, 6, 6, 6, 6, 6, 6, 6, 6, 6, 6, 6, 6, 6, 6, 6, 6, 6, 6, 6,
     7, 7, 7, 7, 7, 7, 7, 7, 7, 7, 7, 7, 7, 7, 7, 7, 7, 7, 7, 7, 7, 7, 7, 7, 7, 7, 7, 7, 7, 7, 7, 7,
     7, 7, 7, 7, 7, 7, 7, 7, 7, 7, 7, 7, 7, 7, 7, 7, 7, 7, 7, 7, 7, 7, 7, 7, 7, 7, 7, 7, 7, 7, 7, 7,
     8, 8, 8, 8, 8, 8, 8, 8, 8, 8, 8, 8, 8, 8, 8, 8, 8, 8, 8, 8, 8, 8, 8, 8, 8, 8, 8, 8, 8, 8, 8, 8,
     8, 8, 8, 8, 8, 8, 8, 8, 8, 8, 8, 8, 8, 8, 8, 8, 8, 8, 8, 8, 8, 8, 8, 8, 8, 8, 8, 8, 8, 8, 8, 8,
     8, 8, 8, 8, 8, 8, 8, 8, 8, 8, 8, 8, 8, 8, 8, 8, 8, 8, 8, 8, 8, 8, 8, 8, 8, 8, 8, 8, 8, 8, 8, 8,
     8, 8, 8, 8, 8, 8, 8, 8, 8, 8, 8, 8, 8, 8, 8, 8, 8, 8, 8, 8, 8, 8, 8, 8, 8, 8, 8, 8, 8, 8, 8, 8]"

function log2_loop :: "u32 \<Rightarrow> int \<Rightarrow> u32 \<times> int" where
  "log2_loop x l = (if 256 \<le> x then log2_loop (drop_bit 8 x) (l + 8) else (x, l))"
  by pat_completeness auto
termination
  by (relation "measure (\<lambda>(x, e). unat x)") (auto simp: unat_drop_bit word_le_nat_alt)

definition luaO_log2 :: "u32 \<Rightarrow> int" where
  "luaO_log2 x = (let (x, l) = log2_loop x (- 1) in l + log_2 ! unat x)"

definition ceillog2 :: "int \<Rightarrow> int" where
  "ceillog2 x = luaO_log2 (c_uint (x - 1)) + 1"

definition twoto :: "int \<Rightarrow> int" where
  "twoto x = push_bit (nat x) 1"

section \<open>Strings to numbers\<close>

text \<open>
  \<open>luaO_str2d\<close> on a C string: whether the whole string is a number, and the value stored
  through \<open>result\<close> either way.
\<close>

definition luaO_str2d :: "byte \<Rightarrow> byte list \<Rightarrow> bool \<times> lua_Number" where
  "luaO_str2d point s =
     (let (r, endptr) = strtod point s
      in if endptr = s then (False, r)
         else
           let (r, endptr) =
                 (if endptr \<noteq> [] \<and> (hd endptr = 120 \<or> hd endptr = 88)
                  then let (u, rest) = strtoul16 s in (cast_num (uint u), rest)
                  else (r, endptr))
           in if endptr = [] then (True, r)
              else (dropWhile c_isspace endptr = [], r))"

section \<open>Chunk names\<close>

text \<open>
  What \<open>luaO_chunkid\<close> leaves in \<open>out\<close>, without the terminating zero. \<open>bufflen\<close> is a
  \<open>size_t\<close>, so the subtractions wrap.
\<close>

definition strcspn :: "byte list \<Rightarrow> byte set \<Rightarrow> nat" where
  "strcspn s reject = length (takeWhile (\<lambda>b. b \<notin> reject) s)"

definition chunkid_text :: "byte list \<Rightarrow> u32 \<Rightarrow> byte list" where
  "chunkid_text source bufflen =  \<comment> \<open>\<open>out\<close> gets the first line of the source text, quoted\<close>
     (let len = strcspn source {10, 13};
          bufflen = bufflen - 17;
          len = (if unat bufflen < len then unat bufflen else len)
      in bytes_of ''[string \"''
         @ (if len < length source then take len source @ bytes_of ''...'' else source)
         @ bytes_of ''\"]'')"

definition luaO_chunkid :: "byte list \<Rightarrow> u32 \<Rightarrow> byte list" where
  "luaO_chunkid source bufflen =
     (case source of
        c # rest \<Rightarrow>
          if c = 61 then take (unat bufflen - 1) rest  \<comment> \<open>\<open>=\<close>: remove first char\<close>
          else if c = 64 then  \<comment> \<open>\<open>@\<close>: the file name, or its last part\<close>
            (let bufflen = bufflen - 8; l = length rest
             in if unat bufflen < l
                then bytes_of ''...'' @ drop (l - unat bufflen) rest
                else rest)
          else chunkid_text source bufflen
      | [] \<Rightarrow> chunkid_text source bufflen)"

section \<open>Facts\<close>

text \<open>The loop of \<open>luaO_int2fb\<close> divides by a power of two and rounds up.\<close>

lemma int2fb_loop_spec:
  assumes "int2fb_loop x e = (y, e')" and "unat x < 4294967295"
  shows "y < 16 \<and> e \<le> e' \<and> unat x \<le> unat y * 2 ^ nat (e' - e)
    \<and> unat y * 2 ^ nat (e' - e) < unat x + 2 ^ nat (e' - e) \<and> (e < e' \<longrightarrow> 8 \<le> y)"
  using assms
proof (induction x e rule: int2fb_loop.induct)
  case (1 x e)
  show ?case
  proof (cases "16 \<le> x")
    case False
    with "1.prems" show ?thesis by simp
  next
    case True
    let ?h = "drop_bit 1 (x + 1)"
    have u: "unat (x + 1) = unat x + 1"
      using "1.prems"(2) by (simp add: unat_word_ariths)
    then have h: "unat ?h = (unat x + 1) div 2" by (simp add: unat_drop_bit)
    have loop: "int2fb_loop ?h (e + 1) = (y, e')"
      using "1.prems"(1) True by (subst (asm) int2fb_loop.simps) simp
    have "unat ?h < 4294967295" using h "1.prems"(2) by simp
    from "1.IH" [OF True loop this]
    have IH: "y < 16" "e + 1 \<le> e'" "unat ?h \<le> unat y * 2 ^ nat (e' - (e + 1))"
      "unat y * 2 ^ nat (e' - (e + 1)) < unat ?h + 2 ^ nat (e' - (e + 1))"
      "e + 1 < e' \<Longrightarrow> 8 \<le> y"
      by auto
    have "8 \<le> y" if "e + 1 = e'"
    proof -
      from True have "16 \<le> unat x" by (simp add: word_le_nat_alt)
      then have "8 \<le> unat y" using IH(3) h that by simp
      then show ?thesis by (simp add: word_le_nat_alt)
    qed
    moreover have "nat (e' - e) = Suc (nat (e' - (e + 1)))" using IH(2) by simp
    then have p: "unat y * 2 ^ nat (e' - e) = 2 * (unat y * 2 ^ nat (e' - (e + 1)))"
      "(2::nat) ^ nat (e' - e) = 2 * 2 ^ nat (e' - (e + 1))" by simp_all
    have "unat x \<le> unat y * 2 ^ nat (e' - e)"
      and "unat y * 2 ^ nat (e' - e) < unat x + 2 ^ nat (e' - e)"
      unfolding p using IH(3,4) h by linarith+
    ultimately show ?thesis using IH(1,2,5) by (cases "e + 1 = e'") auto
  qed
qed

declare int2fb_loop.simps [simp del] log2_loop.simps [simp del]

lemma fb2int_encode:
  assumes "1 \<le> e" "e < 32" "0 \<le> m" "m < 8"
  shows "luaO_fb2int (push_bit 3 e OR m) = push_bit (nat (e - 1)) (m + 8)"
proof -
  have m: "drop_bit 3 m = 0" "take_bit 3 m = m"
    using assms by (simp_all add: take_bit_int_eq_self drop_bit_eq_div)
  have e: "take_bit 5 e = e" using assms by (simp add: take_bit_int_eq_self)
  have "(push_bit 3 e OR m) AND 7 = take_bit 3 (push_bit 3 e OR m)"
    by (simp add: take_bit_eq_mask mask_eq_exp_minus_1)
  also have "\<dots> = m" by (simp add: m take_bit_push_bit)
  finally have l: "(push_bit 3 e OR m) AND 7 = m" .
  have "drop_bit 3 (push_bit 3 e OR m) = e"
    by (simp add: m drop_bit_push_bit)
  moreover have "e AND 31 = take_bit 5 e"
    by (simp add: take_bit_eq_mask mask_eq_exp_minus_1)
  ultimately show ?thesis using assms by (simp add: luaO_fb2int_def l e)
qed

lemma c_int_small: "uint w < 2147483648 \<Longrightarrow> c_int w = uint w"
proof -
  assume "uint w < 2147483648"
  moreover have "- 2147483648 \<le> uint w" by (rule order_trans [OF _ uint_ge_0]) simp
  ultimately show ?thesis
    unfolding c_int_def sint_uint by (intro signed_take_bit_int_eq_self) simp_all
qed

lemma int2fb_fb2int:
  assumes "uint x < 2147483648"
  shows "uint x \<le> luaO_fb2int (luaO_int2fb x)" "7 * luaO_fb2int (luaO_int2fb x) \<le> 8 * uint x"
    "0 \<le> luaO_int2fb x" "luaO_int2fb x < 256"
proof -
  obtain y e where loop: "int2fb_loop x 0 = (y, e)" by fastforce
  have "int (unat x) < 4294967295" using assms by simp
  then have "unat x < 4294967295" by linarith
  from int2fb_loop_spec [OF loop this, unfolded diff_zero]
  have sp: "y < 16" "0 \<le> e" "unat x \<le> unat y * 2 ^ nat e"
      "unat y * 2 ^ nat e < unat x + 2 ^ nat e" "0 < e \<longrightarrow> 8 \<le> y"
    by blast+
  have un: "int (unat w) = uint w" for w :: u32 by simp
  have y16: "uint y < 16" using sp(1) by (simp add: word_less_def)
  have yc: "c_int y = uint y" using y16 by (intro c_int_small) simp
  have le: "uint x \<le> uint y * 2 ^ nat e"
    using sp(3) by (metis (mono_tags) of_nat_le_iff of_nat_mult of_nat_numeral of_nat_power un)
  have lt: "uint y * 2 ^ nat e < uint x + 2 ^ nat e"
    using sp(4) by (metis (mono_tags) of_nat_add of_nat_less_iff of_nat_mult of_nat_numeral of_nat_power un)
  have "uint x \<le> luaO_fb2int (luaO_int2fb x) \<and> 7 * luaO_fb2int (luaO_int2fb x) \<le> 8 * uint x
    \<and> 0 \<le> luaO_int2fb x \<and> luaO_int2fb x < 256"
  proof (cases "y < 8")
    case True
    then have "e = 0" using sp(2,5) by force
    with le lt have "x = y" by (simp add: word_uint_eq_iff)
    moreover have "uint y < 8" using True by (simp add: word_less_def)
    ultimately show ?thesis
      using True \<open>e = 0\<close> loop yc
      by (simp add: luaO_int2fb_def luaO_fb2int_def drop_bit_eq_div div_pos_pos_trivial)
  next
    case False
    then have y8: "8 \<le> uint y" by (simp add: word_le_def not_less)
    have "7 * (2::int) ^ nat e \<le> uint y * 2 ^ nat e - 2 ^ nat e"
      using mult_right_mono [OF y8, of "2 ^ nat e"] by simp
    with lt have e7: "7 * (2::int) ^ nat e < uint x" by linarith
    then have "(2::int) ^ nat e < 2 ^ 29" using assms by simp
    then have "nat e < 29" by (rule power_less_imp_less_exp [rotated]) simp
    then have e: "e < 29" using sp(2) by linarith
    have fb: "luaO_int2fb x = push_bit 3 (e + 1) OR (uint y - 8)"
      using loop False yc by (simp add: luaO_int2fb_def)
    have "luaO_fb2int (luaO_int2fb x) = push_bit (nat e) (uint y)"
      unfolding fb using e sp(2) y8 y16 by (subst fb2int_encode) simp_all
    then have r: "luaO_fb2int (luaO_int2fb x) = uint y * 2 ^ nat e" by (simp add: push_bit_eq_mult)
    have "push_bit 3 (e + 1) OR (uint y - 8) < 2 ^ 8"
    proof (rule OR_upper)
      show "0 \<le> push_bit 3 (e + 1)" using sp(2) by (simp add: push_bit_eq_mult)
      show "push_bit 3 (e + 1) < 2 ^ 8" using e by (simp add: push_bit_eq_mult)
      show "uint y - 8 < 2 ^ 8" using y16 by simp
    qed
    moreover have "0 \<le> push_bit 3 (e + 1) OR (uint y - 8)"
      using sp(2) y8 by (simp add: or_nonnegative_int_iff push_bit_eq_mult)
    ultimately show ?thesis using le lt e7 r fb by simp
  qed
  then show "uint x \<le> luaO_fb2int (luaO_int2fb x)" "7 * luaO_fb2int (luaO_int2fb x) \<le> 8 * uint x"
    "0 \<le> luaO_int2fb x" "luaO_int2fb x < 256" by blast+
qed

text \<open>\<open>luaO_log2\<close> is the integer part of the logarithm, \<open>ceillog2\<close> its ceiling.\<close>

lemma log_2_table:
  "list_all (\<lambda>(l, n). 1 \<le> l \<and> 2 ^ nat (l - 1) \<le> n \<and> n < 2 ^ nat l) (tl (zip log_2 [0..255]))"
  by code_simp

lemma log_2_nth:
  assumes "1 \<le> n" "n < 256"
  shows "1 \<le> log_2 ! n" "2 ^ nat (log_2 ! n - 1) \<le> int n" "int n < 2 ^ nat (log_2 ! n)"
proof -
  have len: "length (zip log_2 [0..255]) = 256" by (simp add: log_2_def)
  then have l2: "length log_2 = 256" by (simp add: log_2_def)
  have "tl (zip log_2 [0..255]) ! (n - 1) = (log_2 ! n, int n)"
    using assms len l2 by (simp add: nth_tl)
  moreover have "n - 1 < length (tl (zip log_2 [0..255]))" using assms len by simp
  ultimately have "(log_2 ! n, int n) \<in> set (tl (zip log_2 [0..255]))"
    by (metis nth_mem)
  then show "1 \<le> log_2 ! n" "2 ^ nat (log_2 ! n - 1) \<le> int n" "int n < 2 ^ nat (log_2 ! n)"
    using log_2_table by (auto simp: list_all_iff)
qed

lemma log2_loop_spec:
  assumes "log2_loop x l = (y, l')"
  shows "uint y < 256 \<and> l \<le> l' \<and> uint y = uint x div 2 ^ nat (l' - l) \<and> (1 \<le> uint x \<longrightarrow> 1 \<le> uint y)"
  using assms
proof (induction x l rule: log2_loop.induct)
  case (1 x l)
  show ?case
  proof (cases "256 \<le> x")
    case False
    with "1.prems" have "x = y" "l' = l" by (simp_all add: log2_loop.simps)
    with False show ?thesis by (simp add: word_le_def)
  next
    case True
    have h: "uint (drop_bit 8 x) = uint x div 256" by (simp add: uint_drop_bit)
    have "1 \<le> uint x div 256" using True by (simp add: word_le_def)
    moreover have "log2_loop (drop_bit 8 x) (l + 8) = (y, l')"
      using "1.prems" True by (simp add: log2_loop.simps [of x])
    ultimately have "uint y < 256" "l + 8 \<le> l'" "1 \<le> uint y"
      "uint y = uint x div 256 div 2 ^ nat (l' - (l + 8))"
      using "1.IH" [OF True] unfolding h by simp_all
    moreover have "nat (l' - l) = 8 + nat (l' - (l + 8))" using calculation(2) by simp
    then have "(2::int) ^ nat (l' - l) = 256 * 2 ^ nat (l' - (l + 8))" by (simp add: power_add)
    ultimately show ?thesis by (simp add: zdiv_zmult2_eq)
  qed
qed

lemma luaO_log2_bounds:
  assumes "1 \<le> uint x"
  shows "0 \<le> luaO_log2 x" "2 ^ nat (luaO_log2 x) \<le> uint x" "uint x < 2 * 2 ^ nat (luaO_log2 x)"
proof -
  obtain y l where loop: "log2_loop x (- 1) = (y, l)" by fastforce
  from log2_loop_spec [OF this] assms
  have y: "uint y < 256" "1 \<le> uint y" "- 1 \<le> l" "uint y = uint x div 2 ^ nat (l + 1)" by auto
  let ?L = "log_2 ! unat y" and ?k = "nat (l + 1)"
  have un: "int (unat y) = uint y" by simp
  have "1 \<le> unat y" "unat y < 256" using y(1,2) un by linarith+
  note L = log_2_nth [OF this, unfolded un]
  have r: "luaO_log2 x = l + ?L" by (simp add: luaO_log2_def loop)
  show nn: "0 \<le> luaO_log2 x" using r L(1) y(3) by simp
  have e: "nat (luaO_log2 x) = ?k + nat (?L - 1)" "Suc (nat (luaO_log2 x)) = ?k + nat ?L"
    using r L(1) y(3) by simp_all
  have q: "uint x = uint y * 2 ^ ?k + uint x mod 2 ^ ?k" "0 \<le> uint x mod 2 ^ ?k"
    "uint x mod 2 ^ ?k < 2 ^ ?k"
    using div_mult_mod_eq [of "uint x" "2 ^ ?k", symmetric] by (simp_all add: y(4))
  have "2 ^ nat (luaO_log2 x) = 2 ^ nat (?L - 1) * (2 ^ ?k :: int)" by (simp add: e(1) power_add)
  also have "\<dots> \<le> uint y * 2 ^ ?k" using L(2) by (intro mult_right_mono) simp_all
  finally show "2 ^ nat (luaO_log2 x) \<le> uint x" using q by linarith
  have "(uint y + 1) * 2 ^ ?k \<le> 2 ^ nat ?L * (2 ^ ?k :: int)"
    using L(3) by (intro mult_right_mono) simp_all
  also have "\<dots> = 2 ^ Suc (nat (luaO_log2 x))" by (simp add: e(2) power_add)
  finally have "uint y * 2 ^ ?k + 2 ^ ?k \<le> 2 * 2 ^ nat (luaO_log2 x)"
    by (simp add: distrib_right)
  with q show "uint x < 2 * 2 ^ nat (luaO_log2 x)" by linarith
qed

lemma ceillog2_1: "ceillog2 1 = 0"
  by (simp add: ceillog2_def luaO_log2_def log2_loop.simps c_uint_def log_2_def)

lemma ceillog2_bounds:
  assumes "2 \<le> k" and "k \<le> 4294967296"
  shows "1 \<le> ceillog2 k" "2 ^ nat (ceillog2 k - 1) < k" "k \<le> 2 ^ nat (ceillog2 k)"
proof -
  have u: "uint (c_uint (k - 1)) = k - 1" using assms by simp
  then have "1 \<le> uint (c_uint (k - 1))" using assms by simp
  note l = luaO_log2_bounds [OF this, unfolded u]
  show "1 \<le> ceillog2 k" using l(1) by (simp add: ceillog2_def)
  show "2 ^ nat (ceillog2 k - 1) < k" using l(2) by (simp add: ceillog2_def)
  have "nat (ceillog2 k) = Suc (nat (luaO_log2 (c_uint (k - 1))))"
    using l(1) by (simp add: ceillog2_def)
  then show "k \<le> 2 ^ nat (ceillog2 k)" using l(3) by simp
qed

text \<open>The description of a chunk fits the buffer it is written to.\<close>

lemma chunkid_text_fits:
  assumes "17 \<le> unat bufflen"
  shows "length (chunkid_text source bufflen) < unat bufflen"
proof -
  have b: "unat (bufflen - 17) = unat bufflen - 17"
    using assms by (simp add: unat_sub word_le_nat_alt)
  have "strcspn source {10, 13} \<le> length source"
    by (simp add: strcspn_def length_takeWhile_le)
  then show ?thesis using assms
    by (auto simp: chunkid_text_def b Let_def)
qed

lemma chunkid_fits:
  assumes "17 \<le> unat bufflen"
  shows "length (luaO_chunkid source bufflen) < unat bufflen"
proof -
  have b: "unat (bufflen - 8) = unat bufflen - 8"
    using assms by (simp add: unat_sub word_le_nat_alt)
  show ?thesis using assms chunkid_text_fits [OF assms, of source]
    by (auto simp: luaO_chunkid_def b Let_def split: list.split)
qed

text \<open>A run of decimal digits denotes its value.\<close>

lemma str2d_digits:
  assumes "ds \<noteq> []" and "list_all c_isdigit ds" and "\<not> c_isdigit point"
  shows "luaO_str2d point ds = (True, double_of_ratio False (digits_val 10 ds) 1)"
proof -
  obtain d r where ds: "ds = d # r" "c_isdigit d" using assms by (cases ds) auto
  have all: "\<forall>b\<in>set ds. c_isdigit b" using assms(2) by (simp add: list_all_iff)
  have "\<not> c_isspace d" "d \<noteq> 45" "d \<noteq> 43"
    using ds(2) by (auto simp: c_isspace_def c_isdigit_def word_le_def)
  then have sp: "dropWhile c_isspace ds = ds" "take_sign ds = (False, ds)"
    by (simp_all add: ds(1) take_sign_def)
  have dw: "takeWhile c_isdigit ds = ds" "dropWhile c_isdigit ds = []" using all by simp_all
  have "strtod point ds = (double_of_ratio False (digits_val 10 ds) 1, [])"
    using assms(1) by (simp add: strtod_def take_exponent_def sp dw all)
  then show ?thesis using assms(1) by (simp add: luaO_str2d_def)
qed

end
