(* ===== verification/LuaProto.thy ===== *)
theory LuaProto
  imports LuaObject Opcodes
begin

text \<open>
  Function prototypes (\<open>Proto\<close> and \<open>LocVar\<close> of \<open>lobject.h\<close>, \<open>luaF_newproto\<close> and
  \<open>luaF_getlocalname\<close> of \<open>lfunc.c\<close>). An array and its size field are one list; a \<open>TString *\<close>
  that may be \<open>NULL\<close> is an \<open>option\<close>.
\<close>

type_synonym tstring = "byte list"

record LocVar =
  varname :: "tstring option"
  startpc :: int
  endpc :: int

datatype Proto = Proto
  (pk: "TValue list") (code: "Instruction list") (pp: "Proto list") (lineinfo: "int list")
  (locvars: "LocVar list") (upvalues: "tstring option list") (source: "tstring option")
  (linedefined: int) (lastlinedefined: int)
  (nups: byte) (numparams: byte) (is_vararg: byte) (maxstacksize: byte)

abbreviation sizek :: "Proto \<Rightarrow> int" where "sizek f \<equiv> int (length (pk f))"
abbreviation sizecode :: "Proto \<Rightarrow> int" where "sizecode f \<equiv> int (length (code f))"
abbreviation sizep :: "Proto \<Rightarrow> int" where "sizep f \<equiv> int (length (pp f))"
abbreviation sizelineinfo :: "Proto \<Rightarrow> int" where "sizelineinfo f \<equiv> int (length (lineinfo f))"
abbreviation sizelocvars :: "Proto \<Rightarrow> int" where "sizelocvars f \<equiv> int (length (locvars f))"
abbreviation sizeupvalues :: "Proto \<Rightarrow> int" where "sizeupvalues f \<equiv> int (length (upvalues f))"

definition VARARG_HASARG :: byte where "VARARG_HASARG = 1"
definition VARARG_ISVARARG :: byte where "VARARG_ISVARARG = 2"
definition VARARG_NEEDSARG :: byte where "VARARG_NEEDSARG = 4"

definition MAXSTACK :: int where "MAXSTACK = 250"

definition LUA_MULTRET :: int where "LUA_MULTRET = - 1"

definition luaF_newproto :: Proto where
  "luaF_newproto = Proto [] [] [] [] [] [] None 0 0 0 0 0 0"

text \<open>
  \<open>luaF_getlocalname\<close>: the loop over \<open>locvars\<close>, with \<open>n\<close> the active variables still to skip.
\<close>

fun getlocalname_loop :: "LocVar list \<Rightarrow> int \<Rightarrow> int \<Rightarrow> tstring option" where
  "getlocalname_loop [] n pc = None"
| "getlocalname_loop (v # vs) n pc =
     (if startpc v \<le> pc
      then if pc < endpc v
           then if n - 1 = 0 then varname v else getlocalname_loop vs (n - 1) pc
           else getlocalname_loop vs n pc
      else None)"

definition luaF_getlocalname :: "Proto \<Rightarrow> int \<Rightarrow> int \<Rightarrow> tstring option" where
  "luaF_getlocalname f local_number pc = getlocalname_loop (locvars f) local_number pc"

text \<open>
  The variables of a function are registered in the order in which they become active, so the
  loop's early exit on \<open>startpc\<close> loses nothing: the name found is that of the \<open>n\<close>-th variable
  active at \<open>pc\<close>.
\<close>

definition active_at :: "int \<Rightarrow> LocVar \<Rightarrow> bool" where
  "active_at pc v \<longleftrightarrow> startpc v \<le> pc \<and> pc < endpc v"

lemma getlocalname_loop_active:
  assumes "sorted (map startpc vs)" and "1 \<le> n"
  shows "getlocalname_loop vs n pc =
    (let act = filter (active_at pc) vs
     in if nat n \<le> length act then varname (act ! nat (n - 1)) else None)"
  using assms
proof (induction vs n pc rule: getlocalname_loop.induct)
  case (1 n pc)
  then show ?case by (simp add: Let_def)
next
  case (2 v vs n pc)
  show ?case
  proof (cases "startpc v \<le> pc")
    case False
    then have "\<forall>w\<in>set (v # vs). \<not> active_at pc w"
      using "2.prems"(1) by (auto simp: active_at_def)
    then have "filter (active_at pc) (v # vs) = []" by (simp only: filter_empty_conv)
    with False "2.prems"(2) show ?thesis by (simp only: getlocalname_loop.simps Let_def) simp
  next
    case start: True
    show ?thesis
    proof (cases "pc < endpc v")
      case False
      with start "2.IH"(2) "2.prems" show ?thesis by (simp add: active_at_def)
    next
      case True
      then have act: "active_at pc v" using start by (simp add: active_at_def)
      show ?thesis
      proof (cases "n = 1")
        case True
        with act start \<open>pc < endpc v\<close> show ?thesis by (simp add: Let_def)
      next
        case False
        then have "nat (n - 1) = Suc (nat (n - 1 - 1))" "nat n = Suc (nat (n - 1))"
          using "2.prems"(2) by simp_all
        with False act start \<open>pc < endpc v\<close> "2.IH"(1) "2.prems" show ?thesis
          by (simp add: Let_def)
      qed
    qed
  qed
qed

end
