(* ===== verification/CodeCheck.thy ===== *)
theory CodeCheck
  imports LuaProto
begin

text \<open>
  The bytecode verifier of \<open>ldebug.c\<close> (\<open>precheck\<close>, \<open>checkArgMode\<close>, \<open>symbexec\<close>,
  \<open>luaG_checkcode\<close>), which \<open>lundump.c\<close> runs on every function it loads. A failed \<open>check\<close>
  returns 0 from the C function: the model stops with \<open>Rejected\<close>. Every array the verifier reads
  is read through an accessor that stops with \<open>OutOfArray\<close> outside the array.
\<close>

section \<open>The verifier\<close>

datatype symb_stop = Rejected | OutOfArray

definition code_at :: "Proto \<Rightarrow> int \<Rightarrow> symb_stop + Instruction" where
  "code_at pt pc = (if 0 \<le> pc \<and> pc < sizecode pt then Inr (code pt ! nat pc) else Inl OutOfArray)"

definition k_at :: "Proto \<Rightarrow> int \<Rightarrow> symb_stop + TValue" where
  "k_at pt i = (if 0 \<le> i \<and> i < sizek pt then Inr (pk pt ! nat i) else Inl OutOfArray)"

definition p_at :: "Proto \<Rightarrow> int \<Rightarrow> symb_stop + Proto" where
  "p_at pt i = (if 0 \<le> i \<and> i < sizep pt then Inr (pp pt ! nat i) else Inl OutOfArray)"

definition check :: "bool \<Rightarrow> symb_stop + unit" where
  "check b = require b Rejected"

definition checkreg :: "Proto \<Rightarrow> int \<Rightarrow> symb_stop + unit" where
  "checkreg pt reg = check (reg < uint (maxstacksize pt))"

definition precheck :: "Proto \<Rightarrow> symb_stop + unit" where
  "precheck pt =
     bnd (check (uint (maxstacksize pt) \<le> MAXSTACK)) (\<lambda>_.
     bnd (check (sizeupvalues pt \<le> uint (nups pt))) (\<lambda>_.
     bnd (check (sizelineinfo pt = sizecode pt \<or> sizelineinfo pt = 0)) (\<lambda>_.
     bnd (code_at pt (sizecode pt - 1)) (\<lambda>i.
     check (GET_OPCODE i = opcode OP_RETURN)))))"

definition luaG_checkopenop :: "Instruction \<Rightarrow> bool" where
  "luaG_checkopenop i =
     (if GET_OPCODE i \<in> {opcode OP_CALL, opcode OP_TAILCALL, opcode OP_RETURN, opcode OP_SETLIST}
      then GETARG_B i = 0 else False)"

definition checkopenop :: "Proto \<Rightarrow> int \<Rightarrow> symb_stop + unit" where
  "checkopenop pt pc = bnd (code_at pt (pc + 1)) (\<lambda>i. check (luaG_checkopenop i))"

definition checkArgMode :: "Proto \<Rightarrow> int \<Rightarrow> OpArgMask \<Rightarrow> bool" where
  "checkArgMode pt r mode =
     (case mode of
        OpArgN \<Rightarrow> r = 0
      | OpArgU \<Rightarrow> True
      | OpArgR \<Rightarrow> r < uint (maxstacksize pt)
      | OpArgK \<Rightarrow> (if ISK r then INDEXK r < sizek pt else r < uint (maxstacksize pt)))"

text \<open>The first \<open>switch\<close> of \<open>symbexec\<close>: decode \<open>b\<close> and \<open>c\<close> and check them by format.\<close>

definition symb_operands :: "Proto \<Rightarrow> int \<Rightarrow> Instruction \<Rightarrow> symb_stop + int \<times> int" where
  "symb_operands pt pc i =
     (let op = GET_OPCODE i
      in case getOpMode op of
        iABC \<Rightarrow>
          (let b = GETARG_B i; c = GETARG_C i
           in bnd (check (checkArgMode pt b (getBMode op))) (\<lambda>_.
              bnd (check (checkArgMode pt c (getCMode op))) (\<lambda>_. Inr (b, c))))
      | iABx \<Rightarrow>
          (let b = GETARG_Bx i
           in bnd (if getBMode op = OpArgK then check (b < sizek pt) else Inr ()) (\<lambda>_. Inr (b, 0)))
      | iAsBx \<Rightarrow>
          (let b = GETARG_sBx i; dest = pc + 1 + b
           in if getBMode op = OpArgR
              then bnd (check (0 \<le> dest \<and> dest < sizecode pt)) (\<lambda>_.
                   if dest > 0
                   then bnd (code_at pt (dest - 1)) (\<lambda>d.
                        bnd (check (\<not> (GET_OPCODE d = opcode OP_SETLIST \<and> GETARG_C d = 0))) (\<lambda>_.
                        Inr (b, 0)))
                   else Inr (b, 0))
              else Inr (b, 0)))"

text \<open>
  The second \<open>switch\<close>: checks by opcode. It returns the position of the instruction that
  continues the scan (before the loop's \<open>pc++\<close>) and the updated \<open>last\<close>.
\<close>

definition symb_closure_pseudo :: "Proto \<Rightarrow> int \<Rightarrow> int \<Rightarrow> symb_stop + unit" where
  "symb_closure_pseudo pt pc nup =
     foldr (\<lambda>j k. bnd (code_at pt (pc + j)) (\<lambda>i.
        bnd (check (GET_OPCODE i = opcode OP_GETUPVAL \<or> GET_OPCODE i = opcode OP_MOVE)) (\<lambda>_. k)))
       [1..nup] (Inr ())"

definition symb_switch ::
  "Proto \<Rightarrow> int \<Rightarrow> int \<Rightarrow> int \<Rightarrow> Instruction \<Rightarrow> int \<Rightarrow> int \<Rightarrow> int \<Rightarrow> symb_stop + int \<times> int" where
  "symb_switch pt lastpc reg pc i b c lst =
     (let op = GET_OPCODE i; a = GETARG_A i
      in if op = opcode OP_LOADBOOL then
           bnd (check (c = 0 \<or> pc + 2 < sizecode pt)) (\<lambda>_. Inr (pc, lst))
         else if op = opcode OP_LOADNIL then
           Inr (pc, if a \<le> reg \<and> reg \<le> b then pc else lst)
         else if op = opcode OP_GETUPVAL \<or> op = opcode OP_SETUPVAL then
           bnd (check (b < uint (nups pt))) (\<lambda>_. Inr (pc, lst))
         else if op = opcode OP_GETGLOBAL \<or> op = opcode OP_SETGLOBAL then
           bnd (k_at pt b) (\<lambda>k. bnd (check (ttisstring k)) (\<lambda>_. Inr (pc, lst)))
         else if op = opcode OP_SELF then
           bnd (checkreg pt (a + 1)) (\<lambda>_. Inr (pc, if reg = a + 1 then pc else lst))
         else if op = opcode OP_CONCAT then
           bnd (check (b < c)) (\<lambda>_. Inr (pc, lst))
         else if op = opcode OP_TFORLOOP then
           bnd (check (1 \<le> c)) (\<lambda>_. bnd (checkreg pt (a + 2 + c)) (\<lambda>_.
           Inr (pc, if a + 2 \<le> reg then pc else lst)))
         else if op = opcode OP_FORLOOP \<or> op = opcode OP_FORPREP \<or> op = opcode OP_JMP then
           bnd (if op = opcode OP_JMP then Inr () else checkreg pt (a + 3)) (\<lambda>_.
           let dest = pc + 1 + b
           in Inr (if reg \<noteq> NO_REG \<and> pc < dest \<and> dest \<le> lastpc then pc + b else pc, lst))
         else if op = opcode OP_CALL \<or> op = opcode OP_TAILCALL then
           bnd (if b \<noteq> 0 then checkreg pt (a + b - 1) else Inr ()) (\<lambda>_.
           let c = c - 1
           in bnd (if c = LUA_MULTRET then checkopenop pt pc
                   else if c \<noteq> 0 then checkreg pt (a + c - 1) else Inr ()) (\<lambda>_.
              Inr (pc, if a \<le> reg then pc else lst)))
         else if op = opcode OP_RETURN then
           (let b = b - 1
            in bnd (if b > 0 then checkreg pt (a + b - 1) else Inr ()) (\<lambda>_. Inr (pc, lst)))
         else if op = opcode OP_SETLIST then
           bnd (if b > 0 then checkreg pt (a + b) else Inr ()) (\<lambda>_.
           Inr (if c = 0 then pc + 1 else pc, lst))
         else if op = opcode OP_CLOSURE then
           bnd (check (b < sizep pt)) (\<lambda>_.
           bnd (p_at pt b) (\<lambda>f.
           let nup = uint (nups f)
           in bnd (check (pc + nup < sizecode pt)) (\<lambda>_.
              bnd (symb_closure_pseudo pt pc nup) (\<lambda>_.
              Inr (if reg \<noteq> NO_REG then pc + nup else pc, lst)))))
         else if op = opcode OP_VARARG then
           bnd (check (is_vararg pt AND VARARG_ISVARARG \<noteq> 0
             \<and> \<not> is_vararg pt AND VARARG_NEEDSARG \<noteq> 0)) (\<lambda>_.
           let b = b - 1
           in bnd (if b = LUA_MULTRET then checkopenop pt pc else Inr ()) (\<lambda>_.
              bnd (checkreg pt (a + b - 1)) (\<lambda>_. Inr (pc, lst))))
         else Inr (pc, lst))"

text \<open>One round of the loop: the position before \<open>pc++\<close>, and \<open>last\<close>.\<close>

definition symb_step :: "Proto \<Rightarrow> int \<Rightarrow> int \<Rightarrow> int \<Rightarrow> int \<Rightarrow> symb_stop + int \<times> int" where
  "symb_step pt lastpc reg pc lst =
     bnd (code_at pt pc) (\<lambda>i.
     let op = GET_OPCODE i; a = GETARG_A i
     in bnd (check (op < NUM_OPCODES)) (\<lambda>_.
        bnd (checkreg pt a) (\<lambda>_.
        bnd (symb_operands pt pc i) (\<lambda>(b, c).
        let lst = (if testAMode op \<and> a = reg then pc else lst)
        in bnd (if testTMode op
                then bnd (check (pc + 2 < sizecode pt)) (\<lambda>_.
                     bnd (code_at pt (pc + 1)) (\<lambda>i1. check (GET_OPCODE i1 = opcode OP_JMP)))
                else Inr ()) (\<lambda>_.
           symb_switch pt lastpc reg pc i b c lst)))))"

text \<open>
  The loop; every step moves forward, so the scan ends (the guard of the recursive call says so
  to the termination proof and never fails, see \<open>symb_step_advances\<close>).
\<close>

function symb_loop :: "Proto \<Rightarrow> int \<Rightarrow> int \<Rightarrow> int \<Rightarrow> int \<Rightarrow> symb_stop + int" where
  "symb_loop pt lastpc reg pc lst =
     (if pc < lastpc
      then (case symb_step pt lastpc reg pc lst of
              Inl e \<Rightarrow> Inl e
            | Inr (pc', lst') \<Rightarrow>
                if pc \<le> pc' then symb_loop pt lastpc reg (pc' + 1) lst' else Inl OutOfArray)
      else Inr lst)"
  by pat_completeness auto
termination
  by (relation "measure (\<lambda>(pt, lastpc, reg, pc, lst). nat (lastpc - pc))") auto

declare symb_loop.simps [simp del]

definition symbexec :: "Proto \<Rightarrow> int \<Rightarrow> int \<Rightarrow> symb_stop + Instruction" where
  "symbexec pt lastpc reg =
     bnd (precheck pt) (\<lambda>_.
     bnd (symb_loop pt lastpc reg 0 (sizecode pt - 1)) (\<lambda>lst.
     code_at pt lst))"

definition luaG_checkcode :: "Proto \<Rightarrow> symb_stop + bool" where
  "luaG_checkcode pt =
     (case symbexec pt (sizecode pt) NO_REG of
        Inl Rejected \<Rightarrow> Inr False
      | Inl OutOfArray \<Rightarrow> Inl OutOfArray
      | Inr i \<Rightarrow> Inr (i \<noteq> 0))"

section \<open>The scan moves forward and stays inside the arrays\<close>

lemma check_simps [simp]:
  "check b = Inr u \<longleftrightarrow> b" "check b = Inl e \<longleftrightarrow> \<not> b \<and> e = Rejected"
  "checkreg pt r = Inr u \<longleftrightarrow> r < uint (maxstacksize pt)"
  "checkreg pt r = Inl e \<longleftrightarrow> \<not> r < uint (maxstacksize pt) \<and> e = Rejected"
  by (auto simp: check_def checkreg_def)

lemma code_at_simps [simp]:
  "code_at pt pc = Inr i \<longleftrightarrow> 0 \<le> pc \<and> pc < sizecode pt \<and> i = code pt ! nat pc"
  "code_at pt pc = Inl e \<longleftrightarrow> \<not> (0 \<le> pc \<and> pc < sizecode pt) \<and> e = OutOfArray"
  by (auto simp: code_at_def)

lemma k_at_simps [simp]:
  "k_at pt n = Inr v \<longleftrightarrow> 0 \<le> n \<and> n < sizek pt \<and> v = pk pt ! nat n"
  "k_at pt n = Inl e \<longleftrightarrow> \<not> (0 \<le> n \<and> n < sizek pt) \<and> e = OutOfArray"
  by (auto simp: k_at_def)

lemma p_at_simps [simp]:
  "p_at pt n = Inr f \<longleftrightarrow> 0 \<le> n \<and> n < sizep pt \<and> f = pp pt ! nat n"
  "p_at pt n = Inl e \<longleftrightarrow> \<not> (0 \<le> n \<and> n < sizep pt) \<and> e = OutOfArray"
  by (auto simp: p_at_def)

lemma symb_switch_advances:
  "symb_switch pt lastpc reg pc i b c lst = Inr (pc', lst') \<Longrightarrow> pc \<le> pc' \<and> (lst' = lst \<or> lst' = pc)"
  unfolding symb_switch_def Let_def
  by (force simp: results split: if_split_asm)

lemma symb_step_advances:
  "symb_step pt lastpc reg pc lst = Inr (pc', lst') \<Longrightarrow> pc \<le> pc' \<and> (lst' = lst \<or> lst' = pc)"
  unfolding symb_step_def Let_def
  by (auto simp: results split: if_split_asm dest!: symb_switch_advances)

text \<open>The guard of \<open>symb_loop\<close> never fails.\<close>

lemma symb_loop_eq:
  "symb_loop pt lastpc reg pc lst =
     (if pc < lastpc
      then bnd (symb_step pt lastpc reg pc lst) (\<lambda>(pc', lst').
           symb_loop pt lastpc reg (pc' + 1) lst')
      else Inr lst)"
proof (cases "symb_step pt lastpc reg pc lst")
  case (Inr r)
  obtain pc' lst' where r: "r = (pc', lst')" by fastforce
  with Inr have "pc \<le> pc'" using symb_step_advances by blast
  with Inr r show ?thesis by (subst symb_loop.simps) simp
qed (subst symb_loop.simps, simp)

lemma symb_operands_in_bounds: "symb_operands pt pc i \<noteq> Inl OutOfArray"
  unfolding symb_operands_def Let_def
  by (auto simp: results split: OpMode.splits if_split_asm)

text \<open>What the operand checks establish, by opcode.\<close>

lemma symb_operands_ABx:
  assumes "symb_operands pt pc i = Inr (b, c)" and "GET_OPCODE i = opcode op"
    and "op \<in> {OP_LOADK, OP_GETGLOBAL, OP_SETGLOBAL}"
  shows "0 \<le> b \<and> b < sizek pt \<and> b = GETARG_Bx i"
  using assms GETARG_range [of i]
  by (auto simp: symb_operands_def Let_def opmodes results split: if_split_asm)

lemma symb_operands_closure:
  assumes "symb_operands pt pc i = Inr (b, c)" and "GET_OPCODE i = opcode OP_CLOSURE"
  shows "0 \<le> b \<and> b = GETARG_Bx i"
  using assms GETARG_range [of i] by (auto simp: symb_operands_def Let_def opmodes results)

lemma symb_operands_ABC:
  assumes "symb_operands pt pc i = Inr (b, c)" and "GET_OPCODE i = opcode op"
    and "getOpMode (opcode op) = iABC"
  shows "b = GETARG_B i" "c = GETARG_C i" "checkArgMode pt b (getBMode (opcode op))"
    "checkArgMode pt c (getCMode (opcode op))"
  using assms by (auto simp: symb_operands_def Let_def results)

lemma symb_operands_AsBx:
  assumes "symb_operands pt pc i = Inr (b, c)" and "GET_OPCODE i = opcode op"
    and "op \<in> {OP_JMP, OP_FORLOOP, OP_FORPREP}"
  shows "b = GETARG_sBx i \<and> 0 \<le> pc + 1 + b \<and> pc + 1 + b < sizecode pt"
  using assms
  by (auto simp: symb_operands_def Let_def opmodes results split: if_split_asm)

lemma closure_pseudo_in_bounds:
  assumes "0 \<le> pc" and "pc + nup < sizecode pt"
  shows "symb_closure_pseudo pt pc nup \<noteq> Inl OutOfArray"
proof -
  have "\<forall>j\<in>set js. 1 \<le> j \<and> j \<le> nup \<Longrightarrow>
    foldr (\<lambda>j k. bnd (code_at pt (pc + j)) (\<lambda>i.
       bnd (check (GET_OPCODE i = opcode OP_GETUPVAL \<or> GET_OPCODE i = opcode OP_MOVE)) (\<lambda>_. k)))
      js (Inr ()) \<noteq> Inl OutOfArray" for js
    using assms by (induction js) (auto simp: results)
  then show ?thesis by (simp add: symb_closure_pseudo_def)
qed

lemma symb_switch_in_bounds:
  assumes op: "symb_operands pt pc i = Inr (b, c)"
    and pc: "0 \<le> pc" "pc < sizecode pt" "i = code pt ! nat pc"
    and ret: "GET_OPCODE (code pt ! nat (sizecode pt - 1)) = opcode OP_RETURN"
  shows "symb_switch pt lastpc reg pc i b c lst \<noteq> Inl OutOfArray"
proof -
  have nxt: "pc + 1 < sizecode pt" if "GET_OPCODE i \<noteq> opcode OP_RETURN"
  proof (rule ccontr)
    assume "\<not> pc + 1 < sizecode pt"
    with pc(2) have "pc = sizecode pt - 1" by linarith
    with that pc(3) ret show False by simp
  qed
  have k: "0 \<le> b \<and> b < sizek pt"
    if "GET_OPCODE i = opcode OP_GETGLOBAL \<or> GET_OPCODE i = opcode OP_SETGLOBAL"
    using that symb_operands_ABx [OF op] by blast
  have cl: "0 \<le> b" if "GET_OPCODE i = opcode OP_CLOSURE"
    using that symb_operands_closure [OF op] by blast
  show ?thesis
    unfolding symb_switch_def Let_def
    using nxt k cl closure_pseudo_in_bounds [OF pc(1)] pc(1)
    by (auto simp: results checkopenop_def split: if_split_asm)
qed

lemma symb_step_in_bounds:
  assumes "0 \<le> pc" "pc < sizecode pt"
    and ret: "GET_OPCODE (code pt ! nat (sizecode pt - 1)) = opcode OP_RETURN"
  shows "symb_step pt lastpc reg pc lst \<noteq> Inl OutOfArray"
proof
  assume "symb_step pt lastpc reg pc lst = Inl OutOfArray"
  then consider
      b c l where "symb_operands pt pc (code pt ! nat pc) = Inr (b, c)"
        "symb_switch pt lastpc reg pc (code pt ! nat pc) b c l = Inl OutOfArray"
    | "symb_operands pt pc (code pt ! nat pc) = Inl OutOfArray"
    using assms(1,2) unfolding symb_step_def Let_def
    by (auto simp: results split: if_split_asm)
  then show False
    using symb_switch_in_bounds [OF _ assms(1,2) refl ret] symb_operands_in_bounds by cases blast+
qed

lemma symb_loop_in_bounds:
  assumes "0 \<le> pc" and "lastpc \<le> sizecode pt" and "0 \<le> lst" "lst < sizecode pt"
    and "GET_OPCODE (code pt ! nat (sizecode pt - 1)) = opcode OP_RETURN"
  shows "symb_loop pt lastpc reg pc lst \<noteq> Inl OutOfArray
    \<and> (\<forall>r. symb_loop pt lastpc reg pc lst = Inr r \<longrightarrow> 0 \<le> r \<and> r < sizecode pt)"
  using assms
proof (induction pt lastpc reg pc lst rule: symb_loop.induct)
  case (1 pt lastpc reg pc lst)
  show ?case
  proof (cases "pc < lastpc")
    case False
    with "1.prems" show ?thesis by (simp add: symb_loop_eq)
  next
    case True
    show ?thesis
    proof (cases "symb_step pt lastpc reg pc lst")
      case (Inl e)
      moreover have "e \<noteq> OutOfArray"
        using symb_step_in_bounds [of pc pt lastpc reg lst] Inl True "1.prems" by auto
      ultimately show ?thesis using True by (simp add: symb_loop_eq)
    next
      case (Inr r)
      obtain pc' lst' where r: "r = (pc', lst')" by fastforce
      have adv: "pc \<le> pc'" "lst' = lst \<or> lst' = pc"
        using symb_step_advances Inr r by blast+
      then have "symb_loop pt lastpc reg (pc' + 1) lst' \<noteq> Inl OutOfArray
        \<and> (\<forall>r. symb_loop pt lastpc reg (pc' + 1) lst' = Inr r \<longrightarrow> 0 \<le> r \<and> r < sizecode pt)"
        using "1.prems" True by (intro "1.IH" [OF True Inr r [symmetric] adv(1)]) auto
      with True Inr r show ?thesis by (subst (1 2) symb_loop_eq) simp
    qed
  qed
qed

text \<open>
  The verifier and the symbolic execution behind error messages never read outside the
  prototype's arrays, provided there is at least one instruction.
\<close>

lemma symbexec_in_bounds:
  assumes "code pt \<noteq> []" and "lastpc \<le> sizecode pt"
  shows "symbexec pt lastpc reg \<noteq> Inl OutOfArray"
proof
  assume oob: "symbexec pt lastpc reg = Inl OutOfArray"
  have "precheck pt \<noteq> Inl OutOfArray"
    using assms(1) by (auto simp: precheck_def results)
  with oob obtain u where pre: "precheck pt = Inr u"
    unfolding symbexec_def bnd_eq_Inl by blast
  then have ret: "GET_OPCODE (code pt ! nat (sizecode pt - 1)) = opcode OP_RETURN"
    by (auto simp: precheck_def results)
  have "0 < sizecode pt" using assms(1) by simp
  then have lst: "0 \<le> sizecode pt - 1" "sizecode pt - 1 < sizecode pt" by linarith+
  from symb_loop_in_bounds [OF order_refl assms(2) lst ret] oob pre
  show False by (auto simp: symbexec_def results)
qed

section \<open>What an accepted function guarantees\<close>

text \<open>
  The words the interpreter executes as instructions: from the first one, each \<open>OP_SETLIST\<close>
  with \<open>C = 0\<close> is followed by a word that holds a count.
\<close>

definition instr_width :: "Instruction \<Rightarrow> int" where
  "instr_width i = (if GET_OPCODE i = opcode OP_SETLIST \<and> GETARG_C i = 0 then 2 else 1)"

inductive instr_pos :: "Proto \<Rightarrow> int \<Rightarrow> bool" where
  first: "code pt \<noteq> [] \<Longrightarrow> instr_pos pt 0"
| further: "instr_pos pt pc \<Longrightarrow> pc + instr_width (code pt ! nat pc) < sizecode pt \<Longrightarrow>
     instr_pos pt (pc + instr_width (code pt ! nat pc))"

lemma instr_pos_range: "instr_pos pt pc \<Longrightarrow> 0 \<le> pc \<and> pc < sizecode pt"
  by (induction rule: instr_pos.induct) (auto simp: instr_width_def)

definition reg_ok :: "Proto \<Rightarrow> int \<Rightarrow> bool" where
  "reg_ok pt r \<longleftrightarrow> 0 \<le> r \<and> r < uint (maxstacksize pt)"

definition rk_ok :: "Proto \<Rightarrow> int \<Rightarrow> bool" where
  "rk_ok pt r \<longleftrightarrow> (if ISK r then 0 \<le> INDEXK r \<and> INDEXK r < sizek pt else reg_ok pt r)"

definition operand_ok :: "Proto \<Rightarrow> OpArgMask \<Rightarrow> int \<Rightarrow> bool" where
  "operand_ok pt mode r \<longleftrightarrow>
     (mode = OpArgR \<longrightarrow> reg_ok pt r) \<and> (mode = OpArgK \<longrightarrow> rk_ok pt r)"

definition open_consumer :: "Proto \<Rightarrow> int \<Rightarrow> bool" where
  "open_consumer pt pc \<longleftrightarrow> pc < sizecode pt \<and> luaG_checkopenop (code pt ! nat pc)"

text \<open>
  The interpreter's \<open>OP_TFORLOOP\<close> copies the iterator, its state and the control variable to the
  three slots from \<open>A + 3\<close> before it calls them (\<open>lvm.c\<close>), whatever the number \<open>C\<close> of results is.
  A frame of \<open>maxstacksize\<close> registers is followed by at least \<open>EXTRA_STACK\<close> slots of the stack
  (\<open>lstate.h\<close>, \<open>luaD_reallocstack\<close>).
\<close>

definition EXTRA_STACK :: int where
  "EXTRA_STACK = 5"

definition stack_ok :: "Proto \<Rightarrow> int \<Rightarrow> bool" where
  "stack_ok pt r \<longleftrightarrow> 0 \<le> r \<and> r < uint (maxstacksize pt) + EXTRA_STACK"

definition tforloop_copies :: "Instruction \<Rightarrow> int list" where
  "tforloop_copies i = (let cb = GETARG_A i + 3 in [cb + 2, cb + 1, cb])"

text \<open>
  What the interpreter relies on when it executes the instruction at \<open>pc\<close>: the registers it
  touches are in the frame (the copies of \<open>OP_TFORLOOP\<close>: in the stack), the constants, upvalues
  and inner functions it names exist, the places it may continue at are inside the code.
\<close>

definition instr_ok :: "Proto \<Rightarrow> int \<Rightarrow> bool" where
  "instr_ok pt pc \<longleftrightarrow>
     (let i = code pt ! nat pc; a = GETARG_A i; b = GETARG_B i; c = GETARG_C i; bx = GETARG_Bx i;
          is_op = (\<lambda>op. GET_OPCODE i = opcode op)
      in (\<exists>op. is_op op \<and> (getOpMode (opcode op) = iABC \<longrightarrow>
             operand_ok pt (getBMode (opcode op)) b \<and> operand_ok pt (getCMode (opcode op)) c))
       \<and> reg_ok pt a
       \<and> (is_op OP_LOADK \<or> is_op OP_GETGLOBAL \<or> is_op OP_SETGLOBAL \<longrightarrow> bx < sizek pt)
       \<and> (is_op OP_GETGLOBAL \<or> is_op OP_SETGLOBAL \<longrightarrow> ttisstring (pk pt ! nat bx))
       \<and> (is_op OP_GETUPVAL \<or> is_op OP_SETUPVAL \<longrightarrow> b < uint (nups pt))
       \<and> (is_op OP_JMP \<or> is_op OP_FORLOOP \<or> is_op OP_FORPREP \<longrightarrow>
            0 \<le> pc + 1 + GETARG_sBx i \<and> pc + 1 + GETARG_sBx i < sizecode pt)
       \<and> (testTMode (GET_OPCODE i) \<longrightarrow>
            pc + 2 < sizecode pt \<and> GET_OPCODE (code pt ! nat (pc + 1)) = opcode OP_JMP)
       \<and> (is_op OP_LOADBOOL \<and> c \<noteq> 0 \<longrightarrow> pc + 2 < sizecode pt)
       \<and> (is_op OP_SELF \<longrightarrow> reg_ok pt (a + 1))
       \<and> (is_op OP_CONCAT \<longrightarrow> b < c)
       \<and> (is_op OP_TFORLOOP \<longrightarrow> 1 \<le> c \<and> reg_ok pt (a + 2 + c) \<and> reg_ok pt (a + 3)
            \<and> (\<forall>r\<in>set (tforloop_copies i). stack_ok pt r))
       \<and> (is_op OP_FORLOOP \<or> is_op OP_FORPREP \<longrightarrow> reg_ok pt (a + 3))
       \<and> (is_op OP_CALL \<or> is_op OP_TAILCALL \<longrightarrow>
            (b \<noteq> 0 \<longrightarrow> reg_ok pt (a + b - 1)) \<and> (c = 0 \<longrightarrow> open_consumer pt (pc + 1))
            \<and> (2 \<le> c \<longrightarrow> reg_ok pt (a + c - 2)))
       \<and> (is_op OP_RETURN \<and> 2 \<le> b \<longrightarrow> reg_ok pt (a + b - 2))
       \<and> (is_op OP_SETLIST \<and> 1 \<le> b \<longrightarrow> reg_ok pt (a + b))
       \<and> (is_op OP_CLOSURE \<longrightarrow> bx < sizep pt \<and> pc + uint (nups (pp pt ! nat bx)) < sizecode pt
            \<and> (\<forall>j\<in>{1..uint (nups (pp pt ! nat bx))}.
                 GET_OPCODE (code pt ! nat (pc + j)) \<in> {opcode OP_GETUPVAL, opcode OP_MOVE}))
       \<and> (is_op OP_VARARG \<longrightarrow> is_vararg pt AND VARARG_ISVARARG \<noteq> 0
            \<and> (b = 0 \<longrightarrow> open_consumer pt (pc + 1)) \<and> (2 \<le> b \<longrightarrow> reg_ok pt (a + b - 2))))"

text \<open>
  The words after an \<open>OP_CLOSURE\<close> say which registers and upvalues of the running function the
  new closure captures.
\<close>

definition captures_ok :: "Proto \<Rightarrow> int \<Rightarrow> bool" where
  "captures_ok pt pc \<longleftrightarrow>
     (GET_OPCODE (code pt ! nat pc) = opcode OP_CLOSURE \<longrightarrow>
       (\<forall>j\<in>{1..uint (nups (pp pt ! nat (GETARG_Bx (code pt ! nat pc))))}.
          let w = code pt ! nat (pc + j)
          in if GET_OPCODE w = opcode OP_GETUPVAL then GETARG_B w < uint (nups pt)
             else reg_ok pt (GETARG_B w)))"

definition safe_instr :: "Proto \<Rightarrow> int \<Rightarrow> bool" where
  "safe_instr pt pc \<longleftrightarrow> instr_ok pt pc \<and> captures_ok pt pc"

lemma symb_stepE:
  assumes "symb_step pt lastpc reg pc lst = Inr x"
  obtains op b c l where
    "0 \<le> pc" "pc < sizecode pt" "GET_OPCODE (code pt ! nat pc) = opcode op"
    "GETARG_A (code pt ! nat pc) < uint (maxstacksize pt)"
    "symb_operands pt pc (code pt ! nat pc) = Inr (b, c)"
    "testTMode (opcode op) \<longrightarrow>
       pc + 2 < sizecode pt \<and> GET_OPCODE (code pt ! nat (pc + 1)) = opcode OP_JMP"
    "symb_switch pt lastpc reg pc (code pt ! nat pc) b c l = Inr x"
proof -
  let ?i = "code pt ! nat pc"
  obtain b c l where *: "0 \<le> pc" "pc < sizecode pt" "GET_OPCODE ?i < NUM_OPCODES"
    "GETARG_A ?i < uint (maxstacksize pt)" "symb_operands pt pc ?i = Inr (b, c)"
    "testTMode (GET_OPCODE ?i) \<longrightarrow>
       pc + 2 < sizecode pt \<and> GET_OPCODE (code pt ! nat (pc + 1)) = opcode OP_JMP"
    "symb_switch pt lastpc reg pc ?i b c l = Inr x"
    using assms unfolding symb_step_def Let_def
    by (auto simp: results split: if_split_asm)
  moreover obtain op where "GET_OPCODE ?i = opcode op" using *(3) opcode_surj by blast
  ultimately show ?thesis by (intro that [of op b c l]) simp_all
qed

text \<open>In a full check the scan visits exactly the instruction words.\<close>

lemma symb_step_width:
  assumes "symb_step pt lastpc NO_REG pc lst = Inr (pc', lst')"
  shows "pc' + 1 = pc + instr_width (code pt ! nat pc)"
proof -
  from assms obtain op b c l where
    op: "GET_OPCODE (code pt ! nat pc) = opcode op"
    and abc: "symb_operands pt pc (code pt ! nat pc) = Inr (b, c)"
    and sw: "symb_switch pt lastpc NO_REG pc (code pt ! nat pc) b c l = Inr (pc', lst')"
    by (rule symb_stepE)
  have "c = GETARG_C (code pt ! nat pc)" if "op = OP_SETLIST"
    using symb_operands_ABC [OF abc op] that by (simp add: opmodes)
  then show ?thesis
    using sw unfolding symb_switch_def Let_def
    by (auto simp: instr_width_def op results split: if_split_asm)
qed

lemma symb_loop_visits:
  assumes "symb_loop pt (sizecode pt) NO_REG 0 lst = Inr r" and "instr_pos pt pc"
  shows "\<exists>l. symb_loop pt (sizecode pt) NO_REG pc l = Inr r"
  using assms(2,1)
proof (induction rule: instr_pos.induct)
  case (further pt pc)
  then obtain l where "symb_loop pt (sizecode pt) NO_REG pc l = Inr r" by blast
  moreover have "pc < sizecode pt" using further.hyps by (simp add: instr_pos_range)
  ultimately show ?case
    by (auto simp: symb_loop_eq [of pt _ _ pc] results) (metis symb_step_width)
qed blast

lemma checkArgMode_operand_ok:
  "checkArgMode pt r mode \<Longrightarrow> 0 \<le> r \<Longrightarrow> operand_ok pt mode r"
  by (auto simp: checkArgMode_def operand_ok_def rk_ok_def reg_ok_def INDEXK_def
      and_nonnegative_int_iff split: if_split_asm)

lemma closure_pseudo_Inr:
  assumes "symb_closure_pseudo pt pc nup = Inr u" and "1 \<le> j" "j \<le> nup"
  shows "GET_OPCODE (code pt ! nat (pc + j)) \<in> {opcode OP_GETUPVAL, opcode OP_MOVE}"
proof -
  have "foldr (\<lambda>j k. bnd (code_at pt (pc + j)) (\<lambda>i.
       bnd (check (GET_OPCODE i = opcode OP_GETUPVAL \<or> GET_OPCODE i = opcode OP_MOVE)) (\<lambda>_. k)))
      js (Inr ()) = Inr u \<Longrightarrow> j \<in> set js \<Longrightarrow> ?thesis" for js
    by (induction js) (auto simp: results)
  from this [of "[1..nup]"] assms show ?thesis by (simp add: symb_closure_pseudo_def)
qed

lemma symb_switch_closure:
  assumes "symb_switch pt lastpc reg pc i b c lst = Inr x" and "GET_OPCODE i = opcode OP_CLOSURE"
  shows "0 \<le> b \<and> b < sizep pt \<and> pc + uint (nups (pp pt ! nat b)) < sizecode pt
    \<and> (\<exists>u. symb_closure_pseudo pt pc (uint (nups (pp pt ! nat b))) = Inr u)"
  using assms by (auto simp: symb_switch_def Let_def results split: if_split_asm)

lemma symb_switch_call:
  assumes "symb_switch pt lastpc reg pc i b c lst = Inr x"
    and "GET_OPCODE i = opcode OP_CALL \<or> GET_OPCODE i = opcode OP_TAILCALL"
  shows "(b \<noteq> 0 \<longrightarrow> GETARG_A i + b - 1 < uint (maxstacksize pt))
    \<and> (c = 0 \<longrightarrow> open_consumer pt (pc + 1))
    \<and> (c \<noteq> 0 \<and> c \<noteq> 1 \<longrightarrow> GETARG_A i + c - 2 < uint (maxstacksize pt))"
  using assms
  by (auto simp: symb_switch_def Let_def results checkopenop_def open_consumer_def LUA_MULTRET_def
      split: if_split_asm)

lemma symb_switch_other:
  assumes "symb_switch pt lastpc reg pc i b c lst = Inr x" and "GET_OPCODE i = opcode op"
  shows "op = OP_LOADBOOL \<Longrightarrow> c \<noteq> 0 \<Longrightarrow> pc + 2 < sizecode pt"
    and "op = OP_GETUPVAL \<or> op = OP_SETUPVAL \<Longrightarrow> b < uint (nups pt)"
    and "op = OP_GETGLOBAL \<or> op = OP_SETGLOBAL \<Longrightarrow> ttisstring (pk pt ! nat b)"
    and "op = OP_SELF \<Longrightarrow> GETARG_A i + 1 < uint (maxstacksize pt)"
    and "op = OP_CONCAT \<Longrightarrow> b < c"
    and "op = OP_TFORLOOP \<Longrightarrow> 1 \<le> c \<and> GETARG_A i + 2 + c < uint (maxstacksize pt)"
    and "op = OP_FORLOOP \<or> op = OP_FORPREP \<Longrightarrow> GETARG_A i + 3 < uint (maxstacksize pt)"
    and "op = OP_RETURN \<Longrightarrow> 2 \<le> b \<Longrightarrow> GETARG_A i + b - 2 < uint (maxstacksize pt)"
    and "op = OP_SETLIST \<Longrightarrow> 1 \<le> b \<Longrightarrow> GETARG_A i + b < uint (maxstacksize pt)"
    and "op = OP_VARARG \<Longrightarrow> is_vararg pt AND VARARG_ISVARARG \<noteq> 0
      \<and> (b = 0 \<longrightarrow> open_consumer pt (pc + 1)) \<and> GETARG_A i + b - 2 < uint (maxstacksize pt)"
  using assms
  by (auto simp: symb_switch_def Let_def results checkopenop_def open_consumer_def LUA_MULTRET_def
      split: if_split_asm)

lemma symb_step_safe:
  assumes "symb_step pt lastpc reg pc lst = Inr x"
  shows "instr_ok pt pc"
proof -
  let ?i = "code pt ! nat pc"
  from assms obtain op b c l where
    op: "GET_OPCODE ?i = opcode op"
    and a: "GETARG_A ?i < uint (maxstacksize pt)"
    and abc: "symb_operands pt pc ?i = Inr (b, c)"
    and t: "testTMode (opcode op) \<longrightarrow>
       pc + 2 < sizecode pt \<and> GET_OPCODE (code pt ! nat (pc + 1)) = opcode OP_JMP"
    and sw: "symb_switch pt lastpc reg pc ?i b c l = Inr x"
    by (rule symb_stepE)
  note range = GETARG_range [of ?i]
  have ABC: "b = GETARG_B ?i \<and> c = GETARG_C ?i
      \<and> operand_ok pt (getBMode (opcode op)) b \<and> operand_ok pt (getCMode (opcode op)) c"
    if "getOpMode (opcode op) = iABC"
    using symb_operands_ABC [OF abc op that] range by (simp add: checkArgMode_operand_ok)
  have bx: "b = GETARG_Bx ?i \<and> b < sizek pt"
    if "op = OP_LOADK \<or> op = OP_GETGLOBAL \<or> op = OP_SETGLOBAL"
    using symb_operands_ABx [OF abc op] that by blast
  have sbx: "0 \<le> pc + 1 + GETARG_sBx ?i \<and> pc + 1 + GETARG_sBx ?i < sizecode pt"
    if "op = OP_JMP \<or> op = OP_FORLOOP \<or> op = OP_FORPREP"
    using symb_operands_AsBx [OF abc op] that by blast
  have cl: "GETARG_Bx ?i < sizep pt \<and> pc + uint (nups (pp pt ! nat (GETARG_Bx ?i))) < sizecode pt
      \<and> (\<forall>j\<in>{1..uint (nups (pp pt ! nat (GETARG_Bx ?i)))}.
           GET_OPCODE (code pt ! nat (pc + j)) \<in> {opcode OP_GETUPVAL, opcode OP_MOVE})"
    if "op = OP_CLOSURE"
    using symb_switch_closure [OF sw] symb_operands_closure [OF abc] op that
    by (auto dest: closure_pseudo_Inr)
  note call = symb_switch_call [OF sw]
  note other = symb_switch_other [OF sw op]
  have iABC: "getOpMode (opcode op) = iABC"
    if "op \<in> {OP_GETUPVAL, OP_SETUPVAL, OP_LOADBOOL, OP_CONCAT, OP_TFORLOOP, OP_CALL,
      OP_TAILCALL, OP_RETURN, OP_SETLIST, OP_VARARG}"
    using that by (auto simp: opmodes)
  show ?thesis
    unfolding instr_ok_def Let_def op opcode_inject
  proof (intro conjI exI [of _ op] refl)
    show "getOpMode (opcode op) = iABC \<longrightarrow> operand_ok pt (getBMode (opcode op)) (GETARG_B ?i) \<and>
        operand_ok pt (getCMode (opcode op)) (GETARG_C ?i)"
      using ABC by blast
    show "reg_ok pt (GETARG_A ?i)" using a range by (simp add: reg_ok_def)
    show "op = OP_LOADK \<or> op = OP_GETGLOBAL \<or> op = OP_SETGLOBAL \<longrightarrow> GETARG_Bx ?i < sizek pt"
      using bx by blast
    show "op = OP_GETGLOBAL \<or> op = OP_SETGLOBAL \<longrightarrow> ttisstring (pk pt ! nat (GETARG_Bx ?i))"
      using bx other(3) by blast
    show "op = OP_GETUPVAL \<or> op = OP_SETUPVAL \<longrightarrow> GETARG_B ?i < uint (nups pt)"
      using ABC iABC other(2) by auto
    show "op = OP_JMP \<or> op = OP_FORLOOP \<or> op = OP_FORPREP \<longrightarrow>
        0 \<le> pc + 1 + GETARG_sBx ?i \<and> pc + 1 + GETARG_sBx ?i < sizecode pt"
      using sbx by blast
    show "testTMode (opcode op) \<longrightarrow>
        pc + 2 < sizecode pt \<and> GET_OPCODE (code pt ! nat (pc + 1)) = opcode OP_JMP"
      by (rule t)
    show "op = OP_LOADBOOL \<and> GETARG_C ?i \<noteq> 0 \<longrightarrow> pc + 2 < sizecode pt"
      using ABC iABC other(1) by auto
    show "op = OP_SELF \<longrightarrow> reg_ok pt (GETARG_A ?i + 1)"
      using other(4) range by (simp add: reg_ok_def)
    show "op = OP_CONCAT \<longrightarrow> GETARG_B ?i < GETARG_C ?i"
      using ABC iABC other(5) by auto
    show "op = OP_TFORLOOP \<longrightarrow> 1 \<le> GETARG_C ?i \<and> reg_ok pt (GETARG_A ?i + 2 + GETARG_C ?i)
        \<and> reg_ok pt (GETARG_A ?i + 3) \<and> (\<forall>r\<in>set (tforloop_copies ?i). stack_ok pt r)"
      using ABC iABC other(6) range
      by (auto simp: reg_ok_def stack_ok_def tforloop_copies_def EXTRA_STACK_def)
    show "op = OP_FORLOOP \<or> op = OP_FORPREP \<longrightarrow> reg_ok pt (GETARG_A ?i + 3)"
      using other(7) range by (auto simp: reg_ok_def)
    show "op = OP_CALL \<or> op = OP_TAILCALL \<longrightarrow>
        (GETARG_B ?i \<noteq> 0 \<longrightarrow> reg_ok pt (GETARG_A ?i + GETARG_B ?i - 1))
        \<and> (GETARG_C ?i = 0 \<longrightarrow> open_consumer pt (pc + 1))
        \<and> (2 \<le> GETARG_C ?i \<longrightarrow> reg_ok pt (GETARG_A ?i + GETARG_C ?i - 2))"
      using ABC iABC call op range by (auto simp: reg_ok_def)
    show "op = OP_RETURN \<and> 2 \<le> GETARG_B ?i \<longrightarrow> reg_ok pt (GETARG_A ?i + GETARG_B ?i - 2)"
      using ABC iABC other(8) range by (auto simp: reg_ok_def)
    show "op = OP_SETLIST \<and> 1 \<le> GETARG_B ?i \<longrightarrow> reg_ok pt (GETARG_A ?i + GETARG_B ?i)"
      using ABC iABC other(9) range by (auto simp: reg_ok_def)
    show "op = OP_CLOSURE \<longrightarrow> GETARG_Bx ?i < sizep pt
        \<and> pc + uint (nups (pp pt ! nat (GETARG_Bx ?i))) < sizecode pt
        \<and> (\<forall>j\<in>{1..uint (nups (pp pt ! nat (GETARG_Bx ?i)))}.
             GET_OPCODE (code pt ! nat (pc + j)) \<in> {opcode OP_GETUPVAL, opcode OP_MOVE})"
      using cl by blast
    show "op = OP_VARARG \<longrightarrow> is_vararg pt AND VARARG_ISVARARG \<noteq> 0
        \<and> (GETARG_B ?i = 0 \<longrightarrow> open_consumer pt (pc + 1))
        \<and> (2 \<le> GETARG_B ?i \<longrightarrow> reg_ok pt (GETARG_A ?i + GETARG_B ?i - 2))"
      using ABC iABC other(10) range by (auto simp: reg_ok_def)
  qed
qed

lemma checkcode_symb_loop:
  assumes "luaG_checkcode pt = Inr True"
  obtains lst r where "symb_loop pt (sizecode pt) NO_REG 0 lst = Inr r"
    and "GET_OPCODE (code pt ! nat (sizecode pt - 1)) = opcode OP_RETURN"
  using assms
  by (auto simp: luaG_checkcode_def symbexec_def precheck_def results
      split: sum.splits symb_stop.splits)

lemma instr_pos_step:
  assumes "luaG_checkcode pt = Inr True" and "instr_pos pt pc"
  obtains lst x where "symb_step pt (sizecode pt) NO_REG pc lst = Inr x"
  using assms
  by (elim checkcode_symb_loop)
    (auto dest!: symb_loop_visits simp: symb_loop_eq [of pt _ _ pc] results instr_pos_range)

section \<open>The positions an accepted function executes\<close>

text \<open>
  Where \<open>luaV_execute\<close> (\<open>lvm.c\<close>) may continue after the instruction at \<open>pc\<close>: a test
  instruction skips the jump that follows it or takes it, \<open>OP_SETLIST\<close> with \<open>C = 0\<close> steps over its
  count, \<open>OP_CLOSURE\<close> over the words that describe the captured variables.
\<close>

definition successors :: "Proto \<Rightarrow> int \<Rightarrow> int list" where
  "successors pt pc =
     (let i = code pt ! nat pc; op = GET_OPCODE i
      in if op = opcode OP_RETURN then []
         else if op = opcode OP_JMP \<or> op = opcode OP_FORPREP then [pc + 1 + GETARG_sBx i]
         else if op = opcode OP_FORLOOP then [pc + 1, pc + 1 + GETARG_sBx i]
         else if testTMode op then [pc + 2, pc + 2 + GETARG_sBx (code pt ! nat (pc + 1))]
         else if op = opcode OP_LOADBOOL \<and> GETARG_C i \<noteq> 0 then [pc + 2]
         else if op = opcode OP_CLOSURE then [pc + 1 + uint (nups (pp pt ! nat (GETARG_Bx i)))]
         else [pc + instr_width i])"

inductive executed :: "Proto \<Rightarrow> int \<Rightarrow> bool" where
  entry: "executed pt 0"
| continue: "executed pt pc \<Longrightarrow> s \<in> set (successors pt pc) \<Longrightarrow> executed pt s"

text \<open>
  Two things the verifier does not check: that the count of an \<open>OP_SETLIST\<close> is not the last word,
  and that \<open>OP_LOADBOOL\<close> does not skip to a count.
\<close>

definition count_word :: "Proto \<Rightarrow> int \<Rightarrow> bool" where
  "count_word pt pc \<longleftrightarrow> 1 \<le> pc \<and> instr_width (code pt ! nat (pc - 1)) = 2"

definition counts_followed :: "Proto \<Rightarrow> bool" where
  "counts_followed pt \<longleftrightarrow> \<not> count_word pt (sizecode pt - 1) \<and> \<not> count_word pt (sizecode pt)"

definition skips_no_count :: "Proto \<Rightarrow> bool" where
  "skips_no_count pt \<longleftrightarrow>
     (\<forall>pc\<in>{0..<sizecode pt}. GET_OPCODE (code pt ! nat pc) = opcode OP_LOADBOOL
        \<and> GETARG_C (code pt ! nat pc) \<noteq> 0 \<longrightarrow> \<not> count_word pt (pc + 2))"

lemma instr_width_cases: "instr_width i = 1 \<or> instr_width i = 2"
  by (simp add: instr_width_def)

text \<open>Every word of the code is an instruction or the count of the one before it.\<close>

lemma instr_pos_or_count:
  "0 \<le> pc \<Longrightarrow> pc < sizecode pt \<Longrightarrow> instr_pos pt pc \<or> instr_pos pt (pc - 1) \<and> count_word pt pc"
proof (induction "nat pc" arbitrary: pc)
  case 0
  then have "pc = 0" "code pt \<noteq> []" by auto
  then show ?case by (simp add: instr_pos.first)
next
  case (Suc n)
  then have "instr_pos pt (pc - 1) \<or> instr_pos pt (pc - 1 - 1) \<and> count_word pt (pc - 1)"
    by (intro Suc.hyps(1)) auto
  then show ?case
  proof (elim disjE conjE)
    assume p: "instr_pos pt (pc - 1)"
    show ?thesis
    proof (cases "instr_width (code pt ! nat (pc - 1)) = 1")
      case True
      with instr_pos.further [OF p] Suc.prems show ?thesis by simp
    next
      case False
      then have "instr_width (code pt ! nat (pc - 1)) = 2" using instr_width_cases by blast
      moreover have "1 \<le> pc" using Suc.hyps(2) by linarith
      ultimately show ?thesis using p by (simp add: count_word_def)
    qed
  next
    assume p: "instr_pos pt (pc - 1 - 1)" "count_word pt (pc - 1)"
    then have "instr_width (code pt ! nat (pc - 1 - 1)) = 2" by (simp add: count_word_def)
    with instr_pos.further [OF p(1)] Suc.prems show ?thesis by simp
  qed
qed

lemma not_count_instr_pos:
  "0 \<le> pc \<Longrightarrow> pc < sizecode pt \<Longrightarrow> \<not> count_word pt pc \<Longrightarrow> instr_pos pt pc"
  using instr_pos_or_count by blast

lemma jump_not_to_count:
  assumes "symb_step pt lastpc reg pc lst = Inr x"
    and op: "GET_OPCODE (code pt ! nat pc) \<in> {opcode OP_JMP, opcode OP_FORLOOP, opcode OP_FORPREP}"
  shows "\<not> count_word pt (pc + 1 + GETARG_sBx (code pt ! nat pc))"
proof -
  from assms(1) obtain b c where
    "symb_operands pt pc (code pt ! nat pc) = Inr (b, c)" by (rule symb_stepE)
  with op show ?thesis
    by (auto simp: symb_operands_def Let_def opmodes results count_word_def instr_width_def
        split: if_split_asm)
qed

lemma successors_cases:
  assumes "s \<in> set (successors pt pc)"
  shows "GET_OPCODE (code pt ! nat pc) \<in> {opcode OP_JMP, opcode OP_FORLOOP, opcode OP_FORPREP}
       \<and> s = pc + 1 + GETARG_sBx (code pt ! nat pc)
    \<or> testTMode (GET_OPCODE (code pt ! nat pc))
       \<and> s \<in> {pc + 2, pc + 2 + GETARG_sBx (code pt ! nat (pc + 1))}
    \<or> GET_OPCODE (code pt ! nat pc) = opcode OP_LOADBOOL
       \<and> GETARG_C (code pt ! nat pc) \<noteq> 0 \<and> s = pc + 2
    \<or> GET_OPCODE (code pt ! nat pc) = opcode OP_CLOSURE
       \<and> s = pc + 1 + uint (nups (pp pt ! nat (GETARG_Bx (code pt ! nat pc))))
    \<or> GET_OPCODE (code pt ! nat pc) \<noteq> opcode OP_RETURN
       \<and> s = pc + instr_width (code pt ! nat pc)"
proof -
  have "instr_width (code pt ! nat pc) = 1" if "GET_OPCODE (code pt ! nat pc) = opcode OP_FORLOOP"
    using that by (simp add: instr_width_def)
  with assms show ?thesis unfolding successors_def Let_def by (auto split: if_split_asm)
qed

lemma accepted_successor:
  assumes acc: "luaG_checkcode pt = Inr True" and pos: "instr_pos pt pc"
    and s: "s \<in> set (successors pt pc)"
    and hazards: "counts_followed pt" "skips_no_count pt"
  shows "instr_pos pt s"
proof -
  let ?i = "code pt ! nat pc"
  obtain lst x where st: "symb_step pt (sizecode pt) NO_REG pc lst = Inr x"
    using instr_pos_step [OF acc pos] .
  note safe = symb_step_safe [OF st, unfolded instr_ok_def Let_def]
  have range: "0 \<le> pc" "pc < sizecode pt" using instr_pos_range [OF pos] by auto
  have ret: "GET_OPCODE (code pt ! nat (sizecode pt - 1)) = opcode OP_RETURN"
    using checkcode_symb_loop [OF acc] by blast
  have nxt: "instr_pos pt (pc + 1)"
    if "GET_OPCODE ?i \<noteq> opcode OP_RETURN" "instr_width ?i = 1"
  proof -
    have "pc \<noteq> sizecode pt - 1" using that(1) ret by auto
    with instr_pos.further [OF pos] that(2) range show ?thesis by simp
  qed
  have jump: "instr_pos pt (pc + 1 + GETARG_sBx ?i)"
    if "GET_OPCODE ?i \<in> {opcode OP_JMP, opcode OP_FORLOOP, opcode OP_FORPREP}"
    using jump_not_to_count [OF st that] safe that by (intro not_count_instr_pos) auto
  consider
      (jmp) "GET_OPCODE ?i \<in> {opcode OP_JMP, opcode OP_FORLOOP, opcode OP_FORPREP}"
        "s = pc + 1 + GETARG_sBx ?i"
    | (test) "testTMode (GET_OPCODE ?i)"
        "s \<in> {pc + 2, pc + 2 + GETARG_sBx (code pt ! nat (pc + 1))}"
    | (lbool) "GET_OPCODE ?i = opcode OP_LOADBOOL" "GETARG_C ?i \<noteq> 0" "s = pc + 2"
    | (clos) "GET_OPCODE ?i = opcode OP_CLOSURE"
        "s = pc + 1 + uint (nups (pp pt ! nat (GETARG_Bx ?i)))"
    | (plain) "GET_OPCODE ?i \<noteq> opcode OP_RETURN" "s = pc + instr_width ?i"
    using successors_cases [OF s] by blast
  then show ?thesis
  proof cases
    case jmp
    with jump show ?thesis by simp
  next
    case test
    then have w: "instr_width ?i = 1" "GET_OPCODE ?i \<noteq> opcode OP_RETURN"
      by (auto simp: instr_width_def opmodes)
    let ?j = "code pt ! nat (pc + 1)"
    have j: "GET_OPCODE ?j = opcode OP_JMP" "pc + 2 < sizecode pt"
      using safe test(1) by auto
    have pos1: "instr_pos pt (pc + 1)" by (rule nxt [OF w(2,1)])
    obtain lst' x' where st1: "symb_step pt (sizecode pt) NO_REG (pc + 1) lst' = Inr x'"
      using instr_pos_step [OF acc pos1] .
    note safe1 = symb_step_safe [OF st1, unfolded instr_ok_def Let_def]
    have "instr_width ?j = 1" using j(1) by (simp add: instr_width_def)
    then have "instr_pos pt (pc + 2)"
      using instr_pos.further [OF pos1] j(2) by (simp add: add.commute)
    moreover have "instr_pos pt (pc + 2 + GETARG_sBx ?j)"
      using jump_not_to_count [OF st1] safe1 j(1) by (intro not_count_instr_pos) (auto simp: add.assoc)
    ultimately show ?thesis using test(2) by auto
  next
    case lbool
    have "pc + 2 < sizecode pt" using safe lbool(1,2) by simp
    moreover have "\<not> count_word pt (pc + 2)"
      using hazards(2) lbool(1,2) range unfolding skips_no_count_def by auto
    ultimately show ?thesis using lbool(3) range by (simp add: not_count_instr_pos)
  next
    case clos
    let ?nup = "uint (nups (pp pt ! nat (GETARG_Bx ?i)))"
    have pseudo: "pc + ?nup < sizecode pt" "\<forall>j\<in>{1..?nup}.
        GET_OPCODE (code pt ! nat (pc + j)) \<in> {opcode OP_GETUPVAL, opcode OP_MOVE}"
      using safe clos(1) by auto
    have last_word: "GET_OPCODE (code pt ! nat (pc + ?nup)) \<notin> {opcode OP_RETURN, opcode OP_SETLIST}"
    proof (cases "?nup = 0")
      case True
      with clos(1) show ?thesis by simp
    next
      case False
      moreover have "0 \<le> ?nup" by (rule uint_ge_0)
      ultimately have "1 \<le> ?nup" by linarith
      then have "?nup \<in> {1..?nup}" by simp
      with pseudo(2) have "GET_OPCODE (code pt ! nat (pc + ?nup)) \<in> {opcode OP_GETUPVAL, opcode OP_MOVE}"
        by blast
      then show ?thesis by auto
    qed
    then have "pc + ?nup \<noteq> sizecode pt - 1" using ret by auto
    moreover have "\<not> count_word pt s"
      using last_word clos(2) by (auto simp: count_word_def instr_width_def algebra_simps)
    moreover have "0 \<le> s" using clos(2) range(1) uint_ge_0 by simp
    ultimately show ?thesis using pseudo(1) clos(2) by (intro not_count_instr_pos) auto
  next
    case plain
    show ?thesis
    proof (cases "instr_width ?i = 1")
      case True
      with nxt plain show ?thesis by simp
    next
      case False
      then have w: "instr_width ?i = 2" using instr_width_cases by blast
      then have "count_word pt (pc + 1)" using range by (simp add: count_word_def)
      with hazards(1) have "pc + 1 \<noteq> sizecode pt - 1" "pc + 1 \<noteq> sizecode pt"
        unfolding counts_followed_def by metis+
      with range(2) have "pc + 2 < sizecode pt" by linarith
      with instr_pos.further [OF pos] w plain(2) show ?thesis by simp
    qed
  qed
qed

lemma accepted_executed:
  assumes "luaG_checkcode pt = Inr True" and "counts_followed pt" "skips_no_count pt"
    and "executed pt pc"
  shows "instr_pos pt pc"
  using assms(4,1-3)
proof (induction rule: executed.induct)
  case (entry pt)
  then have "code pt \<noteq> []"
    by (auto simp: luaG_checkcode_def symbexec_def precheck_def results
        split: sum.splits symb_stop.splits)
  then show ?case by (rule instr_pos.first)
next
  case (continue pt pc s)
  then show ?case using accepted_successor by blast
qed

text \<open>The verifier runs on concrete functions by these rules.\<close>

lemmas verifier_eval = luaG_checkcode_def symbexec_def symb_loop_eq symb_step_def
  symb_operands_def symb_switch_def Let_def code_at_def k_at_def p_at_def check_def require_def
  checkArgMode_def checkreg_def checkopenop_def luaG_checkopenop_def precheck_def MAXSTACK_def
  LUA_MULTRET_def encoded opmodes

lemma instruction_nonzero: "GET_OPCODE i = opcode op \<Longrightarrow> op \<noteq> OP_MOVE \<Longrightarrow> i \<noteq> 0"
  using opcode_inject [of op OP_MOVE] by (auto simp: opcode.simps(1) GET_OPCODE_def)

text \<open>A full check visits the capture words of an \<open>OP_CLOSURE\<close> too, as instructions of one word.\<close>

lemma instr_ok_closure:
  assumes "instr_ok pt pc" and "GET_OPCODE (code pt ! nat pc) = opcode OP_CLOSURE"
  shows "pc + uint (nups (pp pt ! nat (GETARG_Bx (code pt ! nat pc)))) < sizecode pt
    \<and> (\<forall>j\<in>{1..uint (nups (pp pt ! nat (GETARG_Bx (code pt ! nat pc))))}.
         GET_OPCODE (code pt ! nat (pc + j)) \<in> {opcode OP_GETUPVAL, opcode OP_MOVE})"
proof -
  let ?i = "code pt ! nat pc"
  let ?n = "uint (nups (pp pt ! nat (GETARG_Bx ?i)))"
  have "GET_OPCODE ?i = opcode OP_CLOSURE \<longrightarrow> GETARG_Bx ?i < sizep pt \<and> pc + ?n < sizecode pt
      \<and> (\<forall>j\<in>{1..?n}. GET_OPCODE (code pt ! nat (pc + j)) \<in> {opcode OP_GETUPVAL, opcode OP_MOVE})"
    using assms(1) unfolding instr_ok_def Let_def by (elim conjE)
  with assms(2) show ?thesis by blast
qed

lemma instr_ok_upvalue:
  assumes "instr_ok pt pc" and "GET_OPCODE (code pt ! nat pc) = opcode OP_GETUPVAL"
  shows "GETARG_B (code pt ! nat pc) < uint (nups pt)"
proof -
  have "GET_OPCODE (code pt ! nat pc) = opcode OP_GETUPVAL \<or> GET_OPCODE (code pt ! nat pc) = opcode OP_SETUPVAL
      \<longrightarrow> GETARG_B (code pt ! nat pc) < uint (nups pt)"
    using assms(1) unfolding instr_ok_def Let_def by (elim conjE)
  with assms(2) show ?thesis by blast
qed

lemma instr_ok_register:
  assumes "instr_ok pt pc" and "GET_OPCODE (code pt ! nat pc) = opcode OP_MOVE"
  shows "reg_ok pt (GETARG_B (code pt ! nat pc))"
proof -
  have "\<exists>op. GET_OPCODE (code pt ! nat pc) = opcode op \<and> (getOpMode (opcode op) = iABC \<longrightarrow>
      operand_ok pt (getBMode (opcode op)) (GETARG_B (code pt ! nat pc))
      \<and> operand_ok pt (getCMode (opcode op)) (GETARG_C (code pt ! nat pc)))"
    using assms(1) unfolding instr_ok_def Let_def by (rule conjunct1)
  then obtain op where "GET_OPCODE (code pt ! nat pc) = opcode op"
    "getOpMode (opcode op) = iABC \<longrightarrow> operand_ok pt (getBMode (opcode op)) (GETARG_B (code pt ! nat pc))"
    by blast
  with assms(2) show ?thesis by (simp add: operand_ok_def opmodes)
qed

lemma capture_words_visited:
  assumes acc: "luaG_checkcode pt = Inr True" and pos: "instr_pos pt pc"
    and clos: "GET_OPCODE (code pt ! nat pc) = opcode OP_CLOSURE"
    and n: "n = uint (nups (pp pt ! nat (GETARG_Bx (code pt ! nat pc))))"
    and j: "j \<le> nat n"
  shows "instr_pos pt (pc + int j)"
  using j
proof (induction j)
  case 0
  then show ?case using pos by simp
next
  case (Suc j)
  then have IH: "instr_pos pt (pc + int j)" by simp
  obtain lst x where "symb_step pt (sizecode pt) NO_REG pc lst = Inr x"
    using instr_pos_step [OF acc pos] .
  from instr_ok_closure [OF symb_step_safe [OF this] clos]
  have words: "pc + n < sizecode pt" "\<forall>j\<in>{1..n}.
      GET_OPCODE (code pt ! nat (pc + j)) \<in> {opcode OP_GETUPVAL, opcode OP_MOVE}"
    by (simp_all add: n)
  have "instr_width (code pt ! nat (pc + int j)) = 1"
  proof (cases "j = 0")
    case True
    then show ?thesis using clos by (simp add: instr_width_def)
  next
    case False
    then have "int j \<in> {1..n}" using Suc.prems by auto
    with words(2) show ?thesis by (fastforce simp: instr_width_def)
  qed
  moreover have "pc + int j + 1 < sizecode pt" using words(1) Suc.prems by linarith
  ultimately show ?case using instr_pos.further [OF IH] by (simp add: algebra_simps)
qed

lemma visited_safe:
  assumes acc: "luaG_checkcode pt = Inr True" and pos: "instr_pos pt pc"
  shows "safe_instr pt pc"
proof -
  have ok: "instr_ok pt q" if q: "instr_pos pt q" for q
  proof -
    obtain lst x where "symb_step pt (sizecode pt) NO_REG q lst = Inr x"
      using instr_pos_step [OF acc q] .
    then show ?thesis by (rule symb_step_safe)
  qed
  have "captures_ok pt pc"
    unfolding captures_ok_def Let_def
  proof (intro impI ballI)
    fix j
    let ?w = "code pt ! nat (pc + j)"
    assume clos: "GET_OPCODE (code pt ! nat pc) = opcode OP_CLOSURE"
      and j: "j \<in> {1..uint (nups (pp pt ! nat (GETARG_Bx (code pt ! nat pc))))}"
    have "nat j \<le> nat (uint (nups (pp pt ! nat (GETARG_Bx (code pt ! nat pc)))))"
      using j by (intro nat_mono) simp
    then have "instr_pos pt (pc + int (nat j))" by (rule capture_words_visited [OF acc pos clos refl])
    moreover have "int (nat j) = j" using j by simp
    ultimately have w: "instr_ok pt (pc + j)" by (intro ok) simp
    have "GET_OPCODE ?w \<in> {opcode OP_GETUPVAL, opcode OP_MOVE}"
      using conjunct2 [OF instr_ok_closure [OF ok [OF pos] clos]] j by (rule bspec)
    then show "if GET_OPCODE ?w = opcode OP_GETUPVAL then GETARG_B ?w < uint (nups pt)
        else reg_ok pt (GETARG_B ?w)"
      using instr_ok_upvalue [OF w] instr_ok_register [OF w] by (cases "GET_OPCODE ?w = opcode OP_GETUPVAL") simp_all
  qed
  with ok [OF pos] show ?thesis by (simp add: safe_instr_def)
qed

section \<open>Properties\<close>

text \<open>
  C1: when the verifier accepts a function whose \<open>OP_SETLIST\<close> counts are followed by an instruction
  and whose \<open>OP_LOADBOOL\<close> skips do not land on a count, every position execution can reach from
  the entry is inside the code, and the instruction there is safe: the registers, constants,
  upvalues and inner functions it names (the captures of an \<open>OP_CLOSURE\<close> included) exist and its
  jumps stay inside. The three slots \<open>OP_TFORLOOP\<close> copies its call to are the exception: they are
  in the stack, and only the first is sure to be in the frame.
\<close>

theorem accepted_execution_safe:
  assumes "luaG_checkcode pt = Inr True" and "counts_followed pt" and "skips_no_count pt"
    and "executed pt pc"
  shows "0 \<le> pc \<and> pc < sizecode pt \<and> safe_instr pt pc"
proof -
  have pos: "instr_pos pt pc" by (rule accepted_executed [OF assms])
  then show ?thesis using visited_safe [OF assms(1)] instr_pos_range [OF pos] by blast
qed

text \<open>A loop with a test, a jump back and a call, in the encoding of \<open>lopcodes.h\<close>.\<close>

definition ex_loop :: Proto where
  "ex_loop = Proto [LNumber 0, LString [112]]
     [CREATE_ABx (opcode OP_GETGLOBAL) 0 1, CREATE_ABC (opcode OP_EQ) 0 0 256,
      CREATE_ABx (opcode OP_JMP) 0 131072, CREATE_ABC (opcode OP_CALL) 0 1 1,
      CREATE_ABx (opcode OP_JMP) 0 131066, CREATE_ABC (opcode OP_RETURN) 0 1 0]
     [] [] [] [] None 0 0 0 0 0 2"

lemma ex_loop_accepted: "luaG_checkcode ex_loop = Inr True"
proof -
  have "CREATE_ABC (opcode OP_CALL) 0 1 1 \<noteq> 0"
    by (rule instruction_nonzero [of _ OP_CALL]) (simp_all add: encoded)
  then show ?thesis by (simp add: verifier_eval ex_loop_def del: check_simps code_at_simps)
qed

lemma ex_loop_facts:
  "counts_followed ex_loop" "skips_no_count ex_loop"
  "successors ex_loop 0 = [1]" "successors ex_loop 1 = [3, 4]"
  by code_simp+

lemma ex_loop_executed: "executed ex_loop 3"
proof -
  have "executed ex_loop 1"
    by (rule executed.continue [OF executed.entry]) (simp add: ex_loop_facts)
  then show ?thesis by (rule executed.continue) (simp add: ex_loop_facts)
qed

theorem accepted_execution_safe_witness:
  "0 \<le> (3::int) \<and> 3 < sizecode ex_loop \<and> safe_instr ex_loop 3"
  by (rule accepted_execution_safe [OF ex_loop_accepted ex_loop_facts(1,2) ex_loop_executed])

text \<open>
  C2: the verifier accepts a function whose last \<open>OP_SETLIST\<close> takes the final \<open>OP_RETURN\<close> for its
  count, so that execution runs past the end of the code.
\<close>

definition ex_setlist :: Proto where
  "ex_setlist = Proto [] [CREATE_ABC (opcode OP_SETLIST) 0 1 0, CREATE_ABC (opcode OP_RETURN) 0 1 0]
     [] [] [] [] None 0 0 0 0 0 2"

theorem verifier_misses_final_count:
  "luaG_checkcode ex_setlist = Inr True \<and> executed ex_setlist (sizecode ex_setlist)"
proof
  have "CREATE_ABC (opcode OP_RETURN) 0 1 0 \<noteq> 0"
    by (rule instruction_nonzero [of _ OP_RETURN]) (simp_all add: encoded)
  then show "luaG_checkcode ex_setlist = Inr True"
    by (simp add: verifier_eval ex_setlist_def del: check_simps code_at_simps)
  have "2 \<in> set (successors ex_setlist 0)"
    by (simp add: successors_def ex_setlist_def encoded opmodes instr_width_def)
  from executed.continue [OF executed.entry this]
  show "executed ex_setlist (sizecode ex_setlist)" by (simp add: ex_setlist_def)
qed

text \<open>
  C3: the verifier accepts a function whose \<open>OP_LOADBOOL\<close> skips to the count of an \<open>OP_SETLIST\<close>:
  the count is then executed, and here it is not even an opcode.
\<close>

definition ex_loadbool :: Proto where
  "ex_loadbool = Proto [] [CREATE_ABC (opcode OP_LOADBOOL) 0 0 1,
     CREATE_ABC (opcode OP_SETLIST) 0 1 0, 63, CREATE_ABC (opcode OP_RETURN) 0 1 0]
     [] [] [] [] None 0 0 0 0 0 2"

theorem verifier_misses_skip_to_count:
  "luaG_checkcode ex_loadbool = Inr True \<and> executed ex_loadbool 2 \<and> \<not> safe_instr ex_loadbool 2"
proof (intro conjI)
  have "CREATE_ABC (opcode OP_RETURN) 0 1 0 \<noteq> 0"
    by (rule instruction_nonzero [of _ OP_RETURN]) (simp_all add: encoded)
  then show "luaG_checkcode ex_loadbool = Inr True"
    by (simp add: verifier_eval ex_loadbool_def del: check_simps code_at_simps)
  have "2 \<in> set (successors ex_loadbool 0)"
    by (simp add: successors_def ex_loadbool_def encoded opmodes)
  from executed.continue [OF executed.entry this] show "executed ex_loadbool 2" .
  have "GET_OPCODE (code ex_loadbool ! nat 2) = 63" by code_simp
  moreover have "opcode op \<noteq> 63" for op by (cases op) (simp_all add: opcode.simps)
  ultimately show "\<not> safe_instr ex_loadbool 2" by (auto simp: safe_instr_def instr_ok_def Let_def)
qed

text \<open>
  C4: the verifier accepts a generic \<open>for\<close> loop that asks for one result in a frame that ends
  there: the interpreter's copies of the iterator's state and of the control variable then go
  past the registers of the frame.
\<close>

definition ex_tforloop :: Proto where
  "ex_tforloop = Proto [] [CREATE_ABC (opcode OP_TFORLOOP) 0 0 1,
     CREATE_ABx (opcode OP_JMP) 0 131069, CREATE_ABC (opcode OP_RETURN) 0 1 0]
     [] [] [] [] None 0 0 0 0 0 4"

theorem verifier_misses_tforloop_copies:
  "luaG_checkcode ex_tforloop = Inr True \<and> executed ex_tforloop 0
   \<and> GET_OPCODE (code ex_tforloop ! 0) = opcode OP_TFORLOOP
   \<and> filter (\<lambda>r. \<not> reg_ok ex_tforloop r) (tforloop_copies (code ex_tforloop ! 0)) = [5, 4]"
proof (intro conjI)
  have "CREATE_ABC (opcode OP_RETURN) 0 1 0 \<noteq> 0"
    by (rule instruction_nonzero [of _ OP_RETURN]) (simp_all add: encoded)
  moreover have "CREATE_ABC (opcode OP_TFORLOOP) 0 0 1 \<noteq> 0"
    by (rule instruction_nonzero [of _ OP_TFORLOOP]) (simp_all add: encoded)
  ultimately show "luaG_checkcode ex_tforloop = Inr True"
    by (simp add: verifier_eval ex_tforloop_def del: check_simps code_at_simps)
  show "executed ex_tforloop 0" by (rule executed.entry)
  show "GET_OPCODE (code ex_tforloop ! 0) = opcode OP_TFORLOOP"
    by (simp add: ex_tforloop_def encoded)
  show "filter (\<lambda>r. \<not> reg_ok ex_tforloop r) (tforloop_copies (code ex_tforloop ! 0)) = [5, 4]"
    by (simp add: ex_tforloop_def encoded tforloop_copies_def reg_ok_def)
qed

text \<open>
  C10: the verifier reads outside the function's arrays exactly when the function has no code and
  passes the checks made before the last instruction is read; with code it never does, whatever
  the instructions are.
\<close>

theorem checkcode_out_of_array_iff:
  "luaG_checkcode pt = Inl OutOfArray \<longleftrightarrow>
     code pt = [] \<and> uint (maxstacksize pt) \<le> MAXSTACK \<and> sizeupvalues pt \<le> uint (nups pt)
     \<and> lineinfo pt = []"
proof (cases "code pt = []")
  case True
  then show ?thesis
    by (auto simp: luaG_checkcode_def symbexec_def precheck_def results
        split: sum.splits symb_stop.splits)
next
  case False
  with symbexec_in_bounds [OF False order_refl]
  show ?thesis by (auto simp: luaG_checkcode_def split: sum.splits symb_stop.splits)
qed

end
