(* ===== verification/Zio.thy ===== *)
theory Zio
  imports Prelude
begin

text \<open>
  Buffered input streams (\<open>lzio.c\<close>, \<open>lzio.h\<close>) and the reader of \<open>luaL_loadbuffer\<close>
  (\<open>getS\<close> of \<open>lauxlib.c\<close>). A stream calls back a reader that hands out the input in chunks; \<open>zbuf\<close>
  is the current chunk, \<open>zp\<close> the position in it and \<open>zn\<close> the \<open>size_t\<close> count of unread bytes, kept
  apart as in the code, so that a count that disagrees with the chunk shows as \<open>OutOfBounds\<close>.
\<close>

section \<open>Streams\<close>

definition EOZ :: int where "EOZ = - 1"

record 'd ZIO =
  zn :: u32
  zbuf :: "byte list"
  zp :: nat
  reader :: "'d \<Rightarrow> byte list option \<times> 'd"
  zdata :: 'd
  isWide :: bool

definition luaZ_init :: "('d \<Rightarrow> byte list option \<times> 'd) \<Rightarrow> 'd \<Rightarrow> 'd ZIO" where
  "luaZ_init rd d = \<lparr>zn = 0, zbuf = [], zp = 0, reader = rd, zdata = d, isWide = False\<rparr>"

text \<open>The byte at \<open>p + i\<close>.\<close>

definition zpeek :: "'d ZIO \<Rightarrow> nat \<Rightarrow> byte result" where
  "zpeek z i = (if zp z + i < length (zbuf z) then Inr (zbuf z ! (zp z + i)) else Inl OutOfBounds)"

definition luaZ_fill :: "'d ZIO \<Rightarrow> int \<times> 'd ZIO" where
  "luaZ_fill z =
     (let (buff, d) = reader z (zdata z); z = z\<lparr>zdata := d\<rparr>
      in case buff of
           None \<Rightarrow> (EOZ, z)
         | Some bs \<Rightarrow>
             (let size = of_nat (length bs) :: u32
              in if size = 0 then (EOZ, z)
                 else (uint (hd bs), z\<lparr>zn := size - 1, zbuf := bs, zp := 1\<rparr>)))"

text \<open>The macro \<open>zgetc\<close>; the count is decremented even when it is zero.\<close>

definition zgetc :: "'d ZIO \<Rightarrow> (int \<times> 'd ZIO) result" where
  "zgetc z =
     (let n = zn z; z = z\<lparr>zn := n - 1\<rparr>
      in if n > 0 then bnd (zpeek z 0) (\<lambda>b. Inr (uint b, z\<lparr>zp := zp z + 1\<rparr>))
         else Inr (luaZ_fill z))"

definition luaZ_lookahead :: "'d ZIO \<Rightarrow> (int \<times> 'd ZIO) result" where
  "luaZ_lookahead z =
     (let peek = (\<lambda>z. bnd (zpeek z 0) (\<lambda>b. Inr (uint b, z)))
      in if zn z = 0
         then (let (c, z) = luaZ_fill z
               in if c = EOZ then Inr (EOZ, z)
                  else peek (z\<lparr>zn := zn z + 1, zp := zp z - 1\<rparr>))
         else peek z)"

text \<open>
  Two bytes ahead, in the byte order of the host (\<open>le\<close>: little-endian). Only one byte is known to
  be there.
\<close>

definition wchar_of :: "bool \<Rightarrow> byte \<Rightarrow> byte \<Rightarrow> int" where
  "wchar_of le b0 b1 = (if le then uint b0 + 256 * uint b1 else uint b1 + 256 * uint b0)"

definition luaZ_lookahead_2 :: "bool \<Rightarrow> 'd ZIO \<Rightarrow> (int \<times> 'd ZIO) result" where
  "luaZ_lookahead_2 le z =
     (let peek = (\<lambda>z. bnd (zpeek z 0) (\<lambda>b0. bnd (zpeek z 1) (\<lambda>b1. Inr (wchar_of le b0 b1, z))))
      in if zn z = 0
         then (let (c, z) = luaZ_fill z
               in if c = EOZ then Inr (c, z)
                  else peek (z\<lparr>zn := zn z + 1, zp := zp z - 1\<rparr>))
         else peek z)"

lemma uint_byte_not_EOZ [simp]: "uint (b :: byte) \<noteq> EOZ"
proof -
  have "0 \<le> uint b" by (rule uint_ge_0)
  then show ?thesis unfolding EOZ_def by linarith
qed

text \<open>Copying \<open>m\<close> bytes from the current position.\<close>

definition zcopy :: "'d ZIO \<Rightarrow> u32 \<Rightarrow> byte list result" where
  "zcopy z m =
     (if zp z + unat m \<le> length (zbuf z) then Inr (take (unat m) (drop (zp z) (zbuf z)))
      else Inl OutOfBounds)"

lemma lookahead_count:
  "luaZ_lookahead z = Inr (c, z') \<Longrightarrow> c \<noteq> EOZ \<Longrightarrow> zn z' \<noteq> 0"
  by (auto simp: luaZ_lookahead_def luaZ_fill_def Let_def results split: if_split_asm prod.splits option.splits)

text \<open>\<open>luaZ_read\<close>: the number of missing bytes, the bytes read, and the stream.\<close>

function luaZ_read :: "'d ZIO \<Rightarrow> u32 \<Rightarrow> (u32 \<times> byte list \<times> 'd ZIO) result" where
  "luaZ_read z n =
     (if n = 0 then Inr (0, [], z)
      else bnd (luaZ_lookahead z) (\<lambda>(c, z).
        if c = EOZ then Inr (n, [], z)
        else let m = (if n \<le> zn z then n else zn z)
             in bnd (zcopy z m) (\<lambda>bs.
                bnd (luaZ_read (z\<lparr>zn := zn z - m, zp := zp z + unat m\<rparr>) (n - m)) (\<lambda>(r, bs', z).
                Inr (r, bs @ bs', z)))))"
  by pat_completeness auto
termination
proof (relation "measure (\<lambda>(z, n). unat n)", goal_cases)
  case (2 z n cz c z' m bs)
  then have "zn z' \<noteq> 0" using lookahead_count by (metis)
  with 2 have "0 < unat m" "m \<le> n" by (auto simp: unat_gt_0 split: if_splits)
  then show ?case by (simp add: unat_sub) (metis diff_less unat_mono not_gr_zero unat_0 less_nat_zero_code order_less_le_trans word_le_nat_alt)
qed simp

declare luaZ_read.simps [simp del]

section \<open>Buffers\<close>

text \<open>
  \<open>Mbuffer\<close>: \<open>mbuffer\<close> are the \<open>buffsize\<close> bytes allocated, of which the first \<open>mn\<close> are in use.
  Growing an allocation keeps its contents; the bytes that are added are arbitrary (\<open>undef\<close>).
\<close>

definition LUA_MINBUFFER :: u32 where "LUA_MINBUFFER = 32"

record Mbuffer =
  mbuffer :: "byte list"
  mn :: u32
  buffsize :: u32

definition luaZ_initbuffer :: "Mbuffer \<Rightarrow> Mbuffer" where
  "luaZ_initbuffer b = b\<lparr>mbuffer := [], buffsize := 0\<rparr>"

definition luaZ_resetbuffer :: "Mbuffer \<Rightarrow> Mbuffer" where
  "luaZ_resetbuffer b = b\<lparr>mn := 0\<rparr>"

definition realloc_bytes :: "(nat \<Rightarrow> byte) \<Rightarrow> byte list \<Rightarrow> nat \<Rightarrow> byte list" where
  "realloc_bytes undef bs n = take n bs @ map undef [length bs..<n]"

text \<open>\<open>luaM_reallocv\<close>: the block-size check of \<open>lmem.h\<close>, for \<open>n\<close> elements of \<open>e\<close> bytes.\<close>

definition luaM_toobig :: "'a result" where
  "luaM_toobig = Inl (ErrRun ''memory allocation error: block too big'')"

definition luaM_reallocv :: "u32 \<Rightarrow> u32 \<Rightarrow> unit result" where
  "luaM_reallocv n e = (if n + 1 \<le> MAX_SIZET div e then Inr () else luaM_toobig)"

definition luaZ_resizebuffer :: "(nat \<Rightarrow> byte) \<Rightarrow> Mbuffer \<Rightarrow> u32 \<Rightarrow> Mbuffer result" where
  "luaZ_resizebuffer undef b sz =
     bnd (luaM_reallocv sz 1) (\<lambda>_.
     Inr (b\<lparr>mbuffer := realloc_bytes undef (mbuffer b) (unat sz), buffsize := sz\<rparr>))"

definition luaZ_openspace :: "(nat \<Rightarrow> byte) \<Rightarrow> Mbuffer \<Rightarrow> u32 \<Rightarrow> Mbuffer result" where
  "luaZ_openspace undef b n =
     (if n > buffsize b
      then luaZ_resizebuffer undef b (if n < LUA_MINBUFFER then LUA_MINBUFFER else n)
      else Inr b)"

definition mbuffer_ok :: "Mbuffer \<Rightarrow> bool" where
  "mbuffer_ok b \<longleftrightarrow> length (mbuffer b) = unat (buffsize b) \<and> mn b \<le> buffsize b"

lemma length_realloc_bytes [simp]: "length (realloc_bytes undef bs n) = n"
  by (simp add: realloc_bytes_def)

lemma take_realloc_bytes:
  "k \<le> length bs \<Longrightarrow> k \<le> n \<Longrightarrow> take k (realloc_bytes undef bs n) = take k bs"
  by (simp add: realloc_bytes_def min_def)

lemma luaM_reallocv_Inr [results]: "luaM_reallocv n e = Inr u \<longleftrightarrow> n + 1 \<le> MAX_SIZET div e"
  by (simp add: luaM_reallocv_def luaM_toobig_def)

text \<open>Opening space keeps the bytes in use and leaves room for \<open>n\<close> bytes.\<close>

lemma luaZ_openspace_ok:
  assumes "mbuffer_ok b" and "luaZ_openspace undef b n = Inr b'"
  shows "mbuffer_ok b' \<and> n \<le> buffsize b' \<and> mn b' = mn b
    \<and> take (unat (mn b)) (mbuffer b') = take (unat (mn b)) (mbuffer b)"
proof (cases "n > buffsize b")
  case True
  let ?n = "if n < LUA_MINBUFFER then LUA_MINBUFFER else n"
  from True assms(2) have b': "b' = b\<lparr>mbuffer := realloc_bytes undef (mbuffer b) (unat ?n), buffsize := ?n\<rparr>"
    by (auto simp: luaZ_openspace_def luaZ_resizebuffer_def results)
  have n: "n \<le> ?n" by auto
  then have le: "mn b \<le> ?n" "mn b \<le> buffsize b"
    using True assms(1) unfolding mbuffer_ok_def by (metis order_less_imp_le order_trans)+
  then have "unat (mn b) \<le> unat ?n" "unat (mn b) \<le> length (mbuffer b)"
    using assms(1) unfolding mbuffer_ok_def by (simp_all only: word_le_nat_alt)
  then show ?thesis
    using n le by (simp only: b' mbuffer_ok_def) (simp add: take_realloc_bytes)
next
  case False
  with assms show ?thesis by (simp add: luaZ_openspace_def)
qed

section \<open>Readers\<close>

text \<open>
  What a reader has to do: it hands out a byte sequence \<open>content d\<close> piece by piece, in pieces a
  \<open>size_t\<close> can count, and an empty piece or none when it has come to the end.
\<close>

locale byte_source =
  fixes rd :: "'d \<Rightarrow> byte list option \<times> 'd"
    and content :: "'d \<Rightarrow> byte list"
  assumes chunk: "rd d = (Some bs, d') \<Longrightarrow> content d = bs @ content d' \<and> length bs < 2 ^ 32"
    and ended: "rd d = (None, d') \<Longrightarrow> content d = [] \<and> content d' = []"
    and empty_chunk: "rd d = (Some [], d') \<Longrightarrow> content d = []"

definition zio_ok :: "('d \<Rightarrow> byte list option \<times> 'd) \<Rightarrow> 'd ZIO \<Rightarrow> bool" where
  "zio_ok rd z \<longleftrightarrow> reader z = rd \<and> zp z \<le> length (zbuf z) \<and> length (zbuf z) < 2 ^ 32
     \<and> zn z = of_nat (length (zbuf z) - zp z)"

text \<open>The bytes a stream has still to deliver.\<close>

definition zrest :: "('d \<Rightarrow> byte list) \<Rightarrow> 'd ZIO \<Rightarrow> byte list" where
  "zrest content z = drop (zp z) (zbuf z) @ content (zdata z)"

lemma unat_of_nat_32: "n < 2 ^ 32 \<Longrightarrow> unat (of_nat n :: u32) = n"
  by (simp add: unat_of_nat take_bit_nat_eq_self)

lemma zio_ok_count: "zio_ok rd z \<Longrightarrow> unat (zn z) = length (zbuf z) - zp z"
  unfolding zio_ok_def using unat_of_nat_32 [of "length (zbuf z) - zp z"] by (simp only:) linarith

lemma zio_ok_empty: "zio_ok rd z \<Longrightarrow> zn z = 0 \<longleftrightarrow> zp z = length (zbuf z)"
  using zio_ok_count [of rd z] by (auto simp: zio_ok_def)

lemma of_nat_eq_0_32: "n < 2 ^ 32 \<Longrightarrow> (of_nat n :: u32) = 0 \<longleftrightarrow> n = 0"
  using unat_of_nat_32 [of n] unat_gt_0 [of "of_nat n :: u32"] by linarith

text \<open>The chunk a fill leaves, when there is one.\<close>

context byte_source begin

lemma fill_some:
  assumes "reader z = rd" and "rd (zdata z) = (Some (b # bs), d')"
  shows "luaZ_fill z = (uint b, z\<lparr>zdata := d', zn := of_nat (length bs), zbuf := b # bs, zp := 1\<rparr>)"
proof -
  have "length (b # bs) < 2 ^ 32" using chunk [OF assms(2)] by blast
  then have "(of_nat (length (b # bs)) :: u32) \<noteq> 0" by (subst of_nat_eq_0_32) simp_all
  with assms show ?thesis by (simp add: luaZ_fill_def Let_def)
qed

lemma fill_none:
  assumes "reader z = rd" and "\<And>b bs d'. rd (zdata z) \<noteq> (Some (b # bs), d')"
  shows "luaZ_fill z = (EOZ, z\<lparr>zdata := snd (rd (zdata z))\<rparr>)
    \<and> content (zdata z) = [] \<and> content (snd (rd (zdata z))) = []"
proof (cases "rd (zdata z)")
  case (Pair r d')
  show ?thesis
  proof (cases r)
    case None
    with Pair assms(1) show ?thesis using ended [of "zdata z" d'] by (simp add: luaZ_fill_def Let_def)
  next
    case (Some bs)
    with Pair assms(2) have "bs = []" by (cases bs) auto
    with Pair Some assms(1) show ?thesis
      using chunk [of "zdata z" "[]" d'] empty_chunk [of "zdata z" d']
      by (simp add: luaZ_fill_def Let_def)
  qed
qed

text \<open>A fill gets the next chunk or there is nothing left to deliver.\<close>

lemma fill_cases:
  assumes r: "reader z = rd"
  obtains (more) b bs d' where "luaZ_fill z = (uint b, z\<lparr>zdata := d', zn := of_nat (length bs),
        zbuf := b # bs, zp := 1\<rparr>)" "content (zdata z) = b # bs @ content d'"
        "length (b # bs) < 2 ^ 32"
  | (eoz) d' where "luaZ_fill z = (EOZ, z\<lparr>zdata := d'\<rparr>)" "content (zdata z) = []"
        "content d' = []"
proof (cases "\<exists>b bs d'. rd (zdata z) = (Some (b # bs), d')")
  case True
  then obtain b bs d' where "rd (zdata z) = (Some (b # bs), d')" by blast
  with fill_some [OF r this] chunk [OF this] that(1) show ?thesis by simp
next
  case False
  with fill_none [OF r] that(2) show ?thesis by blast
qed

lemma zrest_empty: "zio_ok rd z \<Longrightarrow> zn z = 0 \<Longrightarrow> zrest content z = content (zdata z)"
  using zio_ok_empty [of rd z] by (simp add: zrest_def)

lemma zpeek_ok:
  assumes "zio_ok rd z" and "zn z \<noteq> 0"
  obtains b bs where "zpeek z 0 = Inr b" "drop (zp z) (zbuf z) = b # bs"
    "zrest content z = b # bs @ content (zdata z)"
proof -
  have lt: "zp z < length (zbuf z)"
    using assms zio_ok_empty [of rd z] by (auto simp: zio_ok_def)
  then have "drop (zp z) (zbuf z) = zbuf z ! zp z # drop (Suc (zp z)) (zbuf z)"
    by (simp add: Cons_nth_drop_Suc)
  with lt show ?thesis by (intro that) (auto simp: zpeek_def zrest_def)
qed

text \<open>\<open>zgetc\<close> delivers the content byte by byte.\<close>

lemma zgetc_Cons:
  assumes ok: "zio_ok rd z" and c: "zrest content z = b # bs"
  obtains z' where "zgetc z = Inr (uint b, z')" "zio_ok rd z'" "zrest content z' = bs"
    "isWide z' = isWide z"
proof (cases "zn z = 0")
  case True
  have "reader (z\<lparr>zn := zn z - 1\<rparr>) = rd" using ok by (simp add: zio_ok_def)
  then show ?thesis
  proof (cases rule: fill_cases)
    case (more b' bs' d')
    then show ?thesis
      using True c ok zrest_empty [OF ok True] that
      by (auto simp: zgetc_def zio_ok_def zrest_def)
  next
    case eoz
    with c zrest_empty [OF ok True] show ?thesis by simp
  qed
next
  case False
  obtain b' bs' where p: "zpeek z 0 = Inr b'" "drop (zp z) (zbuf z) = b' # bs'"
    "zrest content z = b' # bs' @ content (zdata z)"
    using zpeek_ok [OF ok False] .
  have lt: "zp z < length (zbuf z)"
    using ok False zio_ok_empty [of rd z] by (auto simp: zio_ok_def)
  have "drop (Suc (zp z)) (zbuf z) = bs'"
    using p(2) by (metis drop_Suc list.sel(3) tl_drop)
  moreover have "zn z - 1 = of_nat (length (zbuf z) - Suc (zp z))"
    using ok lt by (simp add: zio_ok_def of_nat_diff)
  moreover have "zgetc z = Inr (uint b', z\<lparr>zn := zn z - 1, zp := zp z + 1\<rparr>)"
    using False p(1) by (simp add: zgetc_def Let_def word_neq_0_conv zpeek_def split: if_split_asm)
  ultimately show ?thesis
    using p c ok lt
    by (intro that [of "z\<lparr>zn := zn z - 1, zp := zp z + 1\<rparr>"]) (auto simp: zio_ok_def zrest_def)
qed

text \<open>At the end \<open>zgetc\<close> returns \<open>EOZ\<close>, but leaves a count of \<open>2 ^ 32 - 1\<close> behind.\<close>

lemma zgetc_Nil:
  assumes ok: "zio_ok rd z" and c: "zrest content z = []"
  obtains z' where "zgetc z = Inr (EOZ, z')" "zn z' = - 1" "zp z' = length (zbuf z')"
    "isWide z' = isWide z"
proof -
  have zn: "zn z = 0" and zp: "zp z = length (zbuf z)"
    using ok c zio_ok_empty [OF ok] by (auto simp: zrest_def zio_ok_def)
  have "reader (z\<lparr>zn := zn z - 1\<rparr>) = rd" using ok by (simp add: zio_ok_def)
  then show ?thesis
  proof (cases rule: fill_cases)
    case (more b bs d')
    with c zrest_empty [OF ok zn] show ?thesis by simp
  next
    case (eoz d')
    with zn zp show ?thesis
      by (intro that [of "z\<lparr>zn := - 1, zdata := d'\<rparr>"]) (simp_all add: zgetc_def)
  qed
qed

lemma lookahead_Nil:
  assumes ok: "zio_ok rd z" and c: "zrest content z = []"
  obtains z' where "luaZ_lookahead z = Inr (EOZ, z')" "zio_ok rd z'" "zrest content z' = []"
proof -
  have zn: "zn z = 0" and zp: "zp z = length (zbuf z)"
    using ok c zio_ok_empty [OF ok] by (auto simp: zrest_def zio_ok_def)
  have "reader z = rd" using ok by (simp add: zio_ok_def)
  then show ?thesis
  proof (cases rule: fill_cases)
    case (more b bs d')
    with c zrest_empty [OF ok zn] show ?thesis by simp
  next
    case (eoz d')
    with zn zp ok show ?thesis
      by (intro that [of "z\<lparr>zdata := d'\<rparr>"]) (auto simp: luaZ_lookahead_def zio_ok_def zrest_def)
  qed
qed

lemma lookahead_Cons:
  assumes ok: "zio_ok rd z" and c: "zrest content z = b # bs"
  obtains z' where "luaZ_lookahead z = Inr (uint b, z')" "zio_ok rd z'"
    "zrest content z' = b # bs" "isWide z' = isWide z"
proof (cases "zn z = 0")
  case True
  have "reader z = rd" using ok by (simp add: zio_ok_def)
  then show ?thesis
  proof (cases rule: fill_cases)
    case (more b' bs' d')
    let ?z = "z\<lparr>zdata := d', zn := of_nat (length bs') + 1, zbuf := b' # bs', zp := 0\<rparr>"
    have "luaZ_lookahead z = Inr (uint b', ?z)"
      using True more(1) by (simp add: luaZ_lookahead_def zpeek_def Let_def)
    with more c zrest_empty [OF ok True] ok show ?thesis
      by (intro that [of ?z]) (auto simp: zio_ok_def zrest_def add.commute)
  next
    case eoz
    with c zrest_empty [OF ok True] show ?thesis by simp
  qed
next
  case False
  obtain b' bs' where p: "zpeek z 0 = Inr b'" "zrest content z = b' # bs' @ content (zdata z)"
    using zpeek_ok [OF ok False] by blast
  with False c ok show ?thesis by (intro that [of z]) (auto simp: luaZ_lookahead_def)
qed

lemma lookahead_content:
  assumes ok: "zio_ok rd z" and c: "zrest content z \<noteq> []"
    and l: "luaZ_lookahead z = Inr (ch, z')"
  shows "ch \<noteq> EOZ \<and> zio_ok rd z' \<and> zrest content z' = zrest content z"
proof -
  obtain b bs where "zrest content z = b # bs" using c by (cases "zrest content z") auto
  with lookahead_Cons [OF ok this] l show ?thesis by (metis Pair_inject sum.inject(2) uint_byte_not_EOZ)
qed

text \<open>Advancing over \<open>m\<close> bytes of the current chunk.\<close>

lemma zio_advance:
  assumes ok: "zio_ok rd z" and m: "m \<le> zn z"
  shows "zcopy z m = Inr (take (unat m) (zrest content z))"
    and "zio_ok rd (z\<lparr>zn := zn z - m, zp := zp z + unat m\<rparr>)"
    and "zrest content (z\<lparr>zn := zn z - m, zp := zp z + unat m\<rparr>) = drop (unat m) (zrest content z)"
    and "unat m \<le> length (zrest content z)"
proof -
  have le: "unat m \<le> length (zbuf z) - zp z"
    using m zio_ok_count [OF ok] by (simp add: word_le_nat_alt)
  moreover have "zp z \<le> length (zbuf z)" using ok by (simp add: zio_ok_def)
  ultimately have le': "zp z + unat m \<le> length (zbuf z)" by linarith
  show "zcopy z m = Inr (take (unat m) (zrest content z))"
    using le le' by (simp add: zcopy_def zrest_def)
  have "zn z - m = of_nat (length (zbuf z) - (zp z + unat m))"
    using ok le' by (simp add: zio_ok_def of_nat_diff)
  then show "zio_ok rd (z\<lparr>zn := zn z - m, zp := zp z + unat m\<rparr>)"
    using ok le' by (simp add: zio_ok_def)
  show "zrest content (z\<lparr>zn := zn z - m, zp := zp z + unat m\<rparr>) = drop (unat m) (zrest content z)"
    using le by (simp add: zrest_def add.commute)
  show "unat m \<le> length (zrest content z)" using le by (simp add: zrest_def)
qed

text \<open>\<open>luaZ_read\<close> delivers the next \<open>n\<close> bytes, or all there are.\<close>

lemma luaZ_read_content:
  "zio_ok rd z \<Longrightarrow> \<exists>z'. luaZ_read z n =
       Inr (n - of_nat (min (unat n) (length (zrest content z))), take (unat n) (zrest content z), z')
     \<and> zio_ok rd z' \<and> zrest content z' = drop (unat n) (zrest content z)"
proof (induction "unat n" arbitrary: z n rule: less_induct)
  case less
  note ok = less.prems
  show ?case
  proof (cases "n = 0 \<or> zrest content z = []")
    case True
    then show ?thesis
    proof
      assume "n = 0"
      then show ?thesis using ok by (subst luaZ_read.simps) simp
    next
      assume nil: "zrest content z = []"
      from lookahead_Nil [OF ok nil] obtain z' where
        "luaZ_lookahead z = Inr (EOZ, z')" "zio_ok rd z'" "zrest content z' = []" .
      with nil ok show ?thesis by (subst luaZ_read.simps) (cases "n = 0"; simp)
    qed
  next
    case False
    then obtain b bs where c: "zrest content z = b # bs" and n: "n \<noteq> 0"
      by (cases "zrest content z") auto
    obtain z1 where z1: "luaZ_lookahead z = Inr (uint b, z1)" "zio_ok rd z1"
      "zrest content z1 = zrest content z"
      using lookahead_Cons [OF ok c] c by metis
    define m where "m = (if n \<le> zn z1 then n else zn z1)"
    have mle: "m \<le> zn z1" "m \<le> n" by (auto simp: m_def)
    have m0: "0 < unat m"
      using lookahead_count [OF z1(1)] n by (auto simp: m_def unat_gt_0)
    note adv = zio_advance [OF z1(2) mle(1), unfolded z1(3)]
    let ?z2 = "z1\<lparr>zn := zn z1 - m, zp := zp z1 + unat m\<rparr>"
    have un: "unat (n - m) = unat n - unat m" by (rule unat_sub [OF mle(2)])
    have le: "unat m \<le> unat n" using mle(2) by (simp add: word_le_nat_alt)
    have "unat (n - m) < unat n" using un m0 le by linarith
    from less.hyps [OF this adv(2)] obtain z' where z': "luaZ_read ?z2 (n - m) =
        Inr (n - m - of_nat (min (unat (n - m)) (length (zrest content ?z2))),
          take (unat (n - m)) (zrest content ?z2), z')"
      "zio_ok rd z'" "zrest content z' = drop (unat (n - m)) (zrest content ?z2)" by blast
    have "luaZ_read z n = bnd (luaZ_read ?z2 (n - m))
        (\<lambda>(r, bs', z'). Inr (r, take (unat m) (zrest content z) @ bs', z'))"
      using n z1(1) adv(1) by (subst luaZ_read.simps) (simp add: Let_def m_def)
    also have "\<dots> = Inr (n - of_nat (min (unat n) (length (zrest content z))),
        take (unat n) (zrest content z), z')"
    proof -
      have "min (unat n) (length (zrest content z))
          = unat m + min (unat (n - m)) (length (zrest content ?z2))"
        using adv(4) le by (simp add: adv(3) un)
      then have "n - m - of_nat (min (unat (n - m)) (length (zrest content ?z2)))
          = n - of_nat (min (unat n) (length (zrest content z)))"
        by simp
      moreover have "take (unat m) (zrest content z) @ take (unat (n - m)) (zrest content ?z2)
          = take (unat n) (zrest content z)"
        using le by (simp add: adv(3) un flip: take_add)
      ultimately show ?thesis by (simp add: z'(1))
    qed
    finally show ?thesis using z'(2,3) le by (auto simp: adv(3) un)
  qed
qed

end

section \<open>The readers of the auxiliary library\<close>

text \<open>\<open>getS\<close> hands out a string at once.\<close>

record LoadS =
  ls_s :: "byte list"
  ls_size :: u32

definition getS :: "LoadS \<Rightarrow> byte list option \<times> LoadS" where
  "getS ls =
     (if ls_size ls = 0 then (None, ls)
      else (Some (take (unat (ls_size ls)) (ls_s ls)), ls\<lparr>ls_size := 0\<rparr>))"

definition LoadS_content :: "LoadS \<Rightarrow> byte list" where
  "LoadS_content ls = take (unat (ls_size ls)) (ls_s ls)"

definition of_buffer :: "byte list \<Rightarrow> LoadS" where
  "of_buffer bs = \<lparr>ls_s = bs, ls_size = of_nat (length bs)\<rparr>"

interpretation string_reader: byte_source getS LoadS_content
proof
  fix ls ls' bs
  assume g: "getS ls = (Some bs, ls')"
  have "length (LoadS_content ls) < 2 ^ 32"
  proof -
    have "length (LoadS_content ls) \<le> unat (ls_size ls)" by (simp add: LoadS_content_def)
    also have "\<dots> < 2 ^ 32" using unsigned_less [where ?'a = nat and w = "ls_size ls"] by simp
    finally show ?thesis .
  qed
  then show "LoadS_content ls = bs @ LoadS_content ls' \<and> length bs < 2 ^ 32"
    using g by (auto simp: getS_def LoadS_content_def split: if_split_asm)
qed (auto simp: getS_def LoadS_content_def split: if_split_asm)

text \<open>
  \<open>getF\<close> reads a file by blocks, after a newline that stands for a skipped first line. A block
  shorter than asked for sets the end-of-file flag.
\<close>

definition LUAL_BUFFERSIZE :: nat where "LUAL_BUFFERSIZE = 512"

record LoadF =
  extraline :: bool
  fbytes :: "byte list"
  feof :: bool

definition getF :: "LoadF \<Rightarrow> byte list option \<times> LoadF" where
  "getF lf =
     (if extraline lf then (Some [10], lf\<lparr>extraline := False\<rparr>)
      else if feof lf then (None, lf)
      else let bs = take LUAL_BUFFERSIZE (fbytes lf);
               lf = lf\<lparr>fbytes := drop LUAL_BUFFERSIZE (fbytes lf),
                       feof := length bs < LUAL_BUFFERSIZE\<rparr>
           in (if length bs > 0 then Some bs else None, lf))"

definition LoadF_content :: "LoadF \<Rightarrow> byte list" where
  "LoadF_content lf = (if extraline lf then [10] else []) @ (if feof lf then [] else fbytes lf)"

interpretation file_reader: byte_source getF LoadF_content
proof
  fix lf lf' bs
  assume "getF lf = (Some bs, lf')"
  then show "LoadF_content lf = bs @ LoadF_content lf' \<and> length bs < 2 ^ 32"
    by (auto simp: getF_def LoadF_content_def LUAL_BUFFERSIZE_def Let_def min_def split: if_split_asm)
qed (auto simp: getF_def LoadF_content_def LUAL_BUFFERSIZE_def Let_def split: if_split_asm)

lemma zio_ok_init: "zio_ok rd (luaZ_init rd d)"
  by (simp add: zio_ok_def luaZ_init_def)

lemma zrest_init: "zrest content (luaZ_init rd d) = content d"
  by (simp add: zrest_def luaZ_init_def)

lemma LoadS_content_of_buffer: "length bs < 2 ^ 32 \<Longrightarrow> LoadS_content (of_buffer bs) = bs"
  using unat_of_nat_32 [of "length bs"] by (simp add: LoadS_content_def of_buffer_def)

section \<open>Properties\<close>

text \<open>
  C16: reading a buffer loaded through \<open>luaL_loadbuffer\<close> delivers its bytes in order: \<open>luaZ_read\<close>
  of \<open>n\<close> bytes returns the first \<open>n\<close> (or all) of them and the number that is missing.
\<close>

theorem read_buffer:
  assumes "length bs < 2 ^ 32"
  shows "\<exists>z. luaZ_read (luaZ_init getS (of_buffer bs)) n =
      Inr (n - of_nat (min (unat n) (length bs)), take (unat n) bs, z)
    \<and> zrest LoadS_content z = drop (unat n) bs"
  using string_reader.luaZ_read_content [OF zio_ok_init, of "of_buffer bs" n]
    LoadS_content_of_buffer [OF assms]
  by (auto simp: zrest_init)

theorem read_buffer_witness:
  "\<exists>z. luaZ_read (luaZ_init getS (of_buffer [1, 2, 3])) 2 = Inr (0, [1, 2], z)
    \<and> zrest LoadS_content z = [3]"
  using read_buffer [of "[1, 2, 3]" 2] by simp

text \<open>
  C17: a file read through \<open>getF\<close> in blocks is delivered as one sequence of bytes: the newline that
  replaces a skipped first line, then the file.
\<close>

theorem read_file:
  "\<exists>z. luaZ_read (luaZ_init getF \<lparr>extraline = x, fbytes = bs, feof = False\<rparr>) n =
      Inr (n - of_nat (min (unat n) (length ((if x then [10] else []) @ bs))),
        take (unat n) ((if x then [10] else []) @ bs), z)"
  using file_reader.luaZ_read_content
    [OF zio_ok_init, of "\<lparr>extraline = x, fbytes = bs, feof = False\<rparr>" n]
  by (auto simp: zrest_init LoadF_content_def)

text \<open>
  C18: after \<open>zgetc\<close> has returned the end of the stream, asking for another character or looking
  ahead reads outside the buffer: the count of unread bytes has wrapped around.
\<close>

theorem zgetc_after_end:
  assumes "zio_ok getS z" and "zrest LoadS_content z = []"
  shows "\<exists>z'. zgetc z = Inr (EOZ, z') \<and> zgetc z' = Inl OutOfBounds
    \<and> luaZ_lookahead z' = Inl OutOfBounds"
proof -
  obtain z' where "zgetc z = Inr (EOZ, z')" "zn z' = - 1" "zp z' = length (zbuf z')"
    using string_reader.zgetc_Nil [OF assms] .
  moreover have "(0 :: u32) < - 1" by code_simp
  ultimately show ?thesis
    by (intro exI [of _ z']) (simp add: zgetc_def [of z'] luaZ_lookahead_def zpeek_def Let_def)
qed

theorem zgetc_after_end_witness:
  "\<exists>z'. zgetc (luaZ_init getS (of_buffer [])) = Inr (EOZ, z') \<and> zgetc z' = Inl OutOfBounds
    \<and> luaZ_lookahead z' = Inl OutOfBounds"
  by (rule zgetc_after_end) (simp_all add: zio_ok_init zrest_init LoadS_content_of_buffer)

end
