(* ===== verification/Dump.thy ===== *)
theory Dump
  imports LuaProto
begin

text \<open>
  Saving a function as a binary chunk (\<open>ldump.c\<close>, \<open>luaU_header\<close> of \<open>lundump.c\<close>). Every operation
  takes the byte order of the host, \<open>le\<close>: little-endian. \<open>sizeof (int)\<close>, \<open>sizeof (size_t)\<close> and
  \<open>sizeof (Instruction)\<close> are 4, \<open>sizeof (lua_Number)\<close> is 8. The buffer in which the code swaps bytes
  before it hands them to the writer is the reversed list.
\<close>

section \<open>Objects in memory\<close>

text \<open>The \<open>k\<close> bytes of an integer in the memory of a host, and the integer some bytes stand for.\<close>

definition mem :: "bool \<Rightarrow> nat \<Rightarrow> 'a::len word \<Rightarrow> byte list" where
  "mem le k w = (let bs = map (\<lambda>i. ucast (drop_bit (8 * i) w)) [0..<k] in if le then bs else rev bs)"

definition little_word :: "byte list \<Rightarrow> 'a::len word" where
  "little_word bs = foldr (\<lambda>b w. ucast b OR push_bit 8 w) bs 0"

definition mem_word :: "bool \<Rightarrow> byte list \<Rightarrow> 'a::len word" where
  "mem_word le bs = little_word (if le then bs else rev bs)"

lemma length_mem [simp]: "length (mem le k w) = k"
  by (simp add: mem_def Let_def)

lemma rev_mem: "rev (mem le k w) = mem (\<not> le) k w"
  by (simp add: mem_def Let_def)

lemma little_word_bytes:
  "little_word (map (\<lambda>i. ucast (drop_bit (8 * i) w)) [0..<k]) = take_bit (8 * k) w"
  for w :: "'a::len word"
proof (induction k arbitrary: w)
  case 0
  show ?case by (simp add: little_word_def)
next
  case (Suc k)
  have "[0..<Suc k] = 0 # map Suc [0..<k]" by (simp add: upt_conv_Cons map_Suc_upt)
  then have "map (\<lambda>i. ucast (drop_bit (8 * i) w) :: byte) [0..<Suc k]
      = ucast w # map (\<lambda>i. ucast (drop_bit (8 * i) (drop_bit 8 w))) [0..<k]"
    by (simp add: comp_def add.commute)
  then have "little_word (map (\<lambda>i. ucast (drop_bit (8 * i) w) :: byte) [0..<Suc k])
      = (ucast (ucast w :: byte) OR push_bit 8 (take_bit (8 * k) (drop_bit 8 w)) :: 'a word)"
    using Suc.IH [of "drop_bit 8 w"] by (simp add: little_word_def)
  also have "\<dots> = take_bit (8 * Suc k) w"
    by (rule bit_word_eqI) (auto simp: bit_simps)
  finally show ?case .
qed

lemma mem_word_mem: "LENGTH('a) \<le> 8 * k \<Longrightarrow> mem_word le (mem le k w) = w" for w :: "'a::len word"
  by (simp add: mem_word_def mem_def Let_def little_word_bytes take_bit_word_eq_self)

section \<open>The writer\<close>

record 'd DumpState =
  writer :: "byte list \<Rightarrow> 'd \<Rightarrow> 'd \<times> int"
  ddata :: 'd
  strip :: bool
  status :: int
  swap :: bool
  endian :: byte

definition DumpBlock :: "byte list \<Rightarrow> 'd DumpState \<Rightarrow> 'd DumpState" where
  "DumpBlock bs D =
     (if status D = 0
      then let (d, st) = writer D bs (ddata D) in D\<lparr>ddata := d, status := st\<rparr>
      else D)"

definition DumpEndianBlock :: "byte list \<Rightarrow> 'd DumpState \<Rightarrow> 'd DumpState" where
  "DumpEndianBlock bs D =
     (if status D = 0
      then let (d, st) = (if swap D then writer D (rev bs) (ddata D) else writer D bs (ddata D))
           in D\<lparr>ddata := d, status := st\<rparr>
      else D)"

definition DumpChar :: "int \<Rightarrow> 'd DumpState \<Rightarrow> 'd DumpState" where
  "DumpChar y D = DumpEndianBlock [word_of_int y] D"

definition DumpInt :: "bool \<Rightarrow> int \<Rightarrow> 'd DumpState \<Rightarrow> 'd DumpState" where
  "DumpInt le x D = DumpEndianBlock (mem le 4 (c_uint x)) D"

definition DumpSize :: "bool \<Rightarrow> u32 \<Rightarrow> 'd DumpState \<Rightarrow> 'd DumpState" where
  "DumpSize le x D = DumpEndianBlock (mem le 4 x) D"

definition DumpNumber :: "bool \<Rightarrow> lua_Number \<Rightarrow> 'd DumpState \<Rightarrow> 'd DumpState" where
  "DumpNumber le x D = DumpEndianBlock (mem le 8 x) D"

text \<open>\<open>DumpVector\<close>: the elements are given by their bytes in memory.\<close>

definition DumpVector :: "bool \<Rightarrow> byte list list \<Rightarrow> 'd DumpState \<Rightarrow> 'd DumpState" where
  "DumpVector le elems D =
     (let D = DumpInt le (int (length elems)) D
      in if status D = 0
         then let (d, st) = (if swap D then writer D (concat (map rev elems)) (ddata D)
                             else writer D (concat elems) (ddata D))
              in D\<lparr>ddata := d, status := st\<rparr>
         else D)"

definition DumpString :: "bool \<Rightarrow> tstring option \<Rightarrow> 'd DumpState \<Rightarrow> 'd DumpState" where
  "DumpString le s D =
     (case s of
        None \<Rightarrow> DumpSize le 0 D
      | Some bs \<Rightarrow> DumpBlock (bs @ [0]) (DumpSize le (of_nat (length bs) + 1) D))"

definition DumpWString :: "bool \<Rightarrow> wchar list \<Rightarrow> 'd DumpState \<Rightarrow> 'd DumpState" where
  "DumpWString le ws D = DumpVector le (map (mem le 2) (ws @ [0])) D"

definition DumpCode :: "bool \<Rightarrow> Proto \<Rightarrow> 'd DumpState \<Rightarrow> 'd DumpState" where
  "DumpCode le f D = DumpVector le (map (mem le 4) (code f)) D"

definition DumpConstant :: "bool \<Rightarrow> TValue \<Rightarrow> 'd DumpState \<Rightarrow> 'd DumpState" where
  "DumpConstant le v D =
     (let D = DumpChar (ttype v) D
      in case v of
           LBool b \<Rightarrow> DumpChar b D
         | LNumber n \<Rightarrow> DumpNumber le n D
         | LString s \<Rightarrow> DumpString le (Some s) D
         | LWString ws \<Rightarrow> DumpWString le ws D
         | _ \<Rightarrow> D)"

definition DumpDebug :: "bool \<Rightarrow> Proto \<Rightarrow> 'd DumpState \<Rightarrow> 'd DumpState" where
  "DumpDebug le f D =
     (let D = DumpVector le (map (\<lambda>x. mem le 4 (c_uint x)) (if strip D then [] else lineinfo f)) D;
          vars = (if strip D then [] else locvars f);
          D = fold (\<lambda>v D. DumpInt le (endpc v) (DumpInt le (startpc v) (DumpString le (varname v) D)))
                vars (DumpInt le (int (length vars)) D);
          ups = (if strip D then [] else upvalues f)
      in fold (DumpString le) ups (DumpInt le (int (length ups)) D))"

lemma size_inner [termination_simp]: "g \<in> set (pp f) \<Longrightarrow> size g < size f"
  by (cases f) (auto dest: size_list_estimation' [OF _ order_refl, of _ _ size])

text \<open>
  \<open>DumpFunction\<close> with \<open>DumpConstants\<close>, which calls it for the inner functions.
\<close>

fun DumpFunction :: "bool \<Rightarrow> Proto \<Rightarrow> tstring option \<Rightarrow> 'd DumpState \<Rightarrow> 'd DumpState" where
  "DumpFunction le f p D =
     (let D = DumpString le (if source f = p \<or> strip D then None else source f) D;
          D = DumpInt le (linedefined f) D;
          D = DumpInt le (lastlinedefined f) D;
          D = DumpChar (uint (nups f)) D;
          D = DumpChar (uint (numparams f)) D;
          D = DumpChar (uint (is_vararg f)) D;
          D = DumpChar (uint (maxstacksize f)) D;
          D = DumpCode le f D;
          D = DumpInt le (sizek f) D;
          D = fold (DumpConstant le) (pk f) D;
          D = DumpInt le (sizep f) D;
          D = fold (\<lambda>g. DumpFunction le g (source f)) (pp f) D
      in DumpDebug le f D)"

declare DumpFunction.simps [simp del]

section \<open>The header\<close>

definition LUA_SIGNATURE :: "byte list" where "LUA_SIGNATURE = 27 # bytes_of ''Lua''"
definition LUAC_VERSION :: byte where "LUAC_VERSION = 0x51"
definition LUAC_FORMAT :: byte where "LUAC_FORMAT = 0"
definition LUAC_HEADERSIZE :: nat where "LUAC_HEADERSIZE = 12"

text \<open>The first byte of the \<open>int\<close> 1 is 1 exactly on a little-endian host.\<close>

definition luaU_header :: "bool \<Rightarrow> byte \<Rightarrow> byte list" where
  "luaU_header le e =
     (let endianness = (if e = of_char (CHR ''='') then hd (mem le 4 (c_uint 1))
                        else if e = of_char (CHR ''<'') then 1 else 0)
      in LUA_SIGNATURE @ [LUAC_VERSION, LUAC_FORMAT, endianness, 4, 4, 4, 8, 0])"

definition DumpHeader :: "bool \<Rightarrow> 'd DumpState \<Rightarrow> 'd DumpState" where
  "DumpHeader le D = DumpBlock (luaU_header le (endian D)) D"

definition OP_LITTLEENDIAN :: byte where "OP_LITTLEENDIAN = of_char (CHR ''<'')"
definition OP_BIGENDIAN :: byte where "OP_BIGENDIAN = of_char (CHR ''>'')"
definition OP_NATIVE :: byte where "OP_NATIVE = of_char (CHR ''='')"

definition doendian :: "bool \<Rightarrow> byte \<Rightarrow> bool" where
  "doendian le c =
     (let e = hd (mem le 4 (c_uint 1))
      in if c = OP_LITTLEENDIAN then e = 0
         else if c = OP_BIGENDIAN then e \<noteq> 0
         else if c = OP_NATIVE then False
         else False)"

definition luaU_dump ::
  "bool \<Rightarrow> Proto \<Rightarrow> (byte list \<Rightarrow> 'd \<Rightarrow> 'd \<times> int) \<Rightarrow> 'd \<Rightarrow> bool \<Rightarrow> byte \<Rightarrow> 'd \<times> int" where
  "luaU_dump le f w d strp e =
     (let D = \<lparr>writer = w, ddata = d, strip = strp, status = 0, swap = doendian le e, endian = e\<rparr>;
          D = DumpFunction le f None (DumpHeader le D)
      in (ddata D, status D))"

section \<open>The chunk format\<close>

text \<open>
  The bytes of a chunk in the byte order \<open>te\<close>, whatever the host: what \<open>luaU_dump\<close> promises to write
  and \<open>luaU_undump\<close> to read.
\<close>

definition fmt_int :: "bool \<Rightarrow> int \<Rightarrow> byte list" where
  "fmt_int te x = mem te 4 (c_uint x)"

definition fmt_vector :: "bool \<Rightarrow> byte list list \<Rightarrow> byte list" where
  "fmt_vector te elems = fmt_int te (int (length elems)) @ concat elems"

definition fmt_string :: "bool \<Rightarrow> tstring option \<Rightarrow> byte list" where
  "fmt_string te s =
     (case s of None \<Rightarrow> mem te 4 (0 :: u32)
      | Some bs \<Rightarrow> mem te 4 (of_nat (length bs) + 1 :: u32) @ bs @ [0])"

definition fmt_constant :: "bool \<Rightarrow> TValue \<Rightarrow> byte list" where
  "fmt_constant te v =
     word_of_int (ttype v) #
       (case v of
          LBool b \<Rightarrow> [word_of_int b]
        | LNumber n \<Rightarrow> mem te 8 n
        | LString s \<Rightarrow> fmt_string te (Some s)
        | LWString ws \<Rightarrow> fmt_vector te (map (mem te 2) (ws @ [0]))
        | _ \<Rightarrow> [])"

definition fmt_locvar :: "bool \<Rightarrow> LocVar \<Rightarrow> byte list" where
  "fmt_locvar te v = fmt_string te (varname v) @ fmt_int te (startpc v) @ fmt_int te (endpc v)"

definition fmt_seq :: "bool \<Rightarrow> ('a \<Rightarrow> byte list) \<Rightarrow> 'a list \<Rightarrow> byte list" where
  "fmt_seq te e xs = fmt_int te (int (length xs)) @ concat (map e xs)"

definition fmt_debug :: "bool \<Rightarrow> bool \<Rightarrow> Proto \<Rightarrow> byte list" where
  "fmt_debug te st f =
     fmt_vector te (map (\<lambda>x. mem te 4 (c_uint x)) (if st then [] else lineinfo f))
     @ fmt_seq te (fmt_locvar te) (if st then [] else locvars f)
     @ fmt_seq te (fmt_string te) (if st then [] else upvalues f)"

fun fmt_function :: "bool \<Rightarrow> bool \<Rightarrow> Proto \<Rightarrow> tstring option \<Rightarrow> byte list" where
  "fmt_function te st f p =
     fmt_string te (if source f = p \<or> st then None else source f)
     @ fmt_int te (linedefined f) @ fmt_int te (lastlinedefined f)
     @ [nups f, numparams f, is_vararg f, maxstacksize f]
     @ fmt_vector te (map (mem te 4) (code f))
     @ fmt_seq te (fmt_constant te) (pk f)
     @ fmt_int te (sizep f) @ concat (map (\<lambda>g. fmt_function te st g (source f)) (pp f))
     @ fmt_debug te st f"

declare fmt_function.simps [simp del]

definition fmt_header :: "bool \<Rightarrow> byte list" where
  "fmt_header te = LUA_SIGNATURE @ [LUAC_VERSION, LUAC_FORMAT, of_bool te, 4, 4, 4, 8, 0]"

definition fmt_chunk :: "bool \<Rightarrow> bool \<Rightarrow> Proto \<Rightarrow> byte list" where
  "fmt_chunk te st f = fmt_header te @ fmt_function te st f None"

section \<open>Dumping writes the format\<close>

text \<open>
  A writer appends the bytes it is given, as long as it reports success; \<open>written\<close> is what a state
  of the writer has received, \<open>winv\<close> what the writer needs of its state.
\<close>

locale chunk_writer =
  fixes wr :: "byte list \<Rightarrow> 'd \<Rightarrow> 'd \<times> int"
    and written :: "'d \<Rightarrow> byte list"
    and winv :: "'d \<Rightarrow> bool"
  assumes append: "winv d \<Longrightarrow> wr bs d = (d', 0) \<Longrightarrow> winv d' \<and> written d' = written d @ bs"

text \<open>
  \<open>emits wr written winv D D' bs\<close>: from \<open>D\<close> to \<open>D'\<close> the bytes \<open>bs\<close> are written, unless the writer
  fails.
\<close>

definition emits ::
  "(byte list \<Rightarrow> 'd \<Rightarrow> 'd \<times> int) \<Rightarrow> ('d \<Rightarrow> byte list) \<Rightarrow> ('d \<Rightarrow> bool) \<Rightarrow> 'd DumpState \<Rightarrow> 'd DumpState \<Rightarrow> byte list \<Rightarrow> bool"
  where
  "emits wr written winv D D' bs \<longleftrightarrow> writer D = wr \<and>
     writer D' = writer D \<and> strip D' = strip D \<and> swap D' = swap D \<and> endian D' = endian D
     \<and> (status D' = 0 \<longrightarrow> status D = 0)
     \<and> (status D' = 0 \<longrightarrow> winv (ddata D) \<longrightarrow>
          winv (ddata D') \<and> written (ddata D') = written (ddata D) @ bs)
     \<and> ((\<forall>bs d. snd (wr bs d) = 0) \<longrightarrow> status D = 0 \<longrightarrow> status D' = 0)"

lemma emits_trans:
  assumes "emits wr written winv D D' bs" and "emits wr written winv D' D'' bs'"
  shows "emits wr written winv D D'' (bs @ bs')"
proof -
  note d = assms [unfolded emits_def]
  from d have "status D'' = 0 \<longrightarrow> winv (ddata D) \<longrightarrow>
      winv (ddata D'') \<and> written (ddata D'') = written (ddata D) @ bs @ bs'"
    by (metis append_assoc)
  moreover from d have "status D'' = 0 \<longrightarrow> status D = 0" by blast
  moreover from d have "(\<forall>bs d. snd (wr bs d) = 0) \<longrightarrow> status D = 0 \<longrightarrow> status D'' = 0" by blast
  moreover from d have "writer D = wr" "writer D'' = writer D" "strip D'' = strip D" "swap D'' = swap D"
    "endian D'' = endian D" by metis+
  ultimately show ?thesis unfolding emits_def by blast
qed

lemma emits_nil: "writer D = wr \<Longrightarrow> emits wr written winv D D []"
  by (simp add: emits_def)

lemma emits_fold:
  assumes "\<And>x D. x \<in> set xs \<Longrightarrow> writer D = wr \<Longrightarrow> swap D = sw \<Longrightarrow> strip D = st \<Longrightarrow>
      emits wr written winv D (e x D) (b x)"
    and "writer D = wr" "swap D = sw" "strip D = st"
  shows "emits wr written winv D (fold e xs D) (concat (map b xs))"
  using assms
proof (induction xs arbitrary: D)
  case Nil
  then show ?case by (simp add: emits_nil)
next
  case (Cons x xs)
  have 1: "emits wr written winv D (e x D) (b x)" using Cons.prems by simp
  then have "writer (e x D) = wr" "swap (e x D) = sw" "strip (e x D) = st"
    using Cons.prems by (auto simp: emits_def)
  then have "emits wr written winv (e x D) (fold e xs (e x D)) (concat (map b xs))"
    using Cons.prems(1) by (intro Cons.IH) simp_all
  from emits_trans [OF 1 this] show ?case by simp
qed

lemma emitsD: "emits wr written winv D D' bs \<Longrightarrow>
    writer D' = wr \<and> swap D' = swap D \<and> strip D' = strip D \<and> endian D' = endian D"
  by (simp add: emits_def)

lemma concat_rev_mem: "concat (map rev (map (mem le k) xs)) = concat (map (mem (\<not> le) k) xs)"
  by (simp add: comp_def rev_mem)

lemma first_byte: "hd (mem le 4 (c_uint 1)) = of_bool le"
proof -
  have "hd (mem True 4 (c_uint 1)) = (1 :: byte)" "hd (mem False 4 (c_uint 1)) = (0 :: byte)"
    by code_simp+
  then show ?thesis by (cases le) simp_all
qed

lemma endian_chars: "OP_LITTLEENDIAN = 60" "OP_BIGENDIAN = 62" "OP_NATIVE = 61"
  "of_char (CHR ''='') = (61 :: byte)" "of_char (CHR ''<'') = (60 :: byte)"
  by code_simp+

context chunk_writer begin

lemma DumpBlock_emits: "writer D = wr \<Longrightarrow> emits wr written winv D (DumpBlock bs D) bs"
  using append by (auto simp: emits_def DumpBlock_def Let_def split: prod.splits) (metis snd_conv)

lemma DumpEndianBlock_emits:
  "writer D = wr \<Longrightarrow> emits wr written winv D (DumpEndianBlock bs D) (if swap D then rev bs else bs)"
  using DumpBlock_emits [of D "if swap D then rev bs else bs"]
  by (auto simp: DumpEndianBlock_def DumpBlock_def Let_def split: if_split_asm)

lemma DumpChar_emits: "writer D = wr \<Longrightarrow> emits wr written winv D (DumpChar y D) [word_of_int y]"
  using DumpEndianBlock_emits [of D "[word_of_int y]"]
  by (simp add: DumpChar_def split: if_split_asm)

lemma DumpInt_emits:
  "writer D = wr \<Longrightarrow> emits wr written winv D (DumpInt le x D) (fmt_int (le \<noteq> swap D) x)"
  using DumpEndianBlock_emits [of D "mem le 4 (c_uint x)"]
  by (auto simp: DumpInt_def fmt_int_def rev_mem split: if_split_asm)

lemma DumpSize_emits:
  "writer D = wr \<Longrightarrow> emits wr written winv D (DumpSize le x D) (mem (le \<noteq> swap D) 4 x)"
  using DumpEndianBlock_emits [of D "mem le 4 x"]
  by (auto simp: DumpSize_def rev_mem split: if_split_asm)

lemma DumpNumber_emits:
  "writer D = wr \<Longrightarrow> emits wr written winv D (DumpNumber le x D) (mem (le \<noteq> swap D) 8 x)"
  using DumpEndianBlock_emits [of D "mem le 8 x"]
  by (auto simp: DumpNumber_def rev_mem split: if_split_asm)

lemma DumpVector_emits:
  assumes "writer D = wr"
  shows "emits wr written winv D (DumpVector le (map (mem le k) xs) D)
    (fmt_vector (le \<noteq> swap D) (map (mem (le \<noteq> swap D) k) xs))"
proof -
  let ?D = "DumpInt le (int (length xs)) D"
  note 1 = DumpInt_emits [OF assms, of le "int (length xs)"]
  have "DumpVector le (map (mem le k) xs) D
      = DumpBlock (if swap D then concat (map rev (map (mem le k) xs)) else concat (map (mem le k) xs)) ?D"
    using emitsD [OF 1] by (auto simp: DumpVector_def DumpBlock_def Let_def)
  also have "\<dots> = DumpBlock (concat (map (mem (le \<noteq> swap D) k) xs)) ?D"
    by (simp only: concat_rev_mem) (simp add: comp_def)
  finally show ?thesis
    using emits_trans [OF 1 DumpBlock_emits] emitsD [OF 1] by (simp add: fmt_vector_def)
qed

lemma DumpString_emits:
  assumes "writer D = wr"
  shows "emits wr written winv D (DumpString le s D) (fmt_string (le \<noteq> swap D) s)"
proof (cases s)
  case None
  with DumpSize_emits [OF assms] show ?thesis by (simp add: DumpString_def fmt_string_def)
next
  case (Some bs)
  note 1 = DumpSize_emits [OF assms, of le "of_nat (length bs) + 1"]
  from Some emits_trans [OF 1 DumpBlock_emits] emitsD [OF 1] show ?thesis
    by (simp add: DumpString_def fmt_string_def)
qed

lemma DumpConstant_emits:
  assumes "writer D = wr"
  shows "emits wr written winv D (DumpConstant le v D) (fmt_constant (le \<noteq> swap D) v)"
proof -
  let ?D = "DumpChar (ttype v) D"
  note 1 = DumpChar_emits [OF assms, of "ttype v"]
  have D: "writer ?D = wr" "swap ?D = swap D" using emitsD [OF 1] by auto
  note t = emits_trans [OF 1 DumpChar_emits [OF D(1)]] emits_trans [OF 1 DumpNumber_emits [OF D(1)]]
    emits_trans [OF 1 DumpString_emits [OF D(1)]] emits_trans [OF 1 DumpVector_emits [OF D(1)]]
  show ?thesis
    using 1 t [unfolded D(2)]
    by (cases v) (simp_all add: DumpConstant_def fmt_constant_def DumpWString_def del: map_append)
qed

lemma DumpLocVar_emits:
  assumes "writer D = wr"
  shows "emits wr written winv D (DumpInt le (endpc v) (DumpInt le (startpc v) (DumpString le (varname v) D)))
    (fmt_locvar (le \<noteq> swap D) v)"
proof -
  note 1 = DumpString_emits [OF assms, of le "varname v"]
  note 2 = emits_trans [OF 1 DumpInt_emits]
  note 3 = emits_trans [OF 2 DumpInt_emits]
  show ?thesis using 3 emitsD [OF 1] emitsD [OF 2] by (simp add: fmt_locvar_def)
qed

lemma Dump_seq_emits:
  assumes "\<And>x D'. x \<in> set xs \<Longrightarrow> writer D' = wr \<Longrightarrow> swap D' = swap D \<Longrightarrow> strip D' = strip D \<Longrightarrow>
      emits wr written winv D' (e x D') (b x)"
    and "writer D = wr"
  shows "emits wr written winv D (fold e xs (DumpInt le (int (length xs)) D)) (fmt_seq (le \<noteq> swap D) b xs)"
proof -
  note 1 = DumpInt_emits [OF assms(2), of le "int (length xs)"]
  have "emits wr written winv (DumpInt le (int (length xs)) D) (fold e xs (DumpInt le (int (length xs)) D))
      (concat (map b xs))"
    using assms(1) emitsD [OF 1] by (intro emits_fold [where sw = "swap D" and st = "strip D"]) auto
  from emits_trans [OF 1 this] show ?thesis by (simp add: fmt_seq_def)
qed

lemma DumpDebug_emits:
  assumes "writer D = wr"
  shows "emits wr written winv D (DumpDebug le f D) (fmt_debug (le \<noteq> swap D) (strip D) f)"
proof -
  define li where "li = (if strip D then [] else lineinfo f)"
  define lv where "lv = (if strip D then [] else locvars f)"
  define up where "up = (if strip D then [] else upvalues f)"
  let ?v = "\<lambda>v D. DumpInt le (endpc v) (DumpInt le (startpc v) (DumpString le (varname v) D))"
  let ?D1 = "DumpVector le (map (\<lambda>x. mem le 4 (c_uint x)) li) D"
  let ?D2 = "fold ?v lv (DumpInt le (int (length lv)) ?D1)"
  have 1: "emits wr written winv D ?D1
      (fmt_vector (le \<noteq> swap D) (map (\<lambda>x. mem (le \<noteq> swap D) 4 (c_uint x)) li))"
    using DumpVector_emits [OF assms, of le 4 "map c_uint li"] by (simp add: comp_def)
  note D1 = emitsD [OF 1]
  have 2: "emits wr written winv ?D1 ?D2 (fmt_seq (le \<noteq> swap ?D1) (fmt_locvar (le \<noteq> swap ?D1)) lv)"
  proof (rule Dump_seq_emits)
    show "writer ?D1 = wr" using D1 by simp
    show "emits wr written winv D' (?v x D') (fmt_locvar (le \<noteq> swap ?D1) x)"
      if "writer D' = wr" "swap D' = swap ?D1" for x D'
      using DumpLocVar_emits [of D' le x] that by (simp only:)
  qed
  note D2 = emitsD [OF 2]
  have 3: "emits wr written winv ?D2 (fold (DumpString le) up (DumpInt le (int (length up)) ?D2))
      (fmt_seq (le \<noteq> swap ?D2) (fmt_string (le \<noteq> swap ?D2)) up)"
  proof (rule Dump_seq_emits)
    show "writer ?D2 = wr" using D2 by simp
    show "emits wr written winv D' (DumpString le x D') (fmt_string (le \<noteq> swap ?D2) x)"
      if "writer D' = wr" "swap D' = swap ?D2" for x D'
      using DumpString_emits [of D' le x] that by (simp only:)
  qed
  have "DumpDebug le f D = fold (DumpString le) up (DumpInt le (int (length up)) ?D2)"
    using D1 D2 by (simp add: DumpDebug_def Let_def li_def lv_def up_def)
  moreover have "fmt_debug (le \<noteq> swap D) (strip D) f =
      (fmt_vector (le \<noteq> swap D) (map (\<lambda>x. mem (le \<noteq> swap D) 4 (c_uint x)) li)
       @ fmt_seq (le \<noteq> swap ?D1) (fmt_locvar (le \<noteq> swap ?D1)) lv)
       @ fmt_seq (le \<noteq> swap ?D2) (fmt_string (le \<noteq> swap ?D2)) up"
    using D1 D2 by (simp add: fmt_debug_def li_def lv_def up_def)
  ultimately show ?thesis using emits_trans [OF emits_trans [OF 1 2] 3] by (simp only:)
qed

text \<open>An operation that emits the format \<open>b\<close> from every state, and chains of such operations.\<close>

definition emitter where
  "emitter le g b \<longleftrightarrow>
     (\<forall>D. writer D = wr \<longrightarrow> emits wr written winv D (g D) (b (le \<noteq> swap D) (strip D)))"

lemma emits_chain:
  assumes "emits wr written winv D0 D bs" and "emitter le g b"
  shows "emits wr written winv D0 (g D) (bs @ b (le \<noteq> swap D0) (strip D0))"
proof -
  have "emits wr written winv D (g D) (b (le \<noteq> swap D) (strip D))"
    using assms(2) emitsD [OF assms(1)] unfolding emitter_def by metis
  with emits_trans [OF assms(1) this] emitsD [OF assms(1)] show ?thesis by simp
qed

lemma emitters:
  "emitter le (DumpInt le x) (\<lambda>te st. fmt_int te x)"
  "emitter le (DumpChar y) (\<lambda>te st. [word_of_int y])"
  "emitter le (DumpCode le f) (\<lambda>te st. fmt_vector te (map (mem te 4) (code f)))"
  "emitter le (DumpDebug le f) (\<lambda>te st. fmt_debug te st f)"
  using DumpInt_emits DumpChar_emits DumpVector_emits DumpDebug_emits
  unfolding emitter_def DumpCode_def by blast+

lemma emitter_fold:
  assumes "\<And>x. x \<in> set xs \<Longrightarrow> emitter le (e x) (b x)"
  shows "emitter le (fold e xs) (\<lambda>te st. concat (map (\<lambda>x. b x te st) xs))"
  unfolding emitter_def
proof (intro allI impI)
  fix D :: "'d DumpState"
  assume "writer D = wr"
  moreover have "emits wr written winv D' (e x D') (b x (le \<noteq> swap D) (strip D))"
    if "x \<in> set xs" "writer D' = wr" "swap D' = swap D" "strip D' = strip D" for x D'
  proof -
    have "emits wr written winv D' (e x D') (b x (le \<noteq> swap D') (strip D'))"
      using assms [OF that(1)] that(2) unfolding emitter_def by blast
    then show ?thesis by (simp only: that(3,4))
  qed
  ultimately show "emits wr written winv D (fold e xs D)
      (concat (map (\<lambda>x. b x (le \<noteq> swap D) (strip D)) xs))"
    by (rule emits_fold [OF _ _ refl refl, rotated])
qed

lemma DumpFunction_emitter:
  "emitter le (DumpFunction le f p) (\<lambda>te st. fmt_function te st f p)"
proof (induction f arbitrary: p rule: measure_induct_rule [of size])
  case (less f)
  show ?case
    unfolding emitter_def
  proof (intro allI impI)
    fix D :: "'d DumpState"
    assume "writer D = wr"
    note 1 = DumpString_emits [OF this, of le "if source f = p \<or> strip D then None else source f"]
    have k: "emitter le (fold (DumpConstant le) (pk f))
        (\<lambda>te st. concat (map (\<lambda>v. fmt_constant te v) (pk f)))"
      using DumpConstant_emits by (intro emitter_fold) (auto simp: emitter_def)
    have g: "emitter le (fold (\<lambda>g. DumpFunction le g (source f)) (pp f))
        (\<lambda>te st. concat (map (\<lambda>g. fmt_function te st g (source f)) (pp f)))"
      by (intro emitter_fold less.IH size_inner)
    note 2 = emits_chain [OF emits_chain [OF 1 emitters(1) [of le "linedefined f"]]
      emitters(1) [of le "lastlinedefined f"]]
    note 3 = emits_chain [OF emits_chain [OF 2 emitters(2) [of le "uint (nups f)"]]
      emitters(2) [of le "uint (numparams f)"]]
    note 4 = emits_chain [OF emits_chain [OF 3 emitters(2) [of le "uint (is_vararg f)"]]
      emitters(2) [of le "uint (maxstacksize f)"]]
    note 5 = emits_chain [OF emits_chain [OF emits_chain [OF 4 emitters(3) [of le f]]
      emitters(1) [of le "sizek f"]] k]
    note 6 = emits_chain [OF emits_chain [OF 5 emitters(1) [of le "sizep f"]] g]
    note 7 = emits_chain [OF 6 emitters(4) [of le f]]
    show "emits wr written winv D (DumpFunction le f p D) (fmt_function (le \<noteq> swap D) (strip D) f p)"
      using 7
      by (subst DumpFunction.simps, subst fmt_function.simps) (simp add: Let_def fmt_seq_def)
  qed
qed

lemma luaU_dump_emits:
  "emits wr written winv \<lparr>writer = wr, ddata = d, strip = st, status = 0, swap = doendian le e, endian = e\<rparr>
     (DumpFunction le f None (DumpHeader le
       \<lparr>writer = wr, ddata = d, strip = st, status = 0, swap = doendian le e, endian = e\<rparr>))
     (luaU_header le e @ fmt_function (le \<noteq> doendian le e) st f None)"
proof -
  let ?D = "\<lparr>writer = wr, ddata = d, strip = st, status = 0, swap = doendian le e, endian = e\<rparr>"
  have "emits wr written winv ?D (DumpHeader le ?D) (luaU_header le e)"
    using DumpBlock_emits [of ?D "luaU_header le e"] by (simp add: DumpHeader_def)
  from emits_chain [OF this DumpFunction_emitter [of le f None]] show ?thesis by simp
qed

text \<open>A dump that reports success has written the chunk.\<close>

lemma luaU_dump_writes:
  assumes "luaU_dump le f wr d st e = (d', 0)" and "winv d"
    and "e \<in> {OP_LITTLEENDIAN, OP_BIGENDIAN, OP_NATIVE}"
  shows "winv d' \<and> written d' = written d @ fmt_chunk (if e = OP_NATIVE then le else e = OP_LITTLEENDIAN) st f"
proof -
  let ?D = "\<lparr>writer = wr, ddata = d, strip = st, status = 0, swap = doendian le e, endian = e\<rparr>"
  let ?te = "if e = OP_NATIVE then le else e = OP_LITTLEENDIAN"
  have te: "le \<noteq> doendian le e \<longleftrightarrow> ?te"
    using assms(3) by (auto simp: doendian_def first_byte endian_chars)
  have hd: "luaU_header le e = fmt_header ?te"
    using assms(3) by (auto simp: luaU_header_def fmt_header_def first_byte endian_chars)
  from luaU_dump_emits [of d st le e f]
  have "emits wr written winv ?D (DumpFunction le f None (DumpHeader le ?D)) (fmt_chunk ?te st f)"
    by (simp only: fmt_chunk_def hd te)
  with assms(1,2) show ?thesis by (simp add: emits_def luaU_dump_def Let_def)
qed

text \<open>A writer that never fails makes the dump succeed.\<close>

lemma luaU_dump_succeeds:
  "(\<And>bs d. snd (wr bs d) = 0) \<Longrightarrow> snd (luaU_dump le f wr d st e) = 0"
  using luaU_dump_emits [of d st le e f] by (simp add: luaU_dump_def Let_def emits_def)

end

end
