(* ===== verification/AuxBuffer.thy ===== *)
theory AuxBuffer
  imports Zio Dump
begin

text \<open>
  The string buffers of the auxiliary library (\<open>lauxlib.c\<close>), on which \<open>string.dump\<close>, \<open>table.concat\<close>,
  \<open>string.gsub\<close> and others build their results. \<open>bbuf\<close> is the part of the fixed array in use,
  \<open>bstack\<close> the Lua stack (top first), of which the \<open>blvl\<close> topmost strings belong to the buffer. The
  model is of buffers of narrow characters (\<open>isWide\<close> is 0).
\<close>

section \<open>The operations\<close>

record luaL_Buffer =
  bbuf :: "byte list"
  blvl :: int
  bstack :: "byte list list"

definition LUA_MINSTACK :: int where "LUA_MINSTACK = 20"
definition LIMIT :: int where "LIMIT = LUA_MINSTACK div 2"

definition luaL_buffinit :: "byte list list \<Rightarrow> luaL_Buffer" where
  "luaL_buffinit st = \<lparr>bbuf = [], blvl = 0, bstack = st\<rparr>"

text \<open>\<open>lua_concat\<close> on a stack of strings: the \<open>n\<close> topmost become one.\<close>

definition lua_concat :: "int \<Rightarrow> byte list list \<Rightarrow> byte list list" where
  "lua_concat n st = concat (rev (take (nat n) st)) # drop (nat n) st"

definition emptybuffer :: "luaL_Buffer \<Rightarrow> bool \<times> luaL_Buffer" where
  "emptybuffer B =
     (if length (bbuf B) = 0 then (False, B)
      else (True, B\<lparr>bstack := bbuf B # bstack B, bbuf := [], blvl := blvl B + 1\<rparr>))"

text \<open>The loop of \<open>adjuststack\<close>: how many strings to join.\<close>

function adjust_loop :: "byte list list \<Rightarrow> int \<Rightarrow> int \<Rightarrow> nat \<Rightarrow> int" where
  "adjust_loop st lvl toget toplen =
     (let l = length (st ! nat toget)
      in if lvl - toget + 1 \<ge> LIMIT \<or> toplen > l
         then if toget + 1 < lvl then adjust_loop st lvl (toget + 1) (toplen + l) else toget + 1
         else toget)"
  by pat_completeness auto
termination by (relation "measure (\<lambda>(st, lvl, toget, toplen). nat (lvl - toget))") auto

declare adjust_loop.simps [simp del]

definition adjuststack :: "luaL_Buffer \<Rightarrow> luaL_Buffer" where
  "adjuststack B =
     (if blvl B > 1
      then let toget = adjust_loop (bstack B) (blvl B) 1 (length (hd (bstack B)))
           in B\<lparr>bstack := lua_concat toget (bstack B), blvl := blvl B - toget + 1\<rparr>
      else B)"

definition luaL_prepbuffer :: "luaL_Buffer \<Rightarrow> luaL_Buffer" where
  "luaL_prepbuffer B = (let (e, B) = emptybuffer B in if e then adjuststack B else B)"

definition luaL_addchar :: "luaL_Buffer \<Rightarrow> byte \<Rightarrow> luaL_Buffer" where
  "luaL_addchar B c =
     (let B = (if length (bbuf B) < LUAL_BUFFERSIZE then B else luaL_prepbuffer B)
      in B\<lparr>bbuf := bbuf B @ [c]\<rparr>)"

definition luaL_addlstring :: "luaL_Buffer \<Rightarrow> byte list \<Rightarrow> luaL_Buffer" where
  "luaL_addlstring B s = fold (\<lambda>c B. luaL_addchar B c) s B"

definition luaL_addstring :: "luaL_Buffer \<Rightarrow> byte list \<Rightarrow> luaL_Buffer" where
  "luaL_addstring B s = luaL_addlstring B (c_str s)"

definition luaL_pushresult :: "luaL_Buffer \<Rightarrow> luaL_Buffer" where
  "luaL_pushresult B =
     (let (_, B) = emptybuffer B in B\<lparr>bstack := lua_concat (blvl B) (bstack B), blvl := 1\<rparr>)"

text \<open>\<open>luaL_addvalue\<close>: the string on top of the stack moves into the buffer.\<close>

definition luaL_addvalue :: "luaL_Buffer \<Rightarrow> luaL_Buffer" where
  "luaL_addvalue B =
     (let s = hd (bstack B); vl = length s
      in if vl \<le> LUAL_BUFFERSIZE - length (bbuf B)
         then B\<lparr>bbuf := bbuf B @ s, bstack := tl (bstack B)\<rparr>
         else let (e, B) = emptybuffer B;
                  B = (if e then B\<lparr>bstack := hd (tl (bstack B)) # hd (bstack B) # tl (tl (bstack B))\<rparr> else B);
                  B = B\<lparr>blvl := blvl B + 1\<rparr>
              in adjuststack B)"

text \<open>The writer of \<open>string.dump\<close> (\<open>lstrlib.c\<close>).\<close>

definition str_writer :: "byte list \<Rightarrow> luaL_Buffer \<Rightarrow> luaL_Buffer \<times> int" where
  "str_writer b B = (luaL_addlstring B b, 0)"

section \<open>What a buffer holds\<close>

definition buffer_ok :: "luaL_Buffer \<Rightarrow> bool" where
  "buffer_ok B \<longleftrightarrow> 0 \<le> blvl B \<and> blvl B \<le> int (length (bstack B)) \<and> length (bbuf B) \<le> LUAL_BUFFERSIZE"

definition buffer_content :: "luaL_Buffer \<Rightarrow> byte list" where
  "buffer_content B = concat (rev (take (nat (blvl B)) (bstack B))) @ bbuf B"

definition below_buffer :: "luaL_Buffer \<Rightarrow> byte list list" where
  "below_buffer B = drop (nat (blvl B)) (bstack B)"

lemma adjust_loop_range:
  "1 \<le> toget \<Longrightarrow> toget < lvl \<Longrightarrow>
     toget \<le> adjust_loop st lvl toget n \<and> adjust_loop st lvl toget n \<le> lvl
     \<and> (adjust_loop st lvl toget n = lvl \<or> lvl - adjust_loop st lvl toget n + 1 < LIMIT)"
proof (induction st lvl toget n rule: adjust_loop.induct)
  case (1 st lvl toget n)
  then show ?case
    by (subst (1 2 3 4) adjust_loop.simps) (auto simp: Let_def)
qed

text \<open>Joining strings keeps the content and what lies below.\<close>

lemma join_content:
  assumes "1 \<le> n" "n \<le> lvl" "lvl \<le> int (length st)"
  shows "concat (rev (take (nat (lvl - n + 1)) (lua_concat n st))) = concat (rev (take (nat lvl) st))"
    and "drop (nat (lvl - n + 1)) (lua_concat n st) = drop (nat lvl) st"
    and "lvl - n + 1 \<le> int (length (lua_concat n st))"
proof -
  obtain a b where ab: "n = int a" "lvl = int (a + b)"
    using assms by (metis zero_le_imp_eq_int le_iff_add of_nat_add order_trans zero_le_one int_ops(1) of_nat_le_iff)
  have e: "nat (lvl - n + 1) = Suc b" using ab by simp
  have "take (a + b) st = take a st @ take b (drop a st)" by (simp add: take_add)
  then show "concat (rev (take (nat (lvl - n + 1)) (lua_concat n st))) = concat (rev (take (nat lvl) st))"
    unfolding e by (simp add: lua_concat_def ab nat_int_add)
  show "drop (nat (lvl - n + 1)) (lua_concat n st) = drop (nat lvl) st"
    unfolding e by (simp add: lua_concat_def ab nat_int_add add.commute)
  show "lvl - n + 1 \<le> int (length (lua_concat n st))"
    using assms ab by (simp add: lua_concat_def)
qed

lemma adjuststack_ok:
  assumes "buffer_ok B"
  shows "buffer_ok (adjuststack B) \<and> buffer_content (adjuststack B) = buffer_content B
    \<and> below_buffer (adjuststack B) = below_buffer B \<and> bbuf (adjuststack B) = bbuf B
    \<and> blvl (adjuststack B) < LIMIT"
proof (cases "blvl B > 1")
  case False
  with assms show ?thesis by (simp add: adjuststack_def LIMIT_def LUA_MINSTACK_def)
next
  case True
  let ?n = "adjust_loop (bstack B) (blvl B) 1 (length (hd (bstack B)))"
  have n: "1 \<le> ?n" "?n \<le> blvl B" "?n = blvl B \<or> blvl B - ?n + 1 < LIMIT"
    using adjust_loop_range [of 1 "blvl B" "bstack B" "length (hd (bstack B))"] True by auto
  have le: "blvl B \<le> int (length (bstack B))" using assms by (simp add: buffer_ok_def)
  have "blvl B - ?n + 1 < LIMIT" using n(3) by (auto simp: LIMIT_def LUA_MINSTACK_def)
  then show ?thesis
    using True n assms join_content [OF n(1,2) le]
    by (simp add: adjuststack_def Let_def buffer_ok_def buffer_content_def below_buffer_def)
qed

lemma emptybuffer_ok:
  assumes "buffer_ok B" and "emptybuffer B = (e, B')"
  shows "buffer_ok B' \<and> buffer_content B' = buffer_content B \<and> below_buffer B' = below_buffer B
    \<and> bbuf B' = [] \<and> blvl B' = (if e then blvl B + 1 else blvl B)"
proof -
  have "nat (blvl B + 1) = Suc (nat (blvl B))"
    using assms(1) by (simp add: buffer_ok_def Suc_nat_eq_nat_zadd1 add.commute)
  then show ?thesis
    using assms
    by (auto simp: emptybuffer_def buffer_ok_def buffer_content_def below_buffer_def split: if_split_asm)
qed

lemma prepbuffer_ok:
  assumes "buffer_ok B"
  shows "buffer_ok (luaL_prepbuffer B) \<and> buffer_content (luaL_prepbuffer B) = buffer_content B
    \<and> below_buffer (luaL_prepbuffer B) = below_buffer B \<and> bbuf (luaL_prepbuffer B) = []
    \<and> (blvl B < LIMIT \<longrightarrow> blvl (luaL_prepbuffer B) < LIMIT)"
  using emptybuffer_ok [OF assms] adjuststack_ok
  by (cases "emptybuffer B") (auto simp: luaL_prepbuffer_def split: if_split)

lemma addchar_ok:
  assumes "buffer_ok B"
  shows "buffer_ok (luaL_addchar B c) \<and> buffer_content (luaL_addchar B c) = buffer_content B @ [c]
    \<and> below_buffer (luaL_addchar B c) = below_buffer B
    \<and> (blvl B < LIMIT \<longrightarrow> blvl (luaL_addchar B c) < LIMIT)"
proof (cases "length (bbuf B) < LUAL_BUFFERSIZE")
  case True
  with assms show ?thesis
    by (simp add: luaL_addchar_def buffer_ok_def buffer_content_def below_buffer_def)
next
  case False
  with prepbuffer_ok [OF assms] show ?thesis
    by (auto simp: luaL_addchar_def Let_def buffer_ok_def buffer_content_def below_buffer_def
        LUAL_BUFFERSIZE_def)
qed

lemma addlstring_ok:
  "buffer_ok B \<Longrightarrow> buffer_ok (luaL_addlstring B s) \<and> buffer_content (luaL_addlstring B s) = buffer_content B @ s
    \<and> below_buffer (luaL_addlstring B s) = below_buffer B
    \<and> (blvl B < LIMIT \<longrightarrow> blvl (luaL_addlstring B s) < LIMIT)"
  unfolding luaL_addlstring_def
  using addchar_ok by (induction s arbitrary: B) auto

lemma buffinit_ok:
  "buffer_ok (luaL_buffinit st) \<and> buffer_content (luaL_buffinit st) = [] \<and> below_buffer (luaL_buffinit st) = st"
  by (simp add: luaL_buffinit_def buffer_ok_def buffer_content_def below_buffer_def)

lemma pushresult_ok:
  assumes "buffer_ok B"
  shows "bstack (luaL_pushresult B) = buffer_content B # below_buffer B"
proof -
  obtain e B' where B': "emptybuffer B = (e, B')" by fastforce
  from emptybuffer_ok [OF assms B'] B' show ?thesis
    by (auto simp: luaL_pushresult_def lua_concat_def buffer_content_def below_buffer_def)
qed

text \<open>With the value to add on top of the stack, above the strings of the buffer.\<close>

lemma addvalue_ok:
  assumes "buffer_ok (B\<lparr>bstack := st\<rparr>)" and "bstack B = s # st"
  shows "buffer_ok (luaL_addvalue B)
    \<and> buffer_content (luaL_addvalue B) = buffer_content (B\<lparr>bstack := st\<rparr>) @ s
    \<and> below_buffer (luaL_addvalue B) = below_buffer (B\<lparr>bstack := st\<rparr>)"
proof (cases "length s \<le> LUAL_BUFFERSIZE - length (bbuf B)")
  case True
  with assms show ?thesis
    by (auto simp: luaL_addvalue_def Let_def buffer_ok_def buffer_content_def below_buffer_def)
next
  case False
  let ?C = "if bbuf B = [] then B\<lparr>blvl := blvl B + 1\<rparr>
    else B\<lparr>bbuf := [], bstack := s # bbuf B # st, blvl := blvl B + 1 + 1\<rparr>"
  have C: "luaL_addvalue B = adjuststack ?C"
    using False assms(2) by (simp add: luaL_addvalue_def Let_def emptybuffer_def)
  have n: "nat (blvl B + 1) = Suc (nat (blvl B))" "nat (blvl B + 1 + 1) = Suc (Suc (nat (blvl B)))"
    using assms(1) by (simp_all add: buffer_ok_def nat_add_distrib)
  have "buffer_ok ?C \<and> buffer_content ?C = buffer_content (B\<lparr>bstack := st\<rparr>) @ s
      \<and> below_buffer ?C = below_buffer (B\<lparr>bstack := st\<rparr>)"
    using assms n by (auto simp: buffer_ok_def buffer_content_def below_buffer_def)
  with adjuststack_ok [of ?C] show ?thesis unfolding C by metis
qed

interpretation str_writer: chunk_writer str_writer buffer_content buffer_ok
  by unfold_locales (use addlstring_ok in \<open>auto simp: str_writer_def\<close>)

section \<open>Properties\<close>

text \<open>
  C19: whatever strings are added to a buffer, and however it moves them to the stack and joins them
  there, the result it pushes is their concatenation, the rest of the stack is untouched, and it
  never keeps \<open>LIMIT\<close> or more strings on the stack.
\<close>

theorem buffer_result:
  "bstack (luaL_pushresult (fold (\<lambda>s B. luaL_addlstring B s) ss (luaL_buffinit st))) = concat ss # st
   \<and> blvl (fold (\<lambda>s B. luaL_addlstring B s) ss (luaL_buffinit st)) < LIMIT"
proof -
  have "buffer_ok B \<Longrightarrow> blvl B < LIMIT \<Longrightarrow>
      buffer_ok (fold (\<lambda>s B. luaL_addlstring B s) ss B)
      \<and> buffer_content (fold (\<lambda>s B. luaL_addlstring B s) ss B) = buffer_content B @ concat ss
      \<and> below_buffer (fold (\<lambda>s B. luaL_addlstring B s) ss B) = below_buffer B
      \<and> blvl (fold (\<lambda>s B. luaL_addlstring B s) ss B) < LIMIT" for B
    using addlstring_ok by (induction ss arbitrary: B) auto
  from this [of "luaL_buffinit st"] buffinit_ok [of st] pushresult_ok show ?thesis
    by (simp add: luaL_buffinit_def LIMIT_def LUA_MINSTACK_def)
qed

end
