(* ===== verification/Undump.thy ===== *)
theory Undump
  imports Zio CodeCheck Dump AuxBuffer
begin

text \<open>
  Loading a binary chunk (\<open>lundump.c\<close>). As in the theory of the dump, \<open>le\<close> is the byte order of the
  host. Every operation reads from the stream \<open>Z\<close> of its state and returns the state; an
  unexpected end or a bad value raises a syntax error that names the chunk.
\<close>

section \<open>The loader\<close>

record 'd LoadState =
  Z :: "'d ZIO"
  lb :: Mbuffer
  lname :: string
  lswap :: bool

definition load_error :: "'d LoadState \<Rightarrow> string \<Rightarrow> 'a result" where
  "load_error S why = Inl (ErrSyntax (lname S @ '': '' @ why @ '' in precompiled chunk'') 0)"

definition LoadBlock :: "'d LoadState \<Rightarrow> u32 \<Rightarrow> (byte list \<times> 'd LoadState) result" where
  "LoadBlock S sz =
     bnd (luaZ_read (Z S) sz) (\<lambda>(r, bs, z).
     let S = S\<lparr>Z := z\<rparr> in if r \<noteq> 0 then load_error S ''unexpected end'' else Inr (bs, S))"

text \<open>The elements of \<open>k\<close> bytes, each reversed.\<close>

fun chunks_of :: "nat \<Rightarrow> nat \<Rightarrow> byte list \<Rightarrow> byte list list" where
  "chunks_of k 0 bs = []"
| "chunks_of k (Suc n) bs = take k bs # chunks_of k n (drop k bs)"

text \<open>
  \<open>LoadMem\<close>: the product \<open>n * size\<close> is taken modulo \<open>2 ^ 32\<close>; when it wraps, the loop that swaps
  the bytes runs past the bytes read.
\<close>

definition LoadMem :: "'d LoadState \<Rightarrow> u32 \<Rightarrow> u32 \<Rightarrow> (byte list \<times> 'd LoadState) result" where
  "LoadMem S n sz =
     bnd (LoadBlock S (n * sz)) (\<lambda>(bs, S).
     if lswap S
     then if sz = 1 then Inr (bs, S)
          else if sz \<in> {2, 4, 8}
          then if unat n * unat sz = length bs
               then Inr (concat (map rev (chunks_of (unat sz) (unat n) bs)), S)
               else Inl OutOfBounds
          else load_error S ''bad size''
     else Inr (bs, S))"

definition LoadChar :: "'d LoadState \<Rightarrow> (int \<times> 'd LoadState) result" where
  "LoadChar S = bnd (LoadMem S 1 1) (\<lambda>(bs, S). Inr (sint (hd bs), S))"

definition LoadByte :: "'d LoadState \<Rightarrow> (byte \<times> 'd LoadState) result" where
  "LoadByte S = bnd (LoadChar S) (\<lambda>(x, S). Inr (word_of_int x, S))"

definition LoadInt :: "bool \<Rightarrow> 'd LoadState \<Rightarrow> (int \<times> 'd LoadState) result" where
  "LoadInt le S =
     bnd (LoadMem S 1 4) (\<lambda>(bs, S).
     let x = c_int (mem_word le bs)
     in if x < 0 then load_error S ''bad integer'' else Inr (x, S))"

definition LoadNumber :: "bool \<Rightarrow> 'd LoadState \<Rightarrow> (lua_Number \<times> 'd LoadState) result" where
  "LoadNumber le S = bnd (LoadMem S 1 8) (\<lambda>(bs, S). Inr (mem_word le bs, S))"

definition LoadSize :: "bool \<Rightarrow> 'd LoadState \<Rightarrow> (u32 \<times> 'd LoadState) result" where
  "LoadSize le S = bnd (LoadMem S 1 4) (\<lambda>(bs, S). Inr (mem_word le bs, S))"

text \<open>
  The size checks of \<open>luaS_newlstr\<close> and \<open>luaS_newlwstr\<close> (\<open>lstring.c\<close>) for a string of \<open>l\<close>
  characters; the value of the new string is its contents. \<open>sizeof (TString)\<close> is 16.
\<close>

definition sizeof_TString :: u32 where "sizeof_TString = 16"

definition luaS_newlstr_value :: "byte list \<Rightarrow> u32 \<Rightarrow> byte list result" where
  "luaS_newlstr_value s l =
     (if unat l \<le> length s
      then if l + 1 > MAX_SIZET - sizeof_TString then luaM_toobig else Inr (take (unat l) s)
      else Inl OutOfBounds)"

definition luaS_newlwstr_value :: "wchar list \<Rightarrow> u32 \<Rightarrow> wchar list result" where
  "luaS_newlwstr_value s l =
     (if unat l \<le> length s
      then if l + 1 > (MAX_SIZET - sizeof_TString) div 2 then luaM_toobig else Inr (take (unat l) s)
      else Inl OutOfBounds)"

text \<open>What the buffer holds after \<open>bs\<close> has been read into it.\<close>

definition buffer_store :: "Mbuffer \<Rightarrow> byte list \<Rightarrow> Mbuffer" where
  "buffer_store b bs = b\<lparr>mbuffer := bs @ drop (length bs) (mbuffer b)\<rparr>"

definition LoadString ::
  "(nat \<Rightarrow> byte) \<Rightarrow> bool \<Rightarrow> 'd LoadState \<Rightarrow> (tstring option \<times> 'd LoadState) result" where
  "LoadString undef le S =
     bnd (LoadSize le S) (\<lambda>(sz, S).
     if sz = 0 then Inr (None, S)
     else bnd (luaZ_openspace undef (lb S) sz) (\<lambda>b.
          bnd (LoadBlock (S\<lparr>lb := b\<rparr>) sz) (\<lambda>(bs, S).
          let S = S\<lparr>lb := buffer_store (lb S) bs\<rparr>
          in bnd (luaS_newlstr_value (mbuffer (lb S)) (sz - 1)) (\<lambda>s. Inr (Some s, S)))))"

fun words_of :: "bool \<Rightarrow> byte list \<Rightarrow> wchar list" where
  "words_of le (b0 # b1 # bs) = mem_word le [b0, b1] # words_of le bs"
| "words_of le _ = []"

definition LoadWString ::
  "(nat \<Rightarrow> byte) \<Rightarrow> bool \<Rightarrow> 'd LoadState \<Rightarrow> (wchar list option \<times> 'd LoadState) result" where
  "LoadWString undef le S =
     bnd (LoadSize le S) (\<lambda>(sz, S).
     if sz = 0 then Inr (None, S)
     else bnd (luaZ_openspace undef (lb S) (sz * 2)) (\<lambda>b.
          bnd (LoadMem (S\<lparr>lb := b\<rparr>) sz 2) (\<lambda>(bs, S).
          let S = S\<lparr>lb := buffer_store (lb S) bs\<rparr>
          in bnd (luaS_newlwstr_value (words_of le (mbuffer (lb S))) (sz - 1)) (\<lambda>s. Inr (Some s, S)))))"

text \<open>The elements of a vector of \<open>n\<close> words of \<open>k\<close> bytes (\<open>luaM_newvector\<close>, \<open>LoadVector\<close>).\<close>

definition LoadWords ::
  "bool \<Rightarrow> 'd LoadState \<Rightarrow> int \<Rightarrow> (u32 list \<times> 'd LoadState) result" where
  "LoadWords le S n =
     bnd (luaM_reallocv (c_uint n) 4) (\<lambda>_.
     bnd (LoadMem S (c_uint n) 4) (\<lambda>(bs, S).
     Inr (map (mem_word le) (chunks_of 4 (nat n) bs), S)))"

definition LoadCode :: "bool \<Rightarrow> 'd LoadState \<Rightarrow> (Instruction list \<times> 'd LoadState) result" where
  "LoadCode le S = bnd (LoadInt le S) (\<lambda>(n, S). LoadWords le S n)"

text \<open>The loops \<open>for (i=0; i<n; i++)\<close> over an operation that reads one element.\<close>

primrec load_loop :: "('s \<Rightarrow> ('a \<times> 's) result) \<Rightarrow> nat \<Rightarrow> 's \<Rightarrow> ('a list \<times> 's) result" where
  "load_loop f 0 S = Inr ([], S)"
| "load_loop f (Suc n) S =
     bnd (f S) (\<lambda>(x, S). bnd (load_loop f n S) (\<lambda>(xs, S). Inr (x # xs, S)))"

text \<open>
  A constant that is a string of size 0 becomes a string value with a null pointer; the model stops
  there.
\<close>

definition LoadTagged ::
  "(nat \<Rightarrow> byte) \<Rightarrow> bool \<Rightarrow> int \<Rightarrow> 'd LoadState \<Rightarrow> (TValue \<times> 'd LoadState) result" where
  "LoadTagged undef le t S =
     (if t = 0 then Inr (LNil, S)
      else if t = 1 then bnd (LoadChar S) (\<lambda>(b, S). Inr (LBool b, S))
      else if t = 3 then bnd (LoadNumber le S) (\<lambda>(n, S). Inr (LNumber n, S))
      else if t = 4 then bnd (LoadString undef le S) (\<lambda>(s, S).
        case s of None \<Rightarrow> Inl OutOfBounds | Some bs \<Rightarrow> Inr (LString bs, S))
      else if t = 9 then bnd (LoadWString undef le S) (\<lambda>(s, S).
        case s of None \<Rightarrow> Inl OutOfBounds | Some ws \<Rightarrow> Inr (LWString ws, S))
      else load_error S ''bad constant'')"

definition LoadConstant ::
  "(nat \<Rightarrow> byte) \<Rightarrow> bool \<Rightarrow> 'd LoadState \<Rightarrow> (TValue \<times> 'd LoadState) result" where
  "LoadConstant undef le S = bnd (LoadChar S) (\<lambda>(t, S). LoadTagged undef le t S)"

definition LoadLocVar ::
  "(nat \<Rightarrow> byte) \<Rightarrow> bool \<Rightarrow> 'd LoadState \<Rightarrow> (LocVar \<times> 'd LoadState) result" where
  "LoadLocVar undef le S =
     bnd (LoadString undef le S) (\<lambda>(s, S).
     bnd (LoadInt le S) (\<lambda>(st, S).
     bnd (LoadInt le S) (\<lambda>(en, S).
     Inr (\<lparr>varname = s, startpc = st, endpc = en\<rparr>, S))))"

text \<open>A counted vector of elements of \<open>e\<close> bytes in memory.\<close>

definition load_counted ::
  "bool \<Rightarrow> u32 \<Rightarrow> ('d LoadState \<Rightarrow> ('a \<times> 'd LoadState) result) \<Rightarrow> 'd LoadState
     \<Rightarrow> ('a list \<times> 'd LoadState) result" where
  "load_counted le e f S =
     bnd (LoadInt le S) (\<lambda>(n, S).
     bnd (luaM_reallocv (c_uint n) e) (\<lambda>_. load_loop f (nat n) S))"

definition LoadDebug ::
  "(nat \<Rightarrow> byte) \<Rightarrow> bool \<Rightarrow> 'd LoadState
     \<Rightarrow> ((int list \<times> LocVar list \<times> tstring option list) \<times> 'd LoadState) result" where
  "LoadDebug undef le S =
     bnd (LoadInt le S) (\<lambda>(n, S).
     bnd (LoadWords le S n) (\<lambda>(li, S).
     bnd (load_counted le 12 (LoadLocVar undef le) S) (\<lambda>(lv, S).
     bnd (load_counted le 4 (LoadString undef le) S) (\<lambda>(up, S).
     Inr ((map c_int li, lv, up), S)))))"

text \<open>
  \<open>LoadFunction\<close> with \<open>LoadConstants\<close>, which calls it for the inner functions. The first argument
  bounds the depth of the nesting.
\<close>

fun LoadFunction ::
  "nat \<Rightarrow> (nat \<Rightarrow> byte) \<Rightarrow> bool \<Rightarrow> tstring option \<Rightarrow> 'd LoadState \<Rightarrow> (Proto \<times> 'd LoadState) result"
  where
  "LoadFunction 0 undef le p S = Inl OutOfFuel"
| "LoadFunction (Suc depth) undef le p S =
     bnd (LoadString undef le S) (\<lambda>(src, S).
     let src = (if src = None then p else src)
     in bnd (LoadInt le S) (\<lambda>(ld, S).
        bnd (LoadInt le S) (\<lambda>(lld, S).
        bnd (LoadByte S) (\<lambda>(nu, S).
        bnd (LoadByte S) (\<lambda>(np, S).
        bnd (LoadByte S) (\<lambda>(va, S).
        bnd (LoadByte S) (\<lambda>(ms, S).
        bnd (LoadCode le S) (\<lambda>(co, S).
        bnd (load_counted le 16 (LoadConstant undef le) S) (\<lambda>(ks, S).
        bnd (load_counted le 4 (LoadFunction depth undef le src) S) (\<lambda>(ps, S).
        bnd (LoadDebug undef le S) (\<lambda>((li, lv, up), S).
        let f = Proto ks co ps li lv up src ld lld nu np va ms
        in case luaG_checkcode f of
             Inl _ \<Rightarrow> Inl OutOfBounds
           | Inr ok \<Rightarrow> if \<not> ok then load_error S ''bad code'' else Inr (f, S))))))))))))"

declare LoadFunction.simps [simp del]

definition LoadHeader :: "bool \<Rightarrow> 'd LoadState \<Rightarrow> 'd LoadState result" where
  "LoadHeader le S =
     (let h = luaU_header le OP_NATIVE
      in bnd (LoadBlock S (of_nat LUAC_HEADERSIZE)) (\<lambda>(s, S).
         let S = S\<lparr>lswap := s ! 6 \<noteq> h ! 6\<rparr>; s = s[6 := h ! 6]
         in if h \<noteq> s then load_error S ''bad header'' else Inr S))"

definition chunk_name :: "string \<Rightarrow> string" where
  "chunk_name name =
     (case name of
        c # cs \<Rightarrow> if c = CHR ''@'' \<or> c = CHR ''='' then cs
                  else if of_char c = hd LUA_SIGNATURE then ''binary string'' else name
      | [] \<Rightarrow> name)"

definition luaU_undump ::
  "nat \<Rightarrow> (nat \<Rightarrow> byte) \<Rightarrow> bool \<Rightarrow> 'd ZIO \<Rightarrow> Mbuffer \<Rightarrow> string \<Rightarrow> (Proto \<times> 'd LoadState) result" where
  "luaU_undump depth undef le z buff name =
     bnd (LoadHeader le \<lparr>Z = z, lb = buff, lname = chunk_name name, lswap = False\<rparr>) (\<lambda>S.
     LoadFunction depth undef le (Some (bytes_of ''=?'')) S)"

section \<open>Loading reads the format\<close>

text \<open>
  \<open>loader rd content sw f bs x\<close>: on a stream that delivers \<open>bs\<close> next, with the swap flag \<open>sw\<close>, the
  operation \<open>f\<close> returns \<open>x\<close> and leaves the stream after \<open>bs\<close>.
\<close>

definition loader ::
  "('d \<Rightarrow> byte list option \<times> 'd) \<Rightarrow> ('d \<Rightarrow> byte list) \<Rightarrow> bool \<Rightarrow>
     ('d LoadState \<Rightarrow> ('a \<times> 'd LoadState) result) \<Rightarrow> byte list \<Rightarrow> 'a \<Rightarrow> bool" where
  "loader rd content sw f bs x \<longleftrightarrow>
     (\<forall>S rest. zio_ok rd (Z S) \<longrightarrow> lswap S = sw \<longrightarrow> zrest content (Z S) = bs @ rest \<longrightarrow>
        (\<exists>S'. f S = Inr (x, S') \<and> zio_ok rd (Z S') \<and> lswap S' = sw \<and> zrest content (Z S') = rest))"

lemma loader_return: "loader rd content sw (\<lambda>S. Inr (x, S)) [] x"
  by (simp add: loader_def)

lemma loader_bnd:
  fixes rd :: "'d \<Rightarrow> byte list option \<times> 'd"
  assumes f: "loader rd content sw f a x" and g: "loader rd content sw (g x) b y"
  shows "loader rd content sw (\<lambda>S. bnd (f S) (\<lambda>(x, S). g x S)) (a @ b) y"
  unfolding loader_def
proof (intro allI impI)
  fix S :: "'d LoadState" and rest
  assume *: "zio_ok rd (Z S)" "lswap S = sw" "zrest content (Z S) = (a @ b) @ rest"
  then obtain S1 where S1: "f S = Inr (x, S1)" "zio_ok rd (Z S1)" "lswap S1 = sw"
    "zrest content (Z S1) = b @ rest"
    using f unfolding loader_def by (metis append_assoc)
  then obtain S2 where "g x S1 = Inr (y, S2)" "zio_ok rd (Z S2)" "lswap S2 = sw"
    "zrest content (Z S2) = rest"
    using g unfolding loader_def by blast
  with S1 show "\<exists>S'. bnd (f S) (\<lambda>(x, S). g x S) = Inr (y, S') \<and> zio_ok rd (Z S') \<and> lswap S' = sw
      \<and> zrest content (Z S') = rest"
    by simp
qed

lemma loader_map:
  assumes "loader rd content sw f a x" and "g x = y"
  shows "loader rd content sw (\<lambda>S. bnd (f S) (\<lambda>(x, S). Inr (g x, S))) a y"
  using loader_bnd [OF assms(1), of "\<lambda>x S. Inr (g x, S)" "[]" y] assms(2)
  by (simp add: loader_return)

lemma loader_guard:
  "m = Inr () \<Longrightarrow> loader rd content sw f a x \<Longrightarrow> loader rd content sw (\<lambda>S. bnd m (\<lambda>_. f S)) a x"
  by simp

lemma loader_loop:
  assumes "\<And>x. x \<in> set xs \<Longrightarrow> loader rd content sw f (b x) (v x)"
  shows "loader rd content sw (load_loop f (length xs)) (concat (map b xs)) (map v xs)"
  using assms
proof (induction xs)
  case Nil
  then show ?case by (simp add: loader_return)
next
  case (Cons x xs)
  have "loader rd content sw (load_loop f (length xs)) (concat (map b xs)) (map v xs)"
    using Cons by simp
  from loader_map [OF this, of "\<lambda>xs. v x # xs" "v x # map v xs"]
  have "loader rd content sw (\<lambda>S. bnd (load_loop f (length xs) S) (\<lambda>(xs, S). Inr (v x # xs, S)))
      (concat (map b xs)) (v x # map v xs)" by simp
  moreover have "loader rd content sw f (b x) (v x)" using Cons.prems by simp
  ultimately show ?case
    using loader_bnd [where f = f and g = "\<lambda>y S. bnd (load_loop f (length xs) S) (\<lambda>(xs, S). Inr (y # xs, S))"
        and x = "v x"] by simp
qed

lemma chunks_of_concat:
  "(\<And>e. e \<in> set es \<Longrightarrow> length e = k) \<Longrightarrow> chunks_of k (length es) (concat es @ rest) = es"
  by (induction es) simp_all

lemma concat_length_k: "(\<And>e. e \<in> set es \<Longrightarrow> length e = k) \<Longrightarrow> length (concat es) = length es * k"
  by (induction es) simp_all

lemma mem_1 [simp]: "mem t (Suc 0) = (\<lambda>w. [ucast w])"
  by (rule ext) (simp add: mem_def Let_def)

lemma size_limits: "MAX_SIZET - sizeof_TString = 4294967277" "MAX_SIZET div 1 = 4294967293"
  "(MAX_SIZET - sizeof_TString) div 2 = 2147483638"
  by code_simp+

lemma luaZ_openspace_succeeds:
  assumes "sz \<le> 4294967290"
  obtains b where "luaZ_openspace undef buf sz = Inr b"
proof -
  let ?n = "if sz < LUA_MINBUFFER then LUA_MINBUFFER else sz"
  have n: "?n \<le> 4294967290" using assms by (simp add: LUA_MINBUFFER_def)
  then have "unat ?n + 1 \<le> 4294967293" by (simp only: word_le_nat_alt) simp
  then have "?n + 1 \<le> MAX_SIZET div 1"
    using unat_add_1_le [of ?n] unfolding size_limits word_le_nat_alt by simp
  then have "luaM_reallocv ?n 1 = Inr ()" by (simp only: luaM_reallocv_Inr)
  then show ?thesis
    using that unfolding luaZ_openspace_def luaZ_resizebuffer_def by (cases "sz > buffsize buf") auto
qed

lemma words_of_mem:
  "words_of le (concat (map (mem le 2) ws) @ rest) = ws @ words_of le rest"
proof (induction ws)
  case (Cons w ws)
  obtain b0 b1 where m: "mem le 2 w = [b0, b1]"
  proof -
    have "length (mem le 2 w) = Suc (Suc 0)" by simp
    then show ?thesis using that by (auto simp only: length_Suc_conv length_0_conv)
  qed
  then have "mem_word le [b0, b1] = w" using mem_word_mem [of 2 le w] by simp
  with m Cons show ?case by simp
qed simp

definition str_ok :: "tstring option \<Rightarrow> bool" where
  "str_ok s \<longleftrightarrow> (case s of None \<Rightarrow> True | Some bs \<Rightarrow> length bs + 20 \<le> 2 ^ 32)"

lemma size_nonzero: "n + 20 \<le> 2 ^ 32 \<Longrightarrow> (of_nat n + 1 :: u32) \<noteq> 0"
  using of_nat_eq_0_32 [of "n + 1"] by (simp add: add.commute)

definition wstr_ok :: "wchar list \<Rightarrow> bool" where
  "wstr_ok ws \<longleftrightarrow> length ws + 1 \<le> 2147483638"

definition const_ok :: "TValue \<Rightarrow> bool" where
  "const_ok v \<longleftrightarrow>
     (case v of
        LNil \<Rightarrow> True
      | LBool b \<Rightarrow> - 128 \<le> b \<and> b < 128
      | LNumber n \<Rightarrow> True
      | LString s \<Rightarrow> str_ok (Some s)
      | LWString ws \<Rightarrow> wstr_ok ws
      | _ \<Rightarrow> False)"

definition int_ok :: "int \<Rightarrow> bool" where
  "int_ok x \<longleftrightarrow> 0 \<le> x \<and> x < 2 ^ 31"

definition locvar_ok :: "LocVar \<Rightarrow> bool" where
  "locvar_ok v \<longleftrightarrow> str_ok (varname v) \<and> int_ok (startpc v) \<and> int_ok (endpc v)"

text \<open>
  What a function must satisfy to survive dumping and loading: every count and number fits its
  field, and the names and constants are ones the format can hold.
\<close>

definition debug_ok :: "Proto \<Rightarrow> bool" where
  "debug_ok f \<longleftrightarrow>
     sizelineinfo f + 1 \<le> 1073741823 \<and> (\<forall>l\<in>set (lineinfo f). - (2 ^ 31) \<le> l \<and> l < 2 ^ 31)
     \<and> sizelocvars f + 1 \<le> 357913941 \<and> (\<forall>v\<in>set (locvars f). locvar_ok v)
     \<and> sizeupvalues f + 1 \<le> 1073741823 \<and> (\<forall>u\<in>set (upvalues f). str_ok u)"

lemma newvector_ok:
  assumes "int n + 1 \<le> int m" "(of_nat m :: u32) = MAX_SIZET div e" "m < 2 ^ 32"
  shows "luaM_reallocv (c_uint (int n)) e = Inr ()"
proof -
  have "unat (of_nat n + 1 :: u32) \<le> n + 1"
    using unat_add_1_le [of "of_nat n :: u32"] unat_of_nat_32 [of n] assms(1,3) by linarith
  moreover have "unat (MAX_SIZET div e) = m"
    using unat_of_nat_32 [OF assms(3)] assms(2) by simp
  ultimately show ?thesis
    using assms(1) unfolding luaM_reallocv_Inr by (simp add: c_uint_def word_le_nat_alt)
qed

lemma newvector_sizes: "(of_nat 1073741823 :: u32) = MAX_SIZET div 4"
  "(of_nat 357913941 :: u32) = MAX_SIZET div 12" "(of_nat 268435455 :: u32) = MAX_SIZET div 16"
  by (simp_all add: MAX_SIZET_def)

text \<open>What is left of a function when the debug information is stripped.\<close>

definition strip_debug :: "bool \<Rightarrow> Proto \<Rightarrow> int list \<times> LocVar list \<times> tstring option list" where
  "strip_debug st f = (if st then ([], [], []) else (lineinfo f, locvars f, upvalues f))"

text \<open>
  The function that loading gives back: a source that was not written is that of the enclosing
  function, or \<open>=?\<close>. \<open>pd\<close> is the source of the enclosing function when it was dumped, \<open>pl\<close> when it
  is loaded.
\<close>

definition restored_source :: "bool \<Rightarrow> tstring option \<Rightarrow> tstring option \<Rightarrow> Proto \<Rightarrow> tstring option" where
  "restored_source st pl pd f =
     (if source f = pd \<or> st \<or> source f = None then pl else source f)"

fun restore :: "bool \<Rightarrow> tstring option \<Rightarrow> tstring option \<Rightarrow> Proto \<Rightarrow> Proto" where
  "restore st pl pd f =
     (let src = restored_source st pl pd f; (li, lv, up) = strip_debug st f
      in Proto (pk f) (code f) (map (\<lambda>g. restore st src (source f) g) (pp f)) li lv up src
           (linedefined f) (lastlinedefined f) (nups f) (numparams f) (is_vararg f) (maxstacksize f))"

fun proto_ok :: "Proto \<Rightarrow> bool" where
  "proto_ok f \<longleftrightarrow>
     str_ok (source f) \<and> int_ok (linedefined f) \<and> int_ok (lastlinedefined f)
     \<and> sizecode f + 1 \<le> 1073741823 \<and> sizek f + 1 \<le> 268435455 \<and> (\<forall>v\<in>set (pk f). const_ok v)
     \<and> sizep f + 1 \<le> 1073741823 \<and> debug_ok f \<and> luaG_checkcode f = Inr True
     \<and> (\<forall>g\<in>set (pp f). proto_ok g)"

fun nesting :: "Proto \<Rightarrow> nat" where
  "nesting f = Suc (foldr max (map nesting (pp f)) 0)"

declare restore.simps [simp del] proto_ok.simps [simp del] nesting.simps [simp del]

lemma foldr_max_ge: "x \<in> set xs \<Longrightarrow> x \<le> foldr max xs (0 :: nat)"
  by (induction xs) auto

lemma nesting_inner: "g \<in> set (pp f) \<Longrightarrow> nesting g < nesting f"
  using foldr_max_ge [of "nesting g" "map nesting (pp f)"] by (subst (2) nesting.simps) simp

lemma restore_sel [simp]:
  "pk (restore st pl pd f) = pk f" "code (restore st pl pd f) = code f"
  "nups (restore st pl pd f) = nups f" "is_vararg (restore st pl pd f) = is_vararg f"
  "maxstacksize (restore st pl pd f) = maxstacksize f"
  "pp (restore st pl pd f) = map (restore st (restored_source st pl pd f) (source f)) (pp f)"
  "lineinfo (restore st pl pd f) = (if st then [] else lineinfo f)"
  "locvars (restore st pl pd f) = (if st then [] else locvars f)"
  "upvalues (restore st pl pd f) = (if st then [] else upvalues f)"
  "source (restore st pl pd f) = restored_source st pl pd f"
  by (subst restore.simps; simp add: Let_def strip_debug_def)+

text \<open>The verifier does not look at what loading may change.\<close>

lemma symb_loop_cong:
  "symb_step p = symb_step q \<Longrightarrow> symb_loop p lastpc reg pc lst = symb_loop q lastpc reg pc lst"
proof (induction p lastpc reg pc lst rule: symb_loop.induct)
  case (1 p lastpc reg pc lst)
  then show ?case
    by (subst (1 2) symb_loop.simps) (auto split: sum.split prod.split)
qed

lemma checkcode_restore:
  assumes "luaG_checkcode f = Inr True"
  shows "luaG_checkcode (restore st pl pd f) = Inr True"
proof -
  let ?r = "restore st pl pd f"
  have sizes: "sizecode ?r = sizecode f" "sizek ?r = sizek f" "sizep ?r = sizep f" by simp_all
  have at1: "code_at ?r = code_at f" "k_at ?r = k_at f" "checkreg ?r = checkreg f"
    by (rule ext; simp add: code_at_def k_at_def checkreg_def)+
  have at2: "checkArgMode ?r = checkArgMode f"
    by (intro ext) (simp add: checkArgMode_def split: OpArgMask.split)
  have at3: "checkopenop ?r = checkopenop f"
    by (rule ext) (simp only: checkopenop_def at1)
  note at = at1 at2 at3
  have p: "p_at ?r b =
      bnd (p_at f b) (\<lambda>g. Inr (restore st (restored_source st pl pd f) (source f) g))" for b
    by (auto simp: p_at_def)
  have sw: "symb_switch ?r = symb_switch f"
    by (intro ext) (simp add: symb_switch_def Let_def at symb_closure_pseudo_def p bnd_assoc
        del: code_at_simps cong: if_cong)
  have ops: "symb_operands ?r = symb_operands f"
    by (intro ext) (simp add: symb_operands_def Let_def at del: code_at_simps cong: if_cong
        split: OpMode.split)
  have st: "symb_step ?r = symb_step f"
    by (intro ext) (simp add: symb_step_def Let_def at sw ops del: code_at_simps cong: if_cong)
  have lp: "symb_loop ?r lastpc reg pc lst = symb_loop f lastpc reg pc lst" for lastpc reg pc lst
    by (rule symb_loop_cong [OF st])
  have pre: "precheck ?r = Inr ()" if "precheck f = Inr ()"
    using that by (cases st) (auto simp: precheck_def results at)
  have "precheck f = Inr ()"
    using assms by (cases "precheck f")
      (auto simp: luaG_checkcode_def symbexec_def split: symb_stop.split_asm)
  with pre assms show ?thesis
    unfolding luaG_checkcode_def symbexec_def by (simp only: bnd_Inr lp at sizes)
qed

context byte_source begin

lemma LoadBlock_loader:
  assumes "length bs = unat n"
  shows "loader rd content sw (\<lambda>S. LoadBlock S n) bs bs"
  unfolding loader_def
proof (intro allI impI)
  fix S :: "'d LoadState" and rest
  assume *: "zio_ok rd (Z S)" "lswap S = sw" "zrest content (Z S) = bs @ rest"
  from luaZ_read_content [OF *(1), of n] *(3) assms
  show "\<exists>S'. LoadBlock S n = Inr (bs, S') \<and> zio_ok rd (Z S') \<and> lswap S' = sw \<and> zrest content (Z S') = rest"
    using *(2) by (auto simp: LoadBlock_def Let_def)
qed

lemma LoadMem_loader:
  assumes "k \<in> {1, 2, 4, 8}" and "length ws * k < 2 ^ 32"
  shows "loader rd content (te \<noteq> le) (\<lambda>S. LoadMem S (of_nat (length ws)) (of_nat k))
    (concat (map (mem te k) ws)) (concat (map (mem le k) ws))"
proof -
  let ?n = "of_nat (length ws) :: u32" and ?k = "of_nat k :: u32"
  let ?a = "concat (map (mem te k) ws)"
  have "1 \<le> k" using assms(1) by auto
  then have "length ws \<le> length ws * k" by simp
  with assms(2) have n: "unat ?n = length ws" by (intro unat_of_nat_32) linarith
  have k: "unat ?k = k" using assms(1) by auto
  have ks: "?k = 1 \<longleftrightarrow> k = 1" "?k \<in> {2, 4, 8} \<longleftrightarrow> k \<noteq> 1" using assms(1) by auto
  have len: "length ?a = length ws * k" by (subst concat_length_k [where k = k]) auto
  have nk: "unat (?n * ?k) = length ws * k"
    using unat_of_nat_32 [OF assms(2)] by (simp only: of_nat_mult)
  have ch: "chunks_of k (length ws) ?a = map (mem te k) ws"
  proof -
    have "length e = k" if "e \<in> set (map (mem te k) ws)" for e using that by auto
    from chunks_of_concat [of "map (mem te k) ws" k "[]", OF this] show ?thesis by simp
  qed
  have 1: "loader rd content (te \<noteq> le) (\<lambda>S. LoadBlock S (?n * ?k)) ?a ?a"
    by (rule LoadBlock_loader) (simp only: len nk)
  have one: "?a = concat (map (mem le k) ws)" if "k = 1"
    using that by (simp add: mem_def)
  have sw: "concat (map rev (map (mem te k) ws)) = concat (map (mem le k) ws)" if "te \<noteq> le"
    unfolding concat_rev_mem using that by (cases te) simp_all
  show ?thesis
    unfolding loader_def
  proof (intro allI impI)
    fix S :: "'d LoadState" and rest
    assume "zio_ok rd (Z S)" "lswap S = (te \<noteq> le)" "zrest content (Z S) = ?a @ rest"
    then obtain S' where S': "LoadBlock S (?n * ?k) = Inr (?a, S')" "zio_ok rd (Z S')"
      "lswap S' = (te \<noteq> le)" "zrest content (Z S') = rest" using 1 unfolding loader_def by blast
    have "LoadMem S ?n ?k = Inr (concat (map (mem le k) ws), S')"
    proof (cases "te \<noteq> le \<and> k \<noteq> 1")
      case True
      then show ?thesis
        using S'(1,3) sw by (simp only: LoadMem_def bnd_Inr prod.case ks n k len ch) simp
    next
      case False
      then show ?thesis
        using S'(1,3) one by (auto simp: LoadMem_def ks)
    qed
    with S' show "\<exists>S'. LoadMem S ?n ?k = Inr (concat (map (mem le k) ws), S') \<and> zio_ok rd (Z S')
        \<and> lswap S' = (te \<noteq> le) \<and> zrest content (Z S') = rest" by blast
  qed
qed

text \<open>One object of \<open>k\<close> bytes.\<close>

lemma LoadVar_loader:
  fixes w :: "'w::len word"
  assumes "k \<in> {1, 2, 4, 8}"
  shows "loader rd content (te \<noteq> le) (\<lambda>S. LoadMem S 1 (of_nat k)) (mem te k w) (mem le k w)"
  using LoadMem_loader [of k "[w]" te le] assms by auto

lemma LoadChar_loader: "loader rd content sw LoadChar [b] (sint b)"
proof -
  from LoadVar_loader [of 1 True "\<not> sw" b]
  have "loader rd content sw (\<lambda>S. LoadMem S 1 1) [b] [b]" by simp
  from loader_map [OF this, of "\<lambda>bs. sint (hd bs)" "sint b"] show ?thesis
    by (simp add: LoadChar_def [abs_def])
qed

lemma LoadByte_loader: "loader rd content sw LoadByte [b] b"
  unfolding LoadByte_def [abs_def] by (rule loader_map [OF LoadChar_loader]) simp

lemma LoadSize_loader: "loader rd content (te \<noteq> le) (LoadSize le) (mem te 4 w) w"
  using loader_map [OF LoadVar_loader [of 4 te le w], of "mem_word le" w]
  by (simp add: LoadSize_def [abs_def] mem_word_mem)

lemma LoadNumber_loader: "loader rd content (te \<noteq> le) (LoadNumber le) (mem te 8 n) n"
  using loader_map [OF LoadVar_loader [of 8 te le n], of "mem_word le" n]
  by (simp add: LoadNumber_def [abs_def] mem_word_mem)

lemma LoadInt_loader:
  assumes "0 \<le> x" "x < 2 ^ 31"
  shows "loader rd content (te \<noteq> le) (LoadInt le) (fmt_int te x) x"
  using loader_bnd [OF LoadVar_loader [of 4 te le "c_uint x"],
      of "\<lambda>bs S. let y = c_int (mem_word le bs) in if y < 0 then load_error S ''bad integer'' else Inr (y, S)"
        "[]" x] assms
  by (simp add: LoadInt_def [abs_def] fmt_int_def mem_word_mem loader_return)

lemma LoadString_body:
  assumes "length bs + 20 \<le> 2 ^ 32" and "sz = of_nat (length bs) + 1"
  shows "loader rd content sw (\<lambda>S. bnd (luaZ_openspace undef (lb S) sz) (\<lambda>b.
       bnd (LoadBlock (S\<lparr>lb := b\<rparr>) sz) (\<lambda>(bs, S).
       let S = S\<lparr>lb := buffer_store (lb S) bs\<rparr>
       in bnd (luaS_newlstr_value (mbuffer (lb S)) (sz - 1)) (\<lambda>s. Inr (Some s, S)))))
     (bs @ [0]) (Some bs)"
  unfolding loader_def
proof (intro allI impI)
  fix S :: "'d LoadState" and rest
  assume S: "zio_ok rd (Z S)" "lswap S = sw" "zrest content (Z S) = (bs @ [0]) @ rest"
  have sz': "sz = of_nat (length bs + 1)" using assms(2) by simp
  have usz: "unat sz = length bs + 1"
    unfolding sz' using assms(1) by (intro unat_of_nat_32) simp
  have le: "sz \<le> 4294967277"
    unfolding word_le_nat_alt usz using assms(1) by simp
  then have "sz \<le> 4294967290" by (rule order_trans) simp
  then obtain b where b: "luaZ_openspace undef (lb S) sz = Inr b"
    using luaZ_openspace_succeeds by blast
  have "loader rd content sw (\<lambda>S. LoadBlock S sz) (bs @ [0]) (bs @ [0])"
    by (rule LoadBlock_loader) (simp add: usz)
  from this [unfolded loader_def, rule_format, of "S\<lparr>lb := b\<rparr>" rest] S
  obtain S' where S': "LoadBlock (S\<lparr>lb := b\<rparr>) sz = Inr (bs @ [0], S')" "zio_ok rd (Z S')"
    "lswap S' = sw" "zrest content (Z S') = rest" by auto
  have "luaS_newlstr_value (bs @ 0 # drop (length bs + 1) (mbuffer (lb S'))) (sz - 1) = Inr bs"
  proof -
    have "unat (sz - 1) = length bs"
      using unat_of_nat_32 [of "length bs"] assms by simp
    moreover have "\<not> 4294967277 < sz - 1 + 1" using le by (simp add: not_less)
    ultimately show ?thesis
      by (simp only: luaS_newlstr_value_def size_limits if_False) simp
  qed
  with b S' show "\<exists>S'. bnd (luaZ_openspace undef (lb S) sz) (\<lambda>b.
       bnd (LoadBlock (S\<lparr>lb := b\<rparr>) sz) (\<lambda>(bs, S).
       let S = S\<lparr>lb := buffer_store (lb S) bs\<rparr>
       in bnd (luaS_newlstr_value (mbuffer (lb S)) (sz - 1)) (\<lambda>s. Inr (Some s, S)))) = Inr (Some bs, S')
     \<and> zio_ok rd (Z S') \<and> lswap S' = sw \<and> zrest content (Z S') = rest"
    by (simp add: Let_def buffer_store_def)
qed

lemma LoadString_loader:
  assumes "str_ok s"
  shows "loader rd content (te \<noteq> le) (LoadString undef le) (fmt_string te s) s"
proof (cases s)
  case None
  have "loader rd content (te \<noteq> le) (LoadString undef le) (mem te 4 (0 :: u32) @ []) None"
    unfolding LoadString_def [abs_def]
    by (rule loader_bnd [OF LoadSize_loader]) (simp add: loader_return)
  with None show ?thesis by (simp add: fmt_string_def)
next
  case (Some bs)
  with assms have len: "length bs + 20 \<le> 2 ^ 32" by (simp add: str_ok_def)
  let ?sz = "of_nat (length bs) + 1 :: u32"
  have "loader rd content (te \<noteq> le) (LoadString undef le) (mem te 4 ?sz @ bs @ [0]) (Some bs)"
    unfolding LoadString_def [abs_def]
    using LoadString_body [OF len refl] size_nonzero [OF len]
    by (intro loader_bnd [OF LoadSize_loader]) (simp only: if_False)
  with Some show ?thesis by (simp add: fmt_string_def)
qed

text \<open>Vectors of 32-bit words.\<close>

lemma LoadWords_loader:
  assumes "int (length ws) + 1 \<le> 1073741823"
  shows "loader rd content (te \<noteq> le) (\<lambda>S. LoadWords le S (int (length ws)))
    (concat (map (mem te 4) ws)) ws"
proof -
  let ?n = "c_uint (int (length ws))"
  have n: "?n = of_nat (length ws)" by (simp add: c_uint_def)
  have m: "MAX_SIZET div 4 = 1073741823" by code_simp
  have "unat (of_nat (length ws) + 1 :: u32) \<le> 1073741823"
    using unat_add_1_le [of "of_nat (length ws) :: u32"] unat_of_nat_32 [of "length ws"] assms by simp
  then have g: "luaM_reallocv ?n 4 = Inr ()"
    unfolding luaM_reallocv_Inr m n by (simp add: word_le_nat_alt)
  have ch: "chunks_of 4 (length ws) (concat (map (mem le 4) ws)) = map (mem le 4) ws"
  proof -
    have "length e = 4" if "e \<in> set (map (mem le 4) ws)" for e using that by auto
    from chunks_of_concat [of "map (mem le 4) ws" 4 "[]", OF this] show ?thesis by simp
  qed
  have "loader rd content (te \<noteq> le) (\<lambda>S. LoadMem S ?n 4) (concat (map (mem te 4) ws))
      (concat (map (mem le 4) ws))"
    using LoadMem_loader [of 4 ws te le] assms by (simp add: n)
  from loader_map [OF this, of "\<lambda>bs. map (mem_word le) (chunks_of 4 (length ws) bs)" ws]
  show ?thesis by (simp add: LoadWords_def g ch mem_word_mem comp_def)
qed

lemma LoadCode_loader:
  assumes "int (length ws) + 1 \<le> 1073741823"
  shows "loader rd content (te \<noteq> le) (LoadCode le) (fmt_vector te (map (mem te 4) ws)) ws"
  unfolding LoadCode_def [abs_def] fmt_vector_def length_map
  using assms LoadWords_loader by (intro loader_bnd [OF LoadInt_loader]) auto

text \<open>Counted sequences.\<close>

lemma load_counted_loader:
  assumes "\<And>x. x \<in> set xs \<Longrightarrow> loader rd content (te \<noteq> le) f (b x) (v x)"
    and "int (length xs) < 2 ^ 31" "luaM_reallocv (c_uint (int (length xs))) e = Inr ()"
  shows "loader rd content (te \<noteq> le) (load_counted le e f) (fmt_seq te b xs) (map v xs)"
  unfolding load_counted_def [abs_def] fmt_seq_def
proof (rule loader_bnd [OF LoadInt_loader])
  show "loader rd content (te \<noteq> le) (\<lambda>S. bnd (luaM_reallocv (c_uint (int (length xs))) e)
      (\<lambda>_. load_loop f (nat (int (length xs))) S)) (concat (map b xs)) (map v xs)"
    using loader_loop [OF assms(1), of xs] assms(3) by simp
qed (use assms(2) in auto)

lemma LoadWString_body:
  assumes "wstr_ok ws" and "sz = of_nat (length ws + 1)"
  shows "loader rd content (te \<noteq> le) (\<lambda>S. bnd (luaZ_openspace undef (lb S) (sz * 2)) (\<lambda>b.
       bnd (LoadMem (S\<lparr>lb := b\<rparr>) sz 2) (\<lambda>(bs, S).
       let S = S\<lparr>lb := buffer_store (lb S) bs\<rparr>
       in bnd (luaS_newlwstr_value (words_of le (mbuffer (lb S))) (sz - 1)) (\<lambda>s. Inr (Some s, S)))))
     (concat (map (mem te 2) (ws @ [0]))) (Some ws)"
  unfolding loader_def
proof (intro allI impI)
  fix S :: "'d LoadState" and rest
  let ?m = "\<lambda>t. concat (map (mem t 2) (ws @ [0]))"
  assume S: "zio_ok rd (Z S)" "lswap S = (te \<noteq> le)" "zrest content (Z S) = ?m te @ rest"
  have len: "length ws + 1 \<le> 2147483638" using assms(1) by (simp add: wstr_ok_def)
  have usz: "unat sz = length ws + 1"
    unfolding assms(2) using len by (intro unat_of_nat_32) simp
  have "sz * 2 = of_nat ((length ws + 1) * 2)" unfolding assms(2) by simp
  then have "unat (sz * 2) = (length ws + 1) * 2"
    using len unat_of_nat_32 [of "(length ws + 1) * 2"] by simp
  then have "sz * 2 \<le> 4294967290" using len by (simp add: word_le_nat_alt)
  then obtain b where b: "luaZ_openspace undef (lb S) (sz * 2) = Inr b"
    using luaZ_openspace_succeeds by blast
  have "loader rd content (te \<noteq> le) (\<lambda>S. LoadMem S sz 2) (?m te) (?m le)"
    using LoadMem_loader [of 2 "ws @ [0]" te le] len by (simp add: assms(2))
  from this [unfolded loader_def, rule_format, of "S\<lparr>lb := b\<rparr>" rest] S
  obtain S' where S': "LoadMem (S\<lparr>lb := b\<rparr>) sz 2 = Inr (?m le, S')" "zio_ok rd (Z S')"
    "lswap S' = (te \<noteq> le)" "zrest content (Z S') = rest" by auto
  have "luaS_newlwstr_value (words_of le (?m le @ drop (length (?m le)) (mbuffer (lb S')))) (sz - 1) = Inr ws"
  proof -
    have "unat (sz - 1) = length ws"
      using unat_of_nat_32 [of "length ws"] len unfolding assms(2) by simp
    moreover have "sz \<le> 2147483638" using usz len by (simp add: word_le_nat_alt)
    then have "\<not> 2147483638 < sz - 1 + 1" by (simp add: not_less)
    ultimately show ?thesis
      by (simp only: luaS_newlwstr_value_def size_limits if_False words_of_mem) simp
  qed
  with b S' show "\<exists>S'. bnd (luaZ_openspace undef (lb S) (sz * 2)) (\<lambda>b.
       bnd (LoadMem (S\<lparr>lb := b\<rparr>) sz 2) (\<lambda>(bs, S).
       let S = S\<lparr>lb := buffer_store (lb S) bs\<rparr>
       in bnd (luaS_newlwstr_value (words_of le (mbuffer (lb S))) (sz - 1)) (\<lambda>s. Inr (Some s, S))))
       = Inr (Some ws, S')
     \<and> zio_ok rd (Z S') \<and> lswap S' = (te \<noteq> le) \<and> zrest content (Z S') = rest"
    by (simp add: Let_def buffer_store_def)
qed

lemma LoadWString_loader:
  assumes "wstr_ok ws"
  shows "loader rd content (te \<noteq> le) (LoadWString undef le)
    (fmt_vector te (map (mem te 2) (ws @ [0]))) (Some ws)"
proof -
  let ?sz = "of_nat (length ws + 1) :: u32"
  have "?sz \<noteq> 0" using assms of_nat_eq_0_32 [of "length ws + 1"] by (simp add: wstr_ok_def)
  moreover have "fmt_vector te (map (mem te 2) (ws @ [0]))
      = mem te 4 ?sz @ concat (map (mem te 2) (ws @ [0]))"
    by (simp add: fmt_vector_def fmt_int_def c_uint_def)
  ultimately show ?thesis
    unfolding LoadWString_def [abs_def]
    using LoadWString_body [OF assms refl]
    by (simp only:) (intro loader_bnd [OF LoadSize_loader], simp only: if_False)
qed

lemma LoadTagged_loader:
  assumes "const_ok v"
  shows "\<exists>bs. fmt_constant te v = word_of_int (ttype v) # bs
    \<and> loader rd content (te \<noteq> le) (LoadTagged undef le (ttype v)) bs v"
proof (cases v)
  case LNil
  then show ?thesis by (simp add: fmt_constant_def LoadTagged_def [abs_def] loader_return)
next
  case (LBool b)
  have "sint (word_of_int b :: byte) = b"
    using assms LBool by (simp add: const_ok_def sint_sbintrunc' signed_take_bit_int_eq_self)
  with LBool loader_map [OF LoadChar_loader, of LBool] show ?thesis
    by (simp add: fmt_constant_def LoadTagged_def [abs_def])
next
  case (LNumber n)
  with loader_map [OF LoadNumber_loader, of LNumber] show ?thesis
    by (simp add: fmt_constant_def LoadTagged_def [abs_def])
next
  case (LString s)
  with assms have "str_ok (Some s)" by (simp add: const_ok_def)
  from loader_bnd [OF LoadString_loader [OF this], where b = "[]" and y = v and g = "\<lambda>s S.
      case s of None \<Rightarrow> Inl OutOfBounds | Some bs \<Rightarrow> Inr (LString bs, S)"] LString show ?thesis
    by (simp add: fmt_constant_def LoadTagged_def [abs_def] loader_return)
next
  case (LWString ws)
  with assms have "wstr_ok ws" by (simp add: const_ok_def)
  from loader_bnd [OF LoadWString_loader [OF this], where b = "[]" and y = v and g = "\<lambda>s S.
      case s of None \<Rightarrow> Inl OutOfBounds | Some bs \<Rightarrow> Inr (LWString bs, S)"] LWString show ?thesis
    by (simp add: fmt_constant_def LoadTagged_def [abs_def] loader_return del: map_append)
qed (use assms in \<open>simp_all add: const_ok_def\<close>)

lemma LoadConstant_loader:
  assumes "const_ok v"
  shows "loader rd content (te \<noteq> le) (LoadConstant undef le) (fmt_constant te v) v"
proof -
  obtain bs where bs: "fmt_constant te v = word_of_int (ttype v) # bs"
    "loader rd content (te \<noteq> le) (LoadTagged undef le (ttype v)) bs v"
    using LoadTagged_loader [OF assms] by blast
  have "sint (word_of_int (ttype v) :: byte) = ttype v"
    using assms by (cases v) (simp_all add: const_ok_def)
  with bs(2) loader_bnd [OF LoadChar_loader [of "te \<noteq> le" "word_of_int (ttype v)"],
      where g = "LoadTagged undef le" and b = bs and y = v]
  show ?thesis unfolding bs(1) LoadConstant_def [abs_def] by simp
qed

lemma LoadLocVar_loader:
  assumes "locvar_ok v"
  shows "loader rd content (te \<noteq> le) (LoadLocVar undef le) (fmt_locvar te v) v"
proof -
  have ok: "str_ok (varname v)" "0 \<le> startpc v" "startpc v < 2 ^ 31" "0 \<le> endpc v" "endpc v < 2 ^ 31"
    using assms by (auto simp: locvar_ok_def int_ok_def)
  have eta: "\<lparr>varname = varname v, startpc = startpc v, endpc = endpc v\<rparr> = v" by simp
  have "loader rd content (te \<noteq> le) (LoadLocVar undef le)
      (fmt_string te (varname v) @ fmt_int te (startpc v) @ fmt_int te (endpc v) @ []) v"
    unfolding LoadLocVar_def [abs_def]
    by (rule loader_bnd [OF LoadString_loader [OF ok(1)]], rule loader_bnd [OF LoadInt_loader [OF ok(2,3)]],
        rule loader_bnd [OF LoadInt_loader [OF ok(4,5)]]) (simp add: eta loader_return)
  then show ?thesis by (simp add: fmt_locvar_def)
qed

lemma LoadDebug_loader:
  assumes "debug_ok f"
  shows "loader rd content (te \<noteq> le) (LoadDebug undef le) (fmt_debug te st f) (strip_debug st f)"
proof -
  obtain li lv up where v: "strip_debug st f = (li, lv, up)" by (metis prod_cases3)
  then have v': "li = (if st then [] else lineinfo f)" "lv = (if st then [] else locvars f)"
    "up = (if st then [] else upvalues f)" by (auto simp: strip_debug_def)
  have li: "int (length li) + 1 \<le> 1073741823" "\<And>l. l \<in> set li \<Longrightarrow> - (2 ^ 31) \<le> l \<and> l < 2 ^ 31"
    using assms by (auto simp: v' debug_ok_def split: if_split_asm)
  have lv: "int (length lv) + 1 \<le> 357913941" "\<And>x. x \<in> set lv \<Longrightarrow> locvar_ok x"
    using assms by (auto simp: v' debug_ok_def split: if_split_asm)
  have up: "int (length up) + 1 \<le> 1073741823" "\<And>u. u \<in> set up \<Longrightarrow> str_ok u"
    using assms by (auto simp: v' debug_ok_def split: if_split_asm)
  have 1: "loader rd content (te \<noteq> le) (\<lambda>S. LoadWords le S (int (length li)))
      (concat (map (mem te 4) (map c_uint li))) (map c_uint li)"
    using LoadWords_loader [of "map c_uint li" te le] li(1) by simp
  have 2: "loader rd content (te \<noteq> le) (load_counted le 12 (LoadLocVar undef le))
      (fmt_seq te (fmt_locvar te) lv) (map (\<lambda>x. x) lv)"
    using lv newvector_ok [of "length lv" 357913941 12] newvector_sizes(2)
    by (intro load_counted_loader LoadLocVar_loader) auto
  have 3: "loader rd content (te \<noteq> le) (load_counted le 4 (LoadString undef le))
      (fmt_seq te (fmt_string te) up) (map (\<lambda>x. x) up)"
    using up newvector_ok [of "length up" 1073741823 4] newvector_sizes(1)
    by (intro load_counted_loader LoadString_loader) auto
  have li_id: "map c_int (map c_uint li) = li" using li(2) by (induction li) auto
  have "loader rd content (te \<noteq> le) (LoadDebug undef le)
      (fmt_int te (int (length li)) @ concat (map (mem te 4) (map c_uint li))
        @ fmt_seq te (fmt_locvar te) lv @ fmt_seq te (fmt_string te) up @ []) (li, lv, up)"
    unfolding LoadDebug_def [abs_def]
  proof (rule loader_bnd [OF LoadInt_loader])
    have "loader rd content (te \<noteq> le)
        (\<lambda>S. bnd (LoadWords le S (int (length li))) (\<lambda>(li, S).
             bnd (load_counted le 12 (LoadLocVar undef le) S) (\<lambda>(lv, S).
             bnd (load_counted le 4 (LoadString undef le) S) (\<lambda>(up, S).
             Inr ((map c_int li, lv, up), S)))))
        (concat (map (mem te 4) (map c_uint li)) @ fmt_seq te (fmt_locvar te) lv
          @ fmt_seq te (fmt_string te) up @ [])
        (map c_int (map c_uint li), map (\<lambda>x. x) lv, map (\<lambda>x. x) up)"
      by (rule loader_bnd [OF 1], rule loader_bnd [OF 2], rule loader_bnd [OF 3]) (rule loader_return)
    then show "loader rd content (te \<noteq> le)
        (\<lambda>S. bnd (LoadWords le S (int (length li))) (\<lambda>(li, S).
             bnd (load_counted le 12 (LoadLocVar undef le) S) (\<lambda>(lv, S).
             bnd (load_counted le 4 (LoadString undef le) S) (\<lambda>(up, S).
             Inr ((map c_int li, lv, up), S)))))
        (concat (map (mem te 4) (map c_uint li)) @ fmt_seq te (fmt_locvar te) lv
          @ fmt_seq te (fmt_string te) up @ []) (li, lv, up)"
      unfolding li_id by simp
  qed (use li(1) in simp_all)
  then show ?thesis unfolding v by (cases st) (simp_all add: fmt_debug_def fmt_vector_def v' comp_def)
qed

lemma LoadFunction_loader:
  assumes "proto_ok f" and "nesting f \<le> depth"
  shows "loader rd content (te \<noteq> le) (LoadFunction depth undef le pl) (fmt_function te st f pd)
    (restore st pl pd f)"
  using assms
proof (induction f arbitrary: pl pd depth rule: measure_induct_rule [of size])
  case (less f)
  note ok = less.prems(1) [unfolded proto_ok.simps [of f]]
  have "depth \<noteq> 0" using less.prems(2) by (simp add: nesting.simps [of f])
  then obtain d where depth: "depth = Suc d" using not0_implies_Suc by blast
  have inner: "nesting g \<le> d" if "g \<in> set (pp f)" for g
    using nesting_inner [OF that] less.prems(2) depth by simp
  let ?s = "if source f = pd \<or> st then None else source f"
  let ?src = "restored_source st pl pd f"
  have s: "str_ok ?s" using ok by (simp add: str_ok_def)
  have src: "(if ?s = None then pl else ?s) = ?src" by (auto simp: restored_source_def)
  have i: "0 \<le> linedefined f" "linedefined f < 2 ^ 31" "0 \<le> lastlinedefined f" "lastlinedefined f < 2 ^ 31"
    using ok by (auto simp: int_ok_def)
  have ks: "loader rd content (te \<noteq> le) (load_counted le 16 (LoadConstant undef le))
      (fmt_seq te (fmt_constant te) (pk f)) (map (\<lambda>x. x) (pk f))"
    using ok newvector_ok [of "length (pk f)" 268435455 16] newvector_sizes(3)
    by (intro load_counted_loader LoadConstant_loader) auto
  have ps: "loader rd content (te \<noteq> le) (load_counted le 4 (LoadFunction d undef le ?src))
      (fmt_seq te (\<lambda>g. fmt_function te st g (source f)) (pp f))
      (map (restore st ?src (source f)) (pp f))"
    using ok newvector_ok [of "length (pp f)" 1073741823 4] newvector_sizes(1) inner
    by (intro load_counted_loader less.IH size_inner) auto
  let ?rest = "\<lambda>src ld lld nu np va ms co ks ps dbg S. case dbg of (li, lv, up) \<Rightarrow>
      let g = Proto ks co ps li lv up src ld lld nu np va ms
      in case luaG_checkcode g of Inl _ \<Rightarrow> Inl OutOfBounds
         | Inr ok \<Rightarrow> if \<not> ok then load_error S ''bad code'' else Inr (g, S)"
  have fin: "loader rd content (te \<noteq> le) (?rest ?src (linedefined f) (lastlinedefined f) (nups f)
      (numparams f) (is_vararg f) (maxstacksize f) (code f) (map (\<lambda>x. x) (pk f))
      (map (restore st ?src (source f)) (pp f)) (strip_debug st f)) [] (restore st pl pd f)"
  proof -
    obtain li lv up where d: "strip_debug st f = (li, lv, up)" by (metis prod_cases3)
    then have r: "restore st pl pd f = Proto (pk f) (code f) (map (restore st ?src (source f)) (pp f))
        li lv up ?src (linedefined f) (lastlinedefined f) (nups f) (numparams f) (is_vararg f)
        (maxstacksize f)"
      by (subst restore.simps) (simp add: Let_def)
    have "luaG_checkcode (restore st pl pd f) = Inr True" using ok by (intro checkcode_restore) simp
    then show ?thesis unfolding d r by (simp add: Let_def loader_return)
  qed
  have "loader rd content (te \<noteq> le) (LoadFunction (Suc d) undef le pl)
      (fmt_string te ?s @ fmt_int te (linedefined f) @ fmt_int te (lastlinedefined f)
       @ [nups f] @ [numparams f] @ [is_vararg f] @ [maxstacksize f]
       @ fmt_vector te (map (mem te 4) (code f)) @ fmt_seq te (fmt_constant te) (pk f)
       @ fmt_seq te (\<lambda>g. fmt_function te st g (source f)) (pp f) @ fmt_debug te st f @ [])
      (restore st pl pd f)"
    unfolding LoadFunction.simps [abs_def]
    apply (rule loader_bnd [OF LoadString_loader [OF s]])
    unfolding Let_def src
    apply (rule loader_bnd [OF LoadInt_loader [OF i(1,2)]])
    apply (rule loader_bnd [OF LoadInt_loader [OF i(3,4)]])
    apply (rule loader_bnd [OF LoadByte_loader])+
    apply (rule loader_bnd [OF LoadCode_loader])
    subgoal using ok by simp
    apply (rule loader_bnd [OF ks])
    apply (rule loader_bnd [OF ps])
    apply (rule loader_bnd [OF LoadDebug_loader])
    subgoal using ok by simp
    subgoal using fin
      by (cases "strip_debug st f") (simp add: Let_def list.map_ident cong: if_cong sum.case_cong)
    done
  moreover have "fmt_function te st f pd =
      fmt_string te ?s @ fmt_int te (linedefined f) @ fmt_int te (lastlinedefined f)
       @ [nups f] @ [numparams f] @ [is_vararg f] @ [maxstacksize f]
       @ fmt_vector te (map (mem te 4) (code f)) @ fmt_seq te (fmt_constant te) (pk f)
       @ fmt_seq te (\<lambda>g. fmt_function te st g (source f)) (pp f) @ fmt_debug te st f @ []"
    by (subst fmt_function.simps) (simp add: fmt_seq_def)
  ultimately show ?case unfolding depth by simp
qed

lemma LoadHeader_loads:
  assumes "zio_ok rd (Z S)" and "zrest content (Z S) = fmt_header te @ rest"
  obtains S' where "LoadHeader le S = Inr S'" "zio_ok rd (Z S')" "lswap S' = (te \<noteq> le)"
    "zrest content (Z S') = rest"
proof -
  have h: "luaU_header le OP_NATIVE = fmt_header le"
    by (simp add: luaU_header_def fmt_header_def first_byte endian_chars)
  have len: "length (fmt_header te) = unat (of_nat LUAC_HEADERSIZE :: u32)"
    by (simp add: fmt_header_def LUA_SIGNATURE_def LUAC_HEADERSIZE_def)
  have six: "fmt_header t ! 6 = of_bool t" for t
    by (simp add: fmt_header_def LUA_SIGNATURE_def bytes_of_def numeral_eq_Suc)
  have fix6: "(fmt_header te)[6 := of_bool le] = fmt_header le"
    by (simp add: fmt_header_def LUA_SIGNATURE_def bytes_of_def numeral_eq_Suc)
  obtain S' where S': "LoadBlock S (of_nat LUAC_HEADERSIZE) = Inr (fmt_header te, S')"
    "zio_ok rd (Z S')" "zrest content (Z S') = rest"
    using LoadBlock_loader [OF len, of "lswap S"] assms unfolding loader_def by blast
  then show ?thesis
    by (intro that [of "S'\<lparr>lswap := (te \<noteq> le)\<rparr>"])
      (simp_all add: LoadHeader_def h six fix6 Let_def)
qed

lemma luaU_undump_loads:
  assumes "proto_ok f" and "nesting f \<le> depth"
    and "zio_ok rd z" and "zrest content z = fmt_chunk te st f @ rest"
  shows "\<exists>S. luaU_undump depth undef le z buff name = Inr (restore st (Some (bytes_of ''=?'')) None f, S)
    \<and> zrest content (Z S) = rest"
proof -
  let ?S = "\<lparr>Z = z, lb = buff, lname = chunk_name name, lswap = False\<rparr>"
  obtain S1 where S1: "LoadHeader le ?S = Inr S1" "zio_ok rd (Z S1)" "lswap S1 = (te \<noteq> le)"
    "zrest content (Z S1) = fmt_function te st f None @ rest"
    using LoadHeader_loads [of ?S te "fmt_function te st f None @ rest"] assms(3,4)
    by (auto simp: fmt_chunk_def)
  obtain S2 where "LoadFunction depth undef le (Some (bytes_of ''=?'')) S1 =
      Inr (restore st (Some (bytes_of ''=?'')) None f, S2)" "zrest content (Z S2) = rest"
    using LoadFunction_loader [OF assms(1,2), of te le undef "Some (bytes_of ''=?'')" st None] S1(2-4)
    unfolding loader_def by blast
  with S1(1) show ?thesis by (intro exI [of _ S2]) (simp add: luaU_undump_def)
qed

end

section \<open>Properties\<close>

fun sources_ok :: "Proto \<Rightarrow> bool" where
  "sources_ok f \<longleftrightarrow> source f \<noteq> None \<and> (\<forall>g\<in>set (pp f). sources_ok g)"

declare sources_ok.simps [simp del]

lemma restore_id:
  "sources_ok f \<Longrightarrow> (source f = pd \<Longrightarrow> pl = pd) \<Longrightarrow> restore False pl pd f = f"
proof (induction f arbitrary: pl pd rule: measure_induct_rule [of size])
  case (less f)
  note ok = less.prems(1) [unfolded sources_ok.simps [of f]]
  have src: "restored_source False pl pd f = source f"
    using ok less.prems(2) by (auto simp: restored_source_def)
  have "map (restore False (source f) (source f)) (pp f) = pp f"
    using ok by (intro map_idI less.IH size_inner) auto
  then show ?case
    by (subst restore.simps) (simp add: Let_def strip_debug_def src)
qed

text \<open>
  C14: a function that fits the format is saved by \<open>string.dump\<close> and loaded back as it was, in
  whatever byte order it is saved and on hosts of either byte order (stripped, it comes back without
  its debug information and with the source \<open>=?\<close>).
\<close>

theorem undump_dump:
  assumes "proto_ok f" and "nesting f \<le> depth"
    and "e \<in> {OP_LITTLEENDIAN, OP_BIGENDIAN, OP_NATIVE}"
    and "luaU_dump le f str_writer (luaL_buffinit stk) strp e = (B, st)"
    and "length (buffer_content B) < 2 ^ 32"
  shows "(\<exists>S. luaU_undump depth undef le' (luaZ_init getS (of_buffer (buffer_content B))) buff name =
      Inr (restore strp (Some (bytes_of ''=?'')) None f, S))
    \<and> (strp = False \<and> sources_ok f \<longrightarrow> restore strp (Some (bytes_of ''=?'')) None f = f)"
proof
  have "st = 0"
    using str_writer.luaU_dump_succeeds [of le f "luaL_buffinit stk" strp e] assms(4)
    by (simp add: str_writer_def)
  with assms(4) str_writer.luaU_dump_writes [OF _ _ assms(3), of le f "luaL_buffinit stk" strp B]
  have B: "buffer_content B = fmt_chunk (if e = OP_NATIVE then le else e = OP_LITTLEENDIAN) strp f"
    using buffinit_ok by simp
  let ?z = "luaZ_init getS (of_buffer (buffer_content B))"
  have "zrest LoadS_content ?z
      = fmt_chunk (if e = OP_NATIVE then le else e = OP_LITTLEENDIAN) strp f @ []"
    using LoadS_content_of_buffer [OF assms(5)] B by (simp add: zrest_init)
  from string_reader.luaU_undump_loads [OF assms(1,2) zio_ok_init this]
  show "\<exists>S. luaU_undump depth undef le' ?z buff name =
      Inr (restore strp (Some (bytes_of ''=?'')) None f, S)" by blast
  show "strp = False \<and> sources_ok f \<longrightarrow> restore strp (Some (bytes_of ''=?'')) None f = f"
    using restore_id [of f None] by (auto simp: sources_ok.simps [of f])
qed

text \<open>A function with a constant of every kind and debug information.\<close>

definition ex_chunk :: Proto where
  "ex_chunk = Proto
     [LNil, LBool 1, LNumber 0x3FF8000000000000, LString (bytes_of ''print''), LWString [0x3B1, 0x3B2]]
     [CREATE_ABx (opcode OP_GETGLOBAL) 0 3, CREATE_ABC (opcode OP_RETURN) 0 1 0]
     [] [7, 8] [\<lparr>varname = Some (bytes_of ''x''), startpc = 0, endpc = 1\<rparr>] []
     (Some (bytes_of ''@a.lua'')) 0 0 0 0 2 2"

definition ex_buffer :: Mbuffer where
  "ex_buffer = \<lparr>mbuffer = [], mn = 0, buffsize = 0\<rparr>"

lemma ex_chunk_ok: "proto_ok ex_chunk" "nesting ex_chunk \<le> 1" "sources_ok ex_chunk"
proof -
  have "CREATE_ABC (opcode OP_RETURN) 0 1 0 \<noteq> 0"
    by (rule instruction_nonzero [of _ OP_RETURN]) (simp_all add: encoded)
  then have "luaG_checkcode ex_chunk = Inr True"
    by (simp add: verifier_eval ex_chunk_def del: check_simps code_at_simps)
  moreover have "str_ok (source ex_chunk)" "debug_ok ex_chunk" "\<forall>v\<in>set (pk ex_chunk). const_ok v"
    by (simp_all add: ex_chunk_def str_ok_def int_ok_def const_ok_def wstr_ok_def debug_ok_def
      locvar_ok_def)
  moreover have "pp ex_chunk = []" "linedefined ex_chunk = 0" "lastlinedefined ex_chunk = 0"
    "sizecode ex_chunk = 2" "sizek ex_chunk = 5"
    by (simp_all add: ex_chunk_def)
  ultimately show "proto_ok ex_chunk"
    by (subst proto_ok.simps) (simp only: int_ok_def list.set list.size, simp)
qed (simp_all add: nesting.simps [of ex_chunk] sources_ok.simps [of ex_chunk], simp_all add: ex_chunk_def)

lemma ex_chunk_length: "length (fmt_chunk te False ex_chunk) < 2 ^ 32"
  unfolding fmt_chunk_def by (subst fmt_function.simps)
    (simp add: ex_chunk_def fmt_header_def fmt_debug_def fmt_seq_def fmt_vector_def fmt_int_def
      fmt_string_def fmt_constant_def fmt_locvar_def LUA_SIGNATURE_def)

theorem undump_dump_witness:
  "(\<exists>S. luaU_undump 1 (\<lambda>_. 0) False (luaZ_init getS (of_buffer
       (buffer_content (fst (luaU_dump True ex_chunk str_writer (luaL_buffinit []) False OP_BIGENDIAN)))))
      ex_buffer ''=x'' = Inr (restore False (Some (bytes_of ''=?'')) None ex_chunk, S))
   \<and> restore False (Some (bytes_of ''=?'')) None ex_chunk = ex_chunk"
proof -
  obtain B st where d: "luaU_dump True ex_chunk str_writer (luaL_buffinit []) False OP_BIGENDIAN = (B, st)"
    by fastforce
  have "st = 0"
    using str_writer.luaU_dump_succeeds [of True ex_chunk "luaL_buffinit []" False OP_BIGENDIAN] d
    by (simp add: str_writer_def)
  with d str_writer.luaU_dump_writes [of True ex_chunk "luaL_buffinit []" False OP_BIGENDIAN B] buffinit_ok
  have "length (buffer_content B) < 2 ^ 32" using ex_chunk_length by (simp add: endian_chars)
  from undump_dump [OF ex_chunk_ok(1,2) _ d this, of "\<lambda>_. 0" False ex_buffer "''=x''"] ex_chunk_ok(3)
  show ?thesis unfolding d fst_conv by blast
qed

text \<open>
  C15: a byte-order letter other than \<open><\<close>, \<open>>\<close> and \<open>=\<close> makes \<open>string.dump\<close> write a header that says
  big-endian over a function in the byte order of the host, so that a little-endian host cannot
  load its own chunk.
\<close>

theorem dump_unknown_order:
  assumes "e \<notin> {OP_LITTLEENDIAN, OP_BIGENDIAN, OP_NATIVE}"
    and "luaU_dump le f str_writer (luaL_buffinit stk) strp e = (B, st)"
  shows "buffer_content B = fmt_header False @ fmt_function le strp f None"
proof -
  have "st = 0"
    using str_writer.luaU_dump_succeeds [of le f "luaL_buffinit stk" strp e] assms(2)
    by (simp add: str_writer_def)
  moreover have "luaU_header le e = fmt_header False" "\<not> doendian le e"
    using assms(1) by (auto simp: luaU_header_def fmt_header_def doendian_def endian_chars)
  ultimately show ?thesis
    using str_writer.luaU_dump_emits [of "luaL_buffinit stk" strp le e f] assms(2) buffinit_ok
    by (simp add: emits_def luaU_dump_def Let_def)
qed

theorem dump_unknown_order_witness:
  "buffer_content (fst (luaU_dump True ex_chunk str_writer (luaL_buffinit []) False (of_char (CHR ''x''))))
   = fmt_header False @ fmt_function True False ex_chunk None"
proof -
  have "of_char (CHR ''x'') \<notin> {OP_LITTLEENDIAN, OP_BIGENDIAN, OP_NATIVE}"
    by (simp add: endian_chars)
  from dump_unknown_order [OF this surjective_pairing] show ?thesis .
qed

end
