(* ===== verification/Lexer.thy ===== *)
theory Lexer
  imports Undump
begin

text \<open>
  The lexical analyzer (\<open>llex.c\<close>, \<open>llex.h\<close>). Characters are \<open>int\<close>s: a byte, a 16-bit character of a
  wide stream, or \<open>EOZ\<close>. A loop over the input takes a bound \<open>fuel\<close> on its number of rounds; \<open>le\<close>
  is the byte order of the host, \<open>cv\<close> the decimal point of the locale (\<open>None\<close>: \<open>localeconv\<close> has
  none). Character classes are those of the \<open>C\<close> locale; the code reads its class tables out of range
  for characters above 255, which are in no class here.
\<close>

section \<open>Tokens\<close>

definition FIRST_RESERVED :: int where "FIRST_RESERVED = 257"

definition luaX_tokens :: "string list" where
  "luaX_tokens =
     [''and'', ''break'', ''continue'', ''do'', ''else'', ''elseif'',
      ''end'', ''false'', ''for'', ''function'', ''if'',
      ''in'', ''local'', ''nil'', ''not'', ''or'', ''repeat'',
      ''return'', ''then'', ''true'', ''until'', ''while'',
      ''..'', ''...'', ''=='', ''>='', ''<='', ''~='',
      ''<number>'', ''<name>'', ''<string>'', ''<wstring>'', ''<<'', ''>>'', ''^^'', ''<eof>'']"

definition TK_AND :: int where "TK_AND = FIRST_RESERVED"
definition TK_BREAK :: int where "TK_BREAK = FIRST_RESERVED + 1"
definition TK_CONTINUE :: int where "TK_CONTINUE = FIRST_RESERVED + 2"
definition TK_DO :: int where "TK_DO = FIRST_RESERVED + 3"
definition TK_ELSE :: int where "TK_ELSE = FIRST_RESERVED + 4"
definition TK_ELSEIF :: int where "TK_ELSEIF = FIRST_RESERVED + 5"
definition TK_END :: int where "TK_END = FIRST_RESERVED + 6"
definition TK_FALSE :: int where "TK_FALSE = FIRST_RESERVED + 7"
definition TK_FOR :: int where "TK_FOR = FIRST_RESERVED + 8"
definition TK_FUNCTION :: int where "TK_FUNCTION = FIRST_RESERVED + 9"
definition TK_IF :: int where "TK_IF = FIRST_RESERVED + 10"
definition TK_IN :: int where "TK_IN = FIRST_RESERVED + 11"
definition TK_LOCAL :: int where "TK_LOCAL = FIRST_RESERVED + 12"
definition TK_NIL :: int where "TK_NIL = FIRST_RESERVED + 13"
definition TK_NOT :: int where "TK_NOT = FIRST_RESERVED + 14"
definition TK_OR :: int where "TK_OR = FIRST_RESERVED + 15"
definition TK_REPEAT :: int where "TK_REPEAT = FIRST_RESERVED + 16"
definition TK_RETURN :: int where "TK_RETURN = FIRST_RESERVED + 17"
definition TK_THEN :: int where "TK_THEN = FIRST_RESERVED + 18"
definition TK_TRUE :: int where "TK_TRUE = FIRST_RESERVED + 19"
definition TK_UNTIL :: int where "TK_UNTIL = FIRST_RESERVED + 20"
definition TK_WHILE :: int where "TK_WHILE = FIRST_RESERVED + 21"
definition TK_CONCAT :: int where "TK_CONCAT = FIRST_RESERVED + 22"
definition TK_DOTS :: int where "TK_DOTS = FIRST_RESERVED + 23"
definition TK_EQ :: int where "TK_EQ = FIRST_RESERVED + 24"
definition TK_GE :: int where "TK_GE = FIRST_RESERVED + 25"
definition TK_LE :: int where "TK_LE = FIRST_RESERVED + 26"
definition TK_NE :: int where "TK_NE = FIRST_RESERVED + 27"
definition TK_NUMBER :: int where "TK_NUMBER = FIRST_RESERVED + 28"
definition TK_NAME :: int where "TK_NAME = FIRST_RESERVED + 29"
definition TK_STRING :: int where "TK_STRING = FIRST_RESERVED + 30"
definition TK_WSTRING :: int where "TK_WSTRING = FIRST_RESERVED + 31"
definition TK_SHL :: int where "TK_SHL = FIRST_RESERVED + 32"
definition TK_SHR :: int where "TK_SHR = FIRST_RESERVED + 33"
definition TK_XOR :: int where "TK_XOR = FIRST_RESERVED + 34"
definition TK_EOS :: int where "TK_EOS = FIRST_RESERVED + 35"

definition NUM_RESERVED :: int where "NUM_RESERVED = TK_WHILE - FIRST_RESERVED + 1"

lemmas token_defs = FIRST_RESERVED_def TK_AND_def TK_BREAK_def TK_CONTINUE_def TK_DO_def
  TK_ELSE_def TK_ELSEIF_def TK_END_def TK_FALSE_def TK_FOR_def TK_FUNCTION_def TK_IF_def TK_IN_def
  TK_LOCAL_def TK_NIL_def TK_NOT_def TK_OR_def TK_REPEAT_def TK_RETURN_def TK_THEN_def TK_TRUE_def
  TK_UNTIL_def TK_WHILE_def TK_CONCAT_def TK_DOTS_def TK_EQ_def TK_GE_def TK_LE_def TK_NE_def
  TK_NUMBER_def TK_NAME_def TK_STRING_def TK_WSTRING_def TK_SHL_def TK_SHR_def TK_XOR_def TK_EOS_def

text \<open>
  \<open>luaX_init\<close> marks the reserved words in the string table: \<open>ts_reserved\<close> is the field
  \<open>tsv.reserved\<close> it leaves, 0 for every other string.
\<close>

definition luaX_init :: "(tstring \<times> int) list" where
  "luaX_init = zip (map bytes_of (take (nat NUM_RESERVED) luaX_tokens)) [1..NUM_RESERVED]"

definition ts_reserved :: "tstring \<Rightarrow> int" where
  "ts_reserved ts = (case map_of luaX_init ts of None \<Rightarrow> 0 | Some i \<Rightarrow> i)"

datatype SemInfo = SemNone | SemNumber lua_Number | SemString tstring | SemWString "wchar list"

record Token =
  token :: int
  seminfo :: SemInfo

text \<open>
  \<open>fs->h\<close>, the table of the function being compiled in which the lexer anchors the strings it
  creates, is the field \<open>lex_h\<close>.
\<close>

record 'd LexState =
  current :: int
  linenumber :: int
  lastline :: int
  tok :: Token
  ahead :: Token
  lz :: "'d ZIO"
  lbuff :: Mbuffer
  lsource :: tstring
  decpoint :: byte
  lex_h :: "TValue \<Rightarrow> TValue option"

section \<open>Characters\<close>

definition ch :: "char \<Rightarrow> int" where "ch c = of_char c"

definition isdigit :: "int \<Rightarrow> bool" where "isdigit c \<longleftrightarrow> 48 \<le> c \<and> c \<le> 57"
definition isalpha :: "int \<Rightarrow> bool" where "isalpha c \<longleftrightarrow> 65 \<le> c \<and> c \<le> 90 \<or> 97 \<le> c \<and> c \<le> 122"
definition isalnum :: "int \<Rightarrow> bool" where "isalnum c \<longleftrightarrow> isalpha c \<or> isdigit c"
definition isspace :: "int \<Rightarrow> bool" where "isspace c \<longleftrightarrow> c = 32 \<or> 9 \<le> c \<and> c \<le> 13"
definition iscntrl :: "int \<Rightarrow> bool" where "iscntrl c \<longleftrightarrow> 0 \<le> c \<and> c < 32 \<or> c = 127"
definition tolower :: "int \<Rightarrow> int" where "tolower c = (if 65 \<le> c \<and> c \<le> 90 then c + 32 else c)"

definition nextc :: "bool \<Rightarrow> 'd LexState \<Rightarrow> ('d LexState) result" where
  "nextc le ls =
     bnd (zgetc (lz ls)) (\<lambda>(c, z). let ls = ls\<lparr>lz := z\<rparr> in
     if c = EOZ then Inr (ls\<lparr>current := EOZ\<rparr>)
     else if \<not> isWide z then Inr (ls\<lparr>current := c\<rparr>)
     else bnd (zgetc z) (\<lambda>(c1, z). let ls = ls\<lparr>lz := z\<rparr> in
       if c1 = EOZ then Inr (ls\<lparr>current := EOZ\<rparr>)
       else Inr (ls\<lparr>current := wchar_of le (word_of_int c) (word_of_int c1)\<rparr>)))"

definition currIsNewline :: "'d LexState \<Rightarrow> bool" where
  "currIsNewline ls \<longleftrightarrow> current ls = ch CHR 0x0A \<or> current ls = ch CHR 0x0D"

section \<open>Errors\<close>

text \<open>The decimal representation of a number in a message (\<open>%d\<close>).\<close>

fun nat_digits :: "nat \<Rightarrow> byte list" where
  "nat_digits n = (if n < 10 then [] else nat_digits (n div 10)) @ [of_nat (n mod 10) + 48]"

definition int_digits :: "int \<Rightarrow> byte list" where
  "int_digits i = (if i < 0 then [45] else []) @ nat_digits (nat \<bar>i\<bar>)"

definition luaX_token2str :: "int \<Rightarrow> byte list" where
  "luaX_token2str tk =
     (if tk < FIRST_RESERVED
      then if iscntrl tk then bytes_of ''char('' @ int_digits tk @ bytes_of '')'' else [word_of_int tk]
      else bytes_of (luaX_tokens ! nat (tk - FIRST_RESERVED)))"

definition MAXSRC :: u32 where "MAXSRC = 80"

text \<open>The message of \<open>luaX_lexerror\<close>; \<open>near\<close> is the text of the token, if there is one.\<close>

definition lex_message :: "'d LexState \<Rightarrow> string \<Rightarrow> byte list option \<Rightarrow> string" where
  "lex_message ls msg near =
     map (\<lambda>b. char_of (unat b)) (luaO_chunkid (lsource ls) MAXSRC @ bytes_of '':'' @ int_digits (linenumber ls)
       @ bytes_of '': '' @ bytes_of msg
       @ (case near of None \<Rightarrow> [] | Some t \<Rightarrow> bytes_of '' near '' @ [39] @ c_str t @ [39]))"

text \<open>\<open>save\<close> appends a character to the token buffer, which doubles when it is full.\<close>

definition too_long :: "'d LexState \<Rightarrow> 'a result" where
  "too_long ls = Inl (ErrSyntax (lex_message ls ''lexical element too long'' None) 0)"

definition buffer_put :: "Mbuffer \<Rightarrow> byte list \<Rightarrow> Mbuffer result" where
  "buffer_put b bs =
     (let n = unat (mn b)
      in if n + length bs \<le> length (mbuffer b)
         then Inr (b\<lparr>mbuffer := take n (mbuffer b) @ bs @ drop (n + length bs) (mbuffer b),
                     mn := mn b + of_nat (length bs)\<rparr>)
         else Inl OutOfBounds)"

definition save :: "'d LexState \<Rightarrow> int \<Rightarrow> ('d LexState) result" where
  "save ls c =
     (let b = lbuff ls
      in bnd (if mn b + 1 > buffsize b
              then if buffsize b \<ge> MAX_SIZET div 2 then too_long ls
                   else luaZ_resizebuffer (\<lambda>_. 0) b (buffsize b * 2)
              else Inr b) (\<lambda>b.
         bnd (buffer_put b [word_of_int c]) (\<lambda>b. Inr (ls\<lparr>lbuff := b\<rparr>))))"

definition wsave :: "bool \<Rightarrow> 'd LexState \<Rightarrow> int \<Rightarrow> ('d LexState) result" where
  "wsave le ls c =
     (let b = lbuff ls
      in bnd (if mn b + 2 > buffsize b
              then if buffsize b \<ge> MAX_SIZET div 2 then too_long ls
                   else luaZ_resizebuffer (\<lambda>_. 0) b (buffsize b * 4)
              else Inr b) (\<lambda>b.
         bnd (buffer_put b (mem le 2 (word_of_int c :: wchar))) (\<lambda>b. Inr (ls\<lparr>lbuff := b\<rparr>))))"

definition txtToken :: "'d LexState \<Rightarrow> int \<Rightarrow> byte list result" where
  "txtToken ls tk =
     (if tk = TK_NAME \<or> tk = TK_STRING \<or> tk = TK_NUMBER
      then bnd (save ls 0) (\<lambda>ls. Inr (mbuffer (lbuff ls)))
      else Inr (luaX_token2str tk))"

definition luaX_lexerror :: "'d LexState \<Rightarrow> string \<Rightarrow> int \<Rightarrow> 'a result" where
  "luaX_lexerror ls msg tk =
     (if tk \<noteq> 0
      then bnd (txtToken ls tk) (\<lambda>t. Inl (ErrSyntax (lex_message ls msg (Some t)) tk))
      else Inl (ErrSyntax (lex_message ls msg None) tk))"

definition luaX_syntaxerror :: "'d LexState \<Rightarrow> string \<Rightarrow> 'a result" where
  "luaX_syntaxerror ls msg = luaX_lexerror ls msg (token (tok ls))"

definition save_and_next :: "bool \<Rightarrow> 'd LexState \<Rightarrow> ('d LexState) result" where
  "save_and_next le ls = bnd (save ls (current ls)) (nextc le)"

definition wsave_and_next :: "bool \<Rightarrow> 'd LexState \<Rightarrow> ('d LexState) result" where
  "wsave_and_next le ls = bnd (wsave le ls (current ls)) (nextc le)"

definition resetbuffer :: "'d LexState \<Rightarrow> 'd LexState" where
  "resetbuffer ls = ls\<lparr>lbuff := luaZ_resetbuffer (lbuff ls)\<rparr>"

text \<open>
  A new string of \<open>l\<close> characters from the buffer, starting at \<open>off\<close>; it is anchored in \<open>fs->h\<close>.
\<close>

definition anchor :: "'d LexState \<Rightarrow> TValue \<Rightarrow> 'd LexState" where
  "anchor ls ts =
     (if lex_h ls ts = None then ls\<lparr>lex_h := (lex_h ls)(ts \<mapsto> LBool 1)\<rparr> else ls)"

definition luaX_newstring :: "'d LexState \<Rightarrow> nat \<Rightarrow> u32 \<Rightarrow> (tstring \<times> 'd LexState) result" where
  "luaX_newstring ls off l =
     bnd (luaS_newlstr_value (drop off (mbuffer (lbuff ls))) l) (\<lambda>ts. Inr (ts, anchor ls (LString ts)))"

definition luaX_newwstring ::
  "bool \<Rightarrow> 'd LexState \<Rightarrow> nat \<Rightarrow> u32 \<Rightarrow> (wchar list \<times> 'd LexState) result" where
  "luaX_newwstring le ls off l =
     bnd (luaS_newlwstr_value (words_of le (drop off (mbuffer (lbuff ls)))) l) (\<lambda>ts.
     Inr (ts, anchor ls (LWString ts)))"

definition inclinenumber :: "bool \<Rightarrow> 'd LexState \<Rightarrow> ('d LexState) result" where
  "inclinenumber le ls =
     (let old = current ls
      in bnd (nextc le ls) (\<lambda>ls.
         bnd (if currIsNewline ls \<and> current ls \<noteq> old then nextc le ls else Inr ls) (\<lambda>ls.
         let ls = ls\<lparr>linenumber := linenumber ls + 1\<rparr>
         in if linenumber ls \<ge> MAX_INT then luaX_syntaxerror ls ''chunk has too many lines''
            else Inr ls)))"

definition luaX_setinput :: "bool \<Rightarrow> 'd LexState \<Rightarrow> 'd ZIO \<Rightarrow> tstring \<Rightarrow> ('d LexState) result" where
  "luaX_setinput le ls z src =
     (let ls = ls\<lparr>decpoint := of_char (CHR ''.''), ahead := (ahead ls)\<lparr>token := TK_EOS\<rparr>, lz := z,
                 linenumber := 1, lastline := 1, lsource := src\<rparr>
      in bnd (luaZ_resizebuffer (\<lambda>_. 0) (lbuff ls) LUA_MINBUFFER) (\<lambda>b. nextc le (ls\<lparr>lbuff := b\<rparr>)))"

section \<open>Numerals\<close>

text \<open>\<open>strchr\<close> converts the character to \<open>char\<close>, and finds the zero that ends the set.\<close>

definition strchr_set :: "string \<Rightarrow> int \<Rightarrow> bool" where
  "strchr_set st c \<longleftrightarrow> (word_of_int c :: byte) \<in> set (bytes_of st @ [0])"

definition check_next :: "bool \<Rightarrow> 'd LexState \<Rightarrow> string \<Rightarrow> (bool \<times> 'd LexState) result" where
  "check_next le ls st =
     (if \<not> strchr_set st (current ls) then Inr (False, ls)
      else bnd (save_and_next le ls) (\<lambda>ls. Inr (True, ls)))"

definition buffreplace :: "'d LexState \<Rightarrow> byte \<Rightarrow> byte \<Rightarrow> 'd LexState" where
  "buffreplace ls old new =
     (let b = lbuff ls; n = unat (mn b)
      in ls\<lparr>lbuff := b\<lparr>mbuffer := map (\<lambda>c. if c = old then new else c) (take n (mbuffer b))
                                 @ drop n (mbuffer b)\<rparr>\<rparr>)"

definition locale_point :: "byte option \<Rightarrow> byte" where
  "locale_point cv = (case cv of Some p \<Rightarrow> p | None \<Rightarrow> of_char (CHR ''.''))"

definition trydecpoint :: "byte option \<Rightarrow> 'd LexState \<Rightarrow> (lua_Number \<times> 'd LexState) result" where
  "trydecpoint cv ls =
     (let old = decpoint ls; ls = ls\<lparr>decpoint := locale_point cv\<rparr>; ls = buffreplace ls old (decpoint ls);
          (ok, r) = luaO_str2d (locale_point cv) (c_str (mbuffer (lbuff ls)))
      in if \<not> ok
         then luaX_lexerror (buffreplace ls (decpoint ls) (of_char (CHR ''.''))) ''malformed number'' TK_NUMBER
         else Inr (r, ls))"

text \<open>
  The loops over hexadecimal digits of \<open>read_numeral\<close> and of the escapes: at most \<open>k + 1\<close> rounds,
  each of which takes the current character whatever it is. The value is an \<open>int\<close> and wraps.
\<close>

definition hex_digit :: "int \<Rightarrow> int \<Rightarrow> int" where
  "hex_digit c h =
     (if isdigit h then c_int (c_uint (16 * c + (h - 48)))
      else if 97 \<le> h \<and> h \<le> 102 then c_int (c_uint (16 * c + (h - 97) + 10))
      else c)"

fun hex_loop :: "nat \<Rightarrow> bool \<Rightarrow> int \<Rightarrow> 'd LexState \<Rightarrow> (int \<times> 'd LexState) result" where
  "hex_loop k le c ls =
     (let c = hex_digit c (tolower (current ls))
      in bnd (nextc le ls) (\<lambda>ls. let h = tolower (current ls)
         in if k > 0 \<and> (isdigit h \<or> 97 \<le> h \<and> h \<le> 102) then hex_loop (k - 1) le c ls
            else Inr (c, ls)))"

text \<open>\<open>while (p(ls->current)) save_and_next(ls)\<close>\<close>

fun save_while :: "nat \<Rightarrow> bool \<Rightarrow> (int \<Rightarrow> bool) \<Rightarrow> 'd LexState \<Rightarrow> ('d LexState) result" where
  "save_while fuel le p ls =
     (if p (current ls)
      then case fuel of 0 \<Rightarrow> Inl OutOfFuel
           | Suc n \<Rightarrow> bnd (save_and_next le ls) (save_while n le p)
      else Inr ls)"

definition read_decimal ::
  "nat \<Rightarrow> bool \<Rightarrow> byte option \<Rightarrow> 'd LexState \<Rightarrow> (lua_Number \<times> 'd LexState) result" where
  "read_decimal fuel le cv ls =
     bnd (save_while fuel le (\<lambda>c. isdigit c \<or> c = ch (CHR ''.'')) ls) (\<lambda>ls.
     bnd (check_next le ls ''Ee'') (\<lambda>(e, ls).
     bnd (if e then check_next le ls ''+-'' else Inr (False, ls)) (\<lambda>(_, ls).
     bnd (save_while fuel le (\<lambda>c. isalnum c \<or> c = ch (CHR ''_'')) ls) (\<lambda>ls.
     bnd (save ls 0) (\<lambda>ls.
     let ls = buffreplace ls (of_char (CHR ''.'')) (decpoint ls);
         (ok, r) = luaO_str2d (locale_point cv) (c_str (mbuffer (lbuff ls)))
     in if \<not> ok then trydecpoint cv ls else Inr (r, ls))))))"

definition read_numeral ::
  "nat \<Rightarrow> bool \<Rightarrow> byte option \<Rightarrow> 'd LexState \<Rightarrow> (lua_Number \<times> 'd LexState) result" where
  "read_numeral fuel le cv ls =
     (if current ls = ch (CHR ''0'')
      then bnd (save_and_next le ls) (\<lambda>ls.
           if current ls = ch (CHR ''x'')
           then bnd (nextc le ls) (\<lambda>ls. bnd (hex_loop 7 le 0 ls) (\<lambda>(c, ls). Inr (cast_num c, ls)))
           else read_decimal fuel le cv ls)
      else read_decimal fuel le cv ls)"

section \<open>Strings\<close>

fun count_seps :: "nat \<Rightarrow> bool \<Rightarrow> int \<Rightarrow> 'd LexState \<Rightarrow> (int \<times> 'd LexState) result" where
  "count_seps fuel le count ls =
     (if current ls = ch (CHR ''='')
      then case fuel of 0 \<Rightarrow> Inl OutOfFuel
           | Suc n \<Rightarrow> bnd (save_and_next le ls) (count_seps n le (count + 1))
      else Inr (count, ls))"

definition skip_sep :: "nat \<Rightarrow> bool \<Rightarrow> 'd LexState \<Rightarrow> (int \<times> 'd LexState) result" where
  "skip_sep fuel le ls =
     (let s = current ls
      in bnd (save_and_next le ls) (\<lambda>ls.
         bnd (count_seps fuel le 0 ls) (\<lambda>(count, ls).
         Inr (if current ls = s then count else - count - 1, ls))))"

text \<open>\<open>str\<close> is false for a comment (\<open>seminfo\<close> is \<open>NULL\<close>). \<open>LUA_COMPAT_LSTR\<close> is 1.\<close>

fun long_loop :: "nat \<Rightarrow> bool \<Rightarrow> bool \<Rightarrow> int \<Rightarrow> 'd LexState \<Rightarrow> ('d LexState) result" where
  "long_loop 0 le str sep ls = Inl OutOfFuel"
| "long_loop (Suc fuel) le str sep ls =
     (if current ls = EOZ
      then luaX_lexerror ls (if str then ''unfinished long string'' else ''unfinished long comment'') TK_EOS
      else if current ls = ch (CHR ''['')
      then bnd (skip_sep fuel le ls) (\<lambda>(n, ls).
           if n = sep
           then bnd (save_and_next le ls) (\<lambda>ls.
                if sep = 0 then luaX_lexerror ls ''nesting of [[...]] is deprecated'' (ch (CHR ''[''))
                else long_loop fuel le str sep ls)
           else long_loop fuel le str sep ls)
      else if current ls = ch (CHR '']'')
      then bnd (skip_sep fuel le ls) (\<lambda>(n, ls).
           if n = sep then save_and_next le ls else long_loop fuel le str sep ls)
      else if currIsNewline ls
      then bnd (save ls 10) (\<lambda>ls. bnd (inclinenumber le ls) (\<lambda>ls.
           long_loop fuel le str sep (if str then ls else resetbuffer ls)))
      else bnd (if str then save_and_next le ls else nextc le ls) (long_loop fuel le str sep))"

definition read_long_string ::
  "nat \<Rightarrow> bool \<Rightarrow> bool \<Rightarrow> int \<Rightarrow> 'd LexState \<Rightarrow> (tstring \<times> 'd LexState) result" where
  "read_long_string fuel le str sep ls =
     bnd (save_and_next le ls) (\<lambda>ls.
     bnd (if currIsNewline ls then inclinenumber le ls else Inr ls) (\<lambda>ls.
     bnd (long_loop fuel le str sep ls) (\<lambda>ls.
     if str then luaX_newstring ls (nat (2 + sep)) (mn (lbuff ls) - 2 * c_uint (2 + sep))
     else Inr ([], ls))))"

text \<open>
  \<open>read_string\<close> and \<open>read_wstring\<close> differ in the operation \<open>sv\<close> that saves a character and in the
  number of digits of a hexadecimal escape (\<open>nhex + 1\<close>).
\<close>

fun dec_loop :: "nat \<Rightarrow> bool \<Rightarrow> int \<Rightarrow> 'd LexState \<Rightarrow> (int \<times> 'd LexState) result" where
  "dec_loop k le c ls =
     (let c = 10 * c + (current ls - 48)
      in bnd (nextc le ls) (\<lambda>ls.
         if k > 0 \<and> isdigit (current ls) then dec_loop (k - 1) le c ls else Inr (c, ls)))"

definition escape_code :: "int \<Rightarrow> int option" where
  "escape_code c =
     (if c = ch (CHR ''a'') then Some 7 else if c = ch (CHR ''b'') then Some 8
      else if c = ch (CHR ''f'') then Some 12 else if c = ch (CHR ''n'') then Some 10
      else if c = ch (CHR ''r'') then Some 13 else if c = ch (CHR ''t'') then Some 9
      else if c = ch (CHR ''v'') then Some 11 else None)"

definition UCHAR_MAX :: int where "UCHAR_MAX = 255"

text \<open>After the backslash.\<close>

definition read_escape ::
  "bool \<Rightarrow> ('d LexState \<Rightarrow> int \<Rightarrow> ('d LexState) result) \<Rightarrow> nat \<Rightarrow> 'd LexState \<Rightarrow> ('d LexState) result" where
  "read_escape le sv nhex ls =
     (case escape_code (current ls) of
        Some c \<Rightarrow> bnd (sv ls c) (nextc le)
      | None \<Rightarrow>
          if currIsNewline ls then bnd (sv ls 10) (inclinenumber le)
          else if current ls = EOZ then Inr ls
          else if current ls = ch (CHR ''x'')
          then bnd (nextc le ls) (\<lambda>ls. bnd (hex_loop nhex le 0 ls) (\<lambda>(c, ls). sv ls c))
          else if \<not> isdigit (current ls) then bnd (sv ls (current ls)) (nextc le)
          else bnd (dec_loop 2 le 0 ls) (\<lambda>(c, ls).
               if c > UCHAR_MAX then luaX_lexerror ls ''escape sequence too large'' TK_STRING
               else sv ls c))"

fun string_loop ::
  "nat \<Rightarrow> bool \<Rightarrow> ('d LexState \<Rightarrow> int \<Rightarrow> ('d LexState) result) \<Rightarrow> nat \<Rightarrow> int \<Rightarrow> 'd LexState
     \<Rightarrow> ('d LexState) result" where
  "string_loop fuel le sv nhex del ls =
     (if current ls = del then Inr ls
      else case fuel of 0 \<Rightarrow> Inl OutOfFuel
      | Suc n \<Rightarrow>
          if current ls = EOZ then luaX_lexerror ls ''unfinished string'' TK_EOS
          else if currIsNewline ls then luaX_lexerror ls ''unfinished string'' TK_STRING
          else if current ls = ch (CHR 0x5C)
          then bnd (nextc le ls) (\<lambda>ls. bnd (read_escape le sv nhex ls) (string_loop n le sv nhex del))
          else bnd (bnd (sv ls (current ls)) (nextc le)) (string_loop n le sv nhex del))"

definition read_string :: "nat \<Rightarrow> bool \<Rightarrow> int \<Rightarrow> 'd LexState \<Rightarrow> (tstring \<times> 'd LexState) result" where
  "read_string fuel le del ls =
     bnd (save_and_next le ls) (\<lambda>ls.
     bnd (string_loop fuel le save 1 del ls) (\<lambda>ls.
     bnd (save_and_next le ls) (\<lambda>ls.
     luaX_newstring ls 1 (mn (lbuff ls) - 2))))"

definition read_wstring :: "nat \<Rightarrow> bool \<Rightarrow> int \<Rightarrow> 'd LexState \<Rightarrow> (wchar list \<times> 'd LexState) result" where
  "read_wstring fuel le del ls =
     bnd (wsave_and_next le ls) (\<lambda>ls.
     bnd (string_loop fuel le (wsave le) 3 del ls) (\<lambda>ls.
     bnd (wsave_and_next le ls) (\<lambda>ls.
     luaX_newwstring le ls 2 ((mn (lbuff ls) - 2 * 2) div 2))))"

section \<open>The scanner\<close>

fun skip_line :: "nat \<Rightarrow> bool \<Rightarrow> 'd LexState \<Rightarrow> ('d LexState) result" where
  "skip_line fuel le ls =
     (if \<not> currIsNewline ls \<and> current ls \<noteq> EOZ
      then case fuel of 0 \<Rightarrow> Inl OutOfFuel | Suc n \<Rightarrow> bnd (nextc le ls) (skip_line n le)
      else Inr ls)"

text \<open>
  A token of one or two characters: the current character is consumed, and the next one as well
  when it is one of those listed, each with its token.
\<close>

definition lex_second ::
  "bool \<Rightarrow> int \<Rightarrow> (int \<times> int) list \<Rightarrow> 'd LexState \<Rightarrow> (int \<times> 'd LexState) result" where
  "lex_second le c alts ls =
     bnd (nextc le ls) (\<lambda>ls.
     case map_of alts (current ls) of
       None \<Rightarrow> Inr (c, ls)
     | Some t \<Rightarrow> bnd (nextc le ls) (\<lambda>ls. Inr (t, ls)))"

definition lex_name ::
  "nat \<Rightarrow> bool \<Rightarrow> SemInfo \<Rightarrow> 'd LexState \<Rightarrow> (int \<times> SemInfo \<times> 'd LexState) result" where
  "lex_name fuel le si ls =
     bnd (save_and_next le ls) (\<lambda>ls.
     bnd (save_while fuel le (\<lambda>c. isalnum c \<or> c = ch (CHR ''_'')) ls) (\<lambda>ls.
     bnd (luaX_newstring ls 0 (mn (lbuff ls))) (\<lambda>(ts, ls).
     if ts_reserved ts > 0 then Inr (ts_reserved ts - 1 + FIRST_RESERVED, si, ls)
     else Inr (TK_NAME, SemString ts, ls))))"

text \<open>Two dashes have been read: a long comment or the rest of the line.\<close>

definition lex_comment :: "nat \<Rightarrow> bool \<Rightarrow> 'd LexState \<Rightarrow> ('d LexState) result" where
  "lex_comment fuel le ls =
     (if current ls = ch (CHR ''['')
      then bnd (skip_sep fuel le ls) (\<lambda>(sep, ls).
           let ls = resetbuffer ls
           in if sep \<ge> 0
              then bnd (read_long_string fuel le False sep ls) (\<lambda>(_, ls). Inr (resetbuffer ls))
              else skip_line fuel le ls)
      else skip_line fuel le ls)"

definition lex_dot ::
  "nat \<Rightarrow> bool \<Rightarrow> byte option \<Rightarrow> SemInfo \<Rightarrow> 'd LexState \<Rightarrow> (int \<times> SemInfo \<times> 'd LexState) result" where
  "lex_dot fuel le cv si ls =
     bnd (save_and_next le ls) (\<lambda>ls.
     bnd (check_next le ls ''.'') (\<lambda>(two, ls).
     if two
     then bnd (check_next le ls ''.'') (\<lambda>(three, ls).
          Inr (if three then TK_DOTS else TK_CONCAT, si, ls))
     else if \<not> isdigit (current ls) then Inr (ch (CHR ''.''), si, ls)
     else bnd (read_numeral fuel le cv ls) (\<lambda>(r, ls). Inr (TK_NUMBER, SemNumber r, ls))))"

text \<open>An identifier that starts with \<open>L\<close>, or a wide string.\<close>

definition lex_L ::
  "nat \<Rightarrow> bool \<Rightarrow> SemInfo \<Rightarrow> 'd LexState \<Rightarrow> (int \<times> SemInfo \<times> 'd LexState) result" where
  "lex_L fuel le si ls =
     bnd (nextc le ls) (\<lambda>ls.
     if current ls = 34 \<or> current ls = 39
     then bnd (read_wstring fuel le (current ls) ls) (\<lambda>(ts, ls). Inr (TK_WSTRING, SemWString ts, ls))
     else bnd (save ls (ch (CHR ''L''))) (lex_name fuel le si))"

text \<open>
  \<open>llex\<close>: one round of the loop for each line break, space or comment. \<open>si\<close> is what \<open>seminfo\<close>
  held before.
\<close>

fun llex_loop ::
  "nat \<Rightarrow> bool \<Rightarrow> byte option \<Rightarrow> SemInfo \<Rightarrow> 'd LexState \<Rightarrow> (int \<times> SemInfo \<times> 'd LexState) result" where
  "llex_loop 0 le cv si ls = Inl OutOfFuel"
| "llex_loop (Suc fuel) le cv si ls =
     (let c = current ls; plain = (\<lambda>(t, ls). Inr (t, si, ls))
      in if currIsNewline ls then bnd (inclinenumber le ls) (llex_loop fuel le cv si)
      else if c = ch (CHR ''-'')
      then bnd (nextc le ls) (\<lambda>ls.
           if current ls \<noteq> ch (CHR ''-'') then Inr (c, si, ls)
           else bnd (nextc le ls) (\<lambda>ls. bnd (lex_comment fuel le ls) (llex_loop fuel le cv si)))
      else if c = ch (CHR ''['')
      then bnd (skip_sep fuel le ls) (\<lambda>(sep, ls).
           if sep \<ge> 0
           then bnd (read_long_string fuel le True sep ls) (\<lambda>(ts, ls). Inr (TK_STRING, SemString ts, ls))
           else if sep = - 1 then Inr (c, si, ls)
           else luaX_lexerror ls ''invalid long string delimiter'' TK_STRING)
      else if c = ch (CHR ''='') then bnd (lex_second le c [(ch (CHR ''=''), TK_EQ)] ls) plain
      else if c = ch (CHR ''<'')
      then bnd (lex_second le c [(ch (CHR ''<''), TK_SHL), (ch (CHR ''=''), TK_LE)] ls) plain
      else if c = ch (CHR ''>'')
      then bnd (lex_second le c [(ch (CHR ''>''), TK_SHR), (ch (CHR ''=''), TK_GE)] ls) plain
      else if c = ch (CHR ''~'') then bnd (lex_second le c [(ch (CHR ''=''), TK_NE)] ls) plain
      else if c = ch (CHR ''^'') then bnd (lex_second le c [(ch (CHR ''^''), TK_XOR)] ls) plain
      else if c = 34 \<or> c = 39
      then bnd (read_string fuel le c ls) (\<lambda>(ts, ls). Inr (TK_STRING, SemString ts, ls))
      else if c = ch (CHR ''.'') then lex_dot fuel le cv si ls
      else if c = EOZ then Inr (TK_EOS, si, ls)
      else if c > 255 then luaX_lexerror ls ''invalid wide char'' 0
      else if isspace c then bnd (nextc le ls) (llex_loop fuel le cv si)
      else if isdigit c
      then bnd (read_numeral fuel le cv ls) (\<lambda>(r, ls). Inr (TK_NUMBER, SemNumber r, ls))
      else if isalpha c \<or> c = ch (CHR ''_'')
      then if c = ch (CHR ''L'') then lex_L fuel le si ls else lex_name fuel le si ls
      else bnd (nextc le ls) (\<lambda>ls. Inr (c, si, ls)))"

definition llex ::
  "nat \<Rightarrow> bool \<Rightarrow> byte option \<Rightarrow> SemInfo \<Rightarrow> 'd LexState \<Rightarrow> (int \<times> SemInfo \<times> 'd LexState) result" where
  "llex fuel le cv si ls = llex_loop fuel le cv si (resetbuffer ls)"

definition luaX_next :: "nat \<Rightarrow> bool \<Rightarrow> byte option \<Rightarrow> 'd LexState \<Rightarrow> ('d LexState) result" where
  "luaX_next fuel le cv ls =
     (let ls = ls\<lparr>lastline := linenumber ls\<rparr>
      in if token (ahead ls) \<noteq> TK_EOS
         then Inr (ls\<lparr>tok := ahead ls, ahead := (ahead ls)\<lparr>token := TK_EOS\<rparr>\<rparr>)
         else bnd (llex fuel le cv (seminfo (tok ls)) ls) (\<lambda>(t, si, ls).
              Inr (ls\<lparr>tok := \<lparr>token = t, seminfo = si\<rparr>\<rparr>)))"

definition luaX_lookahead :: "nat \<Rightarrow> bool \<Rightarrow> byte option \<Rightarrow> 'd LexState \<Rightarrow> ('d LexState) result" where
  "luaX_lookahead fuel le cv ls =
     bnd (llex fuel le cv (seminfo (ahead ls)) ls) (\<lambda>(t, si, ls).
     Inr (ls\<lparr>ahead := \<lparr>token = t, seminfo = si\<rparr>\<rparr>))"

declare hex_loop.simps [simp del] save_while.simps [simp del] count_seps.simps [simp del]
  dec_loop.simps [simp del] string_loop.simps [simp del] skip_line.simps [simp del]
  long_loop.simps [simp del] llex_loop.simps [simp del] nat_digits.simps [simp del]

end
