(* ===== verification/StrLib.thy ===== *)
theory StrLib
  imports AuxBuffer
begin

text \<open>
  The string library (\<open>lstrlib.c\<close>) on strings of bytes: the quoting of \<open>%q\<close>.
\<close>

section \<open>Quoting\<close>

definition quote_char :: "luaL_Buffer \<Rightarrow> byte \<Rightarrow> luaL_Buffer" where
  "quote_char B c =
     (if c = 34 \<or> c = 92 \<or> c = 10 then luaL_addchar (luaL_addchar B 92) c
      else if c = 13 then luaL_addlstring B (bytes_of (CHR 0x5C # ''r''))
      else if c = 0 then luaL_addlstring B (bytes_of (CHR 0x5C # ''000''))
      else luaL_addchar B c)"

definition luaI_addquoted :: "luaL_Buffer \<Rightarrow> byte list \<Rightarrow> luaL_Buffer" where
  "luaI_addquoted B s = luaL_addchar (fold (\<lambda>c B. quote_char B c) s (luaL_addchar B 34)) 34"

text \<open>The text it writes.\<close>

definition quote :: "byte \<Rightarrow> byte list" where
  "quote c =
     (if c = 34 \<or> c = 92 \<or> c = 10 then [92, c] else if c = 13 then [92, 114]
      else if c = 0 then [92, 48, 48, 48] else [c])"

definition quoted :: "byte list \<Rightarrow> byte list" where
  "quoted s = 34 # concat (map quote s) @ [34]"

lemma fold_quote_char_ok:
  "buffer_ok B \<Longrightarrow> buffer_ok (fold (\<lambda>c B. quote_char B c) s B)
    \<and> buffer_content (fold (\<lambda>c B. quote_char B c) s B) = buffer_content B @ concat (map quote s)
    \<and> below_buffer (fold (\<lambda>c B. quote_char B c) s B) = below_buffer B"
proof (induction s arbitrary: B)
  case (Cons c s)
  have "buffer_ok (quote_char B c) \<and> buffer_content (quote_char B c) = buffer_content B @ quote c
      \<and> below_buffer (quote_char B c) = below_buffer B"
    using Cons.prems addchar_ok addlstring_ok
    by (simp add: quote_char_def quote_def bytes_of_def of_char_def)
  with Cons.IH show ?case by auto
qed simp

lemma addquoted_result:
  "bstack (luaL_pushresult (luaI_addquoted (luaL_buffinit st) s)) = quoted s # st"
  using buffinit_ok [of st] addchar_ok [of "luaL_buffinit st" 34]
    fold_quote_char_ok [of "luaL_addchar (luaL_buffinit st) 34" s]
    addchar_ok [of "fold (\<lambda>c B. quote_char B c) s (luaL_addchar (luaL_buffinit st) 34)" 34]
  by (simp add: luaI_addquoted_def quoted_def pushresult_ok)

end
