(* ===== verification/LexerFacts.thy ===== *)
theory LexerFacts
  imports Lexer StrLib
begin

text \<open>
  What the lexical analyzer does with a stream of narrow characters, over any reader that keeps the
  contract \<open>byte_source\<close>: it comes to an end and makes progress, without leaving the stream or its
  buffer, and the literals and names it recognises are those the text spells.
\<close>

section \<open>Scanner states\<close>

text \<open>
  The scanner stands before the characters \<open>s\<close>: the first is current and the stream has the others,
  or nothing is left, and the count of the stream has wrapped (\<open>zgetc_Nil\<close>).
\<close>

definition lex_at :: "('d \<Rightarrow> byte list option \<times> 'd) \<Rightarrow> ('d \<Rightarrow> byte list) \<Rightarrow> byte list \<Rightarrow> 'd LexState \<Rightarrow> bool" where
  "lex_at rd content s ls \<longleftrightarrow>
     (case s of
        [] \<Rightarrow> current ls = EOZ \<and> zn (lz ls) = - 1 \<and> zp (lz ls) = length (zbuf (lz ls))
      | b # bs \<Rightarrow> current ls = uint b \<and> zio_ok rd (lz ls) \<and> \<not> isWide (lz ls)
          \<and> zrest content (lz ls) = bs)"

text \<open>The text in the token buffer.\<close>

definition lex_text :: "'d LexState \<Rightarrow> byte list" where
  "lex_text ls = take (unat (mn (lbuff ls))) (mbuffer (lbuff ls))"

definition lex_buff_ok :: "'d LexState \<Rightarrow> bool" where
  "lex_buff_ok ls \<longleftrightarrow> mbuffer_ok (lbuff ls) \<and> 1 \<le> buffsize (lbuff ls)"

lemma lex_at_Cons_current: "lex_at rd content (b # bs) ls \<Longrightarrow> current ls = uint b"
  by (simp add: lex_at_def)

lemma lex_at_EOZ: "lex_at rd content s ls \<Longrightarrow> current ls = EOZ \<longleftrightarrow> s = []"
  by (auto simp: lex_at_def split: list.splits)

lemma lex_at_cong:
  "lex_at rd content s ls \<Longrightarrow> current ls' = current ls \<Longrightarrow> lz ls' = lz ls \<Longrightarrow> lex_at rd content s ls'"
  by (cases s) (simp_all add: lex_at_def)

context byte_source begin

lemma next_at:
  assumes "lex_at rd content (b # s) ls"
  obtains c z where "nextc le ls = Inr (ls\<lparr>lz := z, current := c\<rparr>)"
    "lex_at rd content s (ls\<lparr>lz := z, current := c\<rparr>)"
proof (cases s)
  case Nil
  with assms have "zio_ok rd (lz ls)" "zrest content (lz ls) = []" by (simp_all add: lex_at_def)
  then obtain z where "zgetc (lz ls) = Inr (EOZ, z)" "zn z = - 1" "zp z = length (zbuf z)"
    by (rule zgetc_Nil)
  with Nil show ?thesis by (intro that [of EOZ z]) (simp_all add: nextc_def lex_at_def)
next
  case (Cons b' s')
  with assms have "zio_ok rd (lz ls)" "zrest content (lz ls) = b' # s'" by (simp_all add: lex_at_def)
  then obtain z where "zgetc (lz ls) = Inr (uint b', z)" "zio_ok rd z" "zrest content z = s'"
    "isWide z = isWide (lz ls)" by (rule zgetc_Cons)
  with Cons assms show ?thesis
    by (intro that [of "uint b'" z]) (simp_all add: nextc_def lex_at_def)
qed

lemma next_at_Nil: "lex_at rd content [] ls \<Longrightarrow> nextc le ls = Inl OutOfBounds"
proof -
  assume "lex_at rd content [] ls"
  moreover have "(0 :: u32) < - 1" by code_simp
  ultimately show ?thesis by (simp add: lex_at_def nextc_def zgetc_def zpeek_def)
qed

end

lemma classes_EOZ [simp]:
  "\<not> isdigit EOZ" "\<not> isalpha EOZ" "\<not> isalnum EOZ" "\<not> isspace EOZ"
  by (simp_all add: isdigit_def isalpha_def isalnum_def isspace_def EOZ_def)

lemma ch_EOZ [simp]: "ch c \<noteq> EOZ" "EOZ \<noteq> ch c"
  by (simp_all add: ch_def EOZ_def of_char_def)

section \<open>Saving the text of a token\<close>

definition MAX_TOKEN :: nat where "MAX_TOKEN = 2147483646"

lemma buffer_put_ok:
  assumes "mbuffer_ok b" and "mn b < buffsize b"
  obtains b' where "buffer_put b [c] = Inr b'" "mbuffer_ok b'" "buffsize b' = buffsize b"
    "take (unat (mn b')) (mbuffer b') = take (unat (mn b)) (mbuffer b) @ [c]"
proof -
  have len: "length (mbuffer b) = unat (buffsize b)" and lt: "unat (mn b) < unat (buffsize b)"
    using assms by (simp_all add: mbuffer_ok_def word_less_nat_alt)
  have n1: "unat (mn b + 1) = unat (mn b) + 1"
  proof -
    have "unat (mn b) + 1 < 2 ^ 32" using lt unsigned_less [of "buffsize b", where ?'a = nat] by simp
    then show ?thesis by (simp add: unat_word_ariths)
  qed
  let ?b = "b\<lparr>mbuffer := take (unat (mn b)) (mbuffer b) @ [c] @ drop (unat (mn b) + 1) (mbuffer b), mn := mn b + 1\<rparr>"
  have "mn b + 1 \<le> buffsize b" using n1 lt by (simp add: word_le_nat_alt)
  with len lt n1 show ?thesis
    by (intro that [of ?b]) (simp_all add: buffer_put_def Let_def mbuffer_ok_def min_def)
qed

lemma save_ok:
  assumes ok: "lex_buff_ok ls" and short: "length (lex_text ls) < MAX_TOKEN"
  obtains b where "save ls c = Inr (ls\<lparr>lbuff := b\<rparr>)" "lex_buff_ok (ls\<lparr>lbuff := b\<rparr>)"
    "lex_text (ls\<lparr>lbuff := b\<rparr>) = lex_text ls @ [word_of_int c]"
proof -
  let ?b = "lbuff ls"
  have len: "length (mbuffer ?b) = unat (buffsize ?b)" and le: "unat (mn ?b) \<le> unat (buffsize ?b)"
    and pos: "1 \<le> unat (buffsize ?b)"
    using ok by (simp_all add: lex_buff_ok_def mbuffer_ok_def word_le_nat_alt)
  have n: "unat (mn ?b) < 2147483646" using short len le by (simp add: lex_text_def MAX_TOKEN_def)
  have n1: "unat (mn ?b + 1) = unat (mn ?b) + 1" using n by (simp add: unat_word_ariths)
  have "\<exists>b1. (if mn ?b + 1 > buffsize ?b
              then if buffsize ?b \<ge> MAX_SIZET div 2 then too_long ls
                   else luaZ_resizebuffer (\<lambda>_. 0) ?b (buffsize ?b * 2)
              else Inr ?b) = Inr b1 \<and> mbuffer_ok b1 \<and> mn b1 < buffsize b1 \<and> mn b1 = mn ?b
        \<and> take (unat (mn ?b)) (mbuffer b1) = take (unat (mn ?b)) (mbuffer ?b)"
  proof (cases "mn ?b + 1 > buffsize ?b")
    case False
    then have "mn ?b < buffsize ?b" using n1 by (simp add: word_le_nat_alt word_less_nat_alt not_less)
    with False ok show ?thesis by (simp add: lex_buff_ok_def)
  next
    case True
    then have eq: "unat (buffsize ?b) = unat (mn ?b)" using n1 le by (simp add: word_less_nat_alt)
    have half: "unat (MAX_SIZET div 2) = 2147483646" by (simp add: MAX_SIZET_def unat_div)
    have small: "\<not> buffsize ?b \<ge> MAX_SIZET div 2" using n eq half by (simp add: word_le_nat_alt)
    have dbl: "unat (buffsize ?b * 2) = unat (buffsize ?b) * 2"
      using n eq by (simp add: unat_word_ariths)
    have "unat (buffsize ?b * 2 + 1) = unat (buffsize ?b) * 2 + 1"
      using n eq dbl by (simp add: unat_word_ariths)
    then have "buffsize ?b * 2 + 1 \<le> MAX_SIZET div 1"
      using n eq by (simp add: word_le_nat_alt MAX_SIZET_def)
    then have r: "luaM_reallocv (buffsize ?b * 2) 1 = Inr ()" by (simp add: luaM_reallocv_def)
    let ?b1 = "?b\<lparr>mbuffer := realloc_bytes (\<lambda>_. 0) (mbuffer ?b) (unat (buffsize ?b * 2)), buffsize := buffsize ?b * 2\<rparr>"
    have "luaZ_resizebuffer (\<lambda>_. 0) ?b (buffsize ?b * 2) = Inr ?b1" by (simp add: luaZ_resizebuffer_def r)
    moreover have "mbuffer_ok ?b1" "mn ?b1 < buffsize ?b1"
      using dbl le eq pos by (simp_all add: mbuffer_ok_def word_le_nat_alt word_less_nat_alt)
    moreover have "take (unat (mn ?b)) (mbuffer ?b1) = take (unat (mn ?b)) (mbuffer ?b)"
      using dbl le len eq by (simp add: take_realloc_bytes)
    ultimately show ?thesis using True small by simp
  qed
  then obtain b1 where b1: "(if mn ?b + 1 > buffsize ?b
              then if buffsize ?b \<ge> MAX_SIZET div 2 then too_long ls
                   else luaZ_resizebuffer (\<lambda>_. 0) ?b (buffsize ?b * 2)
              else Inr ?b) = Inr b1" "mbuffer_ok b1" "mn b1 < buffsize b1" "mn b1 = mn ?b"
        "take (unat (mn ?b)) (mbuffer b1) = take (unat (mn ?b)) (mbuffer ?b)" by blast
  from buffer_put_ok [OF b1(2,3)] obtain b2 where b2: "buffer_put b1 [word_of_int c] = Inr b2"
    "mbuffer_ok b2" "buffsize b2 = buffsize b1"
    "take (unat (mn b2)) (mbuffer b2) = take (unat (mn b1)) (mbuffer b1) @ [word_of_int c]" by blast
  have "1 \<le> unat (buffsize b2)" using b1(3) b2(3) by (simp add: word_less_nat_alt)
  then show ?thesis
    using b1 b2 by (intro that [of b2])
      (simp_all add: save_def Let_def lex_buff_ok_def lex_text_def word_le_nat_alt)
qed

lemma lex_text_length: "lex_buff_ok ls \<Longrightarrow> unat (mn (lbuff ls)) = length (lex_text ls)"
  by (simp add: lex_buff_ok_def lex_text_def mbuffer_ok_def word_le_nat_alt)

text \<open>Everything but the input position and the token buffer.\<close>

definition lex_frame ::
  "'d LexState \<Rightarrow> int \<times> int \<times> Token \<times> Token \<times> tstring \<times> byte \<times> (TValue \<Rightarrow> TValue option)" where
  "lex_frame ls = (linenumber ls, lastline ls, tok ls, ahead ls, lsource ls, decpoint ls, lex_h ls)"

lemma lex_frame_update [simp]:
  "lex_frame (ls\<lparr>lbuff := b\<rparr>) = lex_frame ls" "lex_frame (ls\<lparr>current := c\<rparr>) = lex_frame ls"
  "lex_frame (ls\<lparr>lz := z\<rparr>) = lex_frame ls"
  by (simp_all add: lex_frame_def)

lemma lex_text_update [simp]:
  "lex_text (ls\<lparr>current := c\<rparr>) = lex_text ls" "lex_text (ls\<lparr>lz := z\<rparr>) = lex_text ls"
  "lex_buff_ok (ls\<lparr>current := c\<rparr>) = lex_buff_ok ls" "lex_buff_ok (ls\<lparr>lz := z\<rparr>) = lex_buff_ok ls"
  by (simp_all add: lex_text_def lex_buff_ok_def)

text \<open>
  The scanner before \<open>s\<close> with the text \<open>w\<close> in its buffer and the frame \<open>f\<close>.
\<close>

definition lex_st where
  "lex_st rd content s w f ls \<longleftrightarrow>
     lex_at rd content s ls \<and> lex_buff_ok ls \<and> lex_text ls = w \<and> lex_frame ls = f"

text \<open>The scanner before \<open>s\<close>, ready to read a token: the text in the buffer does not matter.\<close>

definition lex_ready :: "('d \<Rightarrow> byte list option \<times> 'd) \<Rightarrow> ('d \<Rightarrow> byte list) \<Rightarrow> byte list \<Rightarrow> 'd LexState \<Rightarrow> bool" where
  "lex_ready rd content s ls \<longleftrightarrow> lex_at rd content s ls \<and> lex_buff_ok (resetbuffer ls)"

lemma lex_ready_cong:
  "lex_ready rd content s ls \<Longrightarrow> current ls' = current ls \<Longrightarrow> lz ls' = lz ls \<Longrightarrow> lbuff ls' = lbuff ls \<Longrightarrow>
     lex_ready rd content s ls'"
  by (auto simp: lex_ready_def lex_buff_ok_def resetbuffer_def elim: lex_at_cong)

lemma lex_buff_ok_reset: "lex_buff_ok ls \<Longrightarrow> lex_buff_ok (resetbuffer ls)"
  by (simp add: lex_buff_ok_def resetbuffer_def mbuffer_ok_def luaZ_resetbuffer_def)

context byte_source begin

lemma lex_st_current: "lex_st rd content (b # s) w f ls \<Longrightarrow> current ls = uint b"
  by (simp add: lex_st_def lex_at_def)

lemma next_st:
  assumes "lex_st rd content (b # s) w f ls"
  obtains ls' where "nextc le ls = Inr ls'" "lex_st rd content s w f ls'"
proof -
  from assms have "lex_at rd content (b # s) ls" by (simp add: lex_st_def)
  then obtain c z where "nextc le ls = Inr (ls\<lparr>lz := z, current := c\<rparr>)"
    "lex_at rd content s (ls\<lparr>lz := z, current := c\<rparr>)" by (rule next_at)
  with assms show ?thesis
    by (intro that [of "ls\<lparr>lz := z, current := c\<rparr>"]) (auto simp: lex_st_def)
qed

lemma save_st:
  assumes "lex_st rd content s w f ls" and "length w < MAX_TOKEN"
  obtains ls' where "save ls c = Inr ls'" "lex_st rd content s (w @ [word_of_int c]) f ls'"
proof -
  from assms have "lex_buff_ok ls" "length (lex_text ls) < MAX_TOKEN" by (simp_all add: lex_st_def)
  then obtain b where "save ls c = Inr (ls\<lparr>lbuff := b\<rparr>)" "lex_buff_ok (ls\<lparr>lbuff := b\<rparr>)"
    "lex_text (ls\<lparr>lbuff := b\<rparr>) = lex_text ls @ [word_of_int c]" by (rule save_ok)
  with assms show ?thesis by (intro that) (auto simp: lex_st_def elim: lex_at_cong)
qed

lemma save_and_next_st:
  assumes "lex_st rd content (b # s) w f ls" and "length w < MAX_TOKEN"
  obtains ls' where "save_and_next le ls = Inr ls'" "lex_st rd content s (w @ [b]) f ls'"
proof -
  obtain ls1 where 1: "save ls (uint b) = Inr ls1" "lex_st rd content (b # s) (w @ [b]) f ls1"
    using save_st [OF assms, of "uint b"] by auto
  from next_st [OF 1(2), of le] obtain ls2 where "nextc le ls1 = Inr ls2" "lex_st rd content s (w @ [b]) f ls2" .
  with 1 show ?thesis by (intro that) (simp_all add: save_and_next_def lex_st_current [OF assms(1)])
qed

lemma save_while_st:
  "lex_st rd content (v @ s) w f ls \<Longrightarrow> list_all (\<lambda>b. p (uint b)) v \<Longrightarrow>
   \<not> p EOZ \<Longrightarrow> (s \<noteq> [] \<Longrightarrow> \<not> p (uint (hd s))) \<Longrightarrow> length v \<le> fuel \<Longrightarrow>
   length w + length v \<le> MAX_TOKEN \<Longrightarrow>
   \<exists>ls'. save_while fuel le p ls = Inr ls' \<and> lex_st rd content s (w @ v) f ls'"
proof (induction v arbitrary: fuel w ls)
  case Nil
  then have "\<not> p (current ls)"
    by (cases s) (auto simp: lex_st_def lex_at_def)
  with Nil show ?case by (subst save_while.simps) simp
next
  case (Cons b v)
  then obtain k where k: "fuel = Suc k" by (cases fuel) simp_all
  have st: "lex_st rd content (b # v @ s) w f ls" using Cons.prems(1) by simp
  obtain ls1 where ls1: "save_and_next le ls = Inr ls1" "lex_st rd content (v @ s) (w @ [b]) f ls1"
    using save_and_next_st [OF st, of le] Cons.prems(6) by auto
  have "\<exists>ls'. save_while k le p ls1 = Inr ls' \<and> lex_st rd content s ((w @ [b]) @ v) f ls'"
    using Cons.prems k by (intro Cons.IH [OF ls1(2)]) auto
  then show ?case
    using ls1(1) Cons.prems(2) k lex_st_current [OF st] by (subst save_while.simps) simp
qed

text \<open>The string of the characters \<open>w\<close>, which begin at \<open>off\<close> in the buffer.\<close>

lemma newstring_st:
  assumes "lex_st rd content s w f ls" and "off + unat l \<le> length w" and "length w \<le> MAX_TOKEN"
  obtains ls' where "luaX_newstring ls off l = Inr (take (unat l) (drop off w), ls')"
    "lex_ready rd content s ls'" "linenumber ls' = linenumber ls"
proof -
  let ?b = "lbuff ls"
  have w: "w = take (unat (mn ?b)) (mbuffer ?b)" using assms(1) by (simp add: lex_st_def lex_text_def)
  have n: "length w \<le> unat (mn ?b)" "length w \<le> length (mbuffer ?b)" using w by simp_all
  have "take (unat l) (drop off (mbuffer ?b)) = take (unat l) (drop off w)"
    using assms(2) n by (simp add: w drop_take min_def)
  moreover have "unat l \<le> length (drop off (mbuffer ?b))" using assms(2) n by simp
  moreover have "\<not> l + 1 > MAX_SIZET - sizeof_TString"
  proof -
    have l: "unat l < 2147483647" using assms(2,3) by (simp add: MAX_TOKEN_def)
    then have "unat (l + 1) = unat l + 1" by (simp add: unat_word_ariths)
    then show ?thesis using l by (simp add: word_less_nat_alt MAX_SIZET_def sizeof_TString_def)
  qed
  ultimately have "luaS_newlstr_value (drop off (mbuffer ?b)) l = Inr (take (unat l) (drop off w))"
    by (simp add: luaS_newlstr_value_def)
  moreover have "lex_ready rd content s (anchor ls v)" for v
  proof -
    have "lex_buff_ok (anchor ls v)" using assms(1) by (simp add: lex_st_def anchor_def lex_buff_ok_def)
    then show ?thesis using assms(1)
      by (auto simp: lex_ready_def lex_st_def anchor_def lex_buff_ok_reset elim: lex_at_cong)
  qed
  moreover have "linenumber (anchor ls v) = linenumber ls" for v by (simp add: anchor_def)
  ultimately show ?thesis
    by (intro that [of "anchor ls (LString (take (unat l) (drop off w)))"]) (simp_all add: luaX_newstring_def)
qed

lemma lex_name_st:
  assumes st: "lex_st rd content (b # v @ s) w f ls"
    and v: "list_all (\<lambda>b. isalnum (uint b) \<or> uint b = ch (CHR ''_'')) v"
    and s: "s \<noteq> [] \<Longrightarrow> \<not> isalnum (uint (hd s)) \<and> uint (hd s) \<noteq> ch (CHR ''_'')"
    and fuel: "length v \<le> fuel" and len: "length w + length v < MAX_TOKEN"
  obtains ls' where "lex_name fuel le si ls =
      (let t = w @ b # v in
       if ts_reserved t > 0 then Inr (ts_reserved t - 1 + FIRST_RESERVED, si, ls')
       else Inr (TK_NAME, SemString t, ls'))"
    "lex_ready rd content s ls'" "linenumber ls' = fst f"
proof -
  have "length w < MAX_TOKEN" using len by simp
  from save_and_next_st [OF st this] obtain ls1 where
    1: "save_and_next le ls = Inr ls1" "lex_st rd content (v @ s) (w @ [b]) f ls1" .
  have "\<exists>ls2. save_while fuel le (\<lambda>c. isalnum c \<or> c = ch (CHR ''_'')) ls1 = Inr ls2
      \<and> lex_st rd content s ((w @ [b]) @ v) f ls2"
    using len by (intro save_while_st [OF 1(2) v _ _ fuel]) (auto simp: s)
  then obtain ls2 where 2: "save_while fuel le (\<lambda>c. isalnum c \<or> c = ch (CHR ''_'')) ls1 = Inr ls2"
    "lex_st rd content s (w @ b # v) f ls2" by auto
  have "unat (mn (lbuff ls2)) = length (w @ b # v)"
    using lex_text_length [of ls2] 2(2) by (simp add: lex_st_def)
  then obtain ls3 where 3: "luaX_newstring ls2 0 (mn (lbuff ls2)) = Inr (w @ b # v, ls3)"
    "lex_ready rd content s ls3" "linenumber ls3 = linenumber ls2"
    using newstring_st [OF 2(2), of 0 "mn (lbuff ls2)"] len by auto
  have "linenumber ls2 = fst f" using 2(2) by (auto simp: lex_st_def lex_frame_def)
  with 1 2 3 show ?thesis by (intro that [of ls3]) (simp_all add: lex_name_def Let_def)
qed

text \<open>What a state of the scanner needs to start a token.\<close>

lemma resetbuffer_st:
  assumes "lex_ready rd content s ls"
  shows "lex_st rd content s [] (lex_frame ls) (resetbuffer ls)"
  using assms
  by (auto simp: lex_ready_def lex_st_def resetbuffer_def lex_frame_def lex_text_def luaZ_resetbuffer_def
      elim: lex_at_cong)

text \<open>The branch of \<open>llex\<close> that reads names.\<close>

lemma llex_loop_name:
  assumes "isalpha (current ls) \<or> current ls = ch (CHR ''_'')"
  shows "llex_loop (Suc fuel) le cv si ls =
    (if current ls = ch (CHR ''L'') then lex_L fuel le si ls else lex_name fuel le si ls)"
proof -
  have "\<not> currIsNewline ls" "current ls \<noteq> ch (CHR ''-'')" "current ls \<noteq> ch (CHR ''['')"
    "current ls \<noteq> ch (CHR ''='')" "current ls \<noteq> ch (CHR ''<'')" "current ls \<noteq> ch (CHR ''>'')"
    "current ls \<noteq> ch (CHR ''~'')" "current ls \<noteq> ch (CHR ''^'')" "current ls \<noteq> 34" "current ls \<noteq> 39"
    "current ls \<noteq> ch (CHR ''.'')" "current ls \<noteq> EOZ" "\<not> current ls > 255" "\<not> isspace (current ls)"
    "\<not> isdigit (current ls)"
    using assms
    by (auto simp: currIsNewline_def isalpha_def isspace_def isdigit_def ch_def of_char_def EOZ_def)
  then show ?thesis using assms by (simp add: llex_loop.simps Let_def)
qed

lemma llex_name:
  assumes at: "lex_ready rd content (b # v @ s) ls"
    and b: "isalpha (uint b) \<or> uint b = ch (CHR ''_'')" "b \<noteq> of_char (CHR ''L'')"
    and v: "list_all (\<lambda>b. isalnum (uint b) \<or> uint b = ch (CHR ''_'')) v"
    and s: "s \<noteq> [] \<Longrightarrow> \<not> isalnum (uint (hd s)) \<and> uint (hd s) \<noteq> ch (CHR ''_'')"
    and fuel: "length v < fuel" and len: "length v < MAX_TOKEN"
  shows "\<exists>ls'. llex fuel le cv si ls =
      (if ts_reserved (b # v) > 0 then Inr (ts_reserved (b # v) - 1 + FIRST_RESERVED, si, ls')
       else Inr (TK_NAME, SemString (b # v), ls'))
    \<and> lex_ready rd content s ls' \<and> linenumber ls' = linenumber ls"
proof -
  obtain k where k: "fuel = Suc k" using fuel by (cases fuel) simp_all
  note st = resetbuffer_st [OF at]
  have cur: "current (resetbuffer ls) = uint b" by (rule lex_st_current [OF st])
  have "uint b \<noteq> ch (CHR ''L'')"
  proof
    assume "uint b = ch (CHR ''L'')"
    then have "b = word_of_int (ch (CHR ''L''))" by (metis word_of_int_uint)
    with b(2) show False by (simp add: ch_def of_char_def)
  qed
  then have "llex fuel le cv si ls = lex_name k le si (resetbuffer ls)"
    using b(1) unfolding llex_def k by (subst llex_loop_name) (simp_all add: cur)
  moreover obtain ls' where "lex_name k le si (resetbuffer ls) =
      (let t = [] @ b # v in
       if ts_reserved t > 0 then Inr (ts_reserved t - 1 + FIRST_RESERVED, si, ls')
       else Inr (TK_NAME, SemString t, ls'))"
    "lex_ready rd content s ls'" "linenumber ls' = fst (lex_frame ls)"
    by (rule lex_name_st [OF st v s, where le = le and si = si and fuel = k])
      (use fuel k len in auto)
  ultimately show ?thesis by (auto simp: Let_def lex_frame_def)
qed

text \<open>A name that starts with \<open>L\<close> takes the next character whatever it is.\<close>

lemma reserved_L: "ts_reserved (76 # t) = 0"
proof -
  have "list_all (\<lambda>(k, _). hd k \<noteq> 76 \<and> k \<noteq> []) luaX_init" by code_simp
  then have "76 # t \<notin> fst ` set luaX_init" by (fastforce simp: list_all_iff)
  then show ?thesis by (simp add: ts_reserved_def flip: map_of_eq_None_iff)
qed

lemma llex_L:
  assumes at: "lex_ready rd content (76 # b # v @ s) ls"
    and b: "b \<noteq> 34" "b \<noteq> 39"
    and v: "list_all (\<lambda>b. isalnum (uint b) \<or> uint b = ch (CHR ''_'')) v"
    and s: "s \<noteq> [] \<Longrightarrow> \<not> isalnum (uint (hd s)) \<and> uint (hd s) \<noteq> ch (CHR ''_'')"
    and fuel: "length v < fuel" and len: "length v + 1 < MAX_TOKEN"
  shows "\<exists>ls'. llex fuel le cv si ls = Inr (TK_NAME, SemString (76 # b # v), ls')
    \<and> lex_ready rd content s ls' \<and> linenumber ls' = linenumber ls"
proof -
  obtain k where k: "fuel = Suc k" using fuel by (cases fuel) simp_all
  note st = resetbuffer_st [OF at]
  have cur: "current (resetbuffer ls) = 76" using lex_st_current [OF st] by simp
  have L: "ch (CHR ''L'') = 76" by (simp add: ch_def of_char_def)
  then have loop: "llex fuel le cv si ls = lex_L k le si (resetbuffer ls)"
    unfolding llex_def k by (subst llex_loop_name) (simp_all add: cur isalpha_def)
  obtain ls1 where 1: "nextc le (resetbuffer ls) = Inr ls1" "lex_st rd content (b # v @ s) [] (lex_frame ls) ls1"
    by (rule next_st [OF st])
  obtain ls2 where 2: "save ls1 76 = Inr ls2" "lex_st rd content (b # v @ s) [76] (lex_frame ls) ls2"
    using save_st [OF 1(2), of 76] len by auto
  have "uint b \<noteq> 34" "uint b \<noteq> 39"
    using b by (metis word_of_int_uint of_int_numeral)+
  then have "lex_L k le si (resetbuffer ls) = lex_name k le si ls2"
    using 1 2(1) lex_st_current [OF 1(2)] by (simp add: lex_L_def L)
  moreover obtain ls' where "lex_name k le si ls2 =
      (let t = [76] @ b # v in
       if ts_reserved t > 0 then Inr (ts_reserved t - 1 + FIRST_RESERVED, si, ls')
       else Inr (TK_NAME, SemString t, ls'))"
    "lex_ready rd content s ls'" "linenumber ls' = fst (lex_frame ls)"
    by (rule lex_name_st [OF 2(2) v s, where le = le and si = si and fuel = k])
      (use fuel k len in auto)
  ultimately show ?thesis by (auto simp: Let_def lex_frame_def loop reserved_L)
qed

text \<open>Quoted strings. \<open>l\<close> is the line number.\<close>

lemma inclinenumber_st:
  assumes st: "lex_st rd content (b # s) w (l, g) ls" and b: "b = 10 \<or> b = 13"
    and s: "s \<noteq> [] \<Longrightarrow> hd s \<noteq> 10 \<and> hd s \<noteq> 13" and l: "l + 1 < MAX_INT"
  obtains ls' where "inclinenumber le ls = Inr ls'" "lex_st rd content s w (l + 1, g) ls'"
proof -
  obtain ls1 where 1: "nextc le ls = Inr ls1" "lex_st rd content s w (l, g) ls1"
    by (rule next_st [OF st])
  have "\<not> currIsNewline ls1"
  proof (cases s)
    case Nil
    with 1(2) show ?thesis by (simp add: lex_st_def lex_at_def currIsNewline_def EOZ_def ch_def of_char_def)
  next
    case (Cons c t)
    then have "current ls1 = uint c" "c \<noteq> 10" "c \<noteq> 13" using lex_st_current 1(2) s by auto
    moreover from this have "uint c \<noteq> 10" "uint c \<noteq> 13" by (metis word_of_int_uint of_int_numeral)+
    ultimately show ?thesis by (simp add: currIsNewline_def ch_def of_char_def)
  qed
  moreover have "linenumber ls1 = l" using 1(2) by (simp add: lex_st_def lex_frame_def)
  ultimately have "inclinenumber le ls = Inr (ls1\<lparr>linenumber := linenumber ls1 + 1\<rparr>)"
    using 1(1) l by (simp add: inclinenumber_def Let_def)
  moreover have "lex_st rd content s w (l + 1, g) (ls1\<lparr>linenumber := linenumber ls1 + 1\<rparr>)"
    using 1(2) by (auto simp: lex_st_def lex_frame_def lex_buff_ok_def lex_text_def elim: lex_at_cong)
  ultimately show ?thesis by (rule that)
qed

text \<open>One character of the quoted text, in one round of the loop.\<close>

lemma string_loop_quote:
  assumes st: "lex_st rd content (quote c @ s) w (l, g) ls"
    and s: "s \<noteq> [] \<Longrightarrow> hd s \<noteq> 10 \<and> hd s \<noteq> 13"
    and len: "length w < MAX_TOKEN" and l: "l + 1 < MAX_INT"
  obtains ls' where "string_loop (Suc n) le save 1 34 ls = string_loop n le save 1 34 ls'"
    "lex_st rd content s (w @ [c]) (if c = 10 then l + 1 else l, g) ls'"
proof (cases "c = 34 \<or> c = 92 \<or> c = 10 \<or> c = 13 \<or> c = 0")
  case False
  then have q: "quote c = [c]" by (auto simp: quote_def)
  have st': "lex_st rd content (c # s) w (l, g) ls" using st by (simp add: q)
  obtain ls1 where 1: "save_and_next le ls = Inr ls1" "lex_st rd content s (w @ [c]) (l, g) ls1"
    by (rule save_and_next_st [OF st' len])
  have "uint c \<noteq> 34" "uint c \<noteq> 92" "uint c \<noteq> 10" "uint c \<noteq> 13"
    using False by (metis word_of_int_uint of_int_numeral)+
  then have "string_loop (Suc n) le save 1 34 ls = bnd (save_and_next le ls) (string_loop n le save 1 34)"
    by (subst string_loop.simps)
      (simp add: lex_st_current [OF st'] currIsNewline_def ch_def of_char_def save_and_next_def bnd_assoc)
  with 1 False that show ?thesis by simp
next
  case True
  then obtain e t where q: "quote c = 92 # e # t" by (auto simp: quote_def)
  have st': "lex_st rd content (92 # e # t @ s) w (l, g) ls" using st by (simp add: q)
  obtain ls1 where 1: "nextc le ls = Inr ls1" "lex_st rd content (e # t @ s) w (l, g) ls1"
    by (rule next_st [OF st'])
  have loop: "string_loop (Suc n) le save 1 34 ls
      = bnd (read_escape le save 1 ls1) (string_loop n le save 1 34)"
    using lex_st_current [OF st'] 1(1)
    by (subst string_loop.simps) (simp add: currIsNewline_def ch_def of_char_def EOZ_def)
  have cur: "current ls1 = uint e" by (rule lex_st_current [OF 1(2)])
  have "\<exists>ls'. read_escape le save 1 ls1 = Inr ls'
      \<and> lex_st rd content s (w @ [c]) (if c = 10 then l + 1 else l, g) ls'"
    using True
  proof (elim disjE)
    assume c: "c = 34"
    with q have e: "e = 34" "t = []" by (simp_all add: quote_def)
    have st1: "lex_st rd content (e # s) w (l, g) ls1" using 1(2) e by simp
    obtain ls2 where "save_and_next le ls1 = Inr ls2" "lex_st rd content s (w @ [e]) (l, g) ls2"
      by (rule save_and_next_st [OF st1 len])
    then show ?thesis using c e cur
      by (simp add: read_escape_def escape_code_def currIsNewline_def ch_def of_char_def EOZ_def
          isdigit_def save_and_next_def)
  next
    assume c: "c = 92"
    with q have e: "e = 92" "t = []" by (simp_all add: quote_def)
    have st1: "lex_st rd content (e # s) w (l, g) ls1" using 1(2) e by simp
    obtain ls2 where "save_and_next le ls1 = Inr ls2" "lex_st rd content s (w @ [e]) (l, g) ls2"
      by (rule save_and_next_st [OF st1 len])
    then show ?thesis using c e cur
      by (simp add: read_escape_def escape_code_def currIsNewline_def ch_def of_char_def EOZ_def
          isdigit_def save_and_next_def)
  next
    assume c: "c = 10"
    with q have e: "e = 10" "t = []" by (simp_all add: quote_def)
    obtain ls2 where 2: "save ls1 10 = Inr ls2" "lex_st rd content (e # t @ s) (w @ [10]) (l, g) ls2"
      using save_st [OF 1(2) len, of 10] by auto
    have "lex_st rd content (e # s) (w @ [10]) (l, g) ls2" using 2(2) e by simp
    then obtain ls3 where "inclinenumber le ls2 = Inr ls3" "lex_st rd content s (w @ [10]) (l + 1, g) ls3"
      by (rule inclinenumber_st) (use e s l in auto)
    then show ?thesis using c e cur 2(1)
      by (simp add: read_escape_def escape_code_def currIsNewline_def ch_def of_char_def EOZ_def isdigit_def)
  next
    assume c: "c = 13"
    with q have e: "e = 114" "t = []" by (simp_all add: quote_def)
    obtain ls2 where 2: "save ls1 13 = Inr ls2" "lex_st rd content (e # s) (w @ [13]) (l, g) ls2"
      using save_st [OF 1(2) len, of 13] e by auto
    obtain ls3 where "nextc le ls2 = Inr ls3" "lex_st rd content s (w @ [13]) (l, g) ls3"
      by (rule next_st [OF 2(2)])
    then show ?thesis using c e cur 2(1)
      by (simp add: read_escape_def escape_code_def ch_def of_char_def)
  next
    assume c: "c = 0"
    with q have e: "e = 48" "t = [48, 48]" by (simp_all add: quote_def)
    with 1(2) have st1: "lex_st rd content (48 # 48 # 48 # s) w (l, g) ls1" by simp
    obtain ls2 where 2: "nextc le ls1 = Inr ls2" "lex_st rd content (48 # 48 # s) w (l, g) ls2"
      by (rule next_st [OF st1])
    obtain ls3 where 3: "nextc le ls2 = Inr ls3" "lex_st rd content (48 # s) w (l, g) ls3"
      by (rule next_st [OF 2(2)])
    obtain ls4 where 4: "nextc le ls3 = Inr ls4" "lex_st rd content s w (l, g) ls4"
      by (rule next_st [OF 3(2)])
    note curs = lex_st_current [OF st1] lex_st_current [OF 2(2)] lex_st_current [OF 3(2)]
    have "dec_loop 2 le 0 ls1 = Inr (0, ls4)"
      using 2(1) 3(1) 4(1) curs
      by (simp add: dec_loop.simps [of 2] dec_loop.simps [of 1] dec_loop.simps [of "Suc 0"] dec_loop.simps [of 0] isdigit_def)
    moreover obtain ls5 where "save ls4 0 = Inr ls5" "lex_st rd content s (w @ [0]) (l, g) ls5"
      using save_st [OF 4(2) len, of 0] by auto
    ultimately show ?thesis using c e cur
      by (simp add: read_escape_def escape_code_def currIsNewline_def ch_def of_char_def EOZ_def
          isdigit_def UCHAR_MAX_def)
  qed
  with loop show ?thesis by (auto intro: that)
qed

lemma quote_head: "hd (concat (map quote cs) @ 34 # s) \<noteq> 10 \<and> hd (concat (map quote cs) @ 34 # s) \<noteq> 13"
  by (cases cs) (auto simp: quote_def)

lemma string_loop_quoted:
  "lex_st rd content (concat (map quote cs) @ 34 # s) w (l, g) ls \<Longrightarrow> length cs \<le> n \<Longrightarrow>
   length w + length cs \<le> MAX_TOKEN \<Longrightarrow> l + int (count_list cs 10) + 1 < MAX_INT \<Longrightarrow>
   \<exists>ls'. string_loop n le save 1 34 ls = Inr ls'
     \<and> lex_st rd content (34 # s) (w @ cs) (l + int (count_list cs 10), g) ls'"
proof (induction cs arbitrary: n w l ls)
  case Nil
  then have "current ls = 34" using lex_st_current [of 34 s] by simp
  with Nil show ?case by (subst string_loop.simps) simp
next
  case (Cons c cs)
  then obtain k where k: "n = Suc k" by (cases n) simp_all
  have st: "lex_st rd content (quote c @ concat (map quote cs) @ 34 # s) w (l, g) ls"
    using Cons.prems(1) by simp
  obtain ls1 where ls1: "string_loop n le save 1 34 ls = string_loop k le save 1 34 ls1"
    "lex_st rd content (concat (map quote cs) @ 34 # s) (w @ [c]) (if c = 10 then l + 1 else l, g) ls1"
    unfolding k by (rule string_loop_quote [OF st]) (use Cons.prems quote_head in \<open>auto split: if_split_asm\<close>)
  have "\<exists>ls'. string_loop k le save 1 34 ls1 = Inr ls' \<and> lex_st rd content (34 # s) ((w @ [c]) @ cs)
      ((if c = 10 then l + 1 else l) + int (count_list cs 10), g) ls'"
    using Cons.prems k by (intro Cons.IH [OF ls1(2)]) auto
  with ls1(1) show ?case by (auto simp: add.assoc add.commute add.left_commute split: if_split_asm)
qed

lemma read_string_quoted:
  assumes st: "lex_st rd content (quoted cs @ s) [] (l, g) ls" and n: "length cs \<le> n"
    and len: "length cs + 2 \<le> MAX_TOKEN" and l: "l + int (count_list cs 10) + 1 < MAX_INT"
  obtains ls' where "read_string n le 34 ls = Inr (cs, ls')" "lex_ready rd content s ls'"
    "linenumber ls' = l + int (count_list cs 10)"
proof -
  have st': "lex_st rd content (34 # concat (map quote cs) @ 34 # s) [] (l, g) ls"
    using st by (simp add: quoted_def)
  obtain ls1 where 1: "save_and_next le ls = Inr ls1"
    "lex_st rd content (concat (map quote cs) @ 34 # s) [34] (l, g) ls1"
    by (rule save_and_next_st [OF st', where le = le]) (simp_all add: MAX_TOKEN_def)
  obtain ls2 where 2: "string_loop n le save 1 34 ls1 = Inr ls2"
    "lex_st rd content (34 # s) (34 # cs) (l + int (count_list cs 10), g) ls2"
    using string_loop_quoted [OF 1(2) n, of le] len l by auto
  obtain ls3 where 3: "save_and_next le ls2 = Inr ls3"
    "lex_st rd content s ((34 # cs) @ [34]) (l + int (count_list cs 10), g) ls3"
    by (rule save_and_next_st [OF 2(2), where le = le]) (use len in auto)
  have mn: "unat (mn (lbuff ls3)) = length cs + 2"
    using lex_text_length [of ls3] 3(2) by (simp add: lex_st_def)
  then have sub: "unat (mn (lbuff ls3) - 2) = length cs"
    by (subst unat_sub) (simp_all add: word_le_nat_alt)
  obtain ls4 where "luaX_newstring ls3 1 (mn (lbuff ls3) - 2) = Inr (cs, ls4)"
    "lex_ready rd content s ls4" "linenumber ls4 = linenumber ls3"
    using newstring_st [OF 3(2), of 1 "mn (lbuff ls3) - 2"] len sub by auto
  with 1 2 3 show ?thesis
    by (intro that [of ls4]) (auto simp: read_string_def lex_st_def lex_frame_def)
qed

lemma llex_quoted:
  assumes at: "lex_ready rd content (quoted cs @ s) ls" and n: "length cs < fuel"
    and len: "length cs + 2 \<le> MAX_TOKEN" and l: "linenumber ls + int (count_list cs 10) + 1 < MAX_INT"
  shows "\<exists>ls'. llex fuel le cv si ls = Inr (TK_STRING, SemString cs, ls') \<and> lex_ready rd content s ls'
    \<and> linenumber ls' = linenumber ls + int (count_list cs 10)"
proof -
  obtain k where k: "fuel = Suc k" using n by (cases fuel) simp_all
  note st = resetbuffer_st [OF at]
  obtain g where g: "lex_frame ls = (linenumber ls, g)" by (simp add: lex_frame_def)
  have cur: "current (resetbuffer ls) = 34" using st by (simp add: lex_st_def lex_at_def quoted_def)
  have "llex fuel le cv si ls
      = bnd (read_string k le 34 (resetbuffer ls)) (\<lambda>(ts, ls). Inr (TK_STRING, SemString ts, ls))"
    by (simp add: llex_def k llex_loop.simps cur currIsNewline_def ch_def of_char_def)
  moreover obtain ls' where "read_string k le 34 (resetbuffer ls) = Inr (cs, ls')" "lex_ready rd content s ls'"
    "linenumber ls' = linenumber ls + int (count_list cs 10)"
    by (rule read_string_quoted [OF st [unfolded g] _ len, where le = le and n = k]) (use n k l in auto)
  ultimately show ?thesis by simp
qed

text \<open>\<open>luaX_setinput\<close> reads the first character.\<close>

lemma nextc_first:
  assumes "zio_ok rd (lz ls)" "\<not> isWide (lz ls)"
  obtains c z where "nextc le ls = Inr (ls\<lparr>lz := z, current := c\<rparr>)"
    "lex_at rd content (zrest content (lz ls)) (ls\<lparr>lz := z, current := c\<rparr>)"
proof -
  have "lex_at rd content (0 # zrest content (lz ls)) (ls\<lparr>current := 0\<rparr>)"
    using assms by (simp add: lex_at_def)
  then obtain c z where n: "nextc le (ls\<lparr>current := 0\<rparr>) = Inr ((ls\<lparr>current := 0\<rparr>)\<lparr>lz := z, current := c\<rparr>)"
    "lex_at rd content (zrest content (lz ls)) ((ls\<lparr>current := 0\<rparr>)\<lparr>lz := z, current := c\<rparr>)" by (rule next_at)
  have "nextc le (ls\<lparr>current := 0\<rparr>) = nextc le ls"
    by (auto simp: nextc_def Let_def intro!: bnd_cong split: prod.splits)
  with n show ?thesis by (intro that [of c z]) simp_all
qed

end

lemma setinput_ready:
  assumes "length bs < 2 ^ 32"
  obtains ls' where "luaX_setinput le ls (luaZ_init getS (of_buffer bs)) src = Inr ls'"
    "lex_ready getS LoadS_content bs ls'" "linenumber ls' = 1" "token (ahead ls') = TK_EOS"
proof -
  let ?b = "(lbuff ls)\<lparr>mbuffer := realloc_bytes (\<lambda>_. 0) (mbuffer (lbuff ls)) (unat LUA_MINBUFFER), buffsize := LUA_MINBUFFER\<rparr>"
  let ?ls = "ls\<lparr>decpoint := of_char (CHR ''.''), ahead := (ahead ls)\<lparr>token := TK_EOS\<rparr>,
      lz := luaZ_init getS (of_buffer bs), linenumber := 1, lastline := 1, lsource := src, lbuff := ?b\<rparr>"
  have "LUA_MINBUFFER + 1 \<le> MAX_SIZET div 1" by code_simp
  then have r: "luaZ_resizebuffer (\<lambda>_. 0) (lbuff ls) LUA_MINBUFFER = Inr ?b"
    by (simp add: luaZ_resizebuffer_def luaM_reallocv_def)
  have z: "zio_ok getS (lz ?ls)" "\<not> isWide (lz ?ls)" "zrest LoadS_content (lz ?ls) = bs"
    using zio_ok_init [of getS] zrest_init [of LoadS_content] LoadS_content_of_buffer [OF assms]
    by (simp_all add: luaZ_init_def)
  obtain c z where n: "nextc le ?ls = Inr (?ls\<lparr>lz := z, current := c\<rparr>)"
    "lex_at getS LoadS_content bs (?ls\<lparr>lz := z, current := c\<rparr>)"
    using string_reader.nextc_first [OF z(1,2), of le] unfolding z(3) by blast
  have "lex_buff_ok (resetbuffer (?ls\<lparr>lz := z, current := c\<rparr>))"
    by (simp add: lex_buff_ok_def resetbuffer_def luaZ_resetbuffer_def mbuffer_ok_def LUA_MINBUFFER_def)
  with n show ?thesis
    by (intro that [of "?ls\<lparr>lz := z, current := c\<rparr>"]) (simp_all add: luaX_setinput_def Let_def r lex_ready_def)
qed

section \<open>Progress\<close>

text \<open>
  The scanner reads past its stream in three places only: it takes the character after the \<open>x\<close> of a
  hexadecimal numeral or escape, and after an \<open>L\<close>, without looking at it. A text that does not end in
  one of these letters, and is too short for the sizes of the token buffer to wrap, is \<open>scannable\<close>: on
  it every error is one that the scanner reports.
\<close>

definition scannable :: "byte list \<Rightarrow> bool" where
  "scannable s0 \<longleftrightarrow> length s0 < 2 ^ 28 \<and> (s0 = [] \<or> last s0 \<notin> {120, 76})"

definition lexes :: "('a \<Rightarrow> bool) \<Rightarrow> 'a result \<Rightarrow> bool" where
  "lexes P m \<longleftrightarrow> (case m of Inl e \<Rightarrow> \<exists>msg t. e = ErrSyntax msg t | Inr x \<Rightarrow> P x)"

lemma lexes_simps [simp]:
  "lexes P (Inr x) \<longleftrightarrow> P x" "lexes P (Inl e) \<longleftrightarrow> (\<exists>msg t. e = ErrSyntax msg t)"
  by (simp_all add: lexes_def)

lemma lexes_bnd: "lexes P m \<Longrightarrow> (\<And>x. P x \<Longrightarrow> lexes Q (f x)) \<Longrightarrow> lexes Q (bnd m f)"
  by (cases m) simp_all

lemma lexes_mono: "lexes P m \<Longrightarrow> (\<And>x. P x \<Longrightarrow> Q x) \<Longrightarrow> lexes Q m"
  by (cases m) simp_all

lemma lexes_if: "(b \<Longrightarrow> lexes P x) \<Longrightarrow> (\<not> b \<Longrightarrow> lexes P y) \<Longrightarrow> lexes P (if b then x else y)"
  by simp

text \<open>
  Inside the text \<open>s0\<close>, with at most \<open>n\<close> characters left: the token buffer holds at least \<open>w\<close>
  characters, and has room for the rest, each counted as two bytes, and \<open>d\<close> more.
\<close>

definition lex_in ::
  "('d \<Rightarrow> byte list option \<times> 'd) \<Rightarrow> ('d \<Rightarrow> byte list) \<Rightarrow> byte list \<Rightarrow> nat \<Rightarrow> nat \<Rightarrow> nat \<Rightarrow> 'd LexState \<Rightarrow> bool" where
  "lex_in rd content s0 w d n ls \<longleftrightarrow> scannable s0 \<and> lex_buff_ok ls \<and> w \<le> unat (mn (lbuff ls))
     \<and> (\<exists>s p. lex_at rd content s ls \<and> length s \<le> n \<and> s0 = p @ s
          \<and> unat (mn (lbuff ls)) + 2 * length s + d \<le> 2 * length s0 + 8)"

lemma lex_in_mono:
  assumes "lex_in rd content s0 w d n ls" and "w' \<le> w" "d' \<le> d" "n \<le> n'"
  shows "lex_in rd content s0 w' d' n' ls"
proof -
  from assms(1) obtain s p where s: "lex_at rd content s ls" "length s \<le> n" "s0 = p @ s"
    "unat (mn (lbuff ls)) + 2 * length s + d \<le> 2 * length s0 + 8" by (auto simp: lex_in_def)
  moreover have "length s \<le> n'" "unat (mn (lbuff ls)) + 2 * length s + d' \<le> 2 * length s0 + 8"
    using s(2,4) assms(3,4) by linarith+
  moreover have "scannable s0" "lex_buff_ok ls" "w' \<le> unat (mn (lbuff ls))"
    using assms(1,2) by (auto simp: lex_in_def)
  ultimately show ?thesis unfolding lex_in_def by blast
qed

lemma lex_in_pos: "lex_in rd content s0 w d n ls \<Longrightarrow> current ls \<noteq> EOZ \<Longrightarrow> 0 < n"
  unfolding lex_in_def by (metis lex_at_EOZ length_greater_0_conv order_less_le_trans)

lemma lex_in_cong:
  assumes "lex_in rd content s0 w d n ls" "current ls' = current ls" "lz ls' = lz ls" "lbuff ls' = lbuff ls"
  shows "lex_in rd content s0 w d n ls'"
proof -
  have "lex_at rd content s ls' \<longleftrightarrow> lex_at rd content s ls" for s
    using assms(2,3) by (cases s) (simp_all add: lex_at_def)
  then show ?thesis using assms by (simp add: lex_in_def lex_buff_ok_def)
qed

text \<open>How much the buffer holds.\<close>

lemma lex_in_small: "lex_in rd content s0 w d n ls \<Longrightarrow> unat (mn (lbuff ls)) + d < 536870920"
  by (auto simp: lex_in_def scannable_def)

lemma lex_in_buffer:
  assumes "lex_in rd content s0 w d n ls"
  shows "unat (mn (lbuff ls)) \<le> length (mbuffer (lbuff ls))" "w \<le> unat (mn (lbuff ls))"
  using assms by (auto simp: lex_in_def lex_buff_ok_def mbuffer_ok_def word_le_nat_alt)

text \<open>A change of the buffer.\<close>

lemma lex_in_buff:
  assumes "lex_in rd content s0 w d n ls" and "lex_buff_ok (ls\<lparr>lbuff := b\<rparr>)" and "w' \<le> unat (mn b)"
    and "unat (mn b) + d' \<le> unat (mn (lbuff ls)) + d"
  shows "lex_in rd content s0 w' d' n (ls\<lparr>lbuff := b\<rparr>)"
proof -
  from assms(1) obtain s p where s: "lex_at rd content s ls" "length s \<le> n" "s0 = p @ s"
    "unat (mn (lbuff ls)) + 2 * length s + d \<le> 2 * length s0 + 8" by (auto simp: lex_in_def)
  have "lex_at rd content s (ls\<lparr>lbuff := b\<rparr>)" by (rule lex_at_cong [OF s(1)]) simp_all
  moreover have "unat (mn b) + 2 * length s + d' \<le> 2 * length s0 + 8" using s(4) assms(4) by linarith
  moreover have "scannable s0" using assms(1) by (simp add: lex_in_def)
  ultimately show ?thesis using assms(2,3) s(2,3) by (auto simp: lex_in_def)
qed

lemma lex_in_resetbuffer:
  assumes "lex_in rd content s0 w d n ls"
  shows "lex_in rd content s0 0 d n (resetbuffer ls)"
  using assms unfolding resetbuffer_def
  by (intro lex_in_buff [OF assms]) (auto simp: lex_in_def lex_buff_ok_def mbuffer_ok_def luaZ_resetbuffer_def)

lemma lex_in_buffreplace:
  assumes "lex_in rd content s0 w d n ls"
  shows "lex_in rd content s0 w d n (buffreplace ls a b)"
  using assms lex_in_buffer(1) [OF assms] unfolding buffreplace_def Let_def
  by (intro lex_in_buff [OF assms]) (auto simp: lex_in_def lex_buff_ok_def mbuffer_ok_def)

lemma save_in:
  assumes "lex_in rd content s0 w d n ls" and "1 \<le> d"
  shows "lexes (\<lambda>ls'. lex_in rd content s0 (Suc w) (d - 1) n ls' \<and> current ls' = current ls) (save ls c)"
proof -
  have ok: "lex_buff_ok ls" using assms(1) by (simp add: lex_in_def)
  have "length (lex_text ls) < MAX_TOKEN"
    using lex_in_small [OF assms(1)] lex_text_length [OF ok] by (simp add: MAX_TOKEN_def)
  then obtain b where b: "save ls c = Inr (ls\<lparr>lbuff := b\<rparr>)" "lex_buff_ok (ls\<lparr>lbuff := b\<rparr>)"
    "lex_text (ls\<lparr>lbuff := b\<rparr>) = lex_text ls @ [word_of_int c]" by (rule save_ok [OF ok])
  have "unat (mn b) = unat (mn (lbuff ls)) + 1"
    using lex_text_length [OF b(2)] lex_text_length [OF ok] b(3) by simp
  then have "lex_in rd content s0 (Suc w) (d - 1) n (ls\<lparr>lbuff := b\<rparr>)"
    using lex_in_buffer(2) [OF assms(1)] assms(2) by (intro lex_in_buff [OF assms(1) b(2)]) simp_all
  with b(1) show ?thesis by simp
qed

lemma wsave_in:
  assumes "lex_in rd content s0 w d n ls" and "2 \<le> d"
  shows "lexes (\<lambda>ls'. lex_in rd content s0 (w + 2) (d - 2) n ls' \<and> current ls' = current ls) (wsave le ls c)"
proof -
  let ?b = "lbuff ls"
  have ok: "length (mbuffer ?b) = unat (buffsize ?b)" "unat (mn ?b) \<le> unat (buffsize ?b)" "1 \<le> unat (buffsize ?b)"
    using assms(1) by (simp_all add: lex_in_def lex_buff_ok_def mbuffer_ok_def word_le_nat_alt)
  have n: "unat (mn ?b) < 536870920" using lex_in_small [OF assms(1)] by simp
  have n2: "unat (mn ?b + 2) = unat (mn ?b) + 2" using n by (simp add: unat_word_ariths)
  obtain b1 where b1: "(if mn ?b + 2 > buffsize ?b
              then if buffsize ?b \<ge> MAX_SIZET div 2 then too_long ls
                   else luaZ_resizebuffer (\<lambda>_. 0) ?b (buffsize ?b * 4)
              else Inr ?b) = Inr b1" "length (mbuffer b1) = unat (buffsize b1)"
     "unat (mn ?b) + 2 \<le> unat (buffsize b1)" "mn b1 = mn ?b"
  proof (cases "mn ?b + 2 > buffsize ?b")
    case False
    with ok n2 show ?thesis by (intro that [of ?b]) (simp_all add: word_le_nat_alt word_less_nat_alt)
  next
    case True
    then have lt: "unat (buffsize ?b) < unat (mn ?b) + 2" using n2 by (simp add: word_less_nat_alt)
    have "unat (MAX_SIZET div 2) = 2147483646" by (simp add: MAX_SIZET_def unat_div)
    then have small: "\<not> buffsize ?b \<ge> MAX_SIZET div 2" using n lt by (simp add: word_le_nat_alt)
    have q: "unat (buffsize ?b * 4) = unat (buffsize ?b) * 4" using n lt by (simp add: unat_word_ariths)
    have "unat (buffsize ?b * 4 + 1) = unat (buffsize ?b) * 4 + 1" using n lt q by (simp add: unat_word_ariths)
    then have "luaM_reallocv (buffsize ?b * 4) 1 = Inr ()"
      using n lt by (simp add: luaM_reallocv_def word_le_nat_alt MAX_SIZET_def)
    with True small ok q show ?thesis
      by (intro that [of "?b\<lparr>mbuffer := realloc_bytes (\<lambda>_. 0) (mbuffer ?b) (unat (buffsize ?b * 4)), buffsize := buffsize ?b * 4\<rparr>"])
        (simp_all add: luaZ_resizebuffer_def)
  qed
  let ?bs = "mem le 2 (word_of_int c :: wchar)"
  let ?b2 = "b1\<lparr>mbuffer := take (unat (mn b1)) (mbuffer b1) @ ?bs @ drop (unat (mn b1) + 2) (mbuffer b1), mn := mn b1 + 2\<rparr>"
  have "buffer_put b1 ?bs = Inr ?b2" using b1(2-4) by (simp add: buffer_put_def Let_def)
  then have sv: "wsave le ls c = Inr (ls\<lparr>lbuff := ?b2\<rparr>)" using b1(1) by (simp add: wsave_def Let_def)
  have "lex_in rd content s0 (w + 2) (d - 2) n (ls\<lparr>lbuff := ?b2\<rparr>)"
    using b1(2-4) n2 lex_in_buffer(2) [OF assms(1)] assms(2)
    by (intro lex_in_buff [OF assms(1)])
      (simp_all add: lex_buff_ok_def mbuffer_ok_def word_le_nat_alt min_def)
  with sv show ?thesis by simp
qed

lemma lexerror_in:
  assumes "lex_in rd content s0 w d n ls" and "1 \<le> d"
  shows "lexes P (luaX_lexerror ls msg tk)"
proof -
  have "lexes (\<lambda>_. True) (txtToken ls tk)"
    unfolding txtToken_def by (auto intro!: lexes_bnd [OF save_in [OF assms]])
  then show ?thesis
    unfolding luaX_lexerror_def by (auto intro!: lexes_bnd [where P = "\<lambda>_. True"])
qed

lemma newstring_in:
  assumes "lex_in rd content s0 w d n ls" and "off + unat l \<le> unat (mn (lbuff ls))"
  shows "lexes (\<lambda>(_, ls'). lex_in rd content s0 w d n ls') (luaX_newstring ls off l)"
proof -
  have l: "unat l < 536870920" using lex_in_small [OF assms(1)] assms(2) by simp
  have "\<not> l + 1 > MAX_SIZET - sizeof_TString"
    using l by (simp add: word_less_nat_alt MAX_SIZET_def sizeof_TString_def unat_word_ariths)
  then have "luaS_newlstr_value (drop off (mbuffer (lbuff ls))) l = Inr (take (unat l) (drop off (mbuffer (lbuff ls))))"
    using assms(2) lex_in_buffer(1) [OF assms(1)] by (simp add: luaS_newlstr_value_def)
  then show ?thesis
    using lex_in_cong [OF assms(1)] by (simp add: luaX_newstring_def anchor_def)
qed

lemma length_words_of: "length (words_of le bs) = length bs div 2"
  by (induction le bs rule: words_of.induct) simp_all

lemma newwstring_in:
  assumes "lex_in rd content s0 w d n ls" and "off + 2 * unat l \<le> unat (mn (lbuff ls))"
  shows "lexes (\<lambda>(_, ls'). lex_in rd content s0 w d n ls') (luaX_newwstring le ls off l)"
proof -
  have l: "unat l < 268435460" using lex_in_small [OF assms(1)] assms(2) by simp
  have "unat l \<le> length (words_of le (drop off (mbuffer (lbuff ls))))"
    using assms(2) lex_in_buffer(1) [OF assms(1)] by (simp add: length_words_of)
  moreover have "\<not> l + 1 > (MAX_SIZET - sizeof_TString) div 2"
    using l by (simp add: word_less_nat_alt MAX_SIZET_def sizeof_TString_def unat_word_ariths unat_div)
  ultimately show ?thesis
    using lex_in_cong [OF assms(1)] by (simp add: luaX_newwstring_def luaS_newlwstr_value_def anchor_def)
qed

context byte_source begin

lemma next_in':
  assumes "lex_in rd content s0 w d n ls" and "current ls \<noteq> EOZ"
  shows "lexes (\<lambda>ls'. lex_in rd content s0 w (d + 2) (n - 1) ls'
    \<and> (current ls \<in> {120, 76} \<longrightarrow> current ls' \<noteq> EOZ)) (nextc le ls)"
proof -
  from assms(1) obtain s p where s: "lex_at rd content s ls" "length s \<le> n" "s0 = p @ s"
    "unat (mn (lbuff ls)) + 2 * length s + d \<le> 2 * length s0 + 8" by (auto simp: lex_in_def)
  have good: "scannable s0" "lex_buff_ok ls" "w \<le> unat (mn (lbuff ls))" using assms(1) by (auto simp: lex_in_def)
  from assms(2) s(1) obtain b s' where bs: "s = b # s'" by (cases s) (auto simp: lex_at_EOZ)
  with s(1) obtain c z where n: "nextc le ls = Inr (ls\<lparr>lz := z, current := c\<rparr>)"
    "lex_at rd content s' (ls\<lparr>lz := z, current := c\<rparr>)" using next_at [of b s' ls le] by blast
  let ?ls = "ls\<lparr>lz := z, current := c\<rparr>"
  have "lex_in rd content s0 w (d + 2) (n - 1) ?ls"
    unfolding lex_in_def
    using good s(2-4) n(2) by (intro conjI exI [of _ s'] exI [of _ "p @ [b]"]) (auto simp: bs)
  moreover have "current ?ls \<noteq> EOZ" if "current ls \<in> {120, 76}"
  proof -
    have "uint b \<in> {120, 76}" using that lex_at_Cons_current s(1) unfolding bs by metis
    then have "b \<in> {120, 76}" by (auto simp: word_uint_eq_iff)
    then have "s' \<noteq> []" using good(1) s(3) by (auto simp: scannable_def bs)
    then show ?thesis using lex_at_EOZ [OF n(2)] by simp
  qed
  ultimately show ?thesis using n(1) by simp
qed

end


context byte_source begin

lemma next_in:
  assumes "lex_in rd content s0 w d n ls" and "current ls \<noteq> EOZ"
  shows "lexes (lex_in rd content s0 w (d + 2) (n - 1)) (nextc le ls)"
  by (rule lexes_mono [OF next_in' [OF assms]]) simp

lemma next_std:
  assumes "lex_in rd content s0 w d n ls" and "current ls \<noteq> EOZ"
  shows "lexes (lex_in rd content s0 w d (n - 1)) (nextc le ls)"
  by (rule lexes_mono [OF next_in [OF assms]]) (erule lex_in_mono, simp_all)

lemma next_letter:
  assumes "lex_in rd content s0 w d n ls" and "current ls \<in> {120, 76}"
  shows "lexes (\<lambda>ls'. lex_in rd content s0 w d (n - 1) ls' \<and> current ls' \<noteq> EOZ) (nextc le ls)"
proof -
  have "current ls \<noteq> EOZ" using assms(2) by (auto simp: EOZ_def)
  with assms show ?thesis
    by (intro lexes_mono [OF next_in' [OF assms(1)]]) (auto elim: lex_in_mono)
qed

lemma save_and_next_in:
  assumes "lex_in rd content s0 w d n ls" and "1 \<le> d" and "current ls \<noteq> EOZ"
  shows "lexes (lex_in rd content s0 (Suc w) d (n - 1)) (save_and_next le ls)"
  unfolding save_and_next_def
  by (rule lexes_bnd [OF save_in [OF assms(1,2)]], rule lexes_mono [OF next_in])
    (use assms(2,3) in \<open>auto elim: lex_in_mono\<close>)

lemma wsave_and_next_in:
  assumes "lex_in rd content s0 w d n ls" and "2 \<le> d" and "current ls \<noteq> EOZ"
  shows "lexes (lex_in rd content s0 (w + 2) d (n - 1)) (wsave_and_next le ls)"
  unfolding wsave_and_next_def
  by (rule lexes_bnd [OF wsave_in [OF assms(1,2)]], rule lexes_mono [OF next_in])
    (use assms(2,3) in \<open>auto elim: lex_in_mono\<close>)

text \<open>A state with room for four bytes, as every round of a loop finds it again.\<close>

lemma newline_not_EOZ [simp]: "currIsNewline ls \<Longrightarrow> current ls \<noteq> EOZ"
  by (auto simp: currIsNewline_def)

lemma inclinenumber_in:
  assumes "lex_in rd content s0 w d n ls" and "1 \<le> d" and "currIsNewline ls"
  shows "lexes (lex_in rd content s0 w (d + 2) (n - 1)) (inclinenumber le ls)"
  unfolding inclinenumber_def Let_def
proof (rule lexes_bnd [OF next_in [OF assms(1)]])
  show "current ls \<noteq> EOZ" using assms(3) by simp
  fix ls1 assume 1: "lex_in rd content s0 w (d + 2) (n - 1) ls1"
  have "lexes (lex_in rd content s0 w (d + 2) (n - 1))
      (if currIsNewline ls1 \<and> current ls1 \<noteq> current ls then nextc le ls1 else Inr ls1)"
    using 1 by (auto intro!: lexes_mono [OF next_std [OF 1]] elim: lex_in_mono)
  then show "lexes (lex_in rd content s0 w (d + 2) (n - 1))
     (bnd (if currIsNewline ls1 \<and> current ls1 \<noteq> current ls then nextc le ls1 else Inr ls1)
       (\<lambda>ls. if MAX_INT \<le> linenumber (ls\<lparr>linenumber := linenumber ls + 1\<rparr>)
           then luaX_syntaxerror (ls\<lparr>linenumber := linenumber ls + 1\<rparr>) ''chunk has too many lines''
           else Inr (ls\<lparr>linenumber := linenumber ls + 1\<rparr>)))"
  proof (rule lexes_bnd)
    fix ls2 assume "lex_in rd content s0 w (d + 2) (n - 1) ls2"
    then have "lex_in rd content s0 w (d + 2) (n - 1) (ls2\<lparr>linenumber := linenumber ls2 + 1\<rparr>)"
      by (rule lex_in_cong) simp_all
    then show "lexes (lex_in rd content s0 w (d + 2) (n - 1))
       (if MAX_INT \<le> linenumber (ls2\<lparr>linenumber := linenumber ls2 + 1\<rparr>)
           then luaX_syntaxerror (ls2\<lparr>linenumber := linenumber ls2 + 1\<rparr>) ''chunk has too many lines''
           else Inr (ls2\<lparr>linenumber := linenumber ls2 + 1\<rparr>))"
      by (simp add: luaX_syntaxerror_def lexerror_in)
  qed
qed

lemma check_next_in:
  assumes "lex_in rd content s0 w d n ls" and "1 \<le> d" and "\<not> strchr_set st EOZ"
  shows "lexes (\<lambda>(_, ls'). lex_in rd content s0 w d n ls') (check_next le ls st)"
proof -
  have "lexes (lex_in rd content s0 w d n) (save_and_next le ls)" if "strchr_set st (current ls)"
    using that assms by (intro lexes_mono [OF save_and_next_in [OF assms(1,2)]]) (auto elim: lex_in_mono)
  then show ?thesis unfolding check_next_def using assms(1) by (auto intro: lexes_bnd)
qed

lemma hex_EOZ: "isdigit (tolower c) \<Longrightarrow> c \<noteq> EOZ" "97 \<le> tolower c \<Longrightarrow> c \<noteq> EOZ"
  by (auto simp: tolower_def EOZ_def isdigit_def)

lemma hex_loop_in:
  "lex_in rd content s0 w d n ls \<Longrightarrow> current ls \<noteq> EOZ \<Longrightarrow>
     lexes (\<lambda>(_, ls'). lex_in rd content s0 w d (n - 1) ls') (hex_loop k le c ls)"
proof (induction k arbitrary: n c ls)
  case 0
  then show ?case by (subst hex_loop.simps) (auto simp: Let_def intro: lexes_bnd [OF next_std])
next
  case (Suc k)
  have "lexes (\<lambda>(_, ls'). lex_in rd content s0 w d (n - 1) ls') (hex_loop k le c1 ls1)"
    if "lex_in rd content s0 w d (n - 1) ls1" "current ls1 \<noteq> EOZ" for c1 ls1
    by (rule lexes_mono [OF Suc.IH [OF that]]) (auto elim: lex_in_mono)
  then show ?case
    by (subst hex_loop.simps, unfold Let_def, intro lexes_bnd [OF next_std [OF Suc.prems]]) (auto dest: hex_EOZ)
qed

lemma dec_loop_in:
  "lex_in rd content s0 w d n ls \<Longrightarrow> current ls \<noteq> EOZ \<Longrightarrow>
     lexes (\<lambda>(_, ls'). lex_in rd content s0 w d (n - 1) ls') (dec_loop k le c ls)"
proof (induction k arbitrary: n c ls)
  case 0
  then show ?case by (subst dec_loop.simps) (auto simp: Let_def intro: lexes_bnd [OF next_std])
next
  case (Suc k)
  have "lexes (\<lambda>(_, ls'). lex_in rd content s0 w d (n - 1) ls') (dec_loop k le c1 ls1)"
    if "lex_in rd content s0 w d (n - 1) ls1" "isdigit (current ls1)" for c1 ls1
    by (rule lexes_mono [OF Suc.IH [OF that(1)]]) (use that(2) in \<open>auto elim: lex_in_mono\<close>)
  then show ?case
    by (subst dec_loop.simps, unfold Let_def, intro lexes_bnd [OF next_std [OF Suc.prems]]) auto
qed

lemma save_while_in:
  "lex_in rd content s0 w d n ls \<Longrightarrow> 1 \<le> d \<Longrightarrow> n \<le> fuel \<Longrightarrow> \<not> p EOZ \<Longrightarrow>
     lexes (lex_in rd content s0 w d (if p (current ls) then n - 1 else n)) (save_while fuel le p ls)"
proof (induction fuel arbitrary: n ls)
  case 0
  then have "current ls = EOZ" using lex_in_pos [of rd content s0 w d n ls] by (cases "current ls = EOZ") simp_all
  with 0 show ?case by (subst save_while.simps) simp
next
  case (Suc fuel)
  have "lexes (lex_in rd content s0 w d (n - 1)) (save_while fuel le p ls1)"
    if "lex_in rd content s0 (Suc w) d (n - 1) ls1" for ls1
  proof -
    have "lex_in rd content s0 w d (n - 1) ls1" using that by (rule lex_in_mono) simp_all
    moreover have "n - 1 \<le> fuel" using Suc.prems(3) by simp
    ultimately show ?thesis
      using Suc.prems(2,4) by (intro lexes_mono [OF Suc.IH]) (auto elim: lex_in_mono split: if_splits)
  qed
  with Suc.prems show ?case
    by (subst save_while.simps) (auto intro!: lexes_bnd [OF save_and_next_in])
qed

lemma save_while_le:
  assumes "lex_in rd content s0 w d n ls" "1 \<le> d" "n \<le> fuel" "\<not> p EOZ"
  shows "lexes (lex_in rd content s0 w d n) (save_while fuel le p ls)"
  by (rule lexes_mono [OF save_while_in [where p = p and le = le, OF assms]]) (auto elim: lex_in_mono split: if_splits)

lemma trydecpoint_in:
  assumes "lex_in rd content s0 w d n ls" "1 \<le> d"
  shows "lexes (\<lambda>(_, ls'). lex_in rd content s0 w d n ls') (trydecpoint cv ls)"
proof -
  have "lex_in rd content s0 w d n (ls\<lparr>decpoint := p\<rparr>)" for p by (rule lex_in_cong [OF assms(1)]) simp_all
  then have dp: "lex_in rd content s0 w d n (buffreplace (ls\<lparr>decpoint := p\<rparr>) a b)" for p a b
    by (rule lex_in_buffreplace)
  have "lexes (\<lambda>(_ :: lua_Number, ls'). lex_in rd content s0 w d n ls')
      (luaX_lexerror (buffreplace (buffreplace (ls\<lparr>decpoint := p\<rparr>) a b) a' b') msg t)" for p a b a' b' msg t
    by (rule lexerror_in [OF lex_in_buffreplace [OF dp] assms(2)])
  with dp show ?thesis by (simp add: trydecpoint_def Let_def split: prod.splits)
qed

lemma numeral_sets: "\<not> strchr_set ''Ee'' EOZ" "\<not> strchr_set ''+-'' EOZ" "\<not> strchr_set ''.'' EOZ"
  by code_simp+

lemma read_decimal_in:
  assumes "lex_in rd content s0 w 4 n ls" "n \<le> fuel"
  shows "lexes (\<lambda>(_, ls'). lex_in rd content s0 w 2 (if isdigit (current ls) then n - 1 else n) ls')
    (read_decimal fuel le cv ls)"
proof -
  define m where "m = (if isdigit (current ls) then n - 1 else n)"
  have m: "m \<le> fuel" using assms(2) by (auto simp: m_def)
  let ?L = "lex_in rd content s0 w 4 m"
  have first: "lexes ?L (save_while fuel le (\<lambda>c. isdigit c \<or> c = ch (CHR ''.'')) ls)"
    by (rule lexes_mono [OF save_while_in [OF assms(1) _ assms(2)]]) (auto simp: m_def elim!: lex_in_mono)
  have rest: "lexes ?L (save_while fuel le (\<lambda>c. isalnum c \<or> c = ch (CHR ''_'')) ls1)" if "?L ls1" for ls1
    by (rule save_while_le [OF that _ m]) simp_all
  have sign: "lexes (\<lambda>(_, ls'). ?L ls') (if e then check_next le ls1 ''+-'' else Inr (False, ls1))"
    if "?L ls1" for e ls1
    using that check_next_in [OF that _ numeral_sets(2)] by simp
  have fin: "lexes (\<lambda>(_, ls'). lex_in rd content s0 w 2 m ls')
      (let ls = buffreplace ls1 (of_char (CHR ''.'')) (decpoint ls1);
         (ok, r) = luaO_str2d (locale_point cv) (c_str (mbuffer (lbuff ls)))
       in if \<not> ok then trydecpoint cv ls else Inr (r, ls))"
    if "lex_in rd content s0 (Suc w) (4 - 1) m ls1 \<and> P" for ls1 P
  proof -
    have "lex_in rd content s0 w 2 m ls1" using conjunct1 [OF that] by (rule lex_in_mono) simp_all
    then show ?thesis by (auto simp: Let_def lex_in_buffreplace trydecpoint_in split: prod.splits)
  qed
  show ?thesis
    unfolding read_decimal_def m_def [symmetric]
    apply (rule lexes_bnd [OF first])
    apply (rule lexes_bnd [OF check_next_in [OF _ _ numeral_sets(1)]], assumption, simp, clarify)
    apply (rule lexes_bnd [OF sign], assumption, clarify)
    apply (rule lexes_bnd [OF rest], assumption)
    apply (rule lexes_bnd [OF save_in], assumption, simp)
    apply (erule fin)
    done
qed

lemma read_numeral_in:
  assumes "lex_in rd content s0 w 4 n ls" "n \<le> fuel" "isdigit (current ls)"
  shows "lexes (\<lambda>(_, ls'). lex_in rd content s0 w 2 (n - 1) ls') (read_numeral fuel le cv ls)"
proof (cases "current ls = ch (CHR ''0'')")
  case False
  then show ?thesis using read_decimal_in [OF assms(1,2)] assms(3) by (simp add: read_numeral_def)
next
  case True
  have x: "ch (CHR ''x'') = 120" by (simp add: ch_def of_char_def)
  show ?thesis
    unfolding read_numeral_def if_P [OF True]
  proof (rule lexes_bnd [OF save_and_next_in [OF assms(1)]])
    fix ls1 assume "lex_in rd content s0 (Suc w) 4 (n - 1) ls1"
    then have ls1: "lex_in rd content s0 w 4 (n - 1) ls1" by (rule lex_in_mono) simp_all
    have dec: "lexes (\<lambda>(_, ls'). lex_in rd content s0 w 2 (n - 1) ls') (read_decimal fuel le cv ls1)"
      by (rule lexes_mono [OF read_decimal_in [OF ls1]]) (use assms(2) in \<open>auto elim: lex_in_mono split: if_splits\<close>)
    have hex: "lexes (\<lambda>(_, ls'). lex_in rd content s0 w 2 (n - 1) ls')
        (bnd (nextc le ls1) (\<lambda>ls. bnd (hex_loop 7 le 0 ls) (\<lambda>(c, ls). Inr (cast_num c, ls))))"
      if "current ls1 = ch (CHR ''x'')"
    proof (rule lexes_bnd [OF next_letter [OF ls1]])
      show "current ls1 \<in> {120, 76}" using that x by simp
      fix ls2 assume "lex_in rd content s0 w 4 (n - 1 - 1) ls2 \<and> current ls2 \<noteq> EOZ"
      then have "lexes (\<lambda>(_, ls'). lex_in rd content s0 w 4 (n - 1 - 1 - 1) ls') (hex_loop 7 le 0 ls2)"
        by (intro hex_loop_in) simp_all
      moreover have "lex_in rd content s0 w 2 (n - 1) ls3" if "lex_in rd content s0 w 4 (n - 1 - 1 - 1) ls3" for ls3
        using that by (rule lex_in_mono) simp_all
      ultimately show "lexes (\<lambda>(_, ls'). lex_in rd content s0 w 2 (n - 1) ls')
          (bnd (hex_loop 7 le 0 ls2) (\<lambda>(c, ls). Inr (cast_num c, ls)))"
        by (elim lexes_bnd) auto
    qed
    show "lexes (\<lambda>(_, ls'). lex_in rd content s0 w 2 (n - 1) ls')
        (if current ls1 = ch (CHR ''x'')
         then bnd (nextc le ls1) (\<lambda>ls. bnd (hex_loop 7 le 0 ls) (\<lambda>(c, ls). Inr (cast_num c, ls)))
         else read_decimal fuel le cv ls1)"
      using dec hex by simp
  qed (use assms(3) in auto)
qed

lemma count_seps_in:
  "lex_in rd content s0 w 4 n ls \<Longrightarrow> n \<le> fuel \<Longrightarrow>
     lexes (\<lambda>(k, ls'). count \<le> k \<and> lex_in rd content s0 (w + nat (k - count)) 4 n ls') (count_seps fuel le count ls)"
proof (induction fuel arbitrary: n w count ls)
  case 0
  then have "current ls = EOZ" using lex_in_pos [of rd content s0 w 4 n ls] by (cases "current ls = EOZ") simp_all
  with 0 show ?case by (subst count_seps.simps) simp
next
  case (Suc fuel)
  have "lexes (\<lambda>(k, ls'). count \<le> k \<and> lex_in rd content s0 (w + nat (k - count)) 4 n ls') (count_seps fuel le (count + 1) ls1)"
    if "lex_in rd content s0 (Suc w) 4 (n - 1) ls1" for ls1
    by (rule lexes_mono [OF Suc.IH [OF that]]) (use Suc.prems in \<open>auto elim!: lex_in_mono\<close>)
  with Suc.prems show ?case
    by (subst count_seps.simps) (auto intro!: lexes_bnd [OF save_and_next_in])
qed

lemma skip_sep_in:
  assumes "lex_in rd content s0 w 4 n ls" "n \<le> Suc fuel" "current ls \<noteq> EOZ"
  shows "lexes (\<lambda>(k, ls'). (if 0 \<le> k then lex_in rd content s0 (w + nat k + 1) 4 (n - 1) ls' \<and> current ls' = current ls
      else lex_in rd content s0 w 4 (n - 1) ls')) (skip_sep fuel le ls)"
  unfolding skip_sep_def Let_def
proof (rule lexes_bnd [OF save_and_next_in [OF assms(1) _ assms(3)]])
  fix ls1 assume ls1: "lex_in rd content s0 (Suc w) 4 (n - 1) ls1"
  show "lexes (\<lambda>(k, ls'). (if 0 \<le> k then lex_in rd content s0 (w + nat k + 1) 4 (n - 1) ls' \<and> current ls' = current ls
      else lex_in rd content s0 w 4 (n - 1) ls'))
    (bnd (count_seps fuel le 0 ls1) (\<lambda>(count, ls'). Inr (if current ls' = current ls then count else - count - 1, ls')))"
    by (rule lexes_bnd [OF count_seps_in [OF ls1]]) (use assms(2) in \<open>auto elim!: lex_in_mono\<close>)
qed simp

end

lemma lexes_le:
  assumes "lexes (lex_in rd content s0 w d m) r" "w' \<le> w" "d' \<le> d" "m \<le> n"
  shows "lexes (lex_in rd content s0 w' d' n) r"
  by (rule lexes_mono [OF assms(1)], erule lex_in_mono) (use assms in auto)

lemma lexes_le2:
  assumes "lexes (\<lambda>(_, ls). lex_in rd content s0 w d m ls) r" "w' \<le> w" "d' \<le> d" "m \<le> n"
  shows "lexes (\<lambda>(_, ls). lex_in rd content s0 w' d' n ls) r"
  by (rule lexes_mono [OF assms(1)]) (use assms in \<open>auto elim: lex_in_mono\<close>)

context byte_source begin

lemma long_loop_in:
  "lex_in rd content s0 w 4 n ls \<Longrightarrow> n < fuel \<Longrightarrow> 0 \<le> sep \<Longrightarrow>
     lexes (lex_in rd content s0 (if str then w + nat sep + 2 else 0) 4 n) (long_loop fuel le str sep ls)"
proof (induction fuel arbitrary: n w ls)
  case (Suc fuel)
  let ?S = "lex_in rd content s0"
  define W where "W = (if str then w + nat sep + 2 else 0)"
  have "lexes (?S W 4 n) (long_loop (Suc fuel) le str sep ls)"
  proof (cases "current ls = EOZ")
    case True
    then show ?thesis by (simp add: long_loop.simps lexerror_in [OF Suc.prems(1)])
  next
    case False
    then have n: "0 < n" "n - 1 < fuel" "n \<le> Suc fuel" using lex_in_pos [OF Suc.prems(1)] Suc.prems(2) by auto
    have next_round: "lexes (?S W 4 n) (long_loop fuel le str sep ls1)" if "?S w' 4 (n - 1) ls1" "str \<longrightarrow> w \<le> w'" for w' ls1
      by (rule lexes_le [OF Suc.IH [OF that(1) n(2) Suc.prems(3)]]) (use that(2) n in \<open>auto simp: W_def\<close>)
    have sv: "lexes (?S (w + nat sep + 2) 4 (n - 1)) (save_and_next le ls1)"
      if "?S (w + nat sep + 1) 4 (n - 1) ls1" "current ls1 = current ls" for ls1
      by (rule lexes_le [OF save_and_next_in [OF that(1)]]) (use that False in auto)
    have other: "lexes (?S W 4 n) (long_loop fuel le str sep ls1)" if "?S (w + nat a + 1) 4 (n - 1) ls1" for a ls1
      by (rule next_round [OF that]) simp
    note skip = skip_sep_in [OF Suc.prems(1) n(3) False, of le]
    note long_loop.simps(2) [simp]
    consider "current ls = ch (CHR ''['')" | "current ls = ch (CHR '']'')"
      | "current ls \<noteq> ch (CHR ''['')" "current ls \<noteq> ch (CHR '']'')" "currIsNewline ls"
      | "current ls \<noteq> ch (CHR ''['')" "current ls \<noteq> ch (CHR '']'')" "\<not> currIsNewline ls"
      by blast
    then show ?thesis
    proof cases
      case 1
      have "lexes (?S W 4 n)
         (bnd (save_and_next le ls1) (\<lambda>ls. if sep = 0 then luaX_lexerror ls m t else long_loop fuel le str sep ls))"
        if "?S (w + nat sep + 1) 4 (n - 1) ls1" "current ls1 = current ls" for ls1 m t
      proof (rule lexes_bnd [OF sv [OF that]])
        fix ls2 assume ls2: "?S (w + nat sep + 2) 4 (n - 1) ls2"
        then have "lexes (?S W 4 n) (long_loop fuel le str sep ls2)" by (rule next_round) simp
        then show "lexes (?S W 4 n) (if sep = 0 then luaX_lexerror ls2 m t else long_loop fuel le str sep ls2)"
          by (simp add: lexerror_in [OF ls2])
      qed
      then have "lexes (?S W 4 n)
         (bnd (skip_sep fuel le ls) (\<lambda>(na, ls1). if na = sep
           then bnd (save_and_next le ls1) (\<lambda>ls. if sep = 0 then luaX_lexerror ls ''nesting of [[...]] is deprecated'' (ch (CHR ''[''))
                else long_loop fuel le str sep ls)
           else long_loop fuel le str sep ls1))"
        using Suc.prems(3) by (intro lexes_bnd [OF skip]) (auto intro: next_round other split: if_splits simp del: One_nat_def)
      with 1 show ?thesis by simp
    next
      case 2
      have "lexes (?S W 4 n) (save_and_next le ls1)"
        if "?S (w + nat sep + 1) 4 (n - 1) ls1" "current ls1 = current ls" for ls1
        by (rule lexes_le [OF sv [OF that]]) (auto simp: W_def)
      then have "lexes (?S W 4 n)
         (bnd (skip_sep fuel le ls) (\<lambda>(na, ls1). if na = sep then save_and_next le ls1
           else long_loop fuel le str sep ls1))"
        using Suc.prems(3) by (intro lexes_bnd [OF skip]) (auto intro: next_round other split: if_splits simp del: One_nat_def)
      moreover have "ch (CHR '']'') \<noteq> ch (CHR ''['')" by (simp add: ch_def of_char_def)
      ultimately show ?thesis using 2 by simp
    next
      case 3
      have inc: "lexes (?S w 4 (n - 1)) (inclinenumber le ls1)"
        if "?S (Suc w) (4 - 1) n ls1 \<and> current ls1 = current ls" for ls1
        by (rule lexes_le [OF inclinenumber_in [OF conjunct1 [OF that]]])
          (use that 3(3) in \<open>auto simp: currIsNewline_def\<close>)
      have again: "lexes (?S W 4 n) (long_loop fuel le str sep (if str then ls1 else resetbuffer ls1))"
        if "?S w 4 (n - 1) ls1" for ls1
      proof (cases str)
        case True
        with next_round [OF that] show ?thesis by simp
      next
        case False
        with next_round [OF lex_in_resetbuffer [OF that]] show ?thesis by simp
      qed
      have "lexes (?S W 4 n) (bnd (save ls 10) (\<lambda>ls. bnd (inclinenumber le ls) (\<lambda>ls.
           long_loop fuel le str sep (if str then ls else resetbuffer ls))))"
        by (rule lexes_bnd [OF save_in [OF Suc.prems(1)]], simp, rule lexes_bnd [OF inc], assumption, rule again)
      with 3 False show ?thesis by (simp only: long_loop.simps if_False if_True simp_thms)
    next
      case 4
      have "lexes (?S w 4 (n - 1)) (save_and_next le ls)"
        by (rule lexes_le [OF save_and_next_in [OF Suc.prems(1)]]) (use False in auto)
      then have "lexes (?S w 4 (n - 1)) (if str then save_and_next le ls else nextc le ls)"
        using next_std [OF Suc.prems(1) False] by simp
      then have "lexes (?S W 4 n) (bnd (if str then save_and_next le ls else nextc le ls) (long_loop fuel le str sep))"
        by (rule lexes_bnd) (erule next_round, simp)
      with 4 False show ?thesis by (simp only: long_loop.simps if_False)
    qed
  qed
  then show ?case by (simp add: W_def)
qed simp

lemma read_long_string_in:
  assumes "lex_in rd content s0 w 4 n ls" "n < fuel" "current ls \<noteq> EOZ" "0 \<le> sep" "str \<longrightarrow> nat sep + 1 \<le> w"
  shows "lexes (\<lambda>(_, ls'). lex_in rd content s0 0 4 n ls') (read_long_string fuel le str sep ls)"
proof -
  let ?S = "lex_in rd content s0" and ?w = "if str then Suc w + nat sep + 2 else 0"
  have nl: "lexes (?S (Suc w) 4 n) (if currIsNewline ls1 then inclinenumber le ls1 else Inr ls1)"
    if "?S (Suc w) 4 (n - 1) ls1" for ls1
    using that lexes_le [OF inclinenumber_in [OF that], of "Suc w" 4 n] by (auto elim: lex_in_mono)
  have fin: "lexes (\<lambda>(_, ls'). ?S 0 4 n ls')
      (if str then luaX_newstring ls1 (nat (2 + sep)) (mn (lbuff ls1) - 2 * c_uint (2 + sep)) else Inr ([], ls1))"
    if "?S ?w 4 n ls1" for ls1
  proof (cases str)
    case True
    let ?m = "unat (mn (lbuff ls1))"
    have w: "2 * nat (2 + sep) \<le> ?m" using lex_in_buffer(2) [OF that] True assms(4,5) by simp
    have "?m < 536870920" using lex_in_small [OF that] by simp
    then have s: "nat (2 + sep) < 268435460" using w by linarith
    then have "unat (c_uint (2 + sep)) = nat (2 + sep)" using assms(4) by (intro unat_c_uint) linarith+
    then have u: "unat (2 * c_uint (2 + sep)) = 2 * nat (2 + sep)"
      using s by (simp only: unat_word_ariths) simp
    have "unat (mn (lbuff ls1) - 2 * c_uint (2 + sep)) = ?m - 2 * nat (2 + sep)"
      using w u by (subst unat_sub) (simp_all add: word_le_nat_alt)
    then have "lexes (\<lambda>(_, ls'). ?S ?w 4 n ls') (luaX_newstring ls1 (nat (2 + sep)) (mn (lbuff ls1) - 2 * c_uint (2 + sep)))"
      using w by (intro newstring_in [OF that]) simp
    from lexes_le2 [OF this] True show ?thesis by simp
  qed (use that in \<open>auto elim: lex_in_mono\<close>)
  show ?thesis
    unfolding read_long_string_def
    apply (rule lexes_bnd [OF save_and_next_in [OF assms(1) _ assms(3)]], simp)
    apply (rule lexes_bnd [OF nl], assumption)
    apply (rule lexes_bnd [OF long_loop_in [OF _ assms(2,4), where str = str]], assumption)
    apply (erule fin)
    done
qed

text \<open>The operation that saves a character of a string: \<open>save\<close> or \<open>wsave\<close>.\<close>

definition saver :: "byte list \<Rightarrow> ('d LexState \<Rightarrow> int \<Rightarrow> 'd LexState result) \<Rightarrow> bool" where
  "saver s0 sv \<longleftrightarrow> (\<forall>w d n ls c. lex_in rd content s0 w d n ls \<longrightarrow> 2 \<le> d \<longrightarrow>
     lexes (\<lambda>ls'. lex_in rd content s0 w (d - 2) n ls' \<and> current ls' = current ls) (sv ls c))"

lemma saverD:
  "saver s0 sv \<Longrightarrow> lex_in rd content s0 w d n ls \<Longrightarrow> 2 \<le> d \<Longrightarrow>
     lexes (\<lambda>ls'. lex_in rd content s0 w (d - 2) n ls' \<and> current ls' = current ls) (sv ls c)"
  by (simp add: saver_def)

lemma saver_save: "saver s0 save"
  unfolding saver_def by (intro allI impI, rule lexes_mono [OF save_in]) (auto elim: lex_in_mono)

lemma saver_wsave: "saver s0 (wsave le)"
  unfolding saver_def by (intro allI impI, rule lexes_mono [OF wsave_in]) (auto elim: lex_in_mono)

lemma read_escape_in:
  assumes sv: "saver s0 sv" and ls: "lex_in rd content s0 w 6 n ls"
  shows "lexes (lex_in rd content s0 w 4 n) (read_escape le sv nhex ls)"
proof -
  let ?S = "lex_in rd content s0"
  have put: "lexes (\<lambda>ls'. ?S w 4 m ls' \<and> current ls' = current ls1) (sv ls1 c)" if "?S w 6 m ls1" for m ls1 c
    using saverD [OF sv that, of c] by simp
  have put_next: "lexes (?S w 4 n) (bnd (sv ls c) (nextc le))" if "current ls \<noteq> EOZ" for c
    by (rule lexes_bnd [OF put [OF ls]], rule lexes_le [OF next_std]) (use that in auto)
  have put_inc: "lexes (?S w 4 n) (bnd (sv ls c) (inclinenumber le))" if "currIsNewline ls" for c
    by (rule lexes_bnd [OF put [OF ls]], rule lexes_le [OF inclinenumber_in])
      (use that in \<open>auto simp: currIsNewline_def\<close>)
  have stay: "?S w 4 n ls" by (rule lex_in_mono [OF ls]) simp_all
  have put_last: "lexes (?S w 4 n) (sv ls1 c)" if "?S w 6 (n - 1) ls1" for ls1 c
    by (rule lexes_mono [OF put [OF that]]) (auto elim: lex_in_mono)
  have hex: "lexes (?S w 4 n) (bnd (nextc le ls) (\<lambda>ls. bnd (hex_loop nhex le 0 ls) (\<lambda>(c, ls). sv ls c)))"
    if "current ls = ch (CHR ''x'')"
  proof (rule lexes_bnd [OF next_letter [OF ls]])
    show "current ls \<in> {120, 76}" using that by (simp add: ch_def of_char_def)
    fix ls1 assume ls1: "?S w 6 (n - 1) ls1 \<and> current ls1 \<noteq> EOZ"
    have "lexes (\<lambda>(_, ls'). ?S w 6 (n - 1) ls') (hex_loop nhex le 0 ls1)"
      by (rule lexes_le2 [OF hex_loop_in]) (use ls1 in auto)
    then show "lexes (?S w 4 n) (bnd (hex_loop nhex le 0 ls1) (\<lambda>(c, ls). sv ls c))"
      by (rule lexes_bnd) (auto intro: put_last simp del: One_nat_def)
  qed
  have dec: "lexes (?S w 4 n) (bnd (dec_loop 2 le 0 ls) (\<lambda>(c, ls).
      if c > UCHAR_MAX then luaX_lexerror ls ''escape sequence too large'' TK_STRING else sv ls c))"
    if "current ls \<noteq> EOZ"
  proof (rule lexes_bnd [OF dec_loop_in [OF ls that]], clarify)
    fix c ls1 assume ls1: "?S w 6 (n - 1) ls1"
    show "lexes (?S w 4 n) (if c > UCHAR_MAX then luaX_lexerror ls1 ''escape sequence too large'' TK_STRING else sv ls1 c)"
      using put_last [OF ls1] by (simp add: lexerror_in [OF ls1])
  qed
  have code: "escape_code EOZ = None" by (simp add: escape_code_def)
  have digit: "isdigit (current ls) \<Longrightarrow> current ls \<noteq> EOZ" by auto
  show ?thesis
    unfolding read_escape_def
    using put_next put_inc stay hex dec code digit by (cases "current ls = EOZ") (simp_all split: option.split)
qed

lemma string_loop_in:
  "saver s0 sv \<Longrightarrow> lex_in rd content s0 w 4 n ls \<Longrightarrow> n < fuel \<Longrightarrow>
     lexes (\<lambda>ls'. lex_in rd content s0 w 4 n ls' \<and> current ls' = del) (string_loop fuel le sv nhex del ls)"
proof (induction fuel arbitrary: n ls)
  case (Suc fuel)
  let ?S = "lex_in rd content s0"
  note sv = Suc.prems(1) and ls = Suc.prems(2)
  show ?case
  proof (cases "current ls = EOZ")
    case True
    then show ?thesis using ls by (subst string_loop.simps) (simp add: lexerror_in [OF ls])
  next
    case False
    then have n: "n - 1 < fuel" using lex_in_pos [OF ls] Suc.prems(3) by simp
    have next_round: "lexes (\<lambda>ls'. ?S w 4 n ls' \<and> current ls' = del) (string_loop fuel le sv nhex del ls1)"
      if "?S w 4 (n - 1) ls1" for ls1
      by (rule lexes_mono [OF Suc.IH [OF sv that n]]) (auto elim: lex_in_mono)
    have esc: "lexes (?S w 4 (n - 1)) (read_escape le sv nhex ls1)" if "?S w (4 + 2) (n - 1) ls1" for ls1
      using that by (intro read_escape_in [OF sv]) simp
    have put: "lexes (?S w 4 (n - 1)) (bnd (sv ls (current ls)) (nextc le))"
      by (rule lexes_bnd [OF saverD [OF sv ls]]) (simp, rule lexes_le [OF next_in], use False in auto)
    have bs: "lexes (\<lambda>ls'. ?S w 4 n ls' \<and> current ls' = del)
        (bnd (nextc le ls) (\<lambda>ls. bnd (read_escape le sv nhex ls) (string_loop fuel le sv nhex del)))"
      by (rule lexes_bnd [OF next_in [OF ls False]], rule lexes_bnd [OF esc], assumption, rule next_round)
    show ?thesis
      by (subst string_loop.simps)
        (use ls bs lexes_bnd [OF put next_round] in \<open>simp add: lexerror_in [OF ls] split: nat.split\<close>)
  qed
qed (auto dest: lex_in_pos)

lemma read_string_in:
  assumes "lex_in rd content s0 w 4 n ls" "n \<le> fuel" "current ls \<noteq> EOZ" "del \<noteq> EOZ"
  shows "lexes (\<lambda>(_, ls'). lex_in rd content s0 0 4 (n - 1) ls') (read_string fuel le del ls)"
proof -
  let ?S = "lex_in rd content s0"
  have f: "n - 1 < fuel" using assms lex_in_pos [OF assms(1)] by simp
  have fin: "lexes (?S 2 4 (n - 1)) (save_and_next le ls1)"
    if "?S (Suc w) 4 (n - 1) ls1 \<and> current ls1 = del" for ls1
    by (rule lexes_le [OF save_and_next_in [OF conjunct1 [OF that]]]) (use that assms(4) in auto)
  have str: "lexes (\<lambda>(_, ls'). ?S 0 4 (n - 1) ls') (luaX_newstring ls1 1 (mn (lbuff ls1) - 2))"
    if "?S 2 4 (n - 1) ls1" for ls1
  proof (rule lexes_le2 [OF newstring_in [OF that]])
    have "2 \<le> unat (mn (lbuff ls1))" by (rule lex_in_buffer(2) [OF that])
    then show "1 + unat (mn (lbuff ls1) - 2) \<le> unat (mn (lbuff ls1))"
      by (subst unat_sub) (simp_all add: word_le_nat_alt)
  qed simp_all
  show ?thesis
    unfolding read_string_def
    apply (rule lexes_bnd [OF save_and_next_in [OF assms(1) _ assms(3)]], simp)
    apply (rule lexes_bnd [OF string_loop_in [OF saver_save _ f]], assumption)
    apply (rule lexes_bnd [OF fin], assumption)
    apply (erule str)
    done
qed

lemma read_wstring_in:
  assumes "lex_in rd content s0 w 4 n ls" "n \<le> fuel" "current ls \<noteq> EOZ" "del \<noteq> EOZ"
  shows "lexes (\<lambda>(_, ls'). lex_in rd content s0 0 4 (n - 1) ls') (read_wstring fuel le del ls)"
proof -
  let ?S = "lex_in rd content s0"
  have f: "n - 1 < fuel" using assms lex_in_pos [OF assms(1)] by simp
  have fin: "lexes (?S 4 4 (n - 1)) (wsave_and_next le ls1)"
    if "?S (w + 2) 4 (n - 1) ls1 \<and> current ls1 = del" for ls1
    by (rule lexes_le [OF wsave_and_next_in [OF conjunct1 [OF that]]]) (use that assms(4) in auto)
  have str: "lexes (\<lambda>(_, ls'). ?S 0 4 (n - 1) ls') (luaX_newwstring le ls1 2 ((mn (lbuff ls1) - 2 * 2) div 2))"
    if "?S 4 4 (n - 1) ls1" for ls1
  proof (rule lexes_le2 [OF newwstring_in [OF that]])
    have w: "4 \<le> unat (mn (lbuff ls1))" by (rule lex_in_buffer(2) [OF that])
    then have "unat (mn (lbuff ls1) - 4) = unat (mn (lbuff ls1)) - 4"
      by (subst unat_sub) (simp_all add: word_le_nat_alt)
    with w show "2 + 2 * unat ((mn (lbuff ls1) - 2 * 2) div 2) \<le> unat (mn (lbuff ls1))"
      by (simp add: unat_div)
  qed simp_all
  show ?thesis
    unfolding read_wstring_def
    apply (rule lexes_bnd [OF wsave_and_next_in [OF assms(1) _ assms(3)]], simp)
    apply (rule lexes_bnd [OF string_loop_in [OF saver_wsave _ f]], assumption)
    apply (rule lexes_bnd [OF fin], assumption)
    apply (erule str)
    done
qed

end

context byte_source begin

lemma skip_line_in:
  "lex_in rd content s0 w 4 n ls \<Longrightarrow> n \<le> fuel \<Longrightarrow> lexes (lex_in rd content s0 w 4 n) (skip_line fuel le ls)"
proof (induction fuel arbitrary: n ls)
  case 0
  then have "current ls = EOZ" using lex_in_pos [of rd content s0 w 4 n ls] by (cases "current ls = EOZ") simp_all
  with 0 show ?case by (subst skip_line.simps) simp
next
  case (Suc fuel)
  have "lexes (lex_in rd content s0 w 4 n) (skip_line fuel le ls1)" if "lex_in rd content s0 w 4 (n - 1) ls1" for ls1
    by (rule lexes_le [OF Suc.IH [OF that]]) (use Suc.prems in auto)
  with Suc.prems show ?case
    by (subst skip_line.simps) (auto intro: lexes_bnd [OF next_std])
qed

lemma lex_second_in:
  assumes "lex_in rd content s0 w 4 n ls" "current ls \<noteq> EOZ" "EOZ \<notin> fst ` set alts"
  shows "lexes (\<lambda>(_, ls'). lex_in rd content s0 w 4 (n - 1) ls') (lex_second le c alts ls)"
proof -
  have nx: "lexes (lex_in rd content s0 w 4 (n - 1)) (nextc le ls1)"
    if "lex_in rd content s0 w 4 (n - 1) ls1" "map_of alts (current ls1) = Some t" for ls1 t
  proof (rule lexes_le [OF next_std [OF that(1)]])
    show "current ls1 \<noteq> EOZ" using assms(3) map_of_SomeD [OF that(2)] by force
  qed simp_all
  show ?thesis
    unfolding lex_second_def
    by (rule lexes_bnd [OF next_std [OF assms(1,2)]])
      (auto intro!: lexes_bnd [OF nx] split: option.split simp del: One_nat_def)
qed

lemma lex_name_in:
  assumes "lex_in rd content s0 w 4 n ls" "n \<le> fuel" "current ls \<noteq> EOZ"
  shows "lexes (\<lambda>(_, _, ls'). lex_in rd content s0 w 4 (n - 1) ls') (lex_name fuel le si ls)"
proof -
  let ?S = "lex_in rd content s0"
  have sw: "lexes (?S w 4 (n - 1)) (save_while fuel le (\<lambda>c. isalnum c \<or> c = ch (CHR ''_'')) ls1)"
    if "?S (Suc w) 4 (n - 1) ls1" for ls1
    by (rule lexes_le [OF save_while_le [OF that]]) (use assms(2) in auto)
  have str: "lexes (\<lambda>(_, ls'). ?S w 4 (n - 1) ls') (luaX_newstring ls1 0 (mn (lbuff ls1)))" if "?S w 4 (n - 1) ls1" for ls1
    by (rule newstring_in [OF that]) simp
  show ?thesis
    unfolding lex_name_def
    by (rule lexes_bnd [OF save_and_next_in [OF assms(1) _ assms(3)]], simp, rule lexes_bnd [OF sw], assumption,
        rule lexes_bnd [OF str], assumption) auto
qed

lemma lex_comment_in:
  assumes "lex_in rd content s0 w 4 n ls" "n < fuel"
  shows "lexes (lex_in rd content s0 0 4 n) (lex_comment fuel le ls)"
proof -
  let ?S = "lex_in rd content s0"
  have line: "lexes (?S 0 4 n) (skip_line fuel le ls1)" if "?S w' 4 m ls1" "m \<le> n" for w' m ls1
    by (rule lexes_le [OF skip_line_in [OF that(1)]]) (use assms(2) that(2) in auto)
  have long: "lexes (?S 0 4 n) (if sep \<ge> 0
      then bnd (read_long_string fuel le False sep (resetbuffer ls1)) (\<lambda>(_, ls). Inr (resetbuffer ls))
      else skip_line fuel le (resetbuffer ls1))"
    if b: "current ls = ch (CHR ''['')"
      and 1: "if 0 \<le> sep then ?S (w + nat sep + 1) 4 (n - 1) ls1 \<and> current ls1 = current ls else ?S w 4 (n - 1) ls1"
    for sep ls1
  proof -
    have r: "?S 0 4 (n - 1) (resetbuffer ls1)" using 1 lex_in_resetbuffer by (auto split: if_splits)
    have c: "current (resetbuffer ls1) = ch (CHR ''['')" if "0 \<le> sep" using 1 b that by (simp add: resetbuffer_def)
    have rd: "lexes (\<lambda>(_, ls'). ?S 0 4 (n - 1) ls') (read_long_string fuel le False sep (resetbuffer ls1))" if "0 \<le> sep"
      by (rule read_long_string_in [OF r]) (use that c assms(2) in auto)
    have "lexes (?S 0 4 n) (bnd (read_long_string fuel le False sep (resetbuffer ls1)) (\<lambda>(_, ls). Inr (resetbuffer ls)))"
      if "0 \<le> sep"
    proof (rule lexes_bnd [OF rd [OF that]], clarify)
      fix ls2 assume "?S 0 4 (n - 1) ls2"
      from lex_in_mono [OF lex_in_resetbuffer [OF this]] show "lexes (?S 0 4 n) (Inr (resetbuffer ls2))" by simp
    qed
    then show ?thesis using line [OF r] by simp
  qed
  show ?thesis
    unfolding lex_comment_def Let_def
  proof (rule lexes_if)
    assume b: "current ls = ch (CHR ''['')"
    show "lexes (?S 0 4 n) (bnd (skip_sep fuel le ls) (\<lambda>(sep, ls). if sep \<ge> 0
        then bnd (read_long_string fuel le False sep (resetbuffer ls)) (\<lambda>(_, ls). Inr (resetbuffer ls))
        else skip_line fuel le (resetbuffer ls)))"
      by (rule lexes_bnd [OF skip_sep_in [OF assms(1)]]) (use b assms(2) long [OF b] in auto)
  qed (rule line [OF assms(1) le_refl])
qed

lemma lex_dot_in:
  assumes "lex_in rd content s0 w 4 n ls" "n \<le> fuel" "current ls \<noteq> EOZ"
  shows "lexes (\<lambda>(_, _, ls'). lex_in rd content s0 0 2 (n - 1) ls') (lex_dot fuel le cv si ls)"
proof -
  let ?S = "lex_in rd content s0"
  have cn: "lexes (\<lambda>(_, ls'). ?S 0 4 (n - 1) ls') (check_next le ls1 ''.'')" if "?S w' 4 (n - 1) ls1" for w' ls1
    by (rule lexes_le2 [OF check_next_in [OF that _ numeral_sets(3)]]) simp_all
  have num: "lexes (\<lambda>(_, ls'). ?S 0 2 (n - 1) ls') (read_numeral fuel le cv ls1)"
    if "?S 0 4 (n - 1) ls1" "isdigit (current ls1)" for ls1
    by (rule lexes_le2 [OF read_numeral_in [OF that(1)]]) (use assms(2) that(2) in auto)
  have weak: "?S 0 2 (n - 1) ls1" if "?S 0 4 (n - 1) ls1" for ls1
    using that by (rule lex_in_mono) simp_all
  show ?thesis
    unfolding lex_dot_def
    by (rule lexes_bnd [OF save_and_next_in [OF assms(1) _ assms(3)]], simp, rule lexes_bnd [OF cn], assumption)
      (auto intro!: lexes_bnd [OF cn] lexes_bnd [OF num] weak simp del: One_nat_def)
qed

lemma lex_L_in:
  assumes "lex_in rd content s0 w 4 n ls" "n \<le> fuel" "current ls = ch (CHR ''L'')"
  shows "lexes (\<lambda>(_, _, ls'). lex_in rd content s0 0 4 (n - 1) ls') (lex_L fuel le si ls)"
  unfolding lex_L_def
proof (rule lexes_bnd [OF next_in'])
  let ?S = "lex_in rd content s0"
  show "lex_in rd content s0 w 4 n ls" by (rule assms(1))
  show "current ls \<noteq> EOZ" using assms(3) by simp
  fix ls1 assume "?S w (4 + 2) (n - 1) ls1 \<and> (current ls \<in> {120, 76} \<longrightarrow> current ls1 \<noteq> EOZ)"
  then have ls1: "?S w 6 (n - 1) ls1" "current ls1 \<noteq> EOZ" using assms(3) by (simp_all add: ch_def of_char_def)
  have q: "34 \<noteq> EOZ" "39 \<noteq> EOZ" by (simp_all add: EOZ_def)
  have std: "?S w 4 (n - 1) ls1" by (rule lex_in_mono [OF ls1(1)]) simp_all
  have ws: "lexes (\<lambda>(_, ls'). ?S 0 4 (n - 1) ls') (read_wstring fuel le (current ls1) ls1)"
    by (rule lexes_le2 [OF read_wstring_in [OF std _ ls1(2) ls1(2)]]) (use assms(2) in auto)
  have nm: "lexes (\<lambda>(_, _, ls'). ?S 0 4 (n - 1) ls') (lex_name fuel le si ls2)"
    if "?S (Suc w) (6 - 1) (n - 1) ls2 \<and> current ls2 = current ls1" for ls2
  proof -
    have "?S 0 4 (n - 1) ls2" using conjunct1 [OF that] by (rule lex_in_mono) simp_all
    from lex_name_in [OF this] show ?thesis
      by (rule lexes_mono) (use assms(2) that ls1(2) in \<open>auto elim: lex_in_mono\<close>)
  qed
  show "lexes (\<lambda>(_, _, ls'). ?S 0 4 (n - 1) ls')
      (if current ls1 = 34 \<or> current ls1 = 39
       then bnd (read_wstring fuel le (current ls1) ls1) (\<lambda>(ts, ls). Inr (TK_WSTRING, SemWString ts, ls))
       else bnd (save ls1 (ch (CHR ''L''))) (lex_name fuel le si))"
  proof (rule lexes_if)
    show "lexes (\<lambda>(_, _, ls'). ?S 0 4 (n - 1) ls')
        (bnd (read_wstring fuel le (current ls1) ls1) (\<lambda>(ts, ls). Inr (TK_WSTRING, SemWString ts, ls)))"
      by (rule lexes_bnd [OF ws]) auto
    show "lexes (\<lambda>(_, _, ls'). ?S 0 4 (n - 1) ls') (bnd (save ls1 (ch (CHR ''L''))) (lex_name fuel le si))"
      by (rule lexes_bnd [OF save_in [OF ls1(1)]]) (simp, rule nm)
  qed
qed


text \<open>A token, or the end of the text.\<close>

lemma llex_loop_in:
  "lex_in rd content s0 0 4 n ls \<Longrightarrow> n < fuel \<Longrightarrow>
     lexes (\<lambda>(t, _, ls'). t = TK_EOS \<and> current ls' = EOZ \<or> lex_in rd content s0 0 2 (n - 1) ls')
       (llex_loop fuel le cv si ls)"
proof (induction fuel arbitrary: n ls)
  case (Suc fuel)
  note ls = Suc.prems(1)
  show ?case
  proof (cases "current ls = EOZ")
    case True
    then show ?thesis
      by (simp add: llex_loop.simps currIsNewline_def Let_def) (simp add: EOZ_def)
  next
    case False
    then have n: "0 < n" "n - 1 < fuel" "n \<le> fuel" "n \<le> Suc fuel" using lex_in_pos [OF ls] Suc.prems(2) by auto
    let ?S = "lex_in rd content s0"
    define Q where "Q = (\<lambda>(t, _ :: SemInfo, ls'). t = TK_EOS \<and> current ls' = EOZ \<or> ?S 0 2 (n - 1) ls')"
    have QI: "Q (t, s, ls1)" if "?S w d m ls1" "2 \<le> d" "m \<le> n - 1" for w d m ls1 t s
      using lex_in_mono [OF that(1), of 0 2 "n - 1"] that(2,3) by (simp add: Q_def)
    have Q4: "Q (t, s, ls1)" if "?S w 4 (n - 1) ls1" for w ls1 t s
      by (rule QI [OF that]) simp_all
    have nx: "lexes (?S 0 4 (n - 1)) (nextc le ls)" by (rule next_std [OF ls False])
    have again: "lexes Q (llex_loop fuel le cv si ls1)" if "?S 0 4 m ls1" "m \<le> n - 1" for m ls1
    proof -
      have "?S 0 4 (n - 1) ls1" by (rule lex_in_mono [OF that(1)]) (use that in auto)
      moreover have "?S 0 2 (n - 1) ls2" if "?S 0 2 (n - 1 - 1) ls2" for ls2
        by (rule lex_in_mono [OF that]) simp_all
      ultimately show ?thesis
        using n(2) by (intro lexes_mono [OF Suc.IH [of "n - 1"]]) (auto simp: Q_def)
    qed
    have plain: "lexes Q (bnd m (\<lambda>(t, ls). Inr (t, si, ls)))"
      if "lexes (\<lambda>(_, ls'). ?S 0 4 (n - 1) ls') m" for m
      by (rule lexes_bnd [OF that]) (auto intro: Q4 simp del: One_nat_def)
    have second: "lexes Q (bnd (lex_second le c alts ls) (\<lambda>(t, ls). Inr (t, si, ls)))" if "EOZ \<notin> fst ` set alts" for c alts
      by (rule plain [OF lex_second_in [OF ls False that]])
    have string: "lexes Q (bnd m (\<lambda>(ts, ls). Inr (t, f ts, ls)))"
      if "lexes (\<lambda>(_, ls'). ?S 0 d (n - 1) ls') m" "2 \<le> d" for m t d and f :: "'x \<Rightarrow> SemInfo"
      by (rule lexes_bnd [OF that(1)]) (use that(2) in \<open>auto intro: QI [OF _ _ le_refl] simp del: One_nat_def\<close>)
    have name: "lexes Q m" if "lexes (\<lambda>(_, _, ls'). ?S 0 d (n - 1) ls') m" "2 \<le> d" for m d
      by (rule lexes_mono [OF that(1)]) (use that(2) in \<open>auto intro: QI [OF _ _ le_refl] simp del: One_nat_def\<close>)
    have dash: "lexes Q (bnd (nextc le ls) (\<lambda>ls. if current ls \<noteq> ch (CHR ''-'') then Inr (c, si, ls)
       else bnd (nextc le ls) (\<lambda>ls. bnd (lex_comment fuel le ls) (llex_loop fuel le cv si))))" for c
    proof (rule lexes_bnd [OF nx], rule lexes_if)
      fix ls1 assume ls1: "?S 0 4 (n - 1) ls1"
      show "lexes Q (Inr (c, si, ls1))" using QI [OF ls1] by simp
      assume "\<not> current ls1 \<noteq> ch (CHR ''-'')"
      then have "lexes (?S 0 4 (n - 1 - 1)) (nextc le ls1)" by (intro next_std [OF ls1]) simp
      then show "lexes Q (bnd (nextc le ls1) (\<lambda>ls. bnd (lex_comment fuel le ls) (llex_loop fuel le cv si)))"
      proof (rule lexes_bnd)
        fix ls2 assume "?S 0 4 (n - 1 - 1) ls2"
        then have "lexes (?S 0 4 (n - 1 - 1)) (lex_comment fuel le ls2)"
          by (rule lex_comment_in) (use n in simp)
        then show "lexes Q (bnd (lex_comment fuel le ls2) (llex_loop fuel le cv si))"
          by (rule lexes_bnd) (erule again, rule diff_le_self)
      qed
    qed
    have bracket: "lexes Q (bnd (skip_sep fuel le ls) (\<lambda>(sep, ls). if sep \<ge> 0
           then bnd (read_long_string fuel le True sep ls) (\<lambda>(ts, ls). Inr (TK_STRING, SemString ts, ls))
           else if sep = - 1 then Inr (c, si, ls)
           else luaX_lexerror ls msg t))" for c msg t
    proof (rule lexes_bnd [OF skip_sep_in [OF ls n(4) False]], clarify)
      fix sep ls1
      assume 1: "if 0 \<le> sep then ?S (0 + nat sep + 1) 4 (n - 1) ls1 \<and> current ls1 = current ls else ?S 0 4 (n - 1) ls1"
      have rls: "lexes (\<lambda>(_, ls'). ?S 0 4 (n - 1) ls') (read_long_string fuel le True sep ls1)" if "0 \<le> sep"
        by (rule read_long_string_in [where w = "0 + nat sep + 1"]) (use 1 that n(2) False in auto)
      have long: "lexes Q (bnd (read_long_string fuel le True sep ls1) (\<lambda>(ts, ls). Inr (TK_STRING, SemString ts, ls)))"
        if "0 \<le> sep" by (rule string [OF rls [OF that]]) simp
      have std: "?S 0 4 (n - 1) ls1" if "\<not> 0 \<le> sep" using 1 that by simp
      have "Q (c, si, ls1)" if "\<not> 0 \<le> sep" using QI [OF std [OF that]] by simp
      moreover have "lexes Q (luaX_lexerror ls1 msg t)" if "\<not> 0 \<le> sep" using lexerror_in [OF std [OF that]] by simp
      ultimately show "lexes Q (if sep \<ge> 0
           then bnd (read_long_string fuel le True sep ls1) (\<lambda>(ts, ls). Inr (TK_STRING, SemString ts, ls))
           else if sep = - 1 then Inr (c, si, ls1)
           else luaX_lexerror ls1 msg t)" using long by simp
    qed
    have inc: "lexes Q (bnd (inclinenumber le ls) (llex_loop fuel le cv si))" if "currIsNewline ls"
    proof -
      have "lexes (?S 0 4 (n - 1)) (inclinenumber le ls)"
        by (rule lexes_le [OF inclinenumber_in [OF ls _ that]]) simp_all
      then show ?thesis by (rule lexes_bnd) (erule again, rule le_refl)
    qed
    have blank: "lexes Q (bnd (nextc le ls) (llex_loop fuel le cv si))"
      by (rule lexes_bnd [OF nx]) (erule again, rule le_refl)
    have other: "lexes Q (bnd (nextc le ls) (\<lambda>ls. Inr (c, si, ls)))" for c
      by (rule lexes_bnd [OF nx]) (auto intro: Q4 simp del: One_nat_def)
    have quoted: "lexes Q (bnd (read_string fuel le (current ls) ls) (\<lambda>(ts, ls). Inr (TK_STRING, SemString ts, ls)))"
      by (rule string [OF read_string_in [OF ls n(3) False False]]) simp
    have numeral: "lexes Q (bnd (read_numeral fuel le cv ls) (\<lambda>(r, ls). Inr (TK_NUMBER, SemNumber r, ls)))"
      if "isdigit (current ls)"
      by (rule string [OF read_numeral_in [OF ls n(3) that]]) simp
    have dot: "lexes Q (lex_dot fuel le cv si ls)" by (rule name [OF lex_dot_in [OF ls n(3) False]]) simp
    have nm: "lexes Q (lex_name fuel le si ls)" by (rule name [OF lex_name_in [OF ls n(3) False]]) simp
    have L: "lexes Q (lex_L fuel le si ls)" if "current ls = ch (CHR ''L'')"
      by (rule name [OF lex_L_in [OF ls n(3) that]]) simp
    have wide: "lexes Q (luaX_lexerror ls msg 0)" for msg by (rule lexerror_in [OF ls]) simp
    have "lexes Q (llex_loop (Suc fuel) le cv si ls)"
      unfolding llex_loop.simps(2) Let_def
      by (intro lexes_if inc dash bracket second quoted dot wide blank numeral L nm other)
        (use False in auto)
    then show ?thesis by (simp add: Q_def)
  qed
qed simp

lemma llex_progress_at:
  assumes "lex_ready rd content s ls" and "length s < fuel" and "scannable s"
  shows "lexes (\<lambda>(t, _, ls'). t = TK_EOS \<and> current ls' = EOZ
      \<or> (\<exists>p s'. s = p @ s' \<and> p \<noteq> [] \<and> lex_ready rd content s' ls')) (llex fuel le cv si ls)"
proof (cases "s = []")
  case True
  with assms(1) have "current ls = EOZ" using lex_at_EOZ [of rd content "[]" ls] by (simp add: lex_ready_def)
  moreover from assms(2) obtain k where "fuel = Suc k" by (cases fuel) simp_all
  ultimately show ?thesis
    by (simp add: llex_def resetbuffer_def llex_loop.simps currIsNewline_def Let_def) (simp add: EOZ_def)
next
  case False
  let ?ls = "resetbuffer ls"
  have "lex_at rd content s ?ls" using assms(1) by (auto simp: lex_ready_def resetbuffer_def elim: lex_at_cong)
  moreover have "unat (mn (lbuff ?ls)) = 0" by (simp add: resetbuffer_def luaZ_resetbuffer_def)
  ultimately have "lex_in rd content s 0 4 (length s) ?ls"
    using assms(1,3) by (auto simp: lex_in_def lex_ready_def)
  moreover have "\<exists>p s'. s = p @ s' \<and> p \<noteq> [] \<and> lex_ready rd content s' ls'"
    if "lex_in rd content s 0 2 (length s - 1) ls'" for ls'
  proof -
    from that obtain p s' where "s = p @ s'" "lex_ready rd content s' ls'" "length s' \<le> length s - 1"
      by (auto simp: lex_in_def lex_ready_def lex_buff_ok_reset)
    moreover from this False have "p \<noteq> []" by (cases s') auto
    ultimately show ?thesis by blast
  qed
  ultimately show ?thesis
    unfolding llex_def using assms(2) by (intro lexes_mono [OF llex_loop_in]) auto
qed

end

section \<open>Properties\<close>

text \<open>
  C21: \<open>llex\<close> ends and makes progress on every text of less than \<open>2 ^ 28\<close> bytes that does not end in \<open>x\<close>
  or \<open>L\<close> (after \<open>0x\<close>, a backslash and \<open>x\<close>, or \<open>L\<close>, the scanner takes the next character without asking
  whether there is one). With fuel for the characters that are left it stops only with an error it reports
  itself: it never reads past the end of the stream and never leaves its token buffer. A token it returns
  is \<open>TK_EOS\<close> at the end of the text, or has consumed at least one character, and the scanner is ready
  before the others.
\<close>

theorem llex_progress:
  assumes "lex_ready getS LoadS_content s ls" and "length s < fuel" and "length s < 2 ^ 28"
    and "s = [] \<or> last s \<notin> {of_char (CHR ''x''), of_char (CHR ''L'')}"
  shows "case llex fuel le cv si ls of
      Inl e \<Rightarrow> \<exists>msg t. e = ErrSyntax msg t
    | Inr (t, _, ls') \<Rightarrow> t = TK_EOS \<and> current ls' = EOZ
        \<or> (\<exists>p s'. s = p @ s' \<and> p \<noteq> [] \<and> lex_ready getS LoadS_content s' ls')"
proof -
  have "scannable s" using assms(3,4) by (auto simp: scannable_def of_char_def)
  from string_reader.llex_progress_at [OF assms(1,2) this, of le cv si] show ?thesis
    by (simp add: lexes_def)
qed

definition ex_lex :: "LoadS LexState" where
  "ex_lex = \<lparr>current = 0, linenumber = 0, lastline = 0, tok = \<lparr>token = 0, seminfo = SemNone\<rparr>,
     ahead = \<lparr>token = 0, seminfo = SemNone\<rparr>, lz = luaZ_init getS (of_buffer []),
     lbuff = \<lparr>mbuffer = [], mn = 0, buffsize = 0\<rparr>, lsource = [], decpoint = 0, lex_h = (\<lambda>_. None)\<rparr>"

theorem llex_progress_witness:
  "\<exists>ls. luaX_setinput True ex_lex (luaZ_init getS (of_buffer (bytes_of ''--[[x]] y''))) [] = Inr ls \<and>
    (case llex 10 True None SemNone ls of
      Inl e \<Rightarrow> \<exists>msg t. e = ErrSyntax msg t
    | Inr (t, _, ls') \<Rightarrow> t = TK_EOS \<and> current ls' = EOZ
        \<or> (\<exists>p s'. bytes_of ''--[[x]] y'' = p @ s' \<and> p \<noteq> [] \<and> lex_ready getS LoadS_content s' ls'))"
proof -
  obtain ls where ls: "luaX_setinput True ex_lex (luaZ_init getS (of_buffer (bytes_of ''--[[x]] y''))) [] = Inr ls"
    "lex_ready getS LoadS_content (bytes_of ''--[[x]] y'') ls"
    by (rule setinput_ready [of "bytes_of ''--[[x]] y''" True ex_lex "[]"]) simp_all
  have len: "length (bytes_of ''--[[x]] y'') < 10" "length (bytes_of ''--[[x]] y'') < 2 ^ 28" by simp_all
  have "last (bytes_of ''--[[x]] y'') \<notin> {of_char (CHR ''x''), of_char (CHR ''L'')}" by (simp add: bytes_of_def of_char_def)
  then show ?thesis using llex_progress [OF ls(2) len, of True None SemNone] ls(1) by blast
qed

text \<open>
  C20: what \<open>string.format\<close> writes for \<open>%q\<close> is read back by the scanner as the string it was given,
  whatever bytes that holds, and the scanner counts the line breaks inside it.
\<close>

theorem quoted_string:
  assumes "q = hd (bstack (luaL_pushresult (luaI_addquoted (luaL_buffinit st) cs)))"
    and "lex_ready getS LoadS_content (q @ s) ls" and "token (ahead ls) = TK_EOS"
    and "length cs < fuel" and "length cs + 2 \<le> MAX_TOKEN"
    and "linenumber ls + int (count_list cs 10) + 1 < MAX_INT"
  shows "\<exists>ls'. luaX_next fuel le cv ls = Inr ls' \<and> tok ls' = \<lparr>token = TK_STRING, seminfo = SemString cs\<rparr>
    \<and> lex_ready getS LoadS_content s ls' \<and> linenumber ls' = linenumber ls + int (count_list cs 10)"
proof -
  let ?ls = "ls\<lparr>lastline := linenumber ls\<rparr>"
  have q: "q = quoted cs" using assms(1) by (simp add: addquoted_result)
  have at: "lex_ready getS LoadS_content (quoted cs @ s) ?ls"
    using assms(2) unfolding q by (rule lex_ready_cong) simp_all
  obtain ls' where "llex fuel le cv (seminfo (tok ?ls)) ?ls = Inr (TK_STRING, SemString cs, ls')"
    "lex_ready getS LoadS_content s ls'" "linenumber ls' = linenumber ls + int (count_list cs 10)"
    using string_reader.llex_quoted [OF at assms(4,5), of le cv "seminfo (tok ?ls)"] assms(6) by auto
  then show ?thesis using assms(3)
    by (intro exI [of _ "ls'\<lparr>tok := \<lparr>token = TK_STRING, seminfo = SemString cs\<rparr>\<rparr>"])
      (auto simp: luaX_next_def Let_def intro: lex_ready_cong)
qed

theorem quoted_string_witness:
  "\<exists>ls ls'. luaX_setinput True ex_lex (luaZ_init getS (of_buffer [34, 97, 92, 10, 92, 48, 48, 48, 34, 32])) [] = Inr ls
    \<and> luaX_next 5 True None ls = Inr ls' \<and> tok ls' = \<lparr>token = TK_STRING, seminfo = SemString [97, 10, 0]\<rparr>
    \<and> linenumber ls' = 2"
proof -
  obtain ls where ls: "luaX_setinput True ex_lex
      (luaZ_init getS (of_buffer [34, 97, 92, 10, 92, 48, 48, 48, 34, 32])) [] = Inr ls"
    "lex_ready getS LoadS_content [34, 97, 92, 10, 92, 48, 48, 48, 34, 32] ls"
    "linenumber ls = 1" "token (ahead ls) = TK_EOS"
    by (rule setinput_ready [of "[34, 97, 92, 10, 92, 48, 48, 48, 34, 32]" True ex_lex "[]"]) simp_all
  have q: "hd (bstack (luaL_pushresult (luaI_addquoted (luaL_buffinit []) [97, 10, 0]))) @ [32]
      = [34, 97, 92, 10, 92, 48, 48, 48, 34, 32]"
    by (simp add: addquoted_result quoted_def quote_def)
  have nl: "count_list [97, 10, 0] (10 :: byte) = 1" by simp
  have "\<exists>ls'. luaX_next 5 True None ls = Inr ls' \<and> tok ls' = \<lparr>token = TK_STRING, seminfo = SemString [97, 10, 0]\<rparr>
    \<and> lex_ready getS LoadS_content [32] ls' \<and> linenumber ls' = linenumber ls + int (count_list [97, 10, 0] (10 :: byte))"
    by (rule quoted_string [OF refl, of "[]" "[97, 10, 0]" "[32]"])
      (simp_all only: q ls, simp_all add: MAX_TOKEN_def MAX_INT_def INT_MAX_def)
  then obtain ls' where "luaX_next 5 True None ls = Inr ls'"
    "tok ls' = \<lparr>token = TK_STRING, seminfo = SemString [97, 10, 0]\<rparr>" "linenumber ls' = 2"
    unfolding nl ls(3) by auto
  with ls(1) show ?thesis by blast
qed

text \<open>
  C22: a word of letters, digits and underscores that does not start with \<open>L\<close> is read whole, as the
  token of the reserved word it spells or as a name.
\<close>

theorem name_token:
  assumes "lex_ready getS LoadS_content (b # v @ s) ls"
    and "isalpha (uint b) \<or> uint b = ch (CHR ''_'')" and "b \<noteq> of_char (CHR ''L'')"
    and "list_all (\<lambda>b. isalnum (uint b) \<or> uint b = ch (CHR ''_'')) v"
    and "s \<noteq> [] \<longrightarrow> \<not> isalnum (uint (hd s)) \<and> uint (hd s) \<noteq> ch (CHR ''_'')"
    and "length v < fuel" and "length v < MAX_TOKEN"
  shows "\<exists>ls'. llex fuel le cv si ls =
      (if ts_reserved (b # v) > 0 then Inr (ts_reserved (b # v) - 1 + FIRST_RESERVED, si, ls')
       else Inr (TK_NAME, SemString (b # v), ls'))
    \<and> lex_ready getS LoadS_content s ls' \<and> linenumber ls' = linenumber ls"
  by (rule string_reader.llex_name [OF assms(1-4) _ assms(6,7)]) (use assms(5) in blast)

theorem name_token_witness:
  "\<exists>ls ls'. luaX_setinput True ex_lex (luaZ_init getS (of_buffer (bytes_of ''end ''))) [] = Inr ls
    \<and> llex 5 True None SemNone ls = Inr (TK_END, SemNone, ls')"
proof -
  obtain ls where ls: "luaX_setinput True ex_lex (luaZ_init getS (of_buffer (bytes_of ''end ''))) [] = Inr ls"
    "lex_ready getS LoadS_content (bytes_of ''end '') ls"
    by (rule setinput_ready [of "bytes_of ''end ''" True ex_lex "[]"]) simp_all
  have b: "bytes_of ''end '' = 101 # [110, 100] @ [32]" by (simp add: bytes_of_def of_char_def)
  have "ts_reserved [101, 110, 100] = 7" by code_simp
  moreover have "\<exists>ls'. llex 5 True None SemNone ls =
      (if ts_reserved (101 # [110, 100]) > 0
       then Inr (ts_reserved (101 # [110, 100]) - 1 + FIRST_RESERVED, SemNone, ls')
       else Inr (TK_NAME, SemString (101 # [110, 100]), ls'))
    \<and> lex_ready getS LoadS_content [32] ls' \<and> linenumber ls' = linenumber ls"
    by (rule name_token [OF ls(2) [unfolded b]])
      (simp_all add: isalpha_def isalnum_def isdigit_def ch_def of_char_def MAX_TOKEN_def)
  ultimately have "\<exists>ls'. llex 5 True None SemNone ls = Inr (TK_END, SemNone, ls')"
    by (auto simp: TK_END_def)
  with ls(1) show ?thesis by blast
qed

text \<open>
  C23: a name that starts with \<open>L\<close> takes the character after the \<open>L\<close> whatever it is, quotes apart:
  \<open>L=1\<close> is the single name \<open>L=1\<close>, and a variable called \<open>L\<close> cannot be used.
\<close>

theorem name_L_swallows:
  assumes "lex_ready getS LoadS_content (of_char (CHR ''L'') # b # v @ s) ls"
    and "b \<noteq> 34" and "b \<noteq> 39"
    and "list_all (\<lambda>b. isalnum (uint b) \<or> uint b = ch (CHR ''_'')) v"
    and "s \<noteq> [] \<longrightarrow> \<not> isalnum (uint (hd s)) \<and> uint (hd s) \<noteq> ch (CHR ''_'')"
    and "length v < fuel" and "length v + 1 < MAX_TOKEN"
  shows "\<exists>ls'. llex fuel le cv si ls = Inr (TK_NAME, SemString (of_char (CHR ''L'') # b # v), ls')
    \<and> lex_ready getS LoadS_content s ls'"
proof -
  have L: "of_char (CHR ''L'') = (76 :: byte)" by (simp add: of_char_def)
  show ?thesis
    using string_reader.llex_L [OF assms(1) [unfolded L] assms(2-4) _ assms(6,7), of le cv si] assms(5)
    unfolding L by blast
qed

theorem name_L_swallows_witness:
  "\<exists>ls ls'. luaX_setinput True ex_lex (luaZ_init getS (of_buffer (bytes_of ''L= 1''))) [] = Inr ls
    \<and> llex 5 True None SemNone ls = Inr (TK_NAME, SemString (bytes_of ''L=''), ls')"
proof -
  obtain ls where ls: "luaX_setinput True ex_lex (luaZ_init getS (of_buffer (bytes_of ''L= 1''))) [] = Inr ls"
    "lex_ready getS LoadS_content (bytes_of ''L= 1'') ls"
    by (rule setinput_ready [of "bytes_of ''L= 1''" True ex_lex "[]"]) simp_all
  have b: "bytes_of ''L= 1'' = of_char (CHR ''L'') # 61 # [] @ [32, 49]" "bytes_of ''L='' = [of_char (CHR ''L''), 61]"
    by (simp_all add: bytes_of_def of_char_def)
  have "\<exists>ls'. llex 5 True None SemNone ls = Inr (TK_NAME, SemString (of_char (CHR ''L'') # 61 # []), ls')
    \<and> lex_ready getS LoadS_content [32, 49] ls'"
    by (rule name_L_swallows [OF ls(2) [unfolded b]])
      (simp_all add: isalpha_def isalnum_def isdigit_def ch_def of_char_def MAX_TOKEN_def)
  with ls(1) show ?thesis unfolding b(2) by blast
qed

end

