(* ===== verification/StringTable.thy ===== *)
theory StringTable
  imports LuaProto Undump "HOL-Library.Multiset"
begin

text \<open>
  The string table (\<open>lstring.c\<close>, \<open>lstring.h\<close>): every string of the interpreter exists once, so that
  the interpreter compares strings by address. A chain of string objects linked through \<open>gch.next\<close>
  is a list; an object carries the address it was allocated at (\<open>ts_addr\<close>). Where the code allocates,
  the definitions take what the allocator returns: an address, or \<open>None\<close> when it is out of memory.
\<close>

section \<open>String objects\<close>

definition LUA_TSTRING :: int where "LUA_TSTRING = 4"
definition LUA_TWSTRING :: int where "LUA_TWSTRING = 9"

text \<open>\<open>ts_data\<close> are the bytes after the header, without the zero that ends them.\<close>

record TString =
  ts_addr :: addr
  ts_tt :: int
  ts_len :: u32
  ts_hash :: u32
  ts_marked :: byte
  ts_reserved :: byte
  ts_data :: "byte list"

record stringtable =
  hash :: "TString list list"
  nuse :: u32

abbreviation tb_size :: "stringtable \<Rightarrow> int" where "tb_size tb \<equiv> int (length (hash tb))"

record global_State =
  strt :: stringtable
  currentwhite :: byte
  gcstate :: int

definition GCSsweepstring :: int where "GCSsweepstring = 2"

definition WHITEBITS :: byte where "WHITEBITS = 3"

definition luaC_white :: "global_State \<Rightarrow> byte" where
  "luaC_white g = currentwhite g AND WHITEBITS"

definition otherwhite :: "global_State \<Rightarrow> byte" where
  "otherwhite g = currentwhite g XOR WHITEBITS"

definition isdead :: "global_State \<Rightarrow> TString \<Rightarrow> bool" where
  "isdead g ts \<longleftrightarrow> ts_marked ts AND otherwhite g AND WHITEBITS \<noteq> 0"

definition changewhite :: "TString \<Rightarrow> TString" where
  "changewhite ts = ts\<lparr>ts_marked := ts_marked ts XOR WHITEBITS\<rparr>"

definition FIXEDBIT :: nat where "FIXEDBIT = 5"

definition luaS_fix :: "TString \<Rightarrow> TString" where
  "luaS_fix ts = ts\<lparr>ts_marked := ts_marked ts OR push_bit FIXEDBIT 1\<rparr>"

text \<open>\<open>lmod\<close>: the remainder by a power of two.\<close>

definition lmod :: "u32 \<Rightarrow> int \<Rightarrow> nat" where
  "lmod s sz = nat (c_int (s AND (c_uint sz - 1)))"

section \<open>Hashing\<close>

text \<open>
  The loop that hashes at most 32 of the characters \<open>str\<close>, from the last; a character is given as the
  unsigned value it has in the computation.
\<close>

function hash_loop :: "u32 list \<Rightarrow> nat \<Rightarrow> nat \<Rightarrow> u32 \<Rightarrow> u32" where
  "hash_loop str step l1 h =
     (if step \<le> l1 \<and> 0 < step
      then hash_loop str step (l1 - step) (h XOR (push_bit 5 h + drop_bit 2 h + str ! (l1 - 1)))
      else h)"
  by pat_completeness auto
termination by (relation "measure (\<lambda>(str, step, l1, h). l1)") auto

declare hash_loop.simps [simp del]

definition str_hash :: "u32 list \<Rightarrow> u32" where
  "str_hash str =
     (let l = length str; step = l div 32 + 1 in hash_loop str step l (of_nat l))"

definition luaS_hash :: "byte list \<Rightarrow> u32" where
  "luaS_hash str = str_hash (map ucast str)"

definition luaS_whash :: "wchar list \<Rightarrow> u32" where
  "luaS_whash str = str_hash (map ucast str)"

section \<open>The table\<close>

text \<open>One string moves to the front of its new chain.\<close>

definition chain_string :: "int \<Rightarrow> TString \<Rightarrow> TString list list \<Rightarrow> TString list list" where
  "chain_string newsize ts newhash =
     (let h1 = lmod (ts_hash ts) newsize in newhash[h1 := ts # newhash ! h1])"

definition luaS_resize :: "bool \<Rightarrow> global_State \<Rightarrow> int \<Rightarrow> global_State result" where
  "luaS_resize mem_ok g newsize =
     (if gcstate g = GCSsweepstring then Inr g
      else bnd (luaM_reallocv (c_uint newsize) 4) (\<lambda>_.
        if \<not> mem_ok then Inl ErrMem
        else let newhash = replicate (nat newsize) [];
                 newhash = fold (\<lambda>chain nh. fold (\<lambda>ts nh. chain_string newsize ts nh) chain nh) (hash (strt g)) newhash
             in Inr (g\<lparr>strt := (strt g)\<lparr>hash := newhash\<rparr>\<rparr>)))"

text \<open>
  \<open>newlstr\<close> and \<open>newlwstr\<close>: \<open>csz\<close> is the size of a character, \<open>data\<close> the \<open>l * csz\<close> bytes of the string,
  \<open>p\<close> the block the allocator returns.
\<close>

definition new_string ::
  "int \<Rightarrow> u32 \<Rightarrow> addr option \<Rightarrow> bool \<Rightarrow> global_State \<Rightarrow> byte list \<Rightarrow> u32 \<Rightarrow> u32
     \<Rightarrow> (addr \<times> global_State) result" where
  "new_string tt csz p mem_ok g data l h =
     (if l + 1 > (MAX_SIZET - sizeof_TString) div csz then luaM_toobig
      else case p of
        None \<Rightarrow> Inl ErrMem
      | Some a \<Rightarrow>
          let ts = \<lparr>ts_addr = a, ts_tt = tt, ts_len = l, ts_hash = h, ts_marked = luaC_white g,
                    ts_reserved = 0, ts_data = data\<rparr>;
              tb = strt g;
              h = lmod h (tb_size tb);
              tb = tb\<lparr>hash := (hash tb)[h := ts # hash tb ! h], nuse := nuse tb + 1\<rparr>;
              g = g\<lparr>strt := tb\<rparr>
          in bnd (if nuse tb > c_uint (tb_size tb) \<and> tb_size tb \<le> MAX_INT div 2
                  then luaS_resize mem_ok g (tb_size tb * 2) else Inr g) (\<lambda>g. Inr (a, g)))"

definition newlstr ::
  "addr option \<Rightarrow> bool \<Rightarrow> global_State \<Rightarrow> byte list \<Rightarrow> u32 \<Rightarrow> (addr \<times> global_State) result" where
  "newlstr p mem_ok g str h = new_string LUA_TSTRING 1 p mem_ok g str (of_nat (length str)) h"

definition wbytes :: "bool \<Rightarrow> wchar list \<Rightarrow> byte list" where
  "wbytes le str = concat (map (mem le 2) str)"

definition newlwstr ::
  "bool \<Rightarrow> addr option \<Rightarrow> bool \<Rightarrow> global_State \<Rightarrow> wchar list \<Rightarrow> u32 \<Rightarrow> (addr \<times> global_State) result" where
  "newlwstr le p mem_ok g str h =
     new_string LUA_TWSTRING 2 p mem_ok g (wbytes le str) (of_nat (length str)) h"

text \<open>
  The search of a chain for a string of type \<open>tt\<close>, length \<open>l\<close> and these bytes; a dead string that is
  found comes back to life.
\<close>

definition same_string :: "int \<Rightarrow> u32 \<Rightarrow> byte list \<Rightarrow> TString \<Rightarrow> bool" where
  "same_string tt l data ts \<longleftrightarrow> ts_tt ts = tt \<and> ts_len ts = l \<and> ts_data ts = data"

fun find_string :: "global_State \<Rightarrow> (TString \<Rightarrow> bool) \<Rightarrow> TString list \<Rightarrow> (addr \<times> TString list) option" where
  "find_string g same [] = None"
| "find_string g same (ts # chain) =
     (if same ts then Some (ts_addr ts, (if isdead g ts then changewhite ts else ts) # chain)
      else map_option (\<lambda>(a, chain). (a, ts # chain)) (find_string g same chain))"

definition intern ::
  "(TString \<Rightarrow> bool) \<Rightarrow> u32 \<Rightarrow> (global_State \<Rightarrow> (addr \<times> global_State) result) \<Rightarrow> global_State
     \<Rightarrow> (addr \<times> global_State) result" where
  "intern same h new g =
     (let i = lmod h (tb_size (strt g))
      in case find_string g same (hash (strt g) ! i) of
           Some (a, chain) \<Rightarrow> Inr (a, g\<lparr>strt := (strt g)\<lparr>hash := (hash (strt g))[i := chain]\<rparr>\<rparr>)
         | None \<Rightarrow> new g)"

definition luaS_newlstr ::
  "addr option \<Rightarrow> bool \<Rightarrow> global_State \<Rightarrow> byte list \<Rightarrow> (addr \<times> global_State) result" where
  "luaS_newlstr p mem_ok g str =
     (let h = luaS_hash str
      in intern (same_string LUA_TSTRING (of_nat (length str)) str) h
           (\<lambda>g. newlstr p mem_ok g str h) g)"

definition luaS_newlwstr ::
  "bool \<Rightarrow> addr option \<Rightarrow> bool \<Rightarrow> global_State \<Rightarrow> wchar list \<Rightarrow> (addr \<times> global_State) result" where
  "luaS_newlwstr le p mem_ok g str =
     (let h = luaS_whash str
      in intern (same_string LUA_TWSTRING (of_nat (length str)) (wbytes le str)) h
           (\<lambda>g. newlwstr le p mem_ok g str h) g)"

section \<open>What the table keeps\<close>

lemma lmod_eq:
  assumes "k \<le> 30"
  shows "lmod s (2 ^ k) = unat s mod 2 ^ k"
proof -
  have "c_uint (2 ^ k) - 1 = mask k"
    using assms by (simp add: c_uint_def mask_eq_decr_exp)
  then have "s AND (c_uint (2 ^ k) - 1) = take_bit k s" by (simp add: take_bit_eq_mask)
  moreover have u: "uint (take_bit k s) = int (unat s mod 2 ^ k)"
    unfolding unsigned_take_bit_eq by (simp add: take_bit_eq_mod zmod_int)
  moreover have "c_int (take_bit k s) = uint (take_bit k s)"
  proof (rule c_int_small)
    have "unat s mod 2 ^ k < 2 ^ k" by simp
    also have "(2::nat) ^ k \<le> 2 ^ 30" using assms by (intro power_increasing) simp_all
    finally show "uint (take_bit k s) < 2147483648" unfolding u by simp
  qed
  ultimately show ?thesis by (simp add: lmod_def)
qed

text \<open>A well-formed string object, and a table in which each string is in its chain and there is once.\<close>

definition ts_ok :: "bool \<Rightarrow> TString \<Rightarrow> bool" where
  "ts_ok le ts \<longleftrightarrow>
     ts_tt ts = LUA_TSTRING \<and> ts_len ts = of_nat (length (ts_data ts)) \<and> ts_hash ts = luaS_hash (ts_data ts)
   \<or> ts_tt ts = LUA_TWSTRING \<and> (\<exists>str. ts_data ts = wbytes le str \<and> ts_len ts = of_nat (length str)
        \<and> ts_hash ts = luaS_whash str)"

definition strings :: "global_State \<Rightarrow> TString list" where
  "strings g = concat (hash (strt g))"

definition ts_entry :: "TString \<Rightarrow> (int \<times> byte list) \<times> addr" where
  "ts_entry ts = ((ts_tt ts, ts_data ts), ts_addr ts)"

definition strt_ok :: "bool \<Rightarrow> global_State \<Rightarrow> bool" where
  "strt_ok le g \<longleftrightarrow>
     (\<exists>k\<le>30. length (hash (strt g)) = 2 ^ k)
   \<and> (\<forall>i<length (hash (strt g)). \<forall>ts\<in>set (hash (strt g) ! i). lmod (ts_hash ts) (tb_size (strt g)) = i)
   \<and> (\<forall>ts\<in>set (strings g). ts_ok le ts)
   \<and> distinct (map (fst \<circ> ts_entry) (strings g)) \<and> distinct (map (snd \<circ> ts_entry) (strings g))
   \<and> nuse (strt g) = of_nat (length (strings g))"

text \<open>The abstract table: the address of each string.\<close>

definition strt_map :: "global_State \<Rightarrow> int \<times> byte list \<Rightarrow> addr option" where
  "strt_map g = map_of (map ts_entry (strings g))"

lemma strt_map_mset:
  assumes "distinct (map (fst \<circ> ts_entry) (strings g))"
    and "mset (map ts_entry (strings g')) = mset (map ts_entry (strings g))"
  shows "strt_map g' = strt_map g"
proof -
  have "mset (map fst (map ts_entry (strings g'))) = mset (map fst (map ts_entry (strings g)))"
    using assms(2) by (metis mset_map)
  moreover have "distinct (map fst (map ts_entry (strings g)))" using assms(1) by simp
  ultimately have "distinct (map fst (map ts_entry (strings g')))"
    using mset_eq_imp_distinct_iff by blast
  then show ?thesis
    unfolding strt_map_def
    using assms(1) mset_eq_setD [OF assms(2)] by (subst map_of_inject_set) simp_all
qed

lemma strt_map_Some:
  assumes "distinct (map (fst \<circ> ts_entry) (strings g))"
  shows "strt_map g k = Some a \<longleftrightarrow> (k, a) \<in> ts_entry ` set (strings g)"
  using assms by (simp add: strt_map_def)

lemma mset_concat_update:
  "i < length xs \<Longrightarrow> mset (concat (xs[i := ys])) + mset (xs ! i) = mset (concat xs) + mset ys"
  by (induction xs arbitrary: i) (auto split: nat.split simp: ac_simps)

lemma mset_concat_cons:
  assumes "i < length xs"
  shows "mset (concat (xs[i := y # xs ! i])) = add_mset y (mset (concat xs))"
  using mset_concat_update [OF assms, of "y # xs ! i"] by simp

text \<open>All of a string object but its mark.\<close>

definition ts_core :: "TString \<Rightarrow> TString" where
  "ts_core ts = ts\<lparr>ts_marked := 0\<rparr>"

lemma ts_core_changewhite [simp]: "ts_core (changewhite ts) = ts_core ts"
  by (simp add: ts_core_def changewhite_def)

lemma ts_core_facts [simp]:
  "ts_entry (ts_core ts) = ts_entry ts" "ts_ok le (ts_core ts) = ts_ok le ts"
  "ts_hash (ts_core ts) = ts_hash ts"
  by (simp_all add: ts_core_def ts_entry_def ts_ok_def)

lemma ts_core_map:
  assumes "map ts_core xs = map ts_core ys"
  shows "map ts_entry xs = map ts_entry ys" "(\<forall>ts\<in>set xs. ts_ok le ts) \<longleftrightarrow> (\<forall>ts\<in>set ys. ts_ok le ts)"
    "ts_hash ` set xs = ts_hash ` set ys"
proof -
  have "map ts_entry zs = map ts_entry (map ts_core zs)"
    "(\<forall>ts\<in>set zs. ts_ok le ts) \<longleftrightarrow> (\<forall>ts\<in>set (map ts_core zs). ts_ok le ts)"
    "ts_hash ` set zs = ts_hash ` set (map ts_core zs)" for zs
    by (simp_all add: image_image)
  with assms show "map ts_entry xs = map ts_entry ys"
    "(\<forall>ts\<in>set xs. ts_ok le ts) \<longleftrightarrow> (\<forall>ts\<in>set ys. ts_ok le ts)"
    "ts_hash ` set xs = ts_hash ` set ys" by metis+
qed

lemma find_string_None: "find_string g same chain = None \<longleftrightarrow> (\<forall>ts\<in>set chain. \<not> same ts)"
  by (induction chain) auto

lemma find_string_Some:
  "find_string g same chain = Some (a, chain') \<Longrightarrow>
     map ts_core chain' = map ts_core chain \<and> (\<exists>ts\<in>set chain. same ts \<and> a = ts_addr ts)"
  by (induction chain arbitrary: chain') (auto split: if_split_asm)

text \<open>A table whose chains have the same objects up to their marks.\<close>

lemma strt_ok_core:
  assumes ok: "strt_ok le g" and i: "i < length (hash (strt g))"
    and c: "map ts_core chain = map ts_core (hash (strt g) ! i)"
  defines "g' \<equiv> g\<lparr>strt := (strt g)\<lparr>hash := (hash (strt g))[i := chain]\<rparr>\<rparr>"
  shows "strt_ok le g' \<and> strt_map g' = strt_map g"
proof -
  let ?h = "hash (strt g)"
  have "map (map ts_core) (?h[i := chain]) = map (map ts_core) ?h"
    using c i by (simp add: map_update list_update_same_conv)
  then have core: "map ts_core (strings g') = map ts_core (strings g)"
    by (simp add: strings_def g'_def map_concat)
  note cm = ts_core_map [OF core]
  have ent: "map ts_entry (strings g') = map ts_entry (strings g)" by (rule cm(1))
  then have len: "length (strings g') = length (strings g)" by (metis length_map)
  have dist: "distinct (map (fst \<circ> ts_entry) (strings g'))" "distinct (map (snd \<circ> ts_entry) (strings g'))"
    using ok ent unfolding strt_ok_def by (metis map_map)+
  have "lmod (ts_hash ts) (tb_size (strt g')) = j"
    if "j < length (hash (strt g'))" "ts \<in> set (hash (strt g') ! j)" for j ts
  proof (cases "j = i")
    case False
    with that ok show ?thesis by (simp add: strt_ok_def g'_def)
  next
    case True
    then have "ts_hash ts \<in> ts_hash ` set (?h ! i)" using that i ts_core_map(3) [OF c] by (auto simp: g'_def)
    with True i ok show ?thesis by (auto simp: strt_ok_def g'_def)
  qed
  then show ?thesis
    using ok dist len cm(2) ent by (simp add: strt_ok_def strt_map_def) (simp add: g'_def)
qed

section \<open>Growing the table\<close>

definition in_place :: "TString list list \<Rightarrow> bool" where
  "in_place hs \<longleftrightarrow> (\<forall>i<length hs. \<forall>ts\<in>set (hs ! i). lmod (ts_hash ts) (int (length hs)) = i)"

lemma lmod_less: "k \<le> 30 \<Longrightarrow> lmod h (2 ^ k) < 2 ^ k"
  by (simp add: lmod_eq)

lemma chain_string_ok:
  assumes "k \<le> 30" "length nh = 2 ^ k" "in_place nh"
  shows "length (chain_string (2 ^ k) ts nh) = 2 ^ k \<and> in_place (chain_string (2 ^ k) ts nh)
    \<and> mset (concat (chain_string (2 ^ k) ts nh)) = add_mset ts (mset (concat nh))"
proof -
  have l: "lmod (ts_hash ts) (2 ^ k) < length nh" using assms by (simp add: lmod_less)
  have "in_place (chain_string (2 ^ k) ts nh)"
    using assms l by (auto simp: chain_string_def Let_def in_place_def nth_list_update)
  with assms l show ?thesis
    by (simp add: chain_string_def Let_def mset_concat_cons)
qed

lemma fold_chain_ok:
  "k \<le> 30 \<Longrightarrow> length nh = 2 ^ k \<Longrightarrow> in_place nh \<Longrightarrow>
   length (fold (\<lambda>ts nh. chain_string (2 ^ k) ts nh) xs nh) = 2 ^ k
   \<and> in_place (fold (\<lambda>ts nh. chain_string (2 ^ k) ts nh) xs nh)
   \<and> mset (concat (fold (\<lambda>ts nh. chain_string (2 ^ k) ts nh) xs nh)) = mset xs + mset (concat nh)"
proof (induction xs arbitrary: nh)
  case (Cons x xs)
  from chain_string_ok [OF Cons.prems, of x] have
    c: "length (chain_string (2 ^ k) x nh) = 2 ^ k" "in_place (chain_string (2 ^ k) x nh)"
      "mset (concat (chain_string (2 ^ k) x nh)) = add_mset x (mset (concat nh))" by blast+
  from Cons.IH [OF Cons.prems(1) c(1,2)] show ?case by (simp add: c(3))
qed simp

lemma fold_chains_ok:
  "k \<le> 30 \<Longrightarrow> length nh = 2 ^ k \<Longrightarrow> in_place nh \<Longrightarrow>
   length (fold (\<lambda>chain nh. fold (\<lambda>ts nh. chain_string (2 ^ k) ts nh) chain nh) xss nh) = 2 ^ k
   \<and> in_place (fold (\<lambda>chain nh. fold (\<lambda>ts nh. chain_string (2 ^ k) ts nh) chain nh) xss nh)
   \<and> mset (concat (fold (\<lambda>chain nh. fold (\<lambda>ts nh. chain_string (2 ^ k) ts nh) chain nh) xss nh))
     = mset (concat xss) + mset (concat nh)"
proof (induction xss arbitrary: nh)
  case (Cons x xs)
  from fold_chain_ok [OF Cons.prems, of x] Cons.IH [OF Cons.prems(1)] show ?case
    by (simp add: ac_simps)
qed simp

lemma distinct_map_mset: "mset xs = mset ys \<Longrightarrow> distinct (map f xs) \<longleftrightarrow> distinct (map f ys)"
  by (rule mset_eq_imp_distinct_iff) simp

text \<open>The invariant speaks of the strings as a multiset, but for their place.\<close>

lemma strt_ok_mset:
  assumes "strt_ok le g" and "k \<le> 30" "length (hash (strt g')) = 2 ^ k" "in_place (hash (strt g'))"
    and m: "mset (strings g') = mset (strings g)" and "nuse (strt g') = nuse (strt g)"
  shows "strt_ok le g' \<and> strt_map g' = strt_map g"
proof -
  have "set (strings g') = set (strings g)" using m by (rule mset_eq_setD)
  moreover have "length (strings g') = length (strings g)" using m by (rule mset_eq_length)
  moreover have "strt_map g' = strt_map g"
    using assms(1) m by (intro strt_map_mset) (simp_all add: strt_ok_def)
  ultimately show ?thesis
    using assms distinct_map_mset [OF m, of "fst \<circ> ts_entry"] distinct_map_mset [OF m, of "snd \<circ> ts_entry"]
    unfolding strt_ok_def in_place_def by auto
qed

lemma resize_ok:
  assumes ok: "strt_ok le g" and k: "k \<le> 30" and r: "luaS_resize mem_ok g (2 ^ k) = Inr g'"
  shows "strt_ok le g' \<and> strt_map g' = strt_map g"
proof (cases "gcstate g = GCSsweepstring")
  case True
  with ok r show ?thesis by (simp add: luaS_resize_def)
next
  case False
  let ?nh = "fold (\<lambda>chain nh. fold (\<lambda>ts nh. chain_string (2 ^ k) ts nh) chain nh) (hash (strt g))
      (replicate (2 ^ k) [])"
  from False r have g': "g' = g\<lparr>strt := (strt g)\<lparr>hash := ?nh\<rparr>\<rparr>"
    by (auto simp: luaS_resize_def nat_power_eq results split: if_split_asm)
  have "in_place (replicate (2 ^ k) [])" by (simp add: in_place_def)
  from fold_chains_ok [OF k _ this, of "hash (strt g)"]
  have "length ?nh = 2 ^ k" "in_place ?nh" "mset (concat ?nh) = mset (strings g)"
    by (simp_all add: strings_def)
  then show ?thesis
    by (intro strt_ok_mset [OF ok k]) (simp_all add: g' strings_def)
qed

section \<open>Interning\<close>

lemma strt_ok_size:
  assumes "strt_ok le g"
  obtains k where "k \<le> 30" "tb_size (strt g) = 2 ^ k" "length (hash (strt g)) = 2 ^ k"
  using assms by (auto simp: strt_ok_def)

lemma new_string_ok:
  assumes ok: "strt_ok le g" and new: "strt_map g (tt, data) = None" and a: "a \<notin> ran (strt_map g)"
    and ts: "ts_ok le \<lparr>ts_addr = a, ts_tt = tt, ts_len = l, ts_hash = h, ts_marked = luaC_white g,
                    ts_reserved = 0, ts_data = data\<rparr>" (is "ts_ok le ?ts")
    and r: "new_string tt csz (Some a) mem_ok g data l h = Inr (a', g')"
  shows "a' = a \<and> strt_ok le g' \<and> strt_map g' = (strt_map g)((tt, data) \<mapsto> a)"
proof -
  obtain k where k: "k \<le> 30" "tb_size (strt g) = 2 ^ k" "length (hash (strt g)) = 2 ^ k"
    using strt_ok_size [OF ok] .
  let ?i = "lmod h (tb_size (strt g))"
  have i: "?i < length (hash (strt g))" using k by (simp add: lmod_less)
  let ?g = "g\<lparr>strt := (strt g)\<lparr>hash := (hash (strt g))[?i := ?ts # hash (strt g) ! ?i], nuse := nuse (strt g) + 1\<rparr>\<rparr>"
  have m: "mset (strings ?g) = add_mset ?ts (mset (strings g))"
    using i by (simp add: strings_def mset_concat_cons)
  have m': "mset (strings ?g) = mset (?ts # strings g)" using m by simp
  note d = distinct_map_mset [OF m', of "fst \<circ> ts_entry"] distinct_map_mset [OF m', of "snd \<circ> ts_entry"]
  have dk: "distinct (map (fst \<circ> ts_entry) (strings g))" using ok by (simp add: strt_ok_def)
  have "(tt, data) \<notin> fst ` ts_entry ` set (strings g)"
    using new by (simp add: strt_map_def map_of_eq_None_iff image_image)
  then have dk': "distinct (map (fst \<circ> ts_entry) (?ts # strings g))"
    using dk by (auto simp: ts_entry_def image_image)
  have "a \<notin> snd ` ts_entry ` set (strings g)"
  proof
    assume "a \<in> snd ` ts_entry ` set (strings g)"
    then obtain e where "e \<in> ts_entry ` set (strings g)" "a = snd e" by blast
    then obtain k' where "(k', a) \<in> ts_entry ` set (strings g)" by (metis surjective_pairing)
    then have "strt_map g k' = Some a" by (simp add: strt_map_Some [OF dk])
    with a show False by (metis ranI)
  qed
  then have da': "distinct (map (snd \<circ> ts_entry) (?ts # strings g))"
    using ok by (auto simp: ts_entry_def image_image strt_ok_def)
  have sets: "set (strings ?g) = insert ?ts (set (strings g))" using mset_eq_setD [OF m'] by simp
  have len: "length (strings ?g) = Suc (length (strings g))"
    using mset_eq_length [OF m'] by simp
  have place: "in_place (hash (strt ?g))"
    using ok i k by (auto simp: in_place_def strt_ok_def nth_list_update)
  have ok1: "strt_ok le ?g"
    unfolding strt_ok_def
    using k place sets len ok ts d dk' da'
    by (auto simp: in_place_def strt_ok_def simp del: list.map)
  have map1: "strt_map ?g = (strt_map g)((tt, data) \<mapsto> a)"
  proof -
    have "strt_map ?g = map_of (map ts_entry (?ts # strings g))"
      unfolding strt_map_def
    proof (subst map_of_inject_set)
      show "distinct (map fst (map ts_entry (strings ?g)))" using d dk' by (simp only: map_map)
      show "distinct (map fst (map ts_entry (?ts # strings g)))" using dk' by (simp only: map_map)
      show "set (map ts_entry (strings ?g)) = set (map ts_entry (?ts # strings g))"
        using sets by simp
    qed
    then show ?thesis by (simp add: ts_entry_def strt_map_def)
  qed
  from r have a': "a' = a" and r': "(if nuse (strt ?g) > c_uint (tb_size (strt ?g)) \<and> tb_size (strt ?g) \<le> MAX_INT div 2
      then luaS_resize mem_ok ?g (tb_size (strt ?g) * 2) else Inr ?g) = Inr g'"
    by (auto simp: new_string_def Let_def results luaM_toobig_def split: if_split_asm)
  have "strt_ok le g' \<and> strt_map g' = strt_map ?g"
  proof (cases "nuse (strt ?g) > c_uint (tb_size (strt ?g)) \<and> tb_size (strt ?g) \<le> MAX_INT div 2")
    case False
    then show ?thesis using r' ok1 by (simp only: if_False) simp
  next
    case True
    then have "(2::int) ^ k < 2 ^ 30" using k(2,3) by (simp add: MAX_INT_def INT_MAX_def)
    then have "k < 30" by (rule power_less_imp_less_exp [rotated]) simp
    moreover have "tb_size (strt ?g) * 2 = 2 ^ Suc k" using k(3) by simp
    ultimately show ?thesis using True r' resize_ok [OF ok1, of "Suc k" mem_ok g'] by (simp only: if_True) simp
  qed
  with a' map1 show ?thesis by simp
qed

text \<open>What interning promises: the string's address, and no other change.\<close>

definition interned :: "global_State \<Rightarrow> int \<times> byte list \<Rightarrow> addr \<Rightarrow> addr \<times> global_State \<Rightarrow> bool" where
  "interned g k a r \<longleftrightarrow>
     (case strt_map g k of
        Some b \<Rightarrow> fst r = b \<and> strt_map (snd r) = strt_map g
      | None \<Rightarrow> fst r = a \<and> strt_map (snd r) = (strt_map g)(k \<mapsto> a))"

lemma intern_ok:
  assumes ok: "strt_ok le g" and a: "a \<notin> ran (strt_map g)"
    and h: "\<And>ts. ts_ok le ts \<Longrightarrow> ts_tt ts = tt \<Longrightarrow> ts_data ts = data \<Longrightarrow> ts_hash ts = h \<and> ts_len ts = l"
    and ts: "ts_ok le \<lparr>ts_addr = a, ts_tt = tt, ts_len = l, ts_hash = h, ts_marked = luaC_white g,
                    ts_reserved = 0, ts_data = data\<rparr>"
    and r: "intern (same_string tt l data) h (\<lambda>g. new_string tt csz (Some a) mem_ok g data l h) g = Inr (a', g')"
  shows "strt_ok le g' \<and> interned g (tt, data) a (a', g')"
proof -
  obtain k where k: "k \<le> 30" "tb_size (strt g) = 2 ^ k" "length (hash (strt g)) = 2 ^ k"
    using strt_ok_size [OF ok] .
  let ?i = "lmod h (tb_size (strt g))"
  have i: "?i < length (hash (strt g))" using k by (simp add: lmod_less)
  have dk: "distinct (map (fst \<circ> ts_entry) (strings g))" using ok by (simp add: strt_ok_def)
  have sub: "set (hash (strt g) ! ?i) \<subseteq> set (strings g)" using i by (force simp: strings_def)
  show ?thesis
  proof (cases "find_string g (same_string tt l data) (hash (strt g) ! ?i)")
    case None
    have "strt_map g (tt, data) = None"
    proof (rule ccontr)
      assume "strt_map g (tt, data) \<noteq> None"
      then obtain b where "strt_map g (tt, data) = Some b" by blast
      then have "((tt, data), b) \<in> ts_entry ` set (strings g)" by (simp add: strt_map_Some [OF dk])
      then obtain t where t: "t \<in> set (strings g)" "ts_tt t = tt" "ts_data t = data"
        by (auto simp: ts_entry_def)
      then have ht: "ts_hash t = h" "ts_len t = l" using h ok by (auto simp: strt_ok_def)
      from t(1) obtain j where j: "j < length (hash (strt g))" "t \<in> set (hash (strt g) ! j)"
        unfolding strings_def by (metis UN_E in_set_conv_nth set_concat)
      then have "j = ?i" using ok ht(1) by (auto simp: strt_ok_def)
      with j t ht None show False by (auto simp: find_string_None same_string_def)
    qed
    moreover from None r have "new_string tt csz (Some a) mem_ok g data l h = Inr (a', g')"
      by (simp add: intern_def)
    ultimately show ?thesis
      using new_string_ok [OF ok _ a ts] by (simp add: interned_def)
  next
    case (Some p)
    then obtain b chain where b: "find_string g (same_string tt l data) (hash (strt g) ! ?i) = Some (b, chain)"
      by (cases p) simp
    with r have g': "a' = b" "g' = g\<lparr>strt := (strt g)\<lparr>hash := (hash (strt g))[?i := chain]\<rparr>\<rparr>"
      by (simp_all add: intern_def)
    from find_string_Some [OF b] obtain t where t: "t \<in> set (hash (strt g) ! ?i)" "ts_tt t = tt" "ts_data t = data"
      "b = ts_addr t" and core: "map ts_core chain = map ts_core (hash (strt g) ! ?i)"
      by (auto simp: same_string_def)
    have "((tt, data), b) \<in> ts_entry ` set (strings g)"
      using t sub by (force simp: ts_entry_def image_iff)
    then have "strt_map g (tt, data) = Some b" by (simp add: strt_map_Some [OF dk])
    with strt_ok_core [OF ok i core] show ?thesis by (simp add: interned_def g')
  qed
qed

lemma newlstr_ok:
  assumes "strt_ok le g" and "a \<notin> ran (strt_map g)" and "luaS_newlstr (Some a) mem_ok g str = Inr (a', g')"
  shows "strt_ok le g' \<and> interned g (LUA_TSTRING, str) a (a', g')"
proof (rule intern_ok [OF assms(1,2)])
  show "intern (same_string LUA_TSTRING (of_nat (length str)) str) (luaS_hash str)
      (\<lambda>g. new_string LUA_TSTRING 1 (Some a) mem_ok g str (of_nat (length str)) (luaS_hash str)) g = Inr (a', g')"
    using assms(3) by (simp add: luaS_newlstr_def newlstr_def Let_def)
qed (auto simp: ts_ok_def LUA_TSTRING_def LUA_TWSTRING_def)

lemma wbytes_inj: "wbytes le s = wbytes le t \<longleftrightarrow> s = t"
proof -
  have "words_of le (wbytes le s) = s" for s
    using words_of_mem [of le s "[]"] by (simp add: wbytes_def)
  then show ?thesis by metis
qed

lemma newlwstr_ok:
  assumes "strt_ok le g" and "a \<notin> ran (strt_map g)" and "luaS_newlwstr le (Some a) mem_ok g str = Inr (a', g')"
  shows "strt_ok le g' \<and> interned g (LUA_TWSTRING, wbytes le str) a (a', g')"
proof (rule intern_ok [OF assms(1,2)])
  have new: "(\<lambda>g. newlwstr le (Some a) mem_ok g str (luaS_whash str))
    = (\<lambda>g. new_string LUA_TWSTRING 2 (Some a) mem_ok g (wbytes le str) (of_nat (length str)) (luaS_whash str))"
    by (rule ext) (rule newlwstr_def)
  show "intern (same_string LUA_TWSTRING (of_nat (length str)) (wbytes le str)) (luaS_whash str)
      (\<lambda>g. new_string LUA_TWSTRING 2 (Some a) mem_ok g (wbytes le str) (of_nat (length str)) (luaS_whash str)) g
        = Inr (a', g')"
    using assms(3) by (simp only: luaS_newlwstr_def new Let_def)
  show "ts_hash ts = luaS_whash str \<and> ts_len ts = of_nat (length str)"
    if "ts_ok le ts" "ts_tt ts = LUA_TWSTRING" "ts_data ts = wbytes le str" for ts
  proof -
    have "ts_tt ts \<noteq> LUA_TSTRING" using that(2) by (simp add: LUA_TSTRING_def LUA_TWSTRING_def)
    with that(1,3) obtain s where "wbytes le str = wbytes le s" "ts_len ts = of_nat (length s)" "ts_hash ts = luaS_whash s"
      unfolding ts_ok_def by auto
    then show ?thesis unfolding wbytes_inj by simp
  qed
  show "ts_ok le \<lparr>ts_addr = a, ts_tt = LUA_TWSTRING, ts_len = of_nat (length str), ts_hash = luaS_whash str,
      ts_marked = luaC_white g, ts_reserved = 0, ts_data = wbytes le str\<rparr>"
    unfolding ts_ok_def by (intro disjI2 conjI exI [of _ str]) simp_all
qed

text \<open>Interning raises no error while the table can still be doubled.\<close>

lemma newlstr_returns:
  assumes "strt_ok le g" and "tb_size (strt g) \<le> 2 ^ 28" and "length str \<le> 2 ^ 31"
  shows "\<exists>r. luaS_newlstr (Some a) True g str = Inr r"
proof -
  obtain k where k: "k \<le> 30" "tb_size (strt g) = 2 ^ k" using strt_ok_size [OF assms(1)] by metis
  have "(2::int) ^ k \<le> 2 ^ 28" using k(2) assms(2) by simp
  then have k28: "k \<le> 28" by (rule power_le_imp_le_exp [rotated]) simp
  have "c_uint (2 ^ k * 2) + 1 \<le> MAX_SIZET div 4"
  proof -
    have p: "(2::int) ^ k \<le> 2 ^ 28" using k28 by (intro power_increasing) simp_all
    then have "uint (c_uint (2 ^ k * 2)) = 2 ^ k * 2" by simp
    moreover have "uint (c_uint (2 ^ k * 2) + 1) = 2 ^ k * 2 + 1"
      using p by (simp add: uint_word_ariths calculation)
    ultimately show ?thesis using p by (simp add: word_le_def MAX_SIZET_def uint_div)
  qed
  then have rs: "\<exists>g'. luaS_resize True h (2 ^ k * 2) = Inr g'" for h
    by (simp add: luaS_resize_def luaM_reallocv_def)
  have len: "\<not> of_nat (length str) + 1 > (MAX_SIZET - sizeof_TString) div (1 :: u32)"
  proof -
    have u: "unat (of_nat (length str) :: u32) = length str" using assms(3) by (intro unat_of_nat_32) simp
    then have "unat ((of_nat (length str) :: u32) + 1) = length str + 1"
      using assms(3) by (simp add: unat_word_ariths)
    then show ?thesis using assms(3) by (simp add: word_less_nat_alt MAX_SIZET_def sizeof_TString_def)
  qed
  show ?thesis
  proof (cases "find_string g (same_string LUA_TSTRING (of_nat (length str)) str)
      (hash (strt g) ! lmod (luaS_hash str) (tb_size (strt g)))")
    case None
    then show ?thesis
      using len k(2) unfolding luaS_newlstr_def intern_def newlstr_def new_string_def Let_def
      by (auto simp: bnd_eq_Inr intro!: rs)
  next
    case (Some p)
    then show ?thesis by (cases p) (simp add: luaS_newlstr_def intern_def Let_def)
  qed
qed

section \<open>Properties\<close>

text \<open>
  C24: the string table implements a map from strings to addresses: \<open>luaS_newlstr\<close> returns the address
  of a string that is there already and changes nothing but its mark, and otherwise adds the string
  at the address it allocated, through chains, a doubling of the table and all; the invariant of the
  table (each string once, in its chain) is kept.
\<close>

theorem newlstr_interns:
  assumes "strt_ok le g" and "a \<notin> ran (strt_map g)"
    and "tb_size (strt g) \<le> 2 ^ 28" and "length str \<le> 2 ^ 31"
  shows "\<exists>a' g'. luaS_newlstr (Some a) True g str = Inr (a', g') \<and> strt_ok le g'
    \<and> (case strt_map g (LUA_TSTRING, str) of
         Some b \<Rightarrow> a' = b \<and> strt_map g' = strt_map g
       | None \<Rightarrow> a' = a \<and> strt_map g' = (strt_map g)((LUA_TSTRING, str) \<mapsto> a))"
proof -
  obtain a' g' where r: "luaS_newlstr (Some a) True g str = Inr (a', g')"
    using newlstr_returns [OF assms(1,3,4)] by fastforce
  from newlstr_ok [OF assms(1,2) r] show ?thesis
    unfolding interned_def fst_conv snd_conv by (intro exI [of _ a'] exI [of _ g'] conjI r) auto
qed

definition ex_strt :: global_State where
  "ex_strt = \<lparr>strt = \<lparr>hash = [[]], nuse = 0\<rparr>, currentwhite = 1, gcstate = 0\<rparr>"

lemma ex_strt_ok: "strt_ok le ex_strt"
  by (auto simp: strt_ok_def ex_strt_def strings_def intro: exI [of _ 0])

theorem newlstr_interns_witness:
  "\<exists>a' g'. luaS_newlstr (Some 64) True ex_strt [97] = Inr (a', g') \<and> strt_ok True g'
    \<and> (case strt_map ex_strt (LUA_TSTRING, [97]) of
         Some b \<Rightarrow> a' = b \<and> strt_map g' = strt_map ex_strt
       | None \<Rightarrow> a' = 64 \<and> strt_map g' = (strt_map ex_strt)((LUA_TSTRING, [97]) \<mapsto> 64))"
  by (rule newlstr_interns [OF ex_strt_ok]) (simp_all add: ex_strt_def strt_map_def strings_def)

text \<open>
  C25: two strings that were interned, one after the other, have the same address exactly if they are
  equal; this is why the interpreter compares strings by address.
\<close>

theorem interned_equal_iff:
  assumes "strt_ok le g"
    and "luaS_newlstr (Some a) m g s = Inr (p, g1)" and "a \<notin> ran (strt_map g)"
    and "luaS_newlstr (Some b) m' g1 t = Inr (q, g2)" and "b \<notin> ran (strt_map g1)"
  shows "p = q \<longleftrightarrow> s = t"
proof -
  from newlstr_ok [OF assms(1,3,2)] have 1: "strt_ok le g1" "interned g (LUA_TSTRING, s) a (p, g1)" by blast+
  from newlstr_ok [OF 1(1) assms(5,4)] have 2: "strt_ok le g2" "interned g1 (LUA_TSTRING, t) b (q, g2)" by blast+
  have s1: "strt_map g1 (LUA_TSTRING, s) = Some p" using 1(2) by (auto simp: interned_def split: option.splits)
  have t2: "strt_map g2 (LUA_TSTRING, t) = Some q" using 2(2) by (auto simp: interned_def split: option.splits)
  have s2: "strt_map g2 (LUA_TSTRING, s) = Some p" using 2(2) s1 by (auto simp: interned_def split: option.splits if_split_asm)
  have dk: "distinct (map (fst \<circ> ts_entry) (strings g2))" "distinct (map (snd \<circ> ts_entry) (strings g2))"
    using 2(1) by (simp_all add: strt_ok_def)
  have "((LUA_TSTRING, t), q) \<in> ts_entry ` set (strings g2)" "((LUA_TSTRING, s), p) \<in> ts_entry ` set (strings g2)"
    using s2 t2 by (simp_all add: strt_map_Some [OF dk(1)])
  then obtain x y where xy: "x \<in> set (strings g2)" "ts_entry x = ((LUA_TSTRING, t), q)"
    "y \<in> set (strings g2)" "ts_entry y = ((LUA_TSTRING, s), p)" by (metis imageE)
  have "p = q \<Longrightarrow> x = y"
    using dk(2) xy by (auto simp: distinct_map inj_on_def)
  then show ?thesis using xy(2,4) s2 t2 by auto
qed

theorem interned_equal_iff_witness:
  "\<exists>p q g1 g2. luaS_newlstr (Some 64) True ex_strt [97] = Inr (p, g1)
    \<and> luaS_newlstr (Some 96) True g1 [98] = Inr (q, g2) \<and> p \<noteq> q"
proof -
  have m0: "strt_map ex_strt = Map.empty" by (simp add: ex_strt_def strt_map_def strings_def)
  obtain p g1 where 1: "luaS_newlstr (Some 64) True ex_strt [97] = Inr (p, g1)"
    using newlstr_returns [OF ex_strt_ok, of "[97]" 64] by (auto simp: ex_strt_def)
  have f: "64 \<notin> ran (strt_map ex_strt)" by (simp add: m0)
  from newlstr_ok [OF ex_strt_ok [of True] f 1] have g1: "strt_ok True g1"
    "strt_map g1 = [(LUA_TSTRING, [97]) \<mapsto> 64]"
    by (auto simp: interned_def m0)
  have h: "(96 :: addr) \<notin> ran (strt_map g1)" by (simp add: g1(2))
  have "case luaS_newlstr (Some 64) True ex_strt [97] of Inl _ \<Rightarrow> False | Inr (_, g) \<Rightarrow> length (hash (strt g)) \<le> 2"
    by code_simp
  then obtain q g2 where 2: "luaS_newlstr (Some 96) True g1 [98] = Inr (q, g2)"
    using newlstr_returns [OF g1(1), of "[98]" 96] 1 by auto
  have "p \<noteq> q" using interned_equal_iff [OF ex_strt_ok 1 f 2 h] by simp
  with 1 2 show ?thesis by blast
qed

end
