(* ===== verification/LuaTable.thy ===== *)
theory LuaTable
  imports StringTable
begin

text \<open>
  Tables (\<open>ltable.c\<close>): an array part and a hash part, a chained scatter table with Brent's
  variation. Nodes refer to each other by index; the shared \<open>dummynode\<close> of an empty hash part is a
  node array of one empty node with the flag \<open>isdummy\<close>. A pointer to a value inside a table, which the
  code passes around, is a \<open>slot\<close>; \<open>luaO_nilobject\<close> is \<open>None\<close>. The block \<open>t->array\<close> points to can be
  longer than \<open>t->sizearray\<close> while \<open>resize\<close> shrinks it: \<open>tarray\<close> holds its first \<open>sizearray\<close> elements
  and \<open>tspare\<close> those behind them.
\<close>

section \<open>The data\<close>

record Node =
  i_val :: TValue
  i_key :: TValue
  gnext :: "nat option"

record Table =
  flags :: byte
  lsizenode :: byte
  metatable :: "addr option"
  tarray :: "TValue list"
  tspare :: "TValue list"
  tnode :: "Node list"
  isdummy :: bool
  lastfree :: int

datatype slot = ArrSlot nat | NodeSlot nat

abbreviation sizearray :: "Table \<Rightarrow> int" where "sizearray t \<equiv> int (length (tarray t))"

definition array_block :: "Table \<Rightarrow> TValue list" where "array_block t = tarray t @ tspare t"

definition sizenode :: "Table \<Rightarrow> int" where "sizenode t = twoto (uint (lsizenode t))"

definition gnode :: "Table \<Rightarrow> nat \<Rightarrow> Node result" where
  "gnode t i = (if i < length (tnode t) then Inr (tnode t ! i) else Inl OutOfBounds)"

definition MAXBITS :: nat where "MAXBITS = 26"
definition MAXASIZE :: int where "MAXASIZE = push_bit MAXBITS 1"

definition dummynode :: Node where
  "dummynode = \<lparr>i_val = LNil, i_key = LNil, gnext = None\<rparr>"

definition slot_value :: "Table \<Rightarrow> slot \<Rightarrow> TValue" where
  "slot_value t s = (case s of ArrSlot i \<Rightarrow> tarray t ! i | NodeSlot n \<Rightarrow> i_val (tnode t ! n))"

text \<open>\<open>setobj\<close> through such a pointer.\<close>

definition set_slot :: "Table \<Rightarrow> slot \<Rightarrow> TValue \<Rightarrow> Table" where
  "set_slot t s v =
     (case s of
        ArrSlot i \<Rightarrow> t\<lparr>tarray := (tarray t)[i := v]\<rparr>
      | NodeSlot n \<Rightarrow> t\<lparr>tnode := (tnode t)[n := (tnode t ! n)\<lparr>i_val := v\<rparr>]\<rparr>)"

section \<open>Hashing\<close>

definition hashpow2 :: "Table \<Rightarrow> u32 \<Rightarrow> nat" where
  "hashpow2 t n = lmod n (sizenode t)"

definition hashmod :: "Table \<Rightarrow> u32 \<Rightarrow> nat" where
  "hashmod t n = unat (n mod (c_uint (sizenode t - 1) OR 1))"

definition hashnum :: "Table \<Rightarrow> lua_Number \<Rightarrow> nat" where
  "hashnum t n =
     (let n = luai_numadd n (cast_num 1);
          a0 = ucast n :: u32; a1 = ucast (drop_bit 32 n) :: u32
      in hashmod t (a0 + a1))"

text \<open>\<open>gcvalue\<close> of an object that is not a string; the code does not ask for the position of nil.\<close>

definition gcvalue :: "TValue \<Rightarrow> addr" where
  "gcvalue v = (case v of LTable a \<Rightarrow> a | LFunction a \<Rightarrow> a | LUserdata a \<Rightarrow> a | LThread a \<Rightarrow> a
     | LProto a \<Rightarrow> a | LUpval a \<Rightarrow> a | LDeadKey a \<Rightarrow> a | _ \<Rightarrow> 0)"

definition mainposition :: "Table \<Rightarrow> TValue \<Rightarrow> nat" where
  "mainposition t key =
     (case key of
        LNumber n \<Rightarrow> hashnum t n
      | LString s \<Rightarrow> hashpow2 t (luaS_hash s)
      | LWString s \<Rightarrow> hashpow2 t (luaS_whash s)
      | LBool b \<Rightarrow> hashpow2 t (c_uint b)
      | LLight p \<Rightarrow> hashmod t p
      | _ \<Rightarrow> hashmod t (gcvalue key))"

definition arrayindex :: "TValue \<Rightarrow> int" where
  "arrayindex key =
     (case key of
        LNumber n \<Rightarrow> (let k = lua_number2int n in if luai_numeq (cast_num k) n then k else - 1)
      | _ \<Rightarrow> - 1)"

section \<open>Searching\<close>

text \<open>
  The loops \<open>do ... else n = gnext(n); while (n)\<close>: the first node of the chain from \<open>n\<close> that satisfies
  \<open>p\<close>. A chain has no more nodes than the table.
\<close>

fun chain_find :: "nat \<Rightarrow> Table \<Rightarrow> (Node \<Rightarrow> bool) \<Rightarrow> nat \<Rightarrow> nat option result" where
  "chain_find 0 t p n = Inl OutOfFuel"
| "chain_find (Suc k) t p n =
     bnd (gnode t n) (\<lambda>nd.
     if p nd then Inr (Some n)
     else case gnext nd of None \<Rightarrow> Inr None | Some m \<Rightarrow> chain_find k t p m)"

definition find_node :: "Table \<Rightarrow> (Node \<Rightarrow> bool) \<Rightarrow> nat \<Rightarrow> slot option result" where
  "find_node t p n = bnd (chain_find (length (tnode t)) t p n) (\<lambda>r. Inr (map_option NodeSlot r))"

definition luaH_getnum :: "Table \<Rightarrow> int \<Rightarrow> slot option result" where
  "luaH_getnum t key =
     (if c_uint (key - 1) < c_uint (sizearray t) then Inr (Some (ArrSlot (unat (c_uint (key - 1)))))
      else let nk = cast_num key
           in find_node t (\<lambda>nd. case i_key nd of LNumber n \<Rightarrow> luai_numeq n nk | _ \<Rightarrow> False) (hashnum t nk))"

definition luaH_getstr :: "Table \<Rightarrow> tstring \<Rightarrow> slot option result" where
  "luaH_getstr t key = find_node t (\<lambda>nd. i_key nd = LString key) (hashpow2 t (luaS_hash key))"

definition luaH_getwstr :: "Table \<Rightarrow> wchar list \<Rightarrow> slot option result" where
  "luaH_getwstr t key = find_node t (\<lambda>nd. i_key nd = LWString key) (hashpow2 t (luaS_whash key))"

definition get_default :: "Table \<Rightarrow> TValue \<Rightarrow> slot option result" where
  "get_default t key = find_node t (\<lambda>nd. luaO_rawequalObj (i_key nd) key) (mainposition t key)"

definition luaH_get :: "Table \<Rightarrow> TValue \<Rightarrow> slot option result" where
  "luaH_get t key =
     (case key of
        LNil \<Rightarrow> Inr None
      | LString s \<Rightarrow> luaH_getstr t s
      | LNumber n \<Rightarrow>
          (let k = lua_number2int n
           in if luai_numeq (cast_num k) n then luaH_getnum t k else get_default t key)
      | _ \<Rightarrow> get_default t key)"

section \<open>Sizes\<close>

text \<open>
  \<open>computesizes\<close>: the loop over the slices; the number of elements that go to the array part, and its
  new size.
\<close>

fun computesizes_loop :: "int list \<Rightarrow> int \<Rightarrow> int \<Rightarrow> int \<Rightarrow> int \<Rightarrow> int \<Rightarrow> (int \<times> int) result" where
  "computesizes_loop nums twotoi a na n narray =
     (if twotoi div 2 < narray
      then case nums of
        [] \<Rightarrow> Inl OutOfBounds
      | c # nums \<Rightarrow>
          let (a, na, n) = (if c > 0 then if a + c > twotoi div 2 then (a + c, a + c, twotoi) else (a + c, na, n)
                            else (a, na, n))
          in if a = narray then Inr (na, n) else computesizes_loop nums (twotoi * 2) a na n narray
      else Inr (na, n))"

declare computesizes_loop.simps [simp del]

definition computesizes :: "int list \<Rightarrow> int \<Rightarrow> (int \<times> int) result" where
  "computesizes nums narray = computesizes_loop nums 1 0 0 0 narray"

definition countint :: "TValue \<Rightarrow> int list \<Rightarrow> int \<times> int list" where
  "countint key nums =
     (let k = arrayindex key
      in if 0 < k \<and> k \<le> MAXASIZE
         then let lg = nat (ceillog2 k) in (1, nums[lg := nums ! lg + 1])
         else (0, nums))"

text \<open>The non-nil elements of the array part with Lua indices from \<open>i\<close> to \<open>lim\<close>.\<close>

definition count_slice :: "Table \<Rightarrow> int \<Rightarrow> int \<Rightarrow> int" where
  "count_slice t i lim =
     int (length (filter (\<lambda>v. \<not> ttisnil v) (take (nat (lim - i + 1)) (drop (nat (i - 1)) (tarray t)))))"

fun numusearray_loop :: "Table \<Rightarrow> nat list \<Rightarrow> int \<Rightarrow> int \<Rightarrow> int list \<Rightarrow> int \<Rightarrow> int \<times> int list" where
  "numusearray_loop t [] ttlg i nums ause = (ause, nums)"
| "numusearray_loop t (lg # lgs) ttlg i nums ause =
     (let lim = (if ttlg > sizearray t then sizearray t else ttlg)
      in if ttlg > sizearray t \<and> i > lim then (ause, nums)
         else let lc = count_slice t i lim
              in numusearray_loop t lgs (ttlg * 2) (if i \<le> lim then lim + 1 else i)
                   (nums[lg := nums ! lg + lc]) (ause + lc))"

definition numusearray :: "Table \<Rightarrow> int list \<Rightarrow> int \<times> int list" where
  "numusearray t nums = numusearray_loop t [0..<MAXBITS + 1] 1 1 nums 0"

text \<open>\<open>numusehash\<close>: the number of elements in the hash part, the counts, and the new \<open>*pnasize\<close>.\<close>

fun numusehash_loop :: "Table \<Rightarrow> nat \<Rightarrow> int list \<Rightarrow> int \<Rightarrow> int \<Rightarrow> (int \<times> int list \<times> int) result" where
  "numusehash_loop t 0 nums ause totaluse = Inr (totaluse, nums, ause)"
| "numusehash_loop t (Suc i) nums ause totaluse =
     bnd (gnode t i) (\<lambda>n.
     if \<not> ttisnil (i_val n)
     then let (c, nums) = countint (i_key n) nums in numusehash_loop t i nums (ause + c) (totaluse + 1)
     else numusehash_loop t i nums ause totaluse)"

definition numusehash :: "Table \<Rightarrow> int list \<Rightarrow> int \<Rightarrow> (int \<times> int list \<times> int) result" where
  "numusehash t nums nasize =
     bnd (numusehash_loop t (nat (sizenode t)) nums 0 0) (\<lambda>(totaluse, nums, ause).
     Inr (totaluse, nums, nasize + ause))"

section \<open>Resizing\<close>

definition sizeof_TValue :: u32 where "sizeof_TValue = 16"
definition sizeof_Node :: u32 where "sizeof_Node = 32"

text \<open>The block gets a new size, and its elements from \<open>sizearray\<close> on become nil.\<close>

definition setarrayvector :: "Table \<Rightarrow> int \<Rightarrow> Table result" where
  "setarrayvector t sz =
     bnd (luaM_reallocv (c_uint sz) sizeof_TValue) (\<lambda>_.
     Inr (t\<lparr>tarray := take (nat sz) (tarray t) @ replicate (nat (sz - sizearray t)) LNil, tspare := []\<rparr>))"

definition setnodevector :: "Table \<Rightarrow> int \<Rightarrow> Table result" where
  "setnodevector t sz =
     (if sz = 0
      then Inr (t\<lparr>tnode := [dummynode], isdummy := True, lsizenode := 0, lastfree := 0\<rparr>)
      else let lsize = ceillog2 sz
           in if lsize > int MAXBITS then Inl (ErrRun ''table overflow'')
              else let sz = twoto lsize
                   in bnd (luaM_reallocv (c_uint sz) sizeof_Node) (\<lambda>_.
                      Inr (t\<lparr>tnode := replicate (nat sz) dummynode, isdummy := False,
                             lsizenode := cast_byte lsize, lastfree := sz\<rparr>)))"

text \<open>
  \<open>newkey\<close>, \<open>rehash\<close>, \<open>resize\<close> and \<open>luaH_set\<close> call each other; here the others take the insertion of a
  new key as the argument \<open>nk\<close>.
\<close>

definition luaH_set_with ::
  "(Table \<Rightarrow> TValue \<Rightarrow> (slot \<times> Table) result) \<Rightarrow> Table \<Rightarrow> TValue \<Rightarrow> (slot \<times> Table) result" where
  "luaH_set_with nk t key =
     bnd (luaH_get t key) (\<lambda>p.
     let t = t\<lparr>flags := 0\<rparr>
     in case p of
          Some s \<Rightarrow> Inr (s, t)
        | None \<Rightarrow>
            if ttisnil key then Inl (ErrRun ''table index is nil'')
            else if (case key of LNumber n \<Rightarrow> luai_numisnan n | _ \<Rightarrow> False)
            then Inl (ErrRun ''table index is NaN'')
            else nk t key)"

definition luaH_setnum_with ::
  "(Table \<Rightarrow> TValue \<Rightarrow> (slot \<times> Table) result) \<Rightarrow> Table \<Rightarrow> int \<Rightarrow> (slot \<times> Table) result" where
  "luaH_setnum_with nk t key =
     bnd (luaH_getnum t key) (\<lambda>p.
     case p of Some s \<Rightarrow> Inr (s, t) | None \<Rightarrow> nk t (LNumber (cast_num key)))"

text \<open>
  The two loops of \<open>resize\<close> that insert the elements again. The first one reads \<open>t->array[i]\<close> in each
  round, and \<open>setobj\<close> takes that address before it evaluates the call of \<open>luaH_setnum\<close>: when the call
  reallocates the block (a rehash that changes the array part), the address is that of a freed
  element, and the model stops with \<open>OutOfBounds\<close>.
\<close>

fun reinsert_array ::
  "(Table \<Rightarrow> TValue \<Rightarrow> (slot \<times> Table) result) \<Rightarrow> nat list \<Rightarrow> Table \<Rightarrow> Table result" where
  "reinsert_array nk [] t = Inr t"
| "reinsert_array nk (i # is) t =
     bnd (require (i < length (array_block t)) OutOfBounds) (\<lambda>_.
     let v = array_block t ! i
     in bnd (if ttisnil v then Inr t
             else bnd (luaH_setnum_with nk t (int i + 1)) (\<lambda>(s, t').
                  bnd (require (tspare t' = tspare t) OutOfBounds) (\<lambda>_.
                  Inr (set_slot t' s v)))) (\<lambda>t.
        reinsert_array nk is t))"

fun reinsert_nodes ::
  "(Table \<Rightarrow> TValue \<Rightarrow> (slot \<times> Table) result) \<Rightarrow> Node list \<Rightarrow> Table \<Rightarrow> Table result" where
  "reinsert_nodes nk [] t = Inr t"
| "reinsert_nodes nk (old # nodes) t =
     bnd (if ttisnil (i_val old) then Inr t
          else bnd (luaH_set_with nk t (i_key old)) (\<lambda>(s, t). Inr (set_slot t s (i_val old)))) (\<lambda>t.
     reinsert_nodes nk nodes t)"

definition resize_with ::
  "(Table \<Rightarrow> TValue \<Rightarrow> (slot \<times> Table) result) \<Rightarrow> Table \<Rightarrow> int \<Rightarrow> int \<Rightarrow> Table result" where
  "resize_with nk t nasize nhsize =
     (let oldasize = sizearray t; nold = take (nat (sizenode t)) (tnode t)
      in bnd (if nasize > oldasize then setarrayvector t nasize else Inr t) (\<lambda>t.
         bnd (setnodevector t nhsize) (\<lambda>t.
         bnd (if nasize < oldasize
              then bnd (reinsert_array nk [nat nasize..<nat oldasize]
                          (t\<lparr>tarray := take (nat nasize) (array_block t),
                             tspare := drop (nat nasize) (array_block t)\<rparr>)) (\<lambda>t.
                   bnd (luaM_reallocv (c_uint nasize) sizeof_TValue) (\<lambda>_. Inr (t\<lparr>tspare := []\<rparr>)))
              else Inr t) (\<lambda>t.
         reinsert_nodes nk (rev nold) t))))"

definition rehash_with ::
  "(Table \<Rightarrow> TValue \<Rightarrow> (slot \<times> Table) result) \<Rightarrow> Table \<Rightarrow> TValue \<Rightarrow> Table result" where
  "rehash_with nk t ek =
     (let (nasize, nums) = numusearray t (replicate (MAXBITS + 1) 0); totaluse = nasize
      in bnd (numusehash t nums nasize) (\<lambda>(use, nums, nasize).
         let totaluse = totaluse + use;
             (c, nums) = countint ek nums;
             nasize = nasize + c;
             totaluse = totaluse + 1
         in bnd (computesizes nums nasize) (\<lambda>(na, nasize).
            resize_with nk t nasize (totaluse - na))))"

section \<open>Inserting\<close>

function getfreepos :: "Table \<Rightarrow> nat option \<times> Table" where
  "getfreepos t =
     (let lf = lastfree t; t = t\<lparr>lastfree := lf - 1\<rparr>
      in if lf > 0
         then if ttisnil (i_key (tnode t ! nat (lf - 1))) then (Some (nat (lf - 1)), t) else getfreepos t
         else (None, t))"
  by pat_completeness auto
termination by (relation "measure (\<lambda>t. nat (lastfree t))") auto

declare getfreepos.simps [simp del]

text \<open>The loop that finds the node before \<open>mp\<close> in the chain from \<open>othern\<close>.\<close>

fun find_previous :: "nat \<Rightarrow> Table \<Rightarrow> nat \<Rightarrow> nat \<Rightarrow> nat result" where
  "find_previous 0 t mp othern = Inl OutOfFuel"
| "find_previous (Suc k) t mp othern =
     bnd (gnode t othern) (\<lambda>nd.
     if gnext nd = Some mp then Inr othern
     else case gnext nd of None \<Rightarrow> Inl OutOfBounds | Some m \<Rightarrow> find_previous k t mp m)"

definition upd_node :: "nat \<Rightarrow> (Node \<Rightarrow> Node) \<Rightarrow> Table \<Rightarrow> Table" where
  "upd_node n f t = t\<lparr>tnode := (tnode t)[n := f (tnode t ! n)]\<rparr>"

definition newkey_step ::
  "(Table \<Rightarrow> TValue \<Rightarrow> (slot \<times> Table) result) \<Rightarrow> Table \<Rightarrow> TValue \<Rightarrow> (slot \<times> Table) result" where
  "newkey_step nk t key =
     (let mp = mainposition t key;
          put = (\<lambda>mp t. Inr (NodeSlot mp, upd_node mp (\<lambda>nd. nd\<lparr>i_key := key\<rparr>) t))
      in bnd (gnode t mp) (\<lambda>mpn.
         if \<not> ttisnil (i_val mpn) \<or> isdummy t
         then case getfreepos t of
           (None, t) \<Rightarrow> bnd (rehash_with nk t key) (\<lambda>t. luaH_set_with nk t key)
         | (Some n, t) \<Rightarrow>
             let othern = mainposition t (i_key mpn)
             in if othern \<noteq> mp
                then bnd (find_previous (length (tnode t)) t mp othern) (\<lambda>prev.
                     let t = upd_node prev (\<lambda>nd. nd\<lparr>gnext := Some n\<rparr>) t;
                         t = upd_node n (\<lambda>_. tnode t ! mp) t;
                         t = upd_node mp (\<lambda>nd. nd\<lparr>gnext := None, i_val := LNil\<rparr>) t
                     in put mp t)
                else let t = upd_node n (\<lambda>nd. nd\<lparr>gnext := gnext mpn\<rparr>) t;
                         t = upd_node mp (\<lambda>nd. nd\<lparr>gnext := Some n\<rparr>) t
                     in put n t
         else put mp t))"

text \<open>\<open>newkey\<close> with at most \<open>d\<close> nested rehashes.\<close>

primrec newkey :: "nat \<Rightarrow> Table \<Rightarrow> TValue \<Rightarrow> (slot \<times> Table) result" where
  "newkey 0 = newkey_step (\<lambda>_ _. Inl OutOfFuel)"
| "newkey (Suc d) = newkey_step (newkey d)"

definition luaH_set :: "Table \<Rightarrow> TValue \<Rightarrow> (slot \<times> Table) result" where
  "luaH_set t key = luaH_set_with (newkey 1) t key"

definition luaH_setnum :: "Table \<Rightarrow> int \<Rightarrow> (slot \<times> Table) result" where
  "luaH_setnum t key = luaH_setnum_with (newkey 1) t key"

definition luaH_setstr :: "Table \<Rightarrow> tstring \<Rightarrow> (slot \<times> Table) result" where
  "luaH_setstr t key =
     bnd (luaH_getstr t key) (\<lambda>p.
     case p of Some s \<Rightarrow> Inr (s, t) | None \<Rightarrow> newkey 1 t (LString key))"

definition luaH_setwstr :: "Table \<Rightarrow> wchar list \<Rightarrow> (slot \<times> Table) result" where
  "luaH_setwstr t key =
     bnd (luaH_getwstr t key) (\<lambda>p.
     case p of Some s \<Rightarrow> Inr (s, t) | None \<Rightarrow> newkey 1 t (LWString key))"

definition resize :: "Table \<Rightarrow> int \<Rightarrow> int \<Rightarrow> Table result" where
  "resize t nasize nhsize = resize_with (newkey 1) t nasize nhsize"

definition luaH_resizearray :: "Table \<Rightarrow> int \<Rightarrow> Table result" where
  "luaH_resizearray t nasize = resize t nasize (if isdummy t then 0 else sizenode t)"

definition luaH_new :: "int \<Rightarrow> int \<Rightarrow> Table result" where
  "luaH_new narray nhash =
     (let t = \<lparr>flags = - 1, lsizenode = 0, metatable = None, tarray = [], tspare = [], tnode = [dummynode],
               isdummy = True, lastfree = 0\<rparr>
      in bnd (setarrayvector t narray) (\<lambda>t. setnodevector t nhash))"

section \<open>Traversal\<close>

text \<open>\<open>gca\<close> gives the address of an object, strings included; the key of a removed entry may be dead.\<close>

definition luaH_findindex :: "(TValue \<Rightarrow> addr) \<Rightarrow> Table \<Rightarrow> TValue \<Rightarrow> int result" where
  "luaH_findindex gca t key =
     (if ttisnil key then Inr (- 1)
      else let i = arrayindex key
           in if 0 < i \<and> i \<le> sizearray t then Inr (i - 1)
              else bnd (chain_find (length (tnode t)) t
                     (\<lambda>nd. luaO_rawequalObj (i_key nd) key
                        \<or> (case i_key nd of LDeadKey a \<Rightarrow> iscollectable key \<and> a = gca key | _ \<Rightarrow> False))
                     (mainposition t key)) (\<lambda>r.
                   case r of
                     Some n \<Rightarrow> Inr (int n + sizearray t)
                   | None \<Rightarrow> Inl (ErrRun ''invalid key to `next`'')))"

fun next_array :: "int \<Rightarrow> TValue list \<Rightarrow> (int \<times> TValue) option" where
  "next_array i [] = None"
| "next_array i (v # vs) = (if ttisnil v then next_array (i + 1) vs else Some (i, v))"

fun next_node :: "Node list \<Rightarrow> (TValue \<times> TValue) option" where
  "next_node [] = None"
| "next_node (n # ns) = (if ttisnil (i_val n) then next_node ns else Some (i_key n, i_val n))"

definition luaH_next :: "(TValue \<Rightarrow> addr) \<Rightarrow> Table \<Rightarrow> TValue \<Rightarrow> (TValue \<times> TValue) option result" where
  "luaH_next gca t key =
     bnd (luaH_findindex gca t key) (\<lambda>i.
     let i = i + 1
     in case next_array i (drop (nat i) (tarray t)) of
          Some (i, v) \<Rightarrow> Inr (Some (LNumber (cast_num (i + 1)), v))
        | None \<Rightarrow>
            (let i = (if i < sizearray t then sizearray t else i) - sizearray t
             in Inr (next_node (drop (nat i) (take (nat (sizenode t)) (tnode t))))))"

section \<open>The length operator\<close>

definition is_nil_at :: "Table \<Rightarrow> u32 \<Rightarrow> bool result" where
  "is_nil_at t j =
     bnd (luaH_getnum t (c_int j)) (\<lambda>p.
     Inr (case p of None \<Rightarrow> True | Some s \<Rightarrow> ttisnil (slot_value t s)))"

text \<open>
  \<open>unbound_search\<close>: the search for a bound by doubling (the present index and the absent one, or \<open>None\<close>
  on overflow), the linear search for when that overflows, and the binary search. Doubling and halving
  a 32-bit number end within 32 rounds, the linear search within one round per element.
\<close>

fun double_search :: "nat \<Rightarrow> Table \<Rightarrow> u32 \<Rightarrow> u32 \<Rightarrow> (u32 \<times> u32) option result" where
  "double_search 0 t i j = Inl OutOfFuel"
| "double_search (Suc k) t i j =
     bnd (is_nil_at t j) (\<lambda>n.
     if n then Inr (Some (i, j))
     else if j * 2 > c_uint MAX_INT then Inr None
     else double_search k t j (j * 2))"

fun linear_search :: "nat \<Rightarrow> Table \<Rightarrow> u32 \<Rightarrow> u32 result" where
  "linear_search 0 t i = Inl OutOfFuel"
| "linear_search (Suc k) t i =
     bnd (is_nil_at t i) (\<lambda>n. if n then Inr (i - 1) else linear_search k t (i + 1))"

fun binary_search :: "nat \<Rightarrow> (u32 \<Rightarrow> bool result) \<Rightarrow> u32 \<Rightarrow> u32 \<Rightarrow> u32 result" where
  "binary_search 0 absent i j = Inl OutOfFuel"
| "binary_search (Suc k) absent i j =
     (if j - i > 1
      then let m = (i + j) div 2
           in bnd (absent m) (\<lambda>n. if n then binary_search k absent i m else binary_search k absent m j)
      else Inr i)"

definition unbound_search :: "Table \<Rightarrow> u32 \<Rightarrow> u32 result" where
  "unbound_search t j =
     bnd (double_search 32 t j (j + 1)) (\<lambda>r.
     case r of
       Some (i, j) \<Rightarrow> binary_search 32 (is_nil_at t) i j
     | None \<Rightarrow> linear_search (length (tarray t) + length (tnode t) + 1) t 1)"

definition luaH_getn :: "Table \<Rightarrow> int result" where
  "luaH_getn t =
     (let j = c_uint (sizearray t)
      in bnd (if j > 0 \<and> ttisnil (tarray t ! (unat j - 1))
              then binary_search 32 (\<lambda>m. Inr (ttisnil (tarray t ! (unat m - 1)))) 0 j
              else if isdummy t then Inr j
              else unbound_search t j) (\<lambda>r. Inr (c_int r)))"

end
