(* ===== verification/TableFacts.thy ===== *)
theory TableFacts
  imports LuaTable
begin

text \<open>
  Tables implement maps: the invariant of the hash part (the one the comment of \<open>ltable.c\<close> states, with
  the rest it needs), what each operation does to it, and the counting argument that a rehash makes
  enough room, so that operations nest at most once.
\<close>

section \<open>Positions\<close>

lemma hashnum_eq: "luai_numeq m n \<Longrightarrow> hashnum t m = hashnum t n"
proof -
  have "dmag (cast_num 1) \<noteq> 0" using cast_num_parts(2) [of 1] by (simp add: int_mag_def)
  then show "luai_numeq m n \<Longrightarrow> ?thesis" using numadd_cong [of m n "cast_num 1"] by (simp add: hashnum_def)
qed

lemma mainposition_eq: "luaO_rawequalObj k k' \<Longrightarrow> mainposition t k = mainposition t k'"
  by (cases k; cases k') (auto simp: rawequal_cases mainposition_def intro: hashnum_eq)

lemma mainposition_cong: "lsizenode t' = lsizenode t \<Longrightarrow> mainposition t' k = mainposition t k"
  by (cases k) (simp_all add: mainposition_def hashpow2_def hashmod_def hashnum_def sizenode_def)

definition node_size :: "Table \<Rightarrow> nat \<Rightarrow> bool" where
  "node_size t k \<longleftrightarrow> k \<le> MAXBITS \<and> uint (lsizenode t) = int k \<and> length (tnode t) = 2 ^ k"

lemma sizenode_eq: "node_size t k \<Longrightarrow> sizenode t = 2 ^ k"
  by (simp add: node_size_def sizenode_def twoto_def push_bit_eq_mult)

lemma mainposition_less:
  assumes "node_size t k"
  shows "mainposition t key < length (tnode t)"
proof -
  have k: "k \<le> 26" "length (tnode t) = 2 ^ k" using assms by (simp_all add: node_size_def MAXBITS_def)
  have p: "hashpow2 t n < length (tnode t)" for n
    using k by (simp add: hashpow2_def sizenode_eq [OF assms] lmod_less)
  have m: "hashmod t n < length (tnode t)" for n
  proof -
    let ?d = "c_uint (sizenode t - 1) OR 1"
    have "(2::int) ^ k \<le> 2 ^ 26" using k by (intro power_increasing) simp_all
    then have u: "uint ?d = (2 ^ k - 1) OR 1"
      by (simp add: sizenode_eq [OF assms] uint_or)
    have "(2 ^ k - 1 :: int) OR 1 \<le> (if k = 0 then 1 else 2 ^ k - 1)"
    proof (cases k)
      case (Suc j)
      then have "odd (2 ^ k - 1 :: int)" by simp
      then have "(2 ^ k - 1 :: int) OR 1 = 2 ^ k - 1" by (simp add: or_one_eq)
      then show ?thesis using Suc by simp
    qed simp
    then have d: "uint ?d \<le> max 1 (2 ^ k - 1)" using u by (auto split: if_split_asm)
    have nz: "?d \<noteq> 0"
    proof
      assume "?d = 0"
      then have "bit ?d 0 = bit (0 :: u32) 0" by simp
      then show False by (simp add: bit_simps)
    qed
    then have "uint (n mod ?d) < uint ?d" by (metis uint_mod pos_mod_bound unsigned_greater_eq order_le_less unsigned_eq_0_iff)
    with d have "uint (n mod ?d) < 2 ^ k \<or> uint (n mod ?d) < 1" by auto
    moreover have "(1::int) \<le> 2 ^ k" by simp
    ultimately have "uint (n mod ?d) < 2 ^ k" by (meson order_less_le_trans)
    then have "unat (n mod ?d) < 2 ^ k"
      by (metis of_nat_less_iff of_nat_numeral of_nat_power uint_nat)
    then show ?thesis unfolding hashmod_def k(2) .
  qed
  show ?thesis using p m by (cases key) (simp_all add: mainposition_def hashnum_def Let_def)
qed

section \<open>Chains\<close>

definition link :: "Node list \<Rightarrow> nat \<Rightarrow> nat \<Rightarrow> bool" where
  "link ns i j \<longleftrightarrow> i < length ns \<and> gnext (ns ! i) = Some j"

abbreviation reach :: "Node list \<Rightarrow> nat \<Rightarrow> nat \<Rightarrow> bool" where
  "reach ns \<equiv> (link ns)\<^sup>*\<^sup>*"

text \<open>Links stay inside the nodes and go up in some ranking, so a chain has no cycle.\<close>

definition chains_ok :: "Node list \<Rightarrow> bool" where
  "chains_ok ns \<longleftrightarrow> (\<forall>i j. link ns i j \<longrightarrow> j < length ns)
     \<and> (\<exists>r :: nat \<Rightarrow> nat. \<forall>i j. link ns i j \<longrightarrow> r i < r j)"

lemma link_Some: "i < length ns \<Longrightarrow> gnext (ns ! i) = Some j \<Longrightarrow> link ns i j"
  by (simp add: link_def)

lemma reach_None: "i < length ns \<Longrightarrow> gnext (ns ! i) = None \<Longrightarrow> reach ns i j \<longleftrightarrow> i = j"
  by (metis converse_rtranclpE link_def option.distinct(1) rtranclp.rtrancl_refl)

lemma reach_step: "i < length ns \<Longrightarrow> gnext (ns ! i) = Some m \<Longrightarrow> reach ns i j \<longleftrightarrow> i = j \<or> reach ns m j"
  by (metis converse_rtranclpE converse_rtranclp_into_rtranclp link_def option.inject rtranclp.rtrancl_refl)

text \<open>The number of nodes ranked at least as high bounds the rest of a chain.\<close>

definition above :: "Node list \<Rightarrow> (nat \<Rightarrow> nat) \<Rightarrow> nat \<Rightarrow> nat" where
  "above ns r i = card {j. j < length ns \<and> r i \<le> r j}"

lemma above_le: "above ns r i \<le> length ns"
proof -
  have "above ns r i \<le> card {..<length ns}" unfolding above_def by (rule card_mono) auto
  then show ?thesis by simp
qed

lemma above_pos: "i < length ns \<Longrightarrow> 0 < above ns r i"
  unfolding above_def by (rule card_gt_0_iff [THEN iffD2]) auto

lemma above_less: "i < length ns \<Longrightarrow> r i < r j \<Longrightarrow> above ns r j < above ns r i"
proof -
  assume a: "i < length ns" "r i < r j"
  have "{k. k < length ns \<and> r j \<le> r k} \<subseteq> {k. k < length ns \<and> r i \<le> r k}" using a(2) by fastforce
  moreover have "i \<in> {k. k < length ns \<and> r i \<le> r k}" "i \<notin> {k. k < length ns \<and> r j \<le> r k}" using a by simp_all
  ultimately have "{k. k < length ns \<and> r j \<le> r k} \<subset> {k. k < length ns \<and> r i \<le> r k}" by blast
  then show ?thesis unfolding above_def by (rule psubset_card_mono [rotated]) simp
qed

lemma chain_find_run:
  assumes "\<forall>i j. link (tnode t) i j \<longrightarrow> j < length (tnode t)" "\<forall>i j. link (tnode t) i j \<longrightarrow> r i < r j"
  shows "n < length (tnode t) \<Longrightarrow> above (tnode t) r n \<le> k \<Longrightarrow>
    (\<exists>m. chain_find k t p n = Inr (Some m) \<and> m < length (tnode t) \<and> reach (tnode t) n m \<and> p (tnode t ! m))
    \<or> chain_find k t p n = Inr None \<and> (\<forall>m. reach (tnode t) n m \<longrightarrow> \<not> p (tnode t ! m))"
proof (induction k arbitrary: n)
  case 0
  then show ?case using above_pos [of n "tnode t" r] by simp
next
  case (Suc k)
  show ?case
  proof (cases "p (tnode t ! n) \<or> gnext (tnode t ! n) = None")
    case True
    then show ?thesis using Suc.prems(1) by (auto simp: gnode_def reach_None)
  next
    case False
    then obtain m where m: "gnext (tnode t ! n) = Some m" "\<not> p (tnode t ! n)" by blast
    then have l: "link (tnode t) n m" using Suc.prems(1) by (simp add: link_def)
    then have "above (tnode t) r m < above (tnode t) r n"
      using assms(2) Suc.prems(1) by (intro above_less) auto
    then have ab: "above (tnode t) r m \<le> k" using Suc.prems(2) by simp
    have "m < length (tnode t)" using assms(1) l by blast
    from Suc.IH [OF this ab] have IH: "(\<exists>m'. chain_find k t p m = Inr (Some m') \<and> m' < length (tnode t) \<and> reach (tnode t) m m' \<and> p (tnode t ! m'))
      \<or> chain_find k t p m = Inr None \<and> (\<forall>m'. reach (tnode t) m m' \<longrightarrow> \<not> p (tnode t ! m'))" .
    have "chain_find (Suc k) t p n = chain_find k t p m" using m Suc.prems(1) by (simp add: gnode_def)
    moreover have "reach (tnode t) n m' \<longleftrightarrow> n = m' \<or> reach (tnode t) m m'" for m'
      by (rule reach_step [OF Suc.prems(1) m(1)])
    ultimately show ?thesis using IH m(2) by simp blast
  qed
qed

lemma chain_find_ok:
  assumes "chains_ok (tnode t)" "n < length (tnode t)"
  obtains (found) m where "chain_find (length (tnode t)) t p n = Inr (Some m)" "m < length (tnode t)"
      "reach (tnode t) n m" "p (tnode t ! m)"
  | (none) "chain_find (length (tnode t)) t p n = Inr None" "\<And>m. reach (tnode t) n m \<Longrightarrow> \<not> p (tnode t ! m)"
proof -
  from assms(1) obtain r where r: "\<forall>i j. link (tnode t) i j \<longrightarrow> j < length (tnode t)"
    "\<forall>i j. link (tnode t) i j \<longrightarrow> (r :: nat \<Rightarrow> nat) i < r j" unfolding chains_ok_def by blast
  from chain_find_run [OF r assms(2) above_le, of p] that show thesis by blast
qed

lemma find_previous_run:
  assumes "\<forall>i j. link (tnode t) i j \<longrightarrow> j < length (tnode t)" "\<forall>i j. link (tnode t) i j \<longrightarrow> r i < r j"
  shows "n < length (tnode t) \<Longrightarrow> above (tnode t) r n \<le> k \<Longrightarrow> reach (tnode t) n mp \<Longrightarrow> n \<noteq> mp \<Longrightarrow>
    \<exists>m. find_previous k t mp n = Inr m \<and> link (tnode t) m mp"
proof (induction k arbitrary: n)
  case 0
  then show ?case using above_pos [of n "tnode t" r] by simp
next
  case (Suc k)
  obtain m where m: "link (tnode t) n m" "reach (tnode t) m mp"
    by (rule converse_rtranclpE [OF Suc.prems(3)]) (use Suc.prems(4) in auto)
  from m(1) have g: "gnext (tnode t ! n) = Some m" by (simp add: link_def)
  show ?case
  proof (cases "m = mp")
    case True
    then show ?thesis using m g Suc.prems(1) by (simp add: gnode_def)
  next
    case False
    have "above (tnode t) r m < above (tnode t) r n"
      using assms(2) Suc.prems(1) m(1) by (intro above_less) auto
    then have ab: "above (tnode t) r m \<le> k" using Suc.prems(2) by simp
    have "m < length (tnode t)" using assms(1) m(1) by blast
    from Suc.IH [OF this ab m(2) False] obtain x where
      "find_previous k t mp m = Inr x" "link (tnode t) x mp" by blast
    with g False Suc.prems(1) show ?thesis by (simp add: gnode_def)
  qed
qed

lemma find_previous_ok:
  assumes "chains_ok (tnode t)" "n < length (tnode t)" "reach (tnode t) n mp" "n \<noteq> mp"
  obtains m where "find_previous (length (tnode t)) t mp n = Inr m" "link (tnode t) m mp"
proof -
  from assms(1) obtain r where r: "\<forall>i j. link (tnode t) i j \<longrightarrow> j < length (tnode t)"
    "\<forall>i j. link (tnode t) i j \<longrightarrow> (r :: nat \<Rightarrow> nat) i < r j" unfolding chains_ok_def by blast
  from find_previous_run [OF r assms(2) above_le assms(3,4)] that show thesis by blast
qed

lemma find_previous_cong:
  "tnode t' = tnode t \<Longrightarrow> find_previous k t' mp i = find_previous k t mp i"
  by (induction k arbitrary: i) (simp_all add: gnode_def cong: option.case_cong)

section \<open>The invariant of the hash part\<close>

text \<open>
  \<open>lf\<close> is \<open>lastfree\<close>, \<open>mpos\<close> the main position of a key. A node without a key is in no chain and lies below
  \<open>lastfree\<close>; a key is in the chain of its main position, whose node is in its own main position; no
  two keys are equal; no two nodes have the same successor.
\<close>

definition nodes_ok :: "(TValue \<Rightarrow> nat) \<Rightarrow> Node list \<Rightarrow> int \<Rightarrow> bool" where
  "nodes_ok mpos ns lf \<longleftrightarrow>
     chains_ok ns
   \<and> (\<forall>i j m. link ns i m \<longrightarrow> link ns j m \<longrightarrow> i = j)
   \<and> (\<forall>i<length ns. i_key (ns ! i) = LNil \<longrightarrow>
        i_val (ns ! i) = LNil \<and> gnext (ns ! i) = None \<and> (\<forall>j. \<not> link ns j i) \<and> int i < lf)
   \<and> (\<forall>i<length ns. i_key (ns ! i) \<noteq> LNil \<longrightarrow>
        valid_key (i_key (ns ! i)) \<and> reach ns (mpos (i_key (ns ! i))) i
        \<and> i_key (ns ! mpos (i_key (ns ! i))) \<noteq> LNil
        \<and> mpos (i_key (ns ! mpos (i_key (ns ! i)))) = mpos (i_key (ns ! i)))
   \<and> (\<forall>i<length ns. \<forall>j<length ns. i_key (ns ! i) \<noteq> LNil \<longrightarrow>
        luaO_rawequalObj (i_key (ns ! i)) (i_key (ns ! j)) \<longrightarrow> i = j)
   \<and> lf \<le> int (length ns)"

lemma nodes_okD:
  assumes "nodes_ok mpos ns lf"
  shows "chains_ok ns" "link ns i m \<Longrightarrow> link ns j m \<Longrightarrow> i = j"
    "i < length ns \<Longrightarrow> i_key (ns ! i) = LNil \<Longrightarrow>
       i_val (ns ! i) = LNil \<and> gnext (ns ! i) = None \<and> \<not> link ns j i \<and> int i < lf"
    "i < length ns \<Longrightarrow> i_key (ns ! i) \<noteq> LNil \<Longrightarrow> valid_key (i_key (ns ! i))"
    "i < length ns \<Longrightarrow> i_key (ns ! i) \<noteq> LNil \<Longrightarrow> reach ns (mpos (i_key (ns ! i))) i"
    "i < length ns \<Longrightarrow> i_key (ns ! i) \<noteq> LNil \<Longrightarrow> i_key (ns ! mpos (i_key (ns ! i))) \<noteq> LNil"
    "i < length ns \<Longrightarrow> i_key (ns ! i) \<noteq> LNil \<Longrightarrow>
       mpos (i_key (ns ! mpos (i_key (ns ! i)))) = mpos (i_key (ns ! i))"
    "i < length ns \<Longrightarrow> j < length ns \<Longrightarrow> i_key (ns ! i) \<noteq> LNil \<Longrightarrow>
       luaO_rawequalObj (i_key (ns ! i)) (i_key (ns ! j)) \<Longrightarrow> i = j"
    "lf \<le> int (length ns)"
  using assms unfolding nodes_ok_def by blast+

text \<open>A fresh vector of nodes.\<close>

lemma nodes_ok_fresh: "lf = int n \<Longrightarrow> nodes_ok mpos (replicate n dummynode) lf"
  by (auto simp: nodes_ok_def chains_ok_def link_def dummynode_def)

text \<open>Storing a value changes neither keys nor links; a node that has a key may get any value.\<close>

lemma nth_update_field: "f (g (ns ! n)) = f (ns ! n) \<Longrightarrow> f (ns[n := g (ns ! n)] ! i) = f (ns ! i)"
  by (cases "n < length ns"; cases "i = n") (simp_all add: list_update_beyond)

lemma link_val: "link (ns[n := (ns ! n)\<lparr>i_val := v\<rparr>]) = link ns"
  unfolding link_def by (simp add: nth_update_field [where f = gnext and g = "\<lambda>nd. nd\<lparr>i_val := v\<rparr>"])

lemma key_val: "i_key (ns[n := (ns ! n)\<lparr>i_val := v\<rparr>] ! i) = i_key (ns ! i)"
  "gnext (ns[n := (ns ! n)\<lparr>i_val := v\<rparr>] ! i) = gnext (ns ! i)"
  by (simp_all add: nth_update_field [where f = i_key and g = "\<lambda>nd. nd\<lparr>i_val := v\<rparr>"]
      nth_update_field [where f = gnext and g = "\<lambda>nd. nd\<lparr>i_val := v\<rparr>"])

lemma nodes_ok_val:
  assumes "nodes_ok mpos ns lf" and "i_key (ns ! n) \<noteq> LNil"
  shows "nodes_ok mpos (ns[n := (ns ! n)\<lparr>i_val := v\<rparr>]) lf"
proof -
  have "i_val (ns[n := (ns ! n)\<lparr>i_val := v\<rparr>] ! i) = i_val (ns ! i)" if "i_key (ns ! i) = LNil" for i
    using that assms(2) by (cases "i = n") simp_all
  with assms(1) show ?thesis
    by (simp add: nodes_ok_def chains_ok_def link_val key_val)
qed

text \<open>Placing a key in a node whose value is nil and that is the key's main position.\<close>

lemma link_key: "link (ns[n := (ns ! n)\<lparr>i_key := k\<rparr>]) = link ns"
  unfolding link_def by (simp add: nth_update_field [where f = gnext and g = "\<lambda>nd. nd\<lparr>i_key := k\<rparr>"])

lemma nodes_ok_key:
  assumes ok: "nodes_ok mpos ns lf" and n: "n < length ns" "n = mpos k"
    and k: "valid_key k" "k \<noteq> LNil"
    and new: "\<And>i. i < length ns \<Longrightarrow> \<not> luaO_rawequalObj (i_key (ns ! i)) k"
    and mpos: "\<And>a b. luaO_rawequalObj a b \<Longrightarrow> mpos a = mpos b"
  shows "nodes_ok mpos (ns[n := (ns ! n)\<lparr>i_key := k\<rparr>]) lf"
proof -
  let ?ns = "ns[n := (ns ! n)\<lparr>i_key := k\<rparr>]"
  have key: "i_key (?ns ! i) = (if i = n then k else i_key (ns ! i))" if "i < length ns" for i
    using that by (simp add: nth_list_update)
  have other: "gnext (?ns ! i) = gnext (ns ! i)" "i_val (?ns ! i) = i_val (ns ! i)" for i
    by (simp_all add: nth_update_field [where f = gnext and g = "\<lambda>nd. nd\<lparr>i_key := k\<rparr>"]
        nth_update_field [where f = i_val and g = "\<lambda>nd. nd\<lparr>i_key := k\<rparr>"])
  have main: "mpos (i_key (ns ! i)) < length ns" if "i < length ns" "i_key (ns ! i) \<noteq> LNil" for i
  proof -
    have "reach ns (mpos (i_key (ns ! i))) i" by (rule nodes_okD(5) [OF ok that])
    then show ?thesis using that(1) by (auto simp: link_def elim: converse_rtranclpE)
  qed
  show ?thesis
    unfolding nodes_ok_def length_list_update
  proof (intro conjI allI impI)
    show "chains_ok ?ns" using nodes_okD(1) [OF ok] by (simp add: chains_ok_def link_key)
    show "i = j" if "link ?ns i m" "link ?ns j m" for i j m
      using nodes_okD(2) [OF ok] that by (simp add: link_key)
    show "lf \<le> int (length ns)" by (rule nodes_okD(9) [OF ok])
    fix i assume i: "i < length ns"
    {
      assume "i_key (?ns ! i) = LNil"
      then have "i_key (ns ! i) = LNil" "i \<noteq> n" using key [OF i] k(2) by (auto split: if_split_asm)
      note f = nodes_okD(3) [OF ok i this(1)]
      show "i_val (?ns ! i) = LNil" "gnext (?ns ! i) = None" "int i < lf" using f other by simp_all
      show "\<not> link ?ns j i" for j using f by (simp add: link_key)
    }
    {
      assume ki: "i_key (?ns ! i) \<noteq> LNil"
      show "valid_key (i_key (?ns ! i))"
        using ki key [OF i] k(1) nodes_okD(4) [OF ok i] by (cases "i = n") simp_all
      show "reach ?ns (mpos (i_key (?ns ! i))) i"
        using ki key [OF i] n(2) nodes_okD(5) [OF ok i] by (cases "i = n") (simp_all add: link_key)
      show "i_key (?ns ! mpos (i_key (?ns ! i))) \<noteq> LNil"
        using ki key [OF i] k(2) n nodes_okD(6) [OF ok i] key [OF main [OF i]]
        by (cases "i = n") (auto simp: key [OF n(1)])
      show "mpos (i_key (?ns ! mpos (i_key (?ns ! i)))) = mpos (i_key (?ns ! i))"
        using ki key [OF i] k(2) n nodes_okD(7) [OF ok i] key [OF main [OF i]]
        by (cases "i = n") (auto simp: key [OF n(1)])
      fix j assume j: "j < length ns" and eq: "luaO_rawequalObj (i_key (?ns ! i)) (i_key (?ns ! j))"
      show "i = j"
        using eq key [OF i] key [OF j] new [OF i] new [OF j] nodes_okD(8) [OF ok i j] ki
        by (auto split: if_split_asm dest: rawequal_sym)
    }
  qed
qed

text \<open>
  The colliding node is in its own main position: the new key goes to the free node \<open>n\<close>, which is linked
  in after \<open>mp\<close>.
\<close>

lemma main_less:
  assumes "nodes_ok mpos ns lf" "i < length ns" "i_key (ns ! i) \<noteq> LNil"
  shows "mpos (i_key (ns ! i)) < length ns"
proof -
  have "reach ns (mpos (i_key (ns ! i))) i" by (rule nodes_okD(5) [OF assms])
  then show ?thesis using assms(2) by (auto simp: link_def elim: converse_rtranclpE)
qed

lemma nodes_ok_append:
  assumes ok: "nodes_ok mpos ns lf" and len: "length ns' = length ns"
    and n: "n < length ns" "i_key (ns ! n) = LNil" and above: "\<And>i. n < i \<Longrightarrow> int i < lf \<Longrightarrow> i_key (ns ! i) \<noteq> LNil"
    and mp: "mp < length ns" "mpos k = mp" "i_key (ns ! mp) \<noteq> LNil" "mpos (i_key (ns ! mp)) = mp"
    and k: "valid_key k" "k \<noteq> LNil"
    and new: "\<And>i. i < length ns \<Longrightarrow> \<not> luaO_rawequalObj (i_key (ns ! i)) k"
    and ns'_n: "ns' ! n = \<lparr>i_val = LNil, i_key = k, gnext = gnext (ns ! mp)\<rparr>"
    and ns'_mp: "ns' ! mp = (ns ! mp)\<lparr>gnext := Some n\<rparr>"
    and ns'_i: "\<And>i. i < length ns \<Longrightarrow> i \<noteq> n \<Longrightarrow> i \<noteq> mp \<Longrightarrow> ns' ! i = ns ! i"
  shows "nodes_ok mpos ns' (int n)"
proof -
  have nmp: "n \<noteq> mp" using n(2) mp(3) by auto
  note free = nodes_okD(3) [OF ok n]
  have link': "link ns' i j \<longleftrightarrow> i = n \<and> link ns mp j \<or> i = mp \<and> j = n \<or> i \<noteq> mp \<and> link ns i j" for i j
    using n(1) mp(1) nmp ns'_n ns'_mp ns'_i [of i] free unfolding link_def len
    by (cases "i = n"; cases "i = mp"; cases "i < length ns") auto
  obtain r :: "nat \<Rightarrow> nat" where r: "\<And>i j. link ns i j \<Longrightarrow> r i < r j" and rng: "\<And>i j. link ns i j \<Longrightarrow> j < length ns"
    using nodes_okD(1) [OF ok] unfolding chains_ok_def by blast
  have nolink: "\<not> link ns j n" "\<not> link ns n j" for j using free by (auto simp: link_def)
  define r' where "r' i = (if i = n then 2 * r mp + 1 else 2 * r i)" for i
  have "r' i < r' j" if "link ns' i j" for i j
  proof -
    have "j \<noteq> n \<Longrightarrow> link ns mp j \<Longrightarrow> 2 * r mp + 1 < 2 * r j" using r [of mp j] by simp
    then show ?thesis using that r [of i j] nolink nmp unfolding link' r'_def by (auto split: if_split)
  qed
  moreover have "j < length ns'" if "link ns' i j" for i j using that rng n(1) len unfolding link' by auto
  ultimately have chains: "chains_ok ns'" unfolding chains_ok_def by blast
  have inj: "i = j" if "link ns' i m" "link ns' j m" for i j m
  proof (cases "m = n")
    case True
    then show ?thesis using that nolink unfolding link' by auto
  next
    case False
    let ?f = "\<lambda>x. if x = n then mp else x"
    have "link ns (?f i) m" "link ns (?f j) m" using that False nolink(2) unfolding link' by auto
    then have "?f i = ?f j" by (rule nodes_okD(2) [OF ok])
    moreover have "i \<noteq> mp" "j \<noteq> mp" using that False nmp unfolding link' by auto
    ultimately show ?thesis by (auto split: if_split_asm)
  qed
  have step: "reach ns' i j" if "link ns i j" for i j
  proof (cases "i = mp")
    case True
    then have "link ns' mp n" "link ns' n j" using that unfolding link' by simp_all
    with True show ?thesis by (metis converse_rtranclp_into_rtranclp r_into_rtranclp)
  next
    case False
    then show ?thesis using that by (simp add: link' r_into_rtranclp)
  qed
  have reach': "reach ns i j \<Longrightarrow> reach ns' i j" for i j
    by (induction rule: rtranclp_induct) (auto intro: rtranclp_trans step)
  have key: "i_key (ns' ! i) = (if i = n then k else i_key (ns ! i))"
    "i_val (ns' ! i) = (if i = n then LNil else i_val (ns ! i))" if "i < length ns" for i
    using that ns'_n ns'_mp ns'_i [OF that] nmp by (cases "i = n"; cases "i = mp"; simp)+
  have main: "mpos (i_key (ns ! i)) < length ns \<and> mpos (i_key (ns ! i)) \<noteq> n" if "i < length ns" "i_key (ns ! i) \<noteq> LNil" for i
    using main_less [OF ok that] nodes_okD(6) [OF ok that] n(2) by auto
  have reach_n: "reach ns' mp n" using link' by (auto intro: r_into_rtranclp)
  show ?thesis
    unfolding nodes_ok_def len
  proof (intro conjI allI impI)
    show "chains_ok ns'" by (rule chains)
    show "i = j" if "link ns' i m" "link ns' j m" for i j m using inj that .
    show "int n \<le> int (length ns)" using n(1) by simp
    fix i assume i: "i < length ns"
    {
      assume "i_key (ns' ! i) = LNil"
      then have ki: "i_key (ns ! i) = LNil" "i \<noteq> n" using key(1) [OF i] k(2) by (auto split: if_split_asm)
      then have imp: "i \<noteq> mp" using mp(3) by auto
      note f = nodes_okD(3) [OF ok i ki(1)]
      show "i_val (ns' ! i) = LNil" "gnext (ns' ! i) = None" using f ns'_i [OF i ki(2) imp] by simp_all
      show "\<not> link ns' j i" for j using f ki(2) nodes_okD(3) [OF ok i ki(1)] unfolding link' by blast
      show "int i < int n" using f above [of i] ki by (metis linorder_neqE_nat of_nat_less_iff)
    }
    {
      assume ki: "i_key (ns' ! i) \<noteq> LNil"
      show "valid_key (i_key (ns' ! i))"
        using ki key(1) [OF i] k(1) nodes_okD(4) [OF ok i] by (cases "i = n") simp_all
      show "reach ns' (mpos (i_key (ns' ! i))) i"
        using ki key(1) [OF i] mp(2) reach_n reach' [OF nodes_okD(5) [OF ok i]] by (cases "i = n") simp_all
      show "i_key (ns' ! mpos (i_key (ns' ! i))) \<noteq> LNil"
        using ki key(1) [OF i] mp nmp nodes_okD(6) [OF ok i] main [OF i] key(1) [OF mp(1)] key(1) [of "mpos (i_key (ns ! i))"]
        by (cases "i = n") auto
      show "mpos (i_key (ns' ! mpos (i_key (ns' ! i)))) = mpos (i_key (ns' ! i))"
        using ki key(1) [OF i] mp nmp nodes_okD(7) [OF ok i] main [OF i] key(1) [OF mp(1)] key(1) [of "mpos (i_key (ns ! i))"]
        by (cases "i = n") auto
      fix j assume j: "j < length ns" and eq: "luaO_rawequalObj (i_key (ns' ! i)) (i_key (ns' ! j))"
      show "i = j"
        using eq key(1) [OF i] key(1) [OF j] new [OF i] new [OF j] nodes_okD(8) [OF ok i j] ki
        by (auto split: if_split_asm dest: rawequal_sym)
    }
  qed
qed

text \<open>
  The colliding node is not in its main position: it moves to the free node \<open>n\<close>, and \<open>prev\<close>, which was
  before it in its chain, is linked to \<open>n\<close>; the new key takes its place.
\<close>

lemma nodes_ok_move:
  assumes ok: "nodes_ok mpos ns lf" and len: "length ns' = length ns"
    and n: "n < length ns" "i_key (ns ! n) = LNil" and above: "\<And>i. n < i \<Longrightarrow> int i < lf \<Longrightarrow> i_key (ns ! i) \<noteq> LNil"
    and mp: "mp < length ns" "mpos k = mp" "i_key (ns ! mp) \<noteq> LNil" "mpos (i_key (ns ! mp)) \<noteq> mp"
    and prev: "link ns prev mp"
    and k: "valid_key k" "k \<noteq> LNil"
    and new: "\<And>i. i < length ns \<Longrightarrow> \<not> luaO_rawequalObj (i_key (ns ! i)) k"
    and ns'_n: "ns' ! n = ns ! mp" and ns'_mp: "ns' ! mp = \<lparr>i_val = LNil, i_key = k, gnext = None\<rparr>"
    and ns'_prev: "ns' ! prev = (ns ! prev)\<lparr>gnext := Some n\<rparr>"
    and ns'_i: "\<And>i. i < length ns \<Longrightarrow> i \<noteq> n \<Longrightarrow> i \<noteq> mp \<Longrightarrow> i \<noteq> prev \<Longrightarrow> ns' ! i = ns ! i"
  shows "nodes_ok mpos ns' (int n)"
proof -
  have nmp: "n \<noteq> mp" using n(2) mp(3) by auto
  note free = nodes_okD(3) [OF ok n]
  have nolink: "\<not> link ns j n" "\<not> link ns n j" for j using free by (auto simp: link_def)
  obtain r :: "nat \<Rightarrow> nat" where r: "\<And>i j. link ns i j \<Longrightarrow> r i < r j" and rng: "\<And>i j. link ns i j \<Longrightarrow> j < length ns"
    using nodes_okD(1) [OF ok] unfolding chains_ok_def by blast
  have prev_less: "prev < length ns" using prev by (simp add: link_def)
  have pn: "prev \<noteq> n" "prev \<noteq> mp" using prev nolink r by (blast, metis less_irrefl)
  have self: "\<not> link ns i i" for i using r by (metis less_irrefl)
  have only: "link ns i mp \<Longrightarrow> i = prev" for i using nodes_okD(2) [OF ok _ prev] .
  have link': "link ns' i j \<longleftrightarrow> i = n \<and> link ns mp j \<or> i = prev \<and> j = n \<or> i \<noteq> mp \<and> i \<noteq> prev \<and> link ns i j" for i j
    using n(1) mp(1) nmp pn prev_less ns'_n ns'_mp ns'_prev ns'_i [of i] free unfolding link_def len
    by (cases "i = n"; cases "i = mp"; cases "i = prev"; cases "i < length ns") auto
  define r' where "r' i = (if i = n then r mp else r i)" for i
  have "r' i < r' j" if "link ns' i j" for i j
    using that r [of i j] r [of mp j] r [OF prev] nolink pn nmp unfolding link' r'_def by (auto split: if_split)
  moreover have "j < length ns'" if "link ns' i j" for i j using that rng n(1) len unfolding link' by auto
  ultimately have chains: "chains_ok ns'" unfolding chains_ok_def by blast
  have inj: "i = j" if "link ns' i m" "link ns' j m" for i j m
  proof (cases "m = n")
    case True
    then show ?thesis using that nolink unfolding link' by auto
  next
    case False
    let ?f = "\<lambda>x. if x = n then mp else x"
    have "link ns (?f i) m" "link ns (?f j) m" using that False nolink(2) unfolding link' by auto
    then have "?f i = ?f j" by (rule nodes_okD(2) [OF ok])
    moreover have "i \<noteq> mp" "j \<noteq> mp" using that False nmp unfolding link' by auto
    ultimately show ?thesis by (auto split: if_split_asm)
  qed
  define \<sigma> where "\<sigma> i = (if i = mp then n else i)" for i
  have step: "link ns' (\<sigma> i) (\<sigma> j)" if "link ns i j" for i j
  proof (cases "j = mp")
    case True
    then show ?thesis using that only [of i] pn by (simp add: link' \<sigma>_def)
  next
    case False
    moreover have "link ns prev j \<Longrightarrow> j = mp" using prev by (simp add: link_def)
    ultimately show ?thesis using that nolink(2) [of j] by (auto simp: link' \<sigma>_def)
  qed
  have reach': "reach ns i j \<Longrightarrow> reach ns' (\<sigma> i) (\<sigma> j)" for i j
    by (induction rule: rtranclp_induct) (auto intro: rtranclp_trans r_into_rtranclp step)
  have key: "i_key (ns' ! i) = (if i = n then i_key (ns ! mp) else if i = mp then k else i_key (ns ! i))"
    if "i < length ns" for i
    using that ns'_n ns'_mp ns'_prev ns'_i [OF that] nmp pn
    by (cases "i = n"; cases "i = mp"; cases "i = prev") simp_all
  have prev_key: "i_key (ns ! prev) \<noteq> LNil" using nodes_okD(3) [OF ok prev_less] prev by (auto simp: link_def)
  let ?m = "\<lambda>i. mpos (i_key (ns ! i))"
  have main: "?m i < length ns \<and> ?m i \<noteq> n \<and> ?m i \<noteq> mp" if "i < length ns" "i_key (ns ! i) \<noteq> LNil" for i
    using main_less [OF ok that] nodes_okD(6) [OF ok that] nodes_okD(7) [OF ok that] n(2) mp(4) by auto
  have key_main: "i_key (ns' ! ?m i) = i_key (ns ! ?m i)" "\<sigma> (?m i) = ?m i"
    if "i < length ns" "i_key (ns ! i) \<noteq> LNil" for i
    using main [OF that] key [of "?m i"] by (simp_all add: \<sigma>_def)
  have old: "i_key (ns' ! ?m i) \<noteq> LNil \<and> mpos (i_key (ns' ! ?m i)) = ?m i \<and> reach ns' (?m i) (\<sigma> i)"
    if "i < length ns" "i_key (ns ! i) \<noteq> LNil" for i
    using reach' [OF nodes_okD(5) [OF ok that]] nodes_okD(6,7) [OF ok that] key_main [OF that] by simp
  show ?thesis
    unfolding nodes_ok_def len
  proof (intro conjI allI impI)
    show "chains_ok ns'" by (rule chains)
    show "i = j" if "link ns' i m" "link ns' j m" for i j m using inj that .
    show "int n \<le> int (length ns)" using n(1) by simp
    fix i assume i: "i < length ns"
    {
      assume "i_key (ns' ! i) = LNil"
      then have ki: "i_key (ns ! i) = LNil" "i \<noteq> n" "i \<noteq> mp" using key [OF i] k(2) mp(3) by (auto split: if_split_asm)
      then have ip: "i \<noteq> prev" using prev_key by auto
      note f = nodes_okD(3) [OF ok i ki(1)]
      show "i_val (ns' ! i) = LNil" "gnext (ns' ! i) = None" using f ns'_i [OF i ki(2,3) ip] by simp_all
      show "\<not> link ns' j i" for j using f ki(2) nodes_okD(3) [OF ok i ki(1)] unfolding link' by blast
      show "int i < int n" using f above [of i] ki by (metis linorder_neqE_nat of_nat_less_iff)
    }
    {
      assume ki: "i_key (ns' ! i) \<noteq> LNil"
      have "valid_key (i_key (ns' ! i)) \<and> reach ns' (mpos (i_key (ns' ! i))) i
          \<and> i_key (ns' ! mpos (i_key (ns' ! i))) \<noteq> LNil
          \<and> mpos (i_key (ns' ! mpos (i_key (ns' ! i)))) = mpos (i_key (ns' ! i))"
      proof (cases "i = mp")
        case True
        then have "i_key (ns' ! i) = k" using key [OF i] nmp by simp
        then show ?thesis using k mp(2) True ns'_mp by simp
      next
        case False
        then obtain j where j: "j < length ns" "i_key (ns' ! i) = i_key (ns ! j)" "i_key (ns ! j) \<noteq> LNil" "\<sigma> j = i"
        proof (cases "i = n")
          case True
          then show ?thesis using key [OF i] mp that [of mp] by (simp add: \<sigma>_def)
        next
          case 2: False
          then show ?thesis using key [OF i] False i ki that [of i] by (simp add: \<sigma>_def)
        qed
        then show ?thesis using old [OF j(1,3)] nodes_okD(4) [OF ok j(1,3)] by simp
      qed
      then show "valid_key (i_key (ns' ! i))" "reach ns' (mpos (i_key (ns' ! i))) i"
        "i_key (ns' ! mpos (i_key (ns' ! i))) \<noteq> LNil"
        "mpos (i_key (ns' ! mpos (i_key (ns' ! i)))) = mpos (i_key (ns' ! i))" by blast+
      fix j assume j: "j < length ns" and eq: "luaO_rawequalObj (i_key (ns' ! i)) (i_key (ns' ! j))"
      show "i = j"
        using eq key [OF i] key [OF j] new [OF i] new [OF j] new [OF mp(1)] nodes_okD(8) [OF ok i j]
          nodes_okD(8) [OF ok i mp(1)] nodes_okD(8) [OF ok mp(1) j] ki mp(3)
        by (auto split: if_split_asm dest: rawequal_sym)
    }
  qed
qed

text \<open>\<open>getfreepos\<close> finds the last free node below \<open>lastfree\<close>.\<close>

lemma getfreepos_run:
  "(\<exists>n. getfreepos t = (Some n, t\<lparr>lastfree := int n\<rparr>) \<and> int n < lastfree t \<and> i_key (tnode t ! n) = LNil
     \<and> (\<forall>i. n < i \<longrightarrow> int i < lastfree t \<longrightarrow> i_key (tnode t ! i) \<noteq> LNil))
   \<or> (\<exists>l. getfreepos t = (None, t\<lparr>lastfree := l\<rparr>) \<and> (\<forall>i. int i < lastfree t \<longrightarrow> i_key (tnode t ! i) \<noteq> LNil))"
proof (induction "nat (lastfree t)" arbitrary: t)
  case 0
  then have "getfreepos t = (None, t\<lparr>lastfree := lastfree t - 1\<rparr>)" by (subst getfreepos.simps) (simp add: Let_def)
  with 0 show ?case by (intro disjI2 exI [of _ "lastfree t - 1"]) simp
next
  case (Suc m)
  let ?t = "t\<lparr>lastfree := lastfree t - 1\<rparr>"
  have lf: "lastfree t = int m + 1" using Suc(2) by simp
  show ?case
  proof (cases "i_key (tnode t ! m) = LNil")
    case True
    then have "getfreepos t = (Some m, t\<lparr>lastfree := int m\<rparr>)" using lf by (subst getfreepos.simps) (simp add: Let_def)
    with True lf show ?thesis by (intro disjI1 exI [of _ m]) simp
  next
    case False
    then have g: "getfreepos t = getfreepos ?t" using lf by (subst getfreepos.simps) (simp add: Let_def)
    have last: "int i < lastfree t \<longleftrightarrow> int i < lastfree ?t \<or> i = m" for i using lf by auto
    have "m = nat (lastfree ?t)" using lf by simp
    from Suc(1) [OF this] show ?thesis
      unfolding g last using False by auto
  qed
qed

lemma getfreepos_cases:
  obtains (free) n where "getfreepos t = (Some n, t\<lparr>lastfree := int n\<rparr>)" "int n < lastfree t"
      "i_key (tnode t ! n) = LNil" "\<And>i. n < i \<Longrightarrow> int i < lastfree t \<Longrightarrow> i_key (tnode t ! i) \<noteq> LNil"
  | (full) l where "getfreepos t = (None, t\<lparr>lastfree := l\<rparr>)" "\<And>i. int i < lastfree t \<Longrightarrow> i_key (tnode t ! i) \<noteq> LNil"
  using getfreepos_run [of t] by blast

section \<open>The invariant of a table, and its contents\<close>

definition in_array :: "Table \<Rightarrow> TValue \<Rightarrow> bool" where
  "in_array t k \<longleftrightarrow> 1 \<le> arrayindex k \<and> arrayindex k \<le> sizearray t"

definition table_ok :: "Table \<Rightarrow> bool" where
  "table_ok t \<longleftrightarrow>
     (\<exists>k. node_size t k)
   \<and> (if isdummy t then tnode t = [dummynode] \<and> lastfree t \<le> 0
      else nodes_ok (mainposition t) (tnode t) (lastfree t))
   \<and> (\<forall>nd\<in>set (tnode t). i_key nd \<noteq> LNil \<longrightarrow> \<not> in_array t (i_key nd))
   \<and> sizearray t \<le> MAXASIZE"

definition holds :: "Node list \<Rightarrow> nat \<Rightarrow> TValue \<Rightarrow> bool" where
  "holds ns n k \<longleftrightarrow> n < length ns \<and> i_key (ns ! n) \<noteq> LNil \<and> luaO_rawequalObj (i_key (ns ! n)) k"

definition hslot :: "Node list \<Rightarrow> TValue \<Rightarrow> nat option" where
  "hslot ns k = (if \<exists>n. holds ns n k then Some (SOME n. holds ns n k) else None)"

definition table_slot :: "Table \<Rightarrow> TValue \<Rightarrow> slot option" where
  "table_slot t k =
     (if in_array t k then Some (ArrSlot (nat (arrayindex k - 1))) else map_option NodeSlot (hslot (tnode t) k))"

definition one_key :: "Node list \<Rightarrow> bool" where
  "one_key ns \<longleftrightarrow> (\<forall>i<length ns. \<forall>j<length ns. i_key (ns ! i) \<noteq> LNil \<longrightarrow>
     luaO_rawequalObj (i_key (ns ! i)) (i_key (ns ! j)) \<longrightarrow> i = j)"

lemma one_key_holds: "one_key ns \<Longrightarrow> holds ns m k \<Longrightarrow> holds ns n k \<Longrightarrow> m = n"
  unfolding one_key_def holds_def by (meson rawequal_sym rawequal_trans)

lemma hslot_Some: "one_key ns \<Longrightarrow> hslot ns k = Some n \<longleftrightarrow> holds ns n k"
  unfolding hslot_def by (auto intro: someI one_key_holds)

lemma hslot_None: "hslot ns k = None \<longleftrightarrow> (\<forall>n. \<not> holds ns n k)"
  by (auto simp: hslot_def)

lemma table_ok_one_key: "table_ok t \<Longrightarrow> one_key (tnode t)"
  by (cases "isdummy t") (auto simp: table_ok_def one_key_def nodes_ok_def dummynode_def)

lemma table_ok_chains: "table_ok t \<Longrightarrow> chains_ok (tnode t)"
  using nodes_ok_fresh [of 1 1 "mainposition t"]
  by (cases "isdummy t") (auto simp: table_ok_def nodes_ok_def)

lemma table_ok_size: "table_ok t \<Longrightarrow> \<exists>k. node_size t k"
  by (simp add: table_ok_def)

lemma table_main_less: "table_ok t \<Longrightarrow> mainposition t k < length (tnode t)"
  using table_ok_size mainposition_less by blast

lemma table_ok_reach:
  assumes "table_ok t" "holds (tnode t) n k"
  shows "reach (tnode t) (mainposition t k) n"
proof -
  have "\<not> isdummy t" using assms by (auto simp: table_ok_def holds_def dummynode_def)
  then have "nodes_ok (mainposition t) (tnode t) (lastfree t)" using assms(1) by (simp add: table_ok_def)
  then have "reach (tnode t) (mainposition t (i_key (tnode t ! n))) n"
    using assms(2) by (intro nodes_okD(5)) (simp_all add: holds_def)
  moreover have "mainposition t (i_key (tnode t ! n)) = mainposition t k"
    using assms(2) by (intro mainposition_eq) (simp add: holds_def)
  ultimately show ?thesis by simp
qed

text \<open>The search for a key.\<close>

lemma find_node_eq:
  assumes ok: "table_ok t" and k: "k \<noteq> LNil"
    and p: "\<And>nd. p nd \<longleftrightarrow> luaO_rawequalObj (i_key nd) k"
  shows "find_node t p (mainposition t k) = Inr (map_option NodeSlot (hslot (tnode t) k))"
proof (rule chain_find_ok [OF table_ok_chains [OF ok] table_main_less [OF ok, of k], of p])
  fix m
  assume found: "chain_find (length (tnode t)) t p (mainposition t k) = Inr (Some m)" "m < length (tnode t)"
    "reach (tnode t) (mainposition t k) m" "p (tnode t ! m)"
  have "i_key (tnode t ! m) \<noteq> LNil" using found(4) k by (cases k) (auto simp: p rawequal_cases)
  then have "holds (tnode t) m k" using found p by (simp add: holds_def)
  then have "hslot (tnode t) k = Some m" by (simp add: hslot_Some [OF table_ok_one_key [OF ok]])
  with found show ?thesis by (simp add: find_node_def)
next
  assume none: "chain_find (length (tnode t)) t p (mainposition t k) = Inr None"
    "\<And>m. reach (tnode t) (mainposition t k) m \<Longrightarrow> \<not> p (tnode t ! m)"
  have "hslot (tnode t) k = None"
    unfolding hslot_None using none(2) table_ok_reach [OF ok] by (auto simp: p holds_def)
  with none show ?thesis by (simp add: find_node_def)
qed

lemma arrayindex_cast_num:
  assumes "- 2147483648 \<le> k" "k < 2147483648"
  shows "arrayindex (LNumber (cast_num k)) = k"
  using assms by (simp add: arrayindex_def numeq_cast_num)

lemma sizearray_bound: "table_ok t \<Longrightarrow> sizearray t \<le> 67108864"
  by (simp add: table_ok_def MAXASIZE_def MAXBITS_def)

lemma in_array_test:
  assumes "- 2147483648 \<le> k" "k < 2147483648" "sizearray t \<le> 67108864"
  shows "c_uint (k - 1) < c_uint (sizearray t) \<longleftrightarrow> 1 \<le> k \<and> k \<le> sizearray t"
proof -
  have s: "uint (c_uint (sizearray t)) = sizearray t" using assms(3) by simp
  show ?thesis
  proof (cases "1 \<le> k")
    case True
    then have "uint (c_uint (k - 1)) = k - 1" using assms by simp
    with s True show ?thesis by (auto simp: word_less_def)
  next
    case False
    have "uint (c_uint (k - 1)) = (k - 1) mod 4294967296"
      unfolding c_uint_def uint_word_of_int by simp
    also have "\<dots> = k - 1 + 4294967296"
      using False assms by (intro int_mod_pos_eq [where q = "- 1"]) simp_all
    finally show ?thesis using s False assms by (simp add: word_less_def)
  qed
qed

lemma luaH_getnum_eq:
  assumes ok: "table_ok t" and k: "- 2147483648 \<le> k" "k < 2147483648"
  shows "luaH_getnum t k = Inr (table_slot t (LNumber (cast_num k)))"
proof -
  note test = in_array_test [OF k sizearray_bound [OF ok]]
  have in_a: "in_array t (LNumber (cast_num k)) \<longleftrightarrow> 1 \<le> k \<and> k \<le> sizearray t"
    using k by (simp add: in_array_def arrayindex_cast_num)
  show ?thesis
  proof (cases "1 \<le> k \<and> k \<le> sizearray t")
    case True
    then show ?thesis using k test in_a by (simp add: luaH_getnum_def table_slot_def arrayindex_cast_num)
  next
    case False
    have "luaH_getnum t k = find_node t (\<lambda>nd. case i_key nd of LNumber n \<Rightarrow> luai_numeq n (cast_num k) | _ \<Rightarrow> False)
        (mainposition t (LNumber (cast_num k)))"
    proof -
      have "\<not> c_uint (k - 1) < c_uint (sizearray t)" using False test by blast
      then show ?thesis by (simp add: luaH_getnum_def mainposition_def Let_def)
    qed
    also have "\<dots> = Inr (map_option NodeSlot (hslot (tnode t) (LNumber (cast_num k))))"
      by (rule find_node_eq [OF ok]) (simp_all add: rawequal_cases split: TValue.split)
    finally show ?thesis using False in_a by (simp add: table_slot_def)
  qed
qed

lemma slot_nonnum: "\<forall>n. k \<noteq> LNumber n \<Longrightarrow> table_slot t k = map_option NodeSlot (hslot (tnode t) k)"
  by (cases k) (simp_all add: table_slot_def in_array_def arrayindex_def)

lemma luaH_getstr_eq: "table_ok t \<Longrightarrow> luaH_getstr t s = Inr (table_slot t (LString s))"
  using find_node_eq [of t "LString s" "\<lambda>nd. i_key nd = LString s"]
  by (simp add: luaH_getstr_def slot_nonnum mainposition_def rawequal_cases split: TValue.split)

lemma luaH_getwstr_eq: "table_ok t \<Longrightarrow> luaH_getwstr t s = Inr (table_slot t (LWString s))"
  using find_node_eq [of t "LWString s" "\<lambda>nd. i_key nd = LWString s"]
  by (simp add: luaH_getwstr_def slot_nonnum mainposition_def rawequal_cases split: TValue.split)

lemma table_slot_nil: "table_slot t LNil = None"
proof -
  have "\<not> holds ns n LNil" for ns n
    by (cases "i_key (ns ! n)") (simp_all add: holds_def rawequal_cases)
  then show ?thesis by (simp add: slot_nonnum hslot_None)
qed

lemma holds_rawequal: "luaO_rawequalObj k k' \<Longrightarrow> holds ns n k \<longleftrightarrow> holds ns n k'"
  unfolding holds_def by (meson rawequal_sym rawequal_trans)

lemma hslot_rawequal: "luaO_rawequalObj k k' \<Longrightarrow> hslot ns k = hslot ns k'"
  by (simp add: hslot_def holds_rawequal)

text \<open>An integral key is the key of its integer.\<close>

lemma arrayindex_numeq:
  assumes "luai_numeq (cast_num (lua_number2int n)) n"
  shows "arrayindex (LNumber n) = lua_number2int n" "luaO_rawequalObj (LNumber (cast_num (lua_number2int n))) (LNumber n)"
  using assms by (simp_all add: arrayindex_def rawequal_cases)

lemma luaH_get_eq: "table_ok t \<Longrightarrow> luaH_get t k = Inr (table_slot t k)"
proof -
  assume ok: "table_ok t"
  have default: "get_default t k = Inr (table_slot t k)" if "k \<noteq> LNil" "\<not> in_array t k"
    using find_node_eq [OF ok that(1)] that(2) by (simp add: get_default_def table_slot_def)
  show ?thesis
  proof (cases k)
    case (LNumber n)
    show ?thesis
    proof (cases "luai_numeq (cast_num (lua_number2int n)) n")
      case True
      let ?k = "LNumber (cast_num (lua_number2int n))"
      have "arrayindex ?k = lua_number2int n" using number2int_range by (simp add: arrayindex_cast_num)
      then have "table_slot t ?k = table_slot t k"
        using arrayindex_numeq [OF True] hslot_rawequal [of ?k k] LNumber
        by (simp add: table_slot_def in_array_def)
      with True LNumber luaH_getnum_eq [OF ok number2int_range] show ?thesis
        by (simp add: luaH_get_def Let_def)
    next
      case False
      then have "\<not> in_array t k" using LNumber by (simp add: in_array_def arrayindex_def)
      with False LNumber default show ?thesis by (simp add: luaH_get_def Let_def)
    qed
  qed (use ok default in \<open>simp_all add: luaH_get_def table_slot_nil luaH_getstr_eq luaH_getwstr_eq
      in_array_def arrayindex_def\<close>)
qed

text \<open>The entries of the hash part with a value, and the value of a key.\<close>

definition entries :: "Node list \<Rightarrow> (TValue \<times> TValue) set" where
  "entries ns = {(i_key (ns ! i), i_val (ns ! i)) | i. i < length ns \<and> i_val (ns ! i) \<noteq> LNil}"

definition hval :: "Node list \<Rightarrow> TValue \<Rightarrow> TValue" where
  "hval ns k = (case hslot ns k of None \<Rightarrow> LNil | Some n \<Rightarrow> i_val (ns ! n))"

definition keyed :: "Node list \<Rightarrow> bool" where
  "keyed ns \<longleftrightarrow> one_key ns \<and> (\<forall>i<length ns. i_key (ns ! i) = LNil \<longrightarrow> i_val (ns ! i) = LNil)"

lemma table_ok_keyed: "table_ok t \<Longrightarrow> keyed (tnode t)"
  using table_ok_one_key [of t]
  by (cases "isdummy t") (auto simp: table_ok_def nodes_ok_def keyed_def dummynode_def)

lemma hval_entry:
  assumes "keyed ns" and "v \<noteq> LNil"
  shows "hval ns k = v \<longleftrightarrow> (\<exists>key. (key, v) \<in> entries ns \<and> luaO_rawequalObj key k)"
proof
  assume h: "hval ns k = v"
  then obtain n where n: "hslot ns k = Some n" "i_val (ns ! n) = v"
    using assms(2) by (auto simp: hval_def split: option.splits)
  then have "holds ns n k" using assms(1) by (simp add: hslot_Some keyed_def)
  with n(2) assms(2) show "\<exists>key. (key, v) \<in> entries ns \<and> luaO_rawequalObj key k"
    by (auto simp: holds_def entries_def)
next
  assume "\<exists>key. (key, v) \<in> entries ns \<and> luaO_rawequalObj key k"
  then obtain i where i: "i < length ns" "i_val (ns ! i) = v" "luaO_rawequalObj (i_key (ns ! i)) k"
    by (auto simp: entries_def)
  then have "holds ns i k" using assms by (auto simp: holds_def keyed_def)
  then have "hslot ns k = Some i" using assms(1) by (simp add: hslot_Some keyed_def)
  with i(2) show "hval ns k = v" by (simp add: hval_def)
qed

lemma hval_cong:
  assumes "keyed ns" "keyed ns'" "entries ns = entries ns'"
  shows "hval ns k = hval ns' k"
proof (cases "hval ns k = LNil")
  case False
  with hval_entry [OF assms(1) False, of k] hval_entry [OF assms(2) False, of k] assms(3) show ?thesis by simp
next
  case True
  show ?thesis
  proof (rule ccontr)
    assume "hval ns k \<noteq> hval ns' k"
    with True have n: "hval ns' k \<noteq> LNil" by simp
    from hval_entry [OF assms(2) n, of k] have "\<exists>key. (key, hval ns' k) \<in> entries ns \<and> luaO_rawequalObj key k"
      unfolding assms(3) by blast
    then have "hval ns k = hval ns' k" using hval_entry [OF assms(1) n, of k] by blast
    with True n show False by simp
  qed
qed

text \<open>\<open>raw_get\<close>: what the code reads for a key.\<close>

definition raw_get :: "Table \<Rightarrow> TValue \<Rightarrow> TValue" where
  "raw_get t k = (case luaH_get t k of Inr (Some s) \<Rightarrow> slot_value t s | _ \<Rightarrow> LNil)"

lemma raw_get_eq:
  assumes "table_ok t"
  shows "raw_get t k = (if in_array t k then tarray t ! nat (arrayindex k - 1) else hval (tnode t) k)"
  by (simp add: raw_get_def luaH_get_eq [OF assms] table_slot_def slot_value_def hval_def split: option.split)

text \<open>The free nodes.\<close>

definition free_nodes :: "Node list \<Rightarrow> nat set" where
  "free_nodes ns = {i. i < length ns \<and> i_key (ns ! i) = LNil}"

lemma finite_free_nodes [simp]: "finite (free_nodes ns)"
  by (simp add: free_nodes_def)

text \<open>What inserting a new key does to a table \<open>t\<close>: there is a node for \<open>k\<close>, without a value.\<close>

definition inserted :: "Table \<Rightarrow> TValue \<Rightarrow> nat \<Rightarrow> Table \<Rightarrow> bool" where
  "inserted t k n t' \<longleftrightarrow>
     table_ok t' \<and> \<not> isdummy t' \<and> tarray t' = tarray t \<and> tspare t' = tspare t
   \<and> length (tnode t') = length (tnode t) \<and> n < length (tnode t') \<and> i_key (tnode t' ! n) = k \<and> i_val (tnode t' ! n) = LNil
   \<and> entries (tnode t') = entries (tnode t)
   \<and> (\<exists>x. free_nodes (tnode t) - {x} \<subseteq> free_nodes (tnode t'))"

lemma valid_not_nil: "valid_key k \<Longrightarrow> k \<noteq> LNil"
  by (auto simp: valid_key_def)

lemma slot_None_new:
  assumes "table_ok t" "table_slot t k = None" "i < length (tnode t)"
  shows "\<not> in_array t k" "k \<noteq> LNil \<Longrightarrow> \<not> luaO_rawequalObj (i_key (tnode t ! i)) k"
proof -
  show "\<not> in_array t k" using assms(2) by (simp add: table_slot_def split: if_split_asm)
  then have "\<forall>n. \<not> holds (tnode t) n k" using assms(2) by (simp add: table_slot_def hslot_None)
  then show "k \<noteq> LNil \<Longrightarrow> \<not> luaO_rawequalObj (i_key (tnode t ! i)) k"
    using assms(3) by (cases "i_key (tnode t ! i) = LNil"; cases k) (auto simp: holds_def rawequal_cases)
qed

lemma in_array_cong: "tarray t' = tarray t \<Longrightarrow> in_array t' k = in_array t k"
  by (simp add: in_array_def)

text \<open>A table whose nodes have changed like this.\<close>

lemma inserted_intro:
  assumes ok: "table_ok t" "\<not> isdummy t" "\<not> in_array t k" "k \<noteq> LNil"
    and t': "t' = t\<lparr>tnode := ns', lastfree := lf\<rparr>" and len: "length ns' = length (tnode t)"
    and nok: "nodes_ok (mainposition t) ns' lf"
    and keys: "\<And>i. i < length ns' \<Longrightarrow> i_key (ns' ! i) \<noteq> LNil \<Longrightarrow>
      i_key (ns' ! i) = k \<or> (\<exists>j<length (tnode t). i_key (ns' ! i) = i_key (tnode t ! j))"
    and n: "n < length ns'" "i_key (ns' ! n) = k" "i_val (ns' ! n) = LNil"
    and e: "entries ns' = entries (tnode t)"
    and free: "free_nodes (tnode t) - {x} \<subseteq> free_nodes ns'"
  shows "inserted t k n t'"
proof -
  have mp: "mainposition t' = mainposition t" unfolding t' by (rule ext, rule mainposition_cong) simp
  obtain kk where "node_size t kk" using ok(1) by (auto simp: table_ok_def)
  then have "node_size t' kk" using len by (simp add: node_size_def t')
  moreover have "\<not> in_array t' (i_key nd)" if "nd \<in> set ns'" "i_key nd \<noteq> LNil" for nd
  proof -
    obtain i where i: "i < length ns'" "nd = ns' ! i" using \<open>nd \<in> set ns'\<close> by (auto simp: in_set_conv_nth)
    have "in_array t' (i_key nd) = in_array t (i_key nd)" by (rule in_array_cong) (simp add: t')
    moreover have "\<not> in_array t (i_key nd)"
      using keys [OF i(1)] that(2) ok i(2) by (auto simp: table_ok_def)
    ultimately show ?thesis by simp
  qed
  ultimately have "table_ok t'"
    using ok nok by (auto simp: table_ok_def mp) (simp_all add: t')
  then show ?thesis using ok len n e free by (auto simp: inserted_def t')
qed

lemma entries_iff: "(a, v) \<in> entries ns \<longleftrightarrow> v \<noteq> LNil \<and> (\<exists>i<length ns. i_key (ns ! i) = a \<and> i_val (ns ! i) = v)"
  by (auto simp: entries_def)

text \<open>The new key in its main position, whose value is nil.\<close>

lemma inserted_main:
  assumes ok: "table_ok t" "\<not> isdummy t" and k: "valid_key k" and new: "table_slot t k = None"
    and mp: "mp = mainposition t k" and nil: "i_val (tnode t ! mp) = LNil"
  shows "inserted t k mp (upd_node mp (\<lambda>nd. nd\<lparr>i_key := k\<rparr>) t)"
proof -
  let ?ns = "tnode t" and ?ns' = "(tnode t)[mp := (tnode t ! mp)\<lparr>i_key := k\<rparr>]"
  have l: "mp < length ?ns" unfolding mp by (rule table_main_less [OF ok(1)])
  note kn = valid_not_nil [OF k]
  have nok: "nodes_ok (mainposition t) ?ns (lastfree t)" using ok by (simp add: table_ok_def)
  have key: "i_key (?ns' ! i) = (if i = mp then k else i_key (?ns ! i))" if "i < length ?ns" for i
    using that by (simp add: nth_list_update)
  have val: "i_val (?ns' ! i) = i_val (?ns ! i)" for i
    by (rule nth_update_field [where f = i_val and g = "\<lambda>nd. nd\<lparr>i_key := k\<rparr>"]) simp
  show ?thesis
  proof (rule inserted_intro [OF ok slot_None_new(1) [OF ok(1) new l] kn])
    show "upd_node mp (\<lambda>nd. nd\<lparr>i_key := k\<rparr>) t = t\<lparr>tnode := ?ns', lastfree := lastfree t\<rparr>" by (simp add: upd_node_def)
    show "nodes_ok (mainposition t) ?ns' (lastfree t)"
      by (rule nodes_ok_key [OF nok l mp k kn]) (auto dest: slot_None_new(2) [OF ok(1) new] mainposition_eq simp: kn)
    show "entries ?ns' = entries ?ns"
    proof (rule set_eqI, clarify)
      fix a v
      show "(a, v) \<in> entries ?ns' \<longleftrightarrow> (a, v) \<in> entries ?ns"
        using key val nil by (auto simp: entries_iff)
    qed
    show "free_nodes ?ns - {mp} \<subseteq> free_nodes ?ns'" using key by (auto simp: free_nodes_def)
  qed (use key l nil val in \<open>auto split: if_split_asm\<close>)
qed

text \<open>
  Inserting a key that is not there, when its main position has no value or there is a free node: no
  rehash, and the table gets a node for the key.
\<close>

lemma newkey_step_ok:
  assumes ok: "table_ok t" "\<not> isdummy t" and k: "valid_key k" and new: "table_slot t k = None"
    and room: "i_val (tnode t ! mainposition t k) = LNil \<or> free_nodes (tnode t) \<noteq> {}"
  shows "\<exists>n t'. newkey_step nk t k = Inr (NodeSlot n, t') \<and> inserted t k n t'"
proof -
  let ?ns = "tnode t"
  define mp where "mp = mainposition t k"
  have l: "mp < length ?ns" unfolding mp_def by (rule table_main_less [OF ok(1)])
  note kn = valid_not_nil [OF k]
  have nok: "nodes_ok (mainposition t) ?ns (lastfree t)" using ok by (simp add: table_ok_def)
  have new': "\<And>i. i < length ?ns \<Longrightarrow> \<not> luaO_rawequalObj (i_key (?ns ! i)) k"
    using slot_None_new(2) [OF ok(1) new] kn by blast
  show ?thesis
  proof (cases "i_val (?ns ! mp) = LNil")
    case True
    then have "newkey_step nk t k = Inr (NodeSlot mp, upd_node mp (\<lambda>nd. nd\<lparr>i_key := k\<rparr>) t)"
      using l ok(2) by (simp add: newkey_step_def gnode_def flip: mp_def)
    with inserted_main [OF ok k new mp_def True] show ?thesis by blast
  next
    case False
    then obtain f where f: "f < length ?ns" "i_key (?ns ! f) = LNil"
      using room by (auto simp: mp_def free_nodes_def)
    have mpk: "i_key (?ns ! mp) \<noteq> LNil" using False nodes_okD(3) [OF nok l] by blast
    from f nodes_okD(3) [OF nok f] have below: "int f < lastfree t" by blast
    obtain n where n: "getfreepos t = (Some n, t\<lparr>lastfree := int n\<rparr>)" "int n < lastfree t"
      "i_key (?ns ! n) = LNil" "\<And>i. n < i \<Longrightarrow> int i < lastfree t \<Longrightarrow> i_key (?ns ! i) \<noteq> LNil"
      by (rule getfreepos_cases [of t]) (use f(2) below in auto)
    have nl: "n < length ?ns" using n(2) nodes_okD(9) [OF nok] by simp
    have nmp: "n \<noteq> mp" using n(3) mpk by auto
    have in_a: "\<not> in_array t k" by (rule slot_None_new(1) [OF ok(1) new l])
    define othern where "othern = mainposition t (i_key (?ns ! mp))"
    have oth: "mainposition (t\<lparr>lastfree := int n\<rparr>) (i_key (?ns ! mp)) = othern"
      unfolding othern_def by (rule mainposition_cong) simp
    show ?thesis
    proof (cases "othern = mp")
      case True
      let ?t1 = "upd_node n (\<lambda>nd. nd\<lparr>gnext := gnext (?ns ! mp)\<rparr>) (t\<lparr>lastfree := int n\<rparr>)"
      let ?t2 = "upd_node mp (\<lambda>nd. nd\<lparr>gnext := Some n\<rparr>) ?t1"
      let ?t' = "upd_node n (\<lambda>nd. nd\<lparr>i_key := k\<rparr>) ?t2"
      let ?ns' = "tnode ?t'"
      have step: "newkey_step nk t k = Inr (NodeSlot n, ?t')"
        using l False n(1) True oth by (simp add: newkey_step_def gnode_def Let_def flip: mp_def)
      have at: "?ns' ! n = \<lparr>i_val = LNil, i_key = k, gnext = gnext (?ns ! mp)\<rparr>"
        "?ns' ! mp = (?ns ! mp)\<lparr>gnext := Some n\<rparr>" "\<And>i. i \<noteq> n \<Longrightarrow> i \<noteq> mp \<Longrightarrow> ?ns' ! i = ?ns ! i"
        "length ?ns' = length ?ns"
        using nl l nmp nodes_okD(3) [OF nok nl n(3)] by (simp_all add: upd_node_def)
      have nok': "nodes_ok (mainposition t) ?ns' (int n)"
        by (rule nodes_ok_append [OF nok at(4) nl n(3,4) l mp_def [symmetric] mpk _ k kn new' at(1,2)])
          (use True at(3) in \<open>simp_all flip: othern_def\<close>)
      have "inserted t k n ?t'"
      proof (rule inserted_intro [OF ok in_a kn _ at(4) nok'])
        show "?t' = t\<lparr>tnode := ?ns', lastfree := int n\<rparr>" by (simp add: upd_node_def)
        show "i_key (?ns' ! i) = k \<or> (\<exists>j<length ?ns. i_key (?ns' ! i) = i_key (?ns ! j))" if "i < length ?ns'" for i
          using at that l by (cases "i = n"; cases "i = mp") auto
        show "entries ?ns' = entries ?ns"
        proof (rule set_eqI, clarify)
          fix a v
          have "i_key (?ns' ! i) = i_key (?ns ! i) \<and> i_val (?ns' ! i) = i_val (?ns ! i)" if "i \<noteq> n" for i
            using at that by (cases "i = mp") auto
          moreover have "i_val (?ns' ! n) = LNil" "i_val (?ns ! n) = LNil" using at(1) nodes_okD(3) [OF nok nl n(3)] by simp_all
          ultimately show "(a, v) \<in> entries ?ns' \<longleftrightarrow> (a, v) \<in> entries ?ns"
            unfolding entries_iff at(4) by metis
        qed
        show "free_nodes ?ns - {n} \<subseteq> free_nodes ?ns'"
        proof
          fix i assume i: "i \<in> free_nodes ?ns - {n}"
          then have "i \<noteq> mp" using mpk by (auto simp: free_nodes_def)
          with i at show "i \<in> free_nodes ?ns'" by (auto simp: free_nodes_def)
        qed
      qed (use at nl in auto)
      with step show ?thesis by blast
    next
      case False
      note moved = False
      have omp: "othern < length ?ns" unfolding othern_def by (rule table_main_less [OF ok(1)])
      have "reach ?ns othern mp" unfolding othern_def by (rule nodes_okD(5) [OF nok l mpk])
      then obtain prev where prev: "find_previous (length ?ns) t mp othern = Inr prev" "link ?ns prev mp"
        using find_previous_ok [OF nodes_okD(1) [OF nok] omp _ moved] by blast
      have prev': "find_previous (length ?ns) (t\<lparr>lastfree := int n\<rparr>) mp othern = Inr prev"
        using prev(1) by (subst find_previous_cong [of _ t]) simp_all
      let ?t1 = "upd_node prev (\<lambda>nd. nd\<lparr>gnext := Some n\<rparr>) (t\<lparr>lastfree := int n\<rparr>)"
      let ?t2 = "upd_node n (\<lambda>_. tnode ?t1 ! mp) ?t1"
      let ?t3 = "upd_node mp (\<lambda>nd. nd\<lparr>gnext := None, i_val := LNil\<rparr>) ?t2"
      let ?t' = "upd_node mp (\<lambda>nd. nd\<lparr>i_key := k\<rparr>) ?t3"
      let ?ns' = "tnode ?t'"
      have step: "newkey_step nk t k = Inr (NodeSlot mp, ?t')"
        using l \<open>i_val (?ns ! mp) \<noteq> LNil\<close> n(1) moved oth prev' by (simp add: newkey_step_def gnode_def Let_def flip: mp_def)
      have pl: "prev < length ?ns" using prev(2) by (simp add: link_def)
      have pn: "prev \<noteq> n" using prev(2) nodes_okD(3) [OF nok nl n(3)] by (auto simp: link_def)
      obtain r :: "nat \<Rightarrow> nat" where r: "\<And>i j. link ?ns i j \<Longrightarrow> r i < r j"
        using nodes_okD(1) [OF nok] unfolding chains_ok_def by blast
      have pmp: "prev \<noteq> mp" using r [OF prev(2)] by auto
      have at: "?ns' ! n = ?ns ! mp" "?ns' ! mp = \<lparr>i_val = LNil, i_key = k, gnext = None\<rparr>"
        "?ns' ! prev = (?ns ! prev)\<lparr>gnext := Some n\<rparr>"
        "\<And>i. i \<noteq> n \<Longrightarrow> i \<noteq> mp \<Longrightarrow> i \<noteq> prev \<Longrightarrow> ?ns' ! i = ?ns ! i" "length ?ns' = length ?ns"
        using nl l pl nmp pn pmp by (simp_all add: upd_node_def)
      have nok': "nodes_ok (mainposition t) ?ns' (int n)"
        by (rule nodes_ok_move [OF nok at(5) nl n(3,4) l mp_def [symmetric] mpk _ prev(2) k kn new' at(1,2,3)])
          (use moved at(4) in \<open>simp_all flip: othern_def\<close>)
      have "inserted t k mp ?t'"
      proof (rule inserted_intro [OF ok in_a kn _ at(5) nok'])
        show "?t' = t\<lparr>tnode := ?ns', lastfree := int n\<rparr>" by (simp add: upd_node_def)
        show "i_key (?ns' ! i) = k \<or> (\<exists>j<length ?ns. i_key (?ns' ! i) = i_key (?ns ! j))" if "i < length ?ns'" for i
          using at that l by (cases "i = n"; cases "i = mp"; cases "i = prev") auto
        show "entries ?ns' = entries ?ns"
        proof (rule set_eqI, clarify)
          fix a v
          have "i_key (?ns' ! i) = i_key (?ns ! i) \<and> i_val (?ns' ! i) = i_val (?ns ! i)" if "i \<noteq> n" "i \<noteq> mp" for i
            using at that by (cases "i = prev") auto
          moreover have "i_val (?ns' ! mp) = LNil" "i_val (?ns ! n) = LNil" "?ns' ! n = ?ns ! mp"
            using at(1,2) nodes_okD(3) [OF nok nl n(3)] by simp_all
          ultimately show "(a, v) \<in> entries ?ns' \<longleftrightarrow> (a, v) \<in> entries ?ns"
            unfolding entries_iff at(5) using nl l by metis
        qed
        show "free_nodes ?ns - {n} \<subseteq> free_nodes ?ns'"
        proof
          fix i assume i: "i \<in> free_nodes ?ns - {n}"
          then have "i \<noteq> mp" using mpk by (auto simp: free_nodes_def)
          with i at show "i \<in> free_nodes ?ns'" by (cases "i = prev") (auto simp: free_nodes_def)
        qed
      qed (use at l in auto)
      with step show ?thesis by blast
    qed
  qed
qed

end
