(* ===== verification/TableRehash.thy ===== *)
theory TableRehash
  imports TableFacts
begin

text \<open>
  Storing, resizing and rehashing: the contents of a table through \<open>luaH_set\<close>, and the count that makes
  a rehash leave room for the key it was called for.
\<close>

section \<open>Storing a value\<close>

lemma in_array_rawequal:
  assumes "1 \<le> arrayindex k"
  shows "luaO_rawequalObj k k' \<longleftrightarrow> arrayindex k' = arrayindex k"
proof
  obtain n where n: "k = LNumber n" "luai_numeq (cast_num (lua_number2int n)) n" "arrayindex k = lua_number2int n"
    using assms by (cases k) (auto simp: arrayindex_def Let_def split: if_split_asm)
  {
    assume eq: "luaO_rawequalObj k k'"
    then obtain m where m: "k' = LNumber m" "luai_numeq n m" using n(1) by (cases k') (auto simp: rawequal_cases)
    show "arrayindex k' = arrayindex k"
    proof (cases "n = m")
      case False
      with m(2) have "dmag n = 0" by (auto dest: luai_numeq_cases)
      then have "lua_number2int n = 0"
        by (simp add: lua_number2int_def Let_def trunc_int_def zero_parts)
      with n(3) assms show ?thesis by simp
    qed (use m n in simp)
  }
  {
    assume "arrayindex k' = arrayindex k"
    then obtain m where m: "k' = LNumber m" "luai_numeq (cast_num (lua_number2int m)) m" "lua_number2int m = lua_number2int n"
      using assms n(3) by (cases k') (auto simp: arrayindex_def Let_def split: if_split_asm)
    then have "luai_numeq n m" using n(2) by (metis luai_numeq_sym luai_numeq_trans)
    then show "luaO_rawequalObj k k'" using n m by (simp add: rawequal_cases)
  }
qed

lemma rawequal_arrayindex: "luaO_rawequalObj k k' \<Longrightarrow> 1 \<le> arrayindex k \<longleftrightarrow> 1 \<le> arrayindex k'"
  using in_array_rawequal rawequal_sym by metis

lemma in_array_eq: "luaO_rawequalObj k k' \<Longrightarrow> in_array t k \<longleftrightarrow> in_array t k'"
  using rawequal_arrayindex [of k k'] in_array_rawequal [of k k'] by (auto simp: in_array_def)

text \<open>The capacity of the hash part, and what storing a value keeps.\<close>

definition capacity :: "Table \<Rightarrow> nat" where
  "capacity t = (if isdummy t then 0 else card (free_nodes (tnode t)))"

definition same_shape :: "Table \<Rightarrow> Table \<Rightarrow> bool" where
  "same_shape t t' \<longleftrightarrow> sizearray t' = sizearray t \<and> isdummy t' = isdummy t \<and> tspare t' = tspare t"

lemma set_slot_ok:
  assumes ok: "table_ok t" and s: "table_slot t k = Some s"
  shows "table_ok (set_slot t s v)" "capacity (set_slot t s v) = capacity t" "same_shape t (set_slot t s v)"
    "raw_get (set_slot t s v) k' = (if luaO_rawequalObj k k' then v else raw_get t k')"
proof -
  have "table_ok (set_slot t s v) \<and> capacity (set_slot t s v) = capacity t \<and> same_shape t (set_slot t s v)
    \<and> raw_get (set_slot t s v) k' = (if luaO_rawequalObj k k' then v else raw_get t k')"
  proof (cases "in_array t k")
    case True
    then have s': "s = ArrSlot (nat (arrayindex k - 1))" using s by (simp add: table_slot_def)
    let ?t = "set_slot t s v"
    have mp: "mainposition ?t = mainposition t" unfolding s' set_slot_def by (rule ext, rule mainposition_cong) simp
    have ia: "in_array ?t key = in_array t key" for key by (simp add: in_array_def s' set_slot_def)
    obtain kk where kk: "node_size t kk" using ok by (auto simp: table_ok_def)
    then have "node_size ?t kk" by (simp add: node_size_def s' set_slot_def)
    then have ok': "table_ok ?t" using ok unfolding table_ok_def ia mp by (auto simp: s' set_slot_def)
    have i: "nat (arrayindex k - 1) < length (tarray t)" using True unfolding in_array_def by linarith
    have "raw_get ?t k' = (if luaO_rawequalObj k k' then v else raw_get t k')"
    proof (cases "in_array t k'")
      case False
      then have "\<not> luaO_rawequalObj k k'" using True in_array_eq by blast
      then show ?thesis using False by (simp add: raw_get_eq [OF ok'] raw_get_eq [OF ok] ia) (simp add: s' set_slot_def)
    next
      case k': True
      have "luaO_rawequalObj k k' \<longleftrightarrow> nat (arrayindex k' - 1) = nat (arrayindex k - 1)"
        using True k' in_array_rawequal [of k k'] by (auto simp: in_array_def)
      then show ?thesis
        using k' i by (simp add: raw_get_eq [OF ok'] raw_get_eq [OF ok] ia) (auto simp: s' set_slot_def nth_list_update)
    qed
    with ok' show ?thesis by (simp add: capacity_def same_shape_def s' set_slot_def)
  next
    case False
    then obtain n where n: "s = NodeSlot n" "hslot (tnode t) k = Some n" using s by (auto simp: table_slot_def)
    have ky: "keyed (tnode t)" by (rule table_ok_keyed [OF ok])
    then have h: "holds (tnode t) n k" using n(2) by (simp add: hslot_Some keyed_def)
    then have nl: "n < length (tnode t)" "i_key (tnode t ! n) \<noteq> LNil" by (simp_all add: holds_def)
    have nd: "\<not> isdummy t" using ok nl by (auto simp: table_ok_def dummynode_def)
    let ?t = "set_slot t s v" and ?ns = "(tnode t)[n := (tnode t ! n)\<lparr>i_val := v\<rparr>]"
    have t': "?t = t\<lparr>tnode := ?ns\<rparr>" by (simp add: n(1) set_slot_def)
    have mp: "mainposition ?t = mainposition t" unfolding t' by (rule ext, rule mainposition_cong) simp
    have ia: "in_array ?t key = in_array t key" for key by (simp add: in_array_def t')
    obtain kk where kk: "node_size t kk" using ok by (auto simp: table_ok_def)
    then have "node_size ?t kk" by (simp add: node_size_def t')
    moreover have "nodes_ok (mainposition t) ?ns (lastfree t)"
      using ok nd nl(2) by (intro nodes_ok_val) (simp_all add: table_ok_def)
    moreover have "\<not> in_array t (i_key m)" if m: "m \<in> set ?ns" "i_key m \<noteq> LNil" for m
    proof -
      obtain i where "i < length (tnode t)" "m = ?ns ! i" using m(1) by (auto simp: in_set_conv_nth)
      then have "i_key m = i_key (tnode t ! i)" "tnode t ! i \<in> set (tnode t)" by (simp_all add: key_val)
      then show ?thesis using ok m(2) by (auto simp: table_ok_def)
    qed
    ultimately have ok': "table_ok ?t" using ok nd unfolding table_ok_def ia mp by (auto simp: t')
    have holds: "holds ?ns m key = holds (tnode t) m key" for m key by (simp add: holds_def key_val)
    then have hs: "hslot ?ns key = hslot (tnode t) key" for key by (simp add: hslot_def)
    have hv: "hval ?ns k' = (if luaO_rawequalObj k k' then v else hval (tnode t) k')"
    proof (cases "luaO_rawequalObj k k'")
      case True
      then have "hslot (tnode t) k' = Some n" using n(2) hslot_rawequal by metis
      then show ?thesis using True nl by (simp add: hval_def hs)
    next
      case neq: False
      have "hslot (tnode t) k' \<noteq> Some n"
      proof
        assume "hslot (tnode t) k' = Some n"
        then have "holds (tnode t) n k'" using ky by (simp add: hslot_Some keyed_def)
        with h neq show False by (auto simp: holds_def dest: rawequal_sym rawequal_trans)
      qed
      then show ?thesis using neq by (auto simp: hval_def hs split: option.split)
    qed
    have "raw_get ?t k' = (if luaO_rawequalObj k k' then v else raw_get t k')"
      using hv False in_array_eq [of k k' t] by (auto simp: raw_get_eq [OF ok'] raw_get_eq [OF ok] ia) (simp_all add: t')
    moreover have "free_nodes ?ns = free_nodes (tnode t)" by (simp add: free_nodes_def key_val)
    ultimately show ?thesis using ok' by (simp add: capacity_def same_shape_def t')
  qed
  then show "table_ok (set_slot t s v)" "capacity (set_slot t s v) = capacity t" "same_shape t (set_slot t s v)"
    "raw_get (set_slot t s v) k' = (if luaO_rawequalObj k k' then v else raw_get t k')" by blast+
qed

text \<open>An inserted key: its slot, and the same contents.\<close>

lemma inserted_slot:
  assumes ok: "table_ok t" and k: "valid_key k" and ins: "inserted t k n t'" and ia: "\<not> in_array t k"
    and nd: "\<not> isdummy t"
  shows "table_ok t'" "table_slot t' k = Some (NodeSlot n)" "raw_get t' k' = raw_get t k'"
    "capacity t \<le> capacity t' + 1" "same_shape t t'"
proof -
  have t': "table_ok t'" "\<not> isdummy t'" "tarray t' = tarray t" "tspare t' = tspare t"
    "n < length (tnode t')" "i_key (tnode t' ! n) = k"
    "entries (tnode t') = entries (tnode t)" using ins by (simp_all add: inserted_def)
  note ky = table_ok_keyed [OF ok] table_ok_keyed [OF t'(1)]
  have "holds (tnode t') n k" using t' valid_key_refl [OF k] valid_not_nil [OF k] by (simp add: holds_def)
  then have "hslot (tnode t') k = Some n" using ky(2) by (simp add: hslot_Some keyed_def)
  moreover have ia': "in_array t' key = in_array t key" for key by (simp add: in_array_def t'(3))
  ultimately show "table_slot t' k = Some (NodeSlot n)" using ia by (simp add: table_slot_def)
  show "table_ok t'" by (rule t'(1))
  show "raw_get t' k' = raw_get t k'"
    using hval_cong [OF ky(2,1) t'(7), of k'] by (simp add: raw_get_eq [OF ok] raw_get_eq [OF t'(1)] ia' t'(3))
  show "same_shape t t'" using t' nd by (simp add: same_shape_def)
  obtain x where x: "free_nodes (tnode t) - {x} \<subseteq> free_nodes (tnode t')" using ins by (auto simp: inserted_def)
  have "card (free_nodes (tnode t)) \<le> card (free_nodes (tnode t) - {x}) + 1"
    by (cases "x \<in> free_nodes (tnode t)") (simp_all add: card_Diff_singleton)
  also have "card (free_nodes (tnode t) - {x}) \<le> card (free_nodes (tnode t'))" by (rule card_mono [OF _ x]) simp
  finally show "capacity t \<le> capacity t' + 1" using t'(2) nd by (simp add: capacity_def)
qed

lemma mainposition_flags [simp]: "mainposition (t\<lparr>flags := f\<rparr>) = mainposition t"
  by (rule ext, rule mainposition_cong) simp

lemma flags_simps [simp]:
  "in_array (t\<lparr>flags := f\<rparr>) = in_array t" "capacity (t\<lparr>flags := f\<rparr>) = capacity t"
  "node_size (t\<lparr>flags := f\<rparr>) = node_size t"
  by (simp_all add: in_array_def capacity_def node_size_def fun_eq_iff)

lemma table_ok_flags [simp]: "table_ok (t\<lparr>flags := f\<rparr>) = table_ok t"
  by (simp add: table_ok_def)

lemma table_slot_flags [simp]: "table_slot (t\<lparr>flags := f\<rparr>) = table_slot t"
  by (simp add: table_slot_def fun_eq_iff)

lemma raw_get_flags: "table_ok t \<Longrightarrow> raw_get (t\<lparr>flags := f\<rparr>) k = raw_get t k"
  by (simp add: raw_get_eq)

text \<open>The spare elements of the block are not part of the contents.\<close>

lemma mainposition_tspare [simp]: "mainposition (t\<lparr>tspare := x\<rparr>) = mainposition t"
  by (rule ext, rule mainposition_cong) simp

lemma tspare_simps [simp]:
  "in_array (t\<lparr>tspare := x\<rparr>) = in_array t" "capacity (t\<lparr>tspare := x\<rparr>) = capacity t"
  "node_size (t\<lparr>tspare := x\<rparr>) = node_size t"
  by (simp_all add: in_array_def capacity_def node_size_def fun_eq_iff)

lemma table_ok_tspare [simp]: "table_ok (t\<lparr>tspare := x\<rparr>) = table_ok t"
  by (simp add: table_ok_def)

lemma raw_get_tspare: "table_ok t \<Longrightarrow> raw_get (t\<lparr>tspare := x\<rparr>) = raw_get t"
  by (rule ext) (simp add: raw_get_eq)

text \<open>
  \<open>luaH_set\<close> where no rehash is needed: the slot it returns is that of the key, and the contents are the
  same; then storing a value updates the contents.
\<close>

definition room_for :: "Table \<Rightarrow> TValue \<Rightarrow> bool" where
  "room_for t k \<longleftrightarrow> in_array t k \<or> 1 \<le> capacity t"

definition slot_found :: "Table \<Rightarrow> TValue \<Rightarrow> slot \<Rightarrow> Table \<Rightarrow> bool" where
  "slot_found t k s t' \<longleftrightarrow> table_ok t' \<and> table_slot t' k = Some s \<and> (\<forall>k'. raw_get t' k' = raw_get t k')"

lemma newkey_room:
  assumes ok: "table_ok t" and k: "valid_key k" and new: "table_slot t k = None" and c: "1 \<le> capacity t"
  shows "\<exists>s t'. newkey d t k = Inr (s, t') \<and> slot_found t k s t' \<and> same_shape t t' \<and> capacity t \<le> capacity t' + 1"
proof -
  have nd: "\<not> isdummy t" and f: "free_nodes (tnode t) \<noteq> {}" using c by (auto simp: capacity_def split: if_split_asm)
  have ia: "\<not> in_array t k" using new by (simp add: table_slot_def split: if_split_asm)
  obtain nk where nk: "newkey d = newkey_step nk" by (cases d) simp_all
  obtain n t' where "newkey_step nk t k = Inr (NodeSlot n, t')" "inserted t k n t'"
    using newkey_step_ok [OF ok nd k new] f by blast
  with inserted_slot [OF ok k _ ia nd] show ?thesis unfolding nk slot_found_def by blast
qed

lemma set_with_room:
  assumes ok: "table_ok t" and k: "valid_key k" and c: "room_for t k"
  shows "\<exists>s t'. luaH_set_with (newkey d) t k = Inr (s, t') \<and> slot_found t k s t' \<and> same_shape t t'
    \<and> capacity t \<le> capacity t' + (if in_array t k then 0 else 1)"
proof (cases "table_slot t k")
  case (Some s)
  then have "luaH_set_with (newkey d) t k = Inr (s, t\<lparr>flags := 0\<rparr>)"
    by (simp add: luaH_set_with_def luaH_get_eq [OF ok])
  with Some ok show ?thesis by (simp add: slot_found_def raw_get_flags same_shape_def)
next
  case None
  then have ia: "\<not> in_array t k" by (simp add: table_slot_def split: if_split_asm)
  have "table_ok (t\<lparr>flags := 0\<rparr>)" "table_slot (t\<lparr>flags := 0\<rparr>) k = None" "1 \<le> capacity (t\<lparr>flags := 0\<rparr>)"
    using ok None c ia by (simp_all add: room_for_def)
  from newkey_room [OF this(1) k this(2,3), of d] obtain s t' where
    r: "newkey d (t\<lparr>flags := 0\<rparr>) k = Inr (s, t')" "slot_found (t\<lparr>flags := 0\<rparr>) k s t'"
      "same_shape (t\<lparr>flags := 0\<rparr>) t'" "capacity t \<le> capacity t' + 1" by auto
  have "luaH_set_with (newkey d) t k = Inr (s, t')"
    using r(1) None k by (cases k) (auto simp: luaH_set_with_def luaH_get_eq [OF ok] valid_key_def)
  with r ia ok show ?thesis by (auto simp: slot_found_def raw_get_flags same_shape_def)
qed

lemma setnum_with_room:
  assumes ok: "table_ok t" and k: "- 2147483648 \<le> i" "i < 2147483648" and c: "room_for t (LNumber (cast_num i))"
  shows "\<exists>s t'. luaH_setnum_with (newkey d) t i = Inr (s, t') \<and> slot_found t (LNumber (cast_num i)) s t' \<and> same_shape t t'
    \<and> capacity t \<le> capacity t' + (if in_array t (LNumber (cast_num i)) then 0 else 1)"
proof -
  let ?k = "LNumber (cast_num i)"
  have v: "valid_key ?k" using cast_num_parts(3) [of i] k by (simp add: valid_key_def luai_numisnan_def luai_numeq_refl)
  show ?thesis
  proof (cases "table_slot t ?k")
    case (Some s)
    then have "luaH_setnum_with (newkey d) t i = Inr (s, t)"
      by (simp add: luaH_setnum_with_def luaH_getnum_eq [OF ok k])
    with Some ok show ?thesis by (simp add: slot_found_def same_shape_def)
  next
    case None
    then have ia: "\<not> in_array t ?k" by (simp add: table_slot_def split: if_split_asm)
    with c have "1 \<le> capacity t" by (simp add: room_for_def)
    from newkey_room [OF ok v None this, of d] None ia show ?thesis
      by (simp add: luaH_setnum_with_def luaH_getnum_eq [OF ok k])
  qed
qed

text \<open>Storing through the slot that was found.\<close>

definition upd :: "(TValue \<Rightarrow> TValue) \<Rightarrow> TValue \<Rightarrow> TValue \<Rightarrow> TValue \<Rightarrow> TValue" where
  "upd F k v = (\<lambda>k'. if luaO_rawequalObj k k' then v else F k')"

lemma slot_found_store:
  assumes "slot_found t k s t'"
  shows "table_ok (set_slot t' s v)" "capacity (set_slot t' s v) = capacity t'" "same_shape t' (set_slot t' s v)"
    "raw_get (set_slot t' s v) = upd (raw_get t) k v"
  using set_slot_ok [of t' k s v] assms by (auto simp: slot_found_def upd_def)

section \<open>Inserting the elements again\<close>

definition live :: "Node list \<Rightarrow> Node list" where
  "live ns = filter (\<lambda>nd. i_val nd \<noteq> LNil) ns"

lemma reinsert_nodes_ok:
  "table_ok t \<Longrightarrow> \<forall>nd\<in>set (live ns). valid_key (i_key nd) \<Longrightarrow>
   length (filter (\<lambda>nd. \<not> in_array t (i_key nd)) (live ns)) \<le> capacity t \<Longrightarrow>
   \<exists>t'. reinsert_nodes (newkey d) ns t = Inr t' \<and> table_ok t' \<and> same_shape t t'
     \<and> capacity t \<le> capacity t' + length (filter (\<lambda>nd. \<not> in_array t (i_key nd)) (live ns))
     \<and> raw_get t' = fold (\<lambda>nd F. upd F (i_key nd) (i_val nd)) (live ns) (raw_get t)"
proof (induction ns arbitrary: t)
  case Nil
  then show ?case by (simp add: live_def same_shape_def)
next
  case (Cons nd ns)
  show ?case
  proof (cases "i_val nd = LNil")
    case True
    with Cons.IH [of t] Cons.prems show ?thesis by (simp add: live_def)
  next
    case False
    then have l: "live (nd # ns) = nd # live ns" by (simp add: live_def)
    have k: "valid_key (i_key nd)" using Cons.prems(2) l by simp
    have room: "room_for t (i_key nd)" using Cons.prems(3) l by (auto simp: room_for_def split: if_split_asm)
    obtain s t1 where r: "luaH_set_with (newkey d) t (i_key nd) = Inr (s, t1)" "slot_found t (i_key nd) s t1"
      "same_shape t t1" "capacity t \<le> capacity t1 + (if in_array t (i_key nd) then 0 else 1)"
      using set_with_room [OF Cons.prems(1) k room, of d] by blast
    let ?t2 = "set_slot t1 s (i_val nd)"
    note st = slot_found_store [OF r(2), of "i_val nd"]
    have sh: "same_shape t ?t2" using r(3) st(3) by (simp add: same_shape_def)
    have ia: "in_array ?t2 = in_array t" using sh by (simp add: same_shape_def in_array_def fun_eq_iff)
    have "length (filter (\<lambda>nd. \<not> in_array ?t2 (i_key nd)) (live ns)) \<le> capacity ?t2"
      using Cons.prems(3) r(4) st(2) unfolding ia l by (auto split: if_split_asm)
    then obtain t' where t': "reinsert_nodes (newkey d) ns ?t2 = Inr t'" "table_ok t'" "same_shape ?t2 t'"
      "capacity ?t2 \<le> capacity t' + length (filter (\<lambda>nd. \<not> in_array t (i_key nd)) (live ns))"
      "raw_get t' = fold (\<lambda>nd F. upd F (i_key nd) (i_val nd)) (live ns) (raw_get ?t2)"
      using Cons.IH [OF st(1)] Cons.prems(2) unfolding ia l by auto
    have "reinsert_nodes (newkey d) (nd # ns) t = Inr t'" using False r(1) t'(1) by simp
    moreover have "same_shape t t'" using sh t'(3) by (simp add: same_shape_def)
    moreover have "capacity t \<le> capacity t' + length (filter (\<lambda>nd. \<not> in_array t (i_key nd)) (live (nd # ns)))"
      using r(4) st(2) t'(4) unfolding l by (auto split: if_split_asm)
    ultimately show ?thesis using t'(2,5) st(4) l by simp
  qed
qed

end
