(* ===== verification/TableResize.thy ===== *)
theory TableResize
  imports TableRehash
begin

text \<open>
  \<open>resize\<close> keeps the contents of a table, and \<open>rehash\<close> makes room for the key it is called for: the
  count of the integer keys, the choice of the size of the array part, and the number of the elements
  that go to the hash part.
\<close>

section \<open>Inserting the elements of the vanishing slice\<close>

lemma uint_int_range: "0 \<le> i \<Longrightarrow> i < 2147483648 \<Longrightarrow> uint (c_uint i) = i"
  by (simp add: uint_c_uint)

fun array_pairs :: "int \<Rightarrow> TValue list \<Rightarrow> (TValue \<times> TValue) list" where
  "array_pairs i [] = []"
| "array_pairs i (v # vs) = (if v = LNil then [] else [(LNumber (cast_num (i + 1)), v)]) @ array_pairs (i + 1) vs"

lemma length_array_pairs: "length (array_pairs i vs) = length (filter (\<lambda>v. v \<noteq> LNil) vs)"
  by (induction vs arbitrary: i) simp_all

lemma set_array_pairs:
  "(k, v) \<in> set (array_pairs i vs) \<longleftrightarrow>
     (\<exists>j<length vs. k = LNumber (cast_num (i + int j + 1)) \<and> v = vs ! j \<and> v \<noteq> LNil)"
proof (induction vs arbitrary: i)
  case (Cons a vs)
  have "(\<exists>j<length (a # vs). k = LNumber (cast_num (i + int j + 1)) \<and> v = (a # vs) ! j \<and> v \<noteq> LNil)
    \<longleftrightarrow> (k = LNumber (cast_num (i + 1)) \<and> v = a \<and> v \<noteq> LNil)
      \<or> (\<exists>j<length vs. k = LNumber (cast_num (i + 1 + int j + 1)) \<and> v = vs ! j \<and> v \<noteq> LNil)"
  proof -
    have e: "i + int (Suc j) + 1 = i + 1 + int j + 1" for j by simp
    show ?thesis unfolding length_Cons Ex_less_Suc2 nth_Cons_0 nth_Cons_Suc e by simp
  qed
  then show ?case using Cons.IH [of "i + 1"] by auto
qed simp

definition put_all :: "(TValue \<times> TValue) list \<Rightarrow> (TValue \<Rightarrow> TValue) \<Rightarrow> TValue \<Rightarrow> TValue" where
  "put_all kvs F = fold (\<lambda>(k, v) F. upd F k v) kvs F"

lemma put_all_simps [simp]:
  "put_all [] F = F" "put_all ((k, v) # kvs) F = put_all kvs (upd F k v)" "put_all (xs @ ys) F = put_all ys (put_all xs F)"
  by (simp_all add: put_all_def)

lemma put_all_other: "\<forall>p\<in>set kvs. \<not> luaO_rawequalObj (fst p) k' \<Longrightarrow> put_all kvs F k' = F k'"
proof (induction kvs arbitrary: F)
  case (Cons p kvs)
  obtain k v where p: "p = (k, v)" by (cases p)
  have "put_all kvs (upd F k v) k' = upd F k v k'" using Cons.prems by (intro Cons.IH) simp
  moreover have "\<not> luaO_rawequalObj k k'" using Cons.prems by (simp add: p)
  ultimately show ?case by (simp add: p upd_def)
qed simp

lemma put_all_same:
  assumes "(k, v) \<in> set kvs" "luaO_rawequalObj k k'"
    and "\<And>k2 v2. (k2, v2) \<in> set kvs \<Longrightarrow> luaO_rawequalObj k2 k' \<Longrightarrow> v2 = v"
  shows "put_all kvs F k' = v"
  using assms
proof (induction kvs rule: rev_induct)
  case Nil
  then show ?case by simp
next
  case (snoc p kvs)
  obtain k2 v2 where p: "p = (k2, v2)" by (cases p)
  show ?case
  proof (cases "luaO_rawequalObj k2 k'")
    case True
    have "v2 = v" by (rule snoc.prems(3) [of k2]) (simp_all add: p True)
    with True show ?thesis by (simp add: p upd_def)
  next
    case False
    then have "(k, v) \<in> set kvs" using snoc.prems(1,2) p by auto
    then have "put_all kvs F k' = v"
    proof (rule snoc.IH [OF _ snoc.prems(2)])
      fix a b assume "(a, b) \<in> set kvs" "luaO_rawequalObj a k'"
      then show "b = v" by (intro snoc.prems(3) [of a]) simp_all
    qed
    with False show ?thesis by (simp add: p upd_def)
  qed
qed

lemma arrayindex_int: "- 2147483648 \<le> i \<Longrightarrow> i < 2147483648 \<Longrightarrow> arrayindex (LNumber (cast_num i)) = i"
  using cast_num_parts(3) [of i]
  by (simp add: arrayindex_def number2int_cast_num luai_numeq_refl)

text \<open>
  The loop over the elements \<open>vs\<close> that lie in the block behind the array part, where the hash part
  has room for them: no rehash happens, so the block stays in place.
\<close>

lemma block_behind:
  "length (tarray t) \<le> i \<Longrightarrow> drop i (array_block t) = drop (i - length (tarray t)) (tspare t)"
  by (simp add: array_block_def)

lemma block_nth:
  assumes "drop i (array_block t) = v # vs"
  shows "i < length (array_block t)" "array_block t ! i = v" "drop (Suc i) (array_block t) = vs"
proof -
  show l: "i < length (array_block t)" using assms by (metis drop_all list.distinct(1) not_less)
  from Cons_nth_drop_Suc [OF l] assms show "array_block t ! i = v" "drop (Suc i) (array_block t) = vs" by simp_all
qed

lemma reinsert_array_ok:
  "table_ok t \<Longrightarrow> length (tarray t) \<le> i \<Longrightarrow> int i + int (length vs) < 2147483648 \<Longrightarrow>
   drop i (array_block t) = vs @ ws \<Longrightarrow> length (array_pairs (int i) vs) \<le> capacity t \<Longrightarrow>
   \<exists>t'. reinsert_array (newkey d) [i..<i + length vs] t = Inr t' \<and> table_ok t' \<and> same_shape t t'
     \<and> capacity t \<le> capacity t' + length (array_pairs (int i) vs)
     \<and> raw_get t' = put_all (array_pairs (int i) vs) (raw_get t)"
proof (induction vs arbitrary: t i)
  case Nil
  then show ?case by (simp add: same_shape_def)
next
  case (Cons v vs)
  have blk: "i < length (array_block t)" "array_block t ! i = v" "drop (Suc i) (array_block t) = vs @ ws"
    using block_nth [of i t v "vs @ ws"] Cons.prems(4) by simp_all
  have upt: "[i..<i + length (v # vs)] = i # [Suc i..<Suc i + length vs]"
    using upt_conv_Cons [of i "i + length (v # vs)"] by simp
  show ?case
  proof (cases "v = LNil")
    case True
    with Cons.IH [of t "Suc i"] Cons.prems(1-3,5) blk show ?thesis
      unfolding upt by (simp add: algebra_simps require_def del: upt_Suc)
  next
    case False
    let ?k = "LNumber (cast_num (int i + 1))"
    have r: "- 2147483648 \<le> int i + 1" "int i + 1 < 2147483648" using Cons.prems(3) by simp_all
    have ai: "arrayindex ?k = int i + 1" by (rule arrayindex_int [OF r])
    then have ia: "\<not> in_array t ?k" using Cons.prems(2) by (simp add: in_array_def)
    have c: "1 \<le> capacity t" using Cons.prems(5) False by simp
    then have room: "room_for t ?k" by (simp add: room_for_def)
    obtain s t1 where s: "luaH_setnum_with (newkey d) t (int i + 1) = Inr (s, t1)" "slot_found t ?k s t1"
      "same_shape t t1" "capacity t \<le> capacity t1 + 1"
      using setnum_with_room [OF Cons.prems(1) r room, of d] ia by auto
    let ?t2 = "set_slot t1 s v"
    note st = slot_found_store [OF s(2), of v]
    have sh: "same_shape t ?t2" using s(3) st(3) by (simp add: same_shape_def)
    then have "drop (Suc i) (array_block ?t2) = vs @ ws"
      using blk(3) Cons.prems(2) block_behind [of t "Suc i"] block_behind [of ?t2 "Suc i"]
      by (simp add: same_shape_def)
    moreover have "length (tarray ?t2) \<le> Suc i" "int (Suc i) + int (length vs) < 2147483648"
      "length (array_pairs (int (Suc i)) vs) \<le> capacity ?t2"
      using Cons.prems sh s(4) st(2) False by (simp_all add: same_shape_def add.commute)
    ultimately obtain t' where t': "reinsert_array (newkey d) [Suc i..<Suc i + length vs] ?t2 = Inr t'" "table_ok t'"
      "same_shape ?t2 t'" "capacity ?t2 \<le> capacity t' + length (array_pairs (int (Suc i)) vs)"
      "raw_get t' = put_all (array_pairs (int (Suc i)) vs) (raw_get ?t2)"
      using Cons.IH [OF st(1), of "Suc i"] by blast
    have "tspare t1 = tspare t" using s(3) by (simp add: same_shape_def)
    then have "reinsert_array (newkey d) [i..<i + length (v # vs)] t = Inr t'"
      using False blk s(1) t'(1) unfolding upt by (simp add: require_def del: upt_Suc)
    moreover have "same_shape t t'" using sh t'(3) by (simp add: same_shape_def)
    moreover have "capacity t \<le> capacity t' + length (array_pairs (int i) (v # vs))"
      using s(4) st(2) t'(4) False by (simp add: add.commute)
    ultimately show ?thesis using t'(2,5) st(4) False by (simp add: add.commute)
  qed
qed

section \<open>The new vectors\<close>

text \<open>A table whose hash part holds no key yet.\<close>

definition fresh_hash :: "Table \<Rightarrow> bool" where
  "fresh_hash t \<longleftrightarrow> (\<exists>k. node_size t k)
     \<and> (if isdummy t then tnode t = [dummynode] \<and> lastfree t \<le> 0
        else \<exists>n. tnode t = replicate n dummynode \<and> lastfree t = int n)"

lemma fresh_hash_array: "fresh_hash (t\<lparr>tarray := a, tspare := x\<rparr>) = fresh_hash t"
  by (simp add: fresh_hash_def node_size_def)

lemma fresh_nodes: "fresh_hash t \<Longrightarrow> nd \<in> set (tnode t) \<Longrightarrow> i_key nd = LNil"
  by (auto simp: fresh_hash_def dummynode_def split: if_split_asm)

lemma fresh_table_ok:
  assumes "fresh_hash t" "sizearray t \<le> MAXASIZE"
  shows "table_ok t"
proof -
  have "\<forall>nd\<in>set (tnode t). i_key nd \<noteq> LNil \<longrightarrow> \<not> in_array t (i_key nd)"
    using fresh_nodes [OF assms(1)] by blast
  moreover have "\<not> isdummy t \<Longrightarrow> nodes_ok (mainposition t) (tnode t) (lastfree t)"
    using assms(1) nodes_ok_fresh by (auto simp: fresh_hash_def)
  ultimately show ?thesis using assms unfolding table_ok_def fresh_hash_def by auto
qed

lemma fresh_raw_get:
  assumes "fresh_hash t" "sizearray t \<le> MAXASIZE"
  shows "raw_get t k = (if in_array t k then tarray t ! nat (arrayindex k - 1) else LNil)"
proof -
  have "hval (tnode t) k = LNil"
  proof -
    have "hslot (tnode t) k = None" using fresh_nodes [OF assms(1) nth_mem] by (auto simp: hslot_None holds_def)
    then show ?thesis by (simp add: hval_def)
  qed
  then show ?thesis by (simp add: raw_get_eq [OF fresh_table_ok [OF assms]])
qed

lemma fresh_capacity: "fresh_hash t \<Longrightarrow> \<not> isdummy t \<Longrightarrow> capacity t = length (tnode t)"
proof -
  assume f: "fresh_hash t" "\<not> isdummy t"
  then have "free_nodes (tnode t) = {..<length (tnode t)}"
    using fresh_nodes [OF f(1) nth_mem] by (auto simp: free_nodes_def)
  with f(2) show ?thesis by (simp add: capacity_def)
qed

lemma setarrayvector_eq:
  assumes "0 \<le> sz" "sz \<le> MAXASIZE"
  shows "setarrayvector t sz = Inr (t\<lparr>tarray := take (nat sz) (tarray t) @ replicate (nat (sz - sizearray t)) LNil, tspare := []\<rparr>)"
proof -
  have "luaM_reallocv (c_uint sz) sizeof_TValue = Inr ()"
    using assms by (simp add: luaM_reallocv_Inr sizeof_TValue_def MAX_SIZET_def MAXASIZE_def MAXBITS_def
        word_le_def uint_word_ariths uint_c_uint uint_div)
  then show ?thesis by (simp add: setarrayvector_def)
qed

lemma setnodevector_ok:
  assumes "0 \<le> sz" "sz < 2147483648"
  shows "setnodevector t sz = Inl (ErrRun ''table overflow'') \<and> 2 ^ 26 < sz
    \<or> (\<exists>t'. setnodevector t sz = Inr t' \<and> array_block t' = array_block t
        \<and> tarray t' = tarray t \<and> fresh_hash t' \<and> sz \<le> int (capacity t')
        \<and> metatable t' = metatable t)"
proof (cases "sz = 0")
  case True
  then show ?thesis
    by (auto simp: setnodevector_def fresh_hash_def node_size_def dummynode_def array_block_def intro!: exI [of _ 0])
next
  case False
  define k where "k = nat (ceillog2 sz)"
  have k: "ceillog2 sz = int k" "sz \<le> 2 ^ k" "k \<noteq> 0 \<Longrightarrow> 2 ^ (k - 1) < sz"
  proof -
    have "0 \<le> ceillog2 sz \<and> sz \<le> 2 ^ nat (ceillog2 sz) \<and> (ceillog2 sz \<noteq> 0 \<longrightarrow> 2 ^ nat (ceillog2 sz - 1) < sz)"
    proof (cases "sz = 1")
      case False
      then have "1 \<le> ceillog2 sz" "sz \<le> 2 ^ nat (ceillog2 sz)" "2 ^ nat (ceillog2 sz - 1) < sz"
        using assms \<open>sz \<noteq> 0\<close> by (auto intro!: ceillog2_bounds)
      then show ?thesis by simp
    qed (simp add: ceillog2_1)
    then show "ceillog2 sz = int k" "sz \<le> 2 ^ k" "k \<noteq> 0 \<Longrightarrow> 2 ^ (k - 1) < sz"
      by (auto simp: k_def nat_diff_distrib)
  qed
  show ?thesis
  proof (cases "k \<le> MAXBITS")
    case False
    then have "26 \<le> k - 1" "k \<noteq> 0" by (simp_all add: MAXBITS_def)
    then have "(2::int) ^ 26 \<le> 2 ^ (k - 1)" by (intro power_increasing) simp_all
    also have "\<dots> < sz" by (rule k(3) [OF \<open>k \<noteq> 0\<close>])
    finally show ?thesis using \<open>sz \<noteq> 0\<close> k(1) False by (simp add: setnodevector_def)
  next
    case True
    then have k26: "k \<le> 26" by (simp add: MAXBITS_def)
    then have p: "(2::int) ^ k \<le> 2 ^ 26" by (intro power_increasing) simp_all
    have tw: "twoto (int k) = 2 ^ k" by (simp add: twoto_def push_bit_eq_mult)
    have "luaM_reallocv (c_uint (2 ^ k)) sizeof_Node = Inr ()"
      using p by (simp add: luaM_reallocv_Inr sizeof_Node_def MAX_SIZET_def word_le_def uint_word_ariths
          uint_c_uint uint_div)
    then have r: "setnodevector t sz = Inr (t\<lparr>tnode := replicate (2 ^ k) dummynode, isdummy := False,
        lsizenode := cast_byte (int k), lastfree := 2 ^ k\<rparr>)" (is "_ = Inr ?t'")
      using \<open>sz \<noteq> 0\<close> k(1) True by (simp add: setnodevector_def tw nat_power_eq)
    have "uint (lsizenode ?t') = int k" using k26 by (simp add: cast_byte_def unsigned_of_nat take_bit_nat_eq_self)
    then have f: "fresh_hash ?t'" unfolding fresh_hash_def using True
      by (intro conjI exI [of _ k]) (simp_all add: node_size_def)
    with fresh_capacity [OF this] k(2) r show ?thesis by (simp add: array_block_def)
  qed
qed

section \<open>Resizing\<close>

text \<open>The number of elements that \<open>resize\<close> inserts in the hash part.\<close>

definition moved :: "Table \<Rightarrow> int \<Rightarrow> nat" where
  "moved t nasize = length (filter (\<lambda>v. v \<noteq> LNil) (drop (nat nasize) (tarray t)))
     + length (filter (\<lambda>nd. \<not> (1 \<le> arrayindex (i_key nd) \<and> arrayindex (i_key nd) \<le> nasize)) (live (tnode t)))"

abbreviation node_pairs :: "Node list \<Rightarrow> (TValue \<times> TValue) list" where
  "node_pairs ns \<equiv> map (\<lambda>nd. (i_key nd, i_val nd)) (live ns)"

lemma fold_upd_pairs: "fold (\<lambda>nd F. upd F (i_key nd) (i_val nd)) (live ns) F = put_all (node_pairs ns) F"
  by (simp add: put_all_def fold_map comp_def)

lemma live_key:
  assumes "table_ok t" "nd \<in> set (live (tnode t))"
  shows "valid_key (i_key nd)" "\<not> in_array t (i_key nd)"
proof -
  obtain i where i: "i < length (tnode t)" "nd = tnode t ! i" "i_val (tnode t ! i) \<noteq> LNil"
    using assms(2) by (auto simp: live_def in_set_conv_nth)
  have k: "i_key (tnode t ! i) \<noteq> LNil" using table_ok_keyed [OF assms(1)] i by (auto simp: keyed_def)
  have nd: "\<not> isdummy t" using assms(1) i by (auto simp: table_ok_def dummynode_def)
  then have "nodes_ok (mainposition t) (tnode t) (lastfree t)" using assms(1) by (simp add: table_ok_def)
  from nodes_okD(4) [OF this i(1) k] i(2) show "valid_key (i_key nd)" by simp
  show "\<not> in_array t (i_key nd)" using assms(1) i k by (auto simp: table_ok_def)
qed

lemma rev_live: "live (rev ns) = rev (live ns)"
  by (simp add: live_def rev_filter)

lemma node_pairs_entries: "set (node_pairs ns) = entries ns"
  by (auto simp: live_def entries_def in_set_conv_nth image_iff)

text \<open>The contents, put together again.\<close>

lemma put_all_contents:
  assumes ok: "table_ok t" and na: "0 \<le> na"
    and G: "\<And>k. G k = (if 1 \<le> arrayindex k \<and> arrayindex k \<le> na \<and> arrayindex k \<le> sizearray t
        then tarray t ! nat (arrayindex k - 1) else LNil)"
  shows "put_all (node_pairs (rev (tnode t))) (put_all (array_pairs na (drop (nat na) (tarray t))) G) = raw_get t"
proof
  fix k
  let ?A = "array_pairs na (drop (nat na) (tarray t))"
  have ky: "keyed (tnode t)" by (rule table_ok_keyed [OF ok])
  have se: "set (node_pairs (rev (tnode t))) = entries (tnode t)"
    by (simp add: rev_live flip: node_pairs_entries)
  have small: "sizearray t < 2147483648" using ok by (simp add: table_ok_def MAXASIZE_def MAXBITS_def)
  have A: "\<exists>j. na < j \<and> j \<le> sizearray t \<and> arrayindex a = j \<and> v = tarray t ! nat (j - 1) \<and> v \<noteq> LNil"
    if mem: "(a, v) \<in> set ?A" for a v
  proof -
    obtain j where j: "j < length (drop (nat na) (tarray t))" "a = LNumber (cast_num (na + int j + 1))"
      "v = drop (nat na) (tarray t) ! j" "v \<noteq> LNil" using iffD1 [OF set_array_pairs mem] by blast
    have "arrayindex a = na + int j + 1" using j(1,2) na small by (simp add: arrayindex_int)
    moreover have "v = tarray t ! nat (na + int j + 1 - 1)" using j(1,3) na by (simp add: nat_add_distrib)
    ultimately show ?thesis using j(1,4) na by (intro exI [of _ "na + int j + 1"]) auto
  qed
  show "put_all (node_pairs (rev (tnode t))) (put_all ?A G) k = raw_get t k"
  proof (cases "\<exists>a v. (a, v) \<in> entries (tnode t) \<and> luaO_rawequalObj a k")
    case True
    then obtain a v where av: "(a, v) \<in> entries (tnode t)" "luaO_rawequalObj a k" by blast
    have v: "v \<noteq> LNil" using av by (auto simp: entries_def)
    have hv: "hval (tnode t) k = v" using hval_entry [OF ky v] av by blast
    have "put_all (node_pairs (rev (tnode t))) (put_all ?A G) k = v"
    proof (rule put_all_same)
      show "(a, v) \<in> set (node_pairs (rev (tnode t)))" using av se by simp
      fix b w assume "(b, w) \<in> set (node_pairs (rev (tnode t)))" "luaO_rawequalObj b k"
      then have "(b, w) \<in> entries (tnode t)" "w \<noteq> LNil" using se by (auto simp: entries_def)
      then have "hval (tnode t) k = w" using hval_entry [OF ky] \<open>luaO_rawequalObj b k\<close> by blast
      with hv show "w = v" by simp
    qed (use av in simp)
    moreover have "\<not> in_array t k"
    proof -
      obtain nd where "nd \<in> set (live (tnode t))" "i_key nd = a"
        using av(1) unfolding node_pairs_entries [symmetric] by auto
      then have "\<not> in_array t a" using live_key(2) [OF ok] by blast
      then show ?thesis using in_array_eq [OF av(2)] by simp
    qed
    ultimately show ?thesis using hv by (simp add: raw_get_eq [OF ok])
  next
    case none: False
    have "put_all (node_pairs (rev (tnode t))) (put_all ?A G) k = put_all ?A G k"
      using none se by (intro put_all_other) auto
    also have "\<dots> = raw_get t k"
    proof (cases "in_array t k \<and> na < arrayindex k \<and> tarray t ! nat (arrayindex k - 1) \<noteq> LNil")
      case True
      let ?i = "arrayindex k" let ?a = "LNumber (cast_num ?i)"
      have i: "1 \<le> ?i" "?i \<le> sizearray t" using True by (simp_all add: in_array_def)
      have ai: "arrayindex ?a = ?i" using i small by (intro arrayindex_int) simp_all
      have eq: "luaO_rawequalObj ?a k" using in_array_rawequal [of ?a k] ai i(1) by simp
      have "put_all ?A G k = tarray t ! nat (?i - 1)"
      proof (rule put_all_same [OF _ eq])
        have "nat (?i - 1 - na) < length (drop (nat na) (tarray t))" "na + int (nat (?i - 1 - na)) + 1 = ?i"
          "nat na + nat (?i - 1 - na) = nat (?i - 1)"
          using conjunct1 [OF conjunct2 [OF True]] i na by (simp_all add: nat_less_iff nat_diff_distrib of_nat_diff flip: nat_add_distrib)
        then show "(?a, tarray t ! nat (?i - 1)) \<in> set ?A"
          using True unfolding set_array_pairs by (intro exI [of _ "nat (?i - 1 - na)"]) simp
        fix b w assume b: "(b, w) \<in> set ?A" "luaO_rawequalObj b k"
        from A [OF b(1)] obtain j where j: "na < j" "arrayindex b = j" "w = tarray t ! nat (j - 1)" by blast
        then have "?i = j" using in_array_rawequal [of b k] b(2) na by simp
        with j show "w = tarray t ! nat (?i - 1)" by simp
      qed
      with True show ?thesis by (simp add: raw_get_eq [OF ok])
    next
      case False
      have "\<not> luaO_rawequalObj b k" if b: "(b, w) \<in> set ?A" for b w
      proof
        assume eq: "luaO_rawequalObj b k"
        from A [OF b] obtain j where j: "na < j" "j \<le> sizearray t" "arrayindex b = j" "w = tarray t ! nat (j - 1)" "w \<noteq> LNil"
          by blast
        then have "arrayindex k = j" using in_array_rawequal [of b k] eq na by simp
        with j False na show False by (simp add: in_array_def)
      qed
      then have "put_all ?A G k = G k" by (intro put_all_other) auto
      moreover have "hval (tnode t) k = LNil"
        using hval_entry [OF ky, of "hval (tnode t) k" k] none by blast
      ultimately show ?thesis using False na by (auto simp: raw_get_eq [OF ok] G in_array_def)
    qed
    finally show ?thesis .
  qed
qed

text \<open>The block is given back its size when the loop over the vanishing slice has ended.\<close>

definition trim_block :: "bool \<Rightarrow> Table \<Rightarrow> Table" where
  "trim_block shrunk t = (if shrunk then t\<lparr>tspare := []\<rparr> else t)"

lemma trim_block_simps [simp]:
  "table_ok (trim_block c t) = table_ok t" "tarray (trim_block c t) = tarray t"
  "in_array (trim_block c t) = in_array t" "capacity (trim_block c t) = capacity t"
  by (simp_all add: trim_block_def)

lemma raw_get_trim_block: "table_ok t \<Longrightarrow> raw_get (trim_block c t) = raw_get t"
  by (simp add: trim_block_def raw_get_tspare)

lemma cut_block: "array_block (t\<lparr>tarray := take n (array_block t), tspare := drop n (array_block t)\<rparr>) = array_block t"
proof -
  have "array_block (t\<lparr>tarray := xs, tspare := ys\<rparr>) = xs @ ys" for xs ys by (simp add: array_block_def)
  then show ?thesis by (simp only: append_take_drop_id)
qed

lemma resize_with_eq:
  assumes ok: "table_ok t" and na: "0 \<le> na" "na \<le> MAXASIZE" and nh: "0 \<le> nh" "nh < 2147483648"
  obtains (over) "resize_with nk t na nh = Inl (ErrRun ''table overflow'')" "2 ^ 26 < nh"
  | (new) b where "fresh_hash b" "sizearray b = na" "nh \<le> int (capacity b)"
      "\<And>k. raw_get b k = (if 1 \<le> arrayindex k \<and> arrayindex k \<le> na \<and> arrayindex k \<le> sizearray t
         then tarray t ! nat (arrayindex k - 1) else LNil)"
      "na \<le> sizearray t \<Longrightarrow> drop (nat na) (array_block b) = drop (nat na) (tarray t) @ tspare t"
      "resize_with nk t na nh = bnd (reinsert_array nk [nat na..<length (tarray t)] b) (\<lambda>t3.
         reinsert_nodes nk (rev (tnode t)) (trim_block (na < sizearray t) t3))"
proof -
  define a where "a = take (nat na) (tarray t) @ replicate (nat (na - sizearray t)) LNil"
  define t1 where "t1 = (if na > sizearray t then t\<lparr>tarray := a, tspare := []\<rparr> else t)"
  have la: "int (length a) = na" using na by (simp add: a_def)
  have step1: "(if na > sizearray t then setarrayvector t na else Inr t) = Inr t1"
    by (simp add: t1_def a_def setarrayvector_eq [OF na])
  have nold: "take (nat (sizenode t)) (tnode t) = tnode t"
  proof -
    obtain k where "node_size t k" using ok by (auto simp: table_ok_def)
    then show ?thesis using sizenode_eq [of t k] by (simp add: node_size_def nat_power_eq)
  qed
  let ?cut = "\<lambda>t2. t2\<lparr>tarray := take (nat na) (array_block t2), tspare := drop (nat na) (array_block t2)\<rparr>"
  let ?rest = "\<lambda>t2. bnd (if na < sizearray t
      then bnd (reinsert_array nk [nat na..<length (tarray t)] (?cut t2))
             (\<lambda>t. bnd (luaM_reallocv (c_uint na) sizeof_TValue) (\<lambda>_. Inr (t\<lparr>tspare := []\<rparr>)))
      else Inr t2) (\<lambda>t'. reinsert_nodes nk (rev (tnode t)) t')"
  have eq: "resize_with nk t na nh = bnd (setnodevector t1 nh) ?rest"
    using step1 by (simp add: resize_with_def Let_def nold cong: if_cong)
  from setnodevector_ok [OF nh, of t1] consider
    (o) "setnodevector t1 nh = Inl (ErrRun ''table overflow'')" "2 ^ 26 < nh"
    | (n) t2 where "setnodevector t1 nh = Inr t2" "array_block t2 = array_block t1" "tarray t2 = tarray t1"
        "fresh_hash t2" "nh \<le> int (capacity t2)"
    by blast
  then show thesis
  proof cases
    case o
    then show ?thesis by (intro over) (simp_all add: eq)
  next
    case n
    define b where "b = (if na < sizearray t then ?cut t2 else t2)"
    have blk: "array_block t1 = tarray t @ tspare t" if "na \<le> sizearray t"
      using that by (simp add: t1_def array_block_def)
    have ta: "tarray b = a"
    proof (cases "na < sizearray t")
      case True
      then show ?thesis using blk n(2) by (simp add: b_def a_def)
    next
      case False
      then show ?thesis using n(3) by (cases "na = sizearray t") (simp_all add: b_def t1_def a_def)
    qed
    have fb: "fresh_hash b" "sizearray b = na" "capacity b = capacity t2"
      using n(4) la ta by (simp_all add: b_def fresh_hash_array capacity_def)
    have r: "luaM_reallocv (c_uint na) sizeof_TValue = Inr ()"
      using setarrayvector_eq [OF na, of t] by (cases "luaM_reallocv (c_uint na) sizeof_TValue") (simp_all add: setarrayvector_def)
    have rest: "?rest t2 = bnd (reinsert_array nk [nat na..<length (tarray t)] b)
        (\<lambda>t3. reinsert_nodes nk (rev (tnode t)) (trim_block (na < sizearray t) t3))"
      using r by (simp add: b_def trim_block_def bnd_assoc)
    show ?thesis
    proof (rule new [OF fb(1,2)])
      show "nh \<le> int (capacity b)" using n(5) fb(3) by simp
      show "resize_with nk t na nh = bnd (reinsert_array nk [nat na..<length (tarray t)] b)
          (\<lambda>t3. reinsert_nodes nk (rev (tnode t)) (trim_block (na < sizearray t) t3))"
        by (simp only: eq n(1) bnd_Inr rest)
      show "drop (nat na) (array_block b) = drop (nat na) (tarray t) @ tspare t" if "na \<le> sizearray t"
      proof -
        have "array_block b = array_block t2" by (simp add: b_def cut_block)
        with blk [OF that] n(2) that show ?thesis by simp
      qed
      fix k
      have "raw_get b k = (if in_array b k then tarray b ! nat (arrayindex k - 1) else LNil)"
        using fresh_raw_get [OF fb(1)] fb(2) na(2) by simp
      then show "raw_get b k = (if 1 \<le> arrayindex k \<and> arrayindex k \<le> na \<and> arrayindex k \<le> sizearray t
        then tarray t ! nat (arrayindex k - 1) else LNil)"
        by (auto simp: in_array_def fb(2)) (auto simp: ta a_def nth_append)
    qed
  qed
qed

lemma slice_small:
  assumes "table_ok t" "0 \<le> na" "na \<le> MAXASIZE"
  shows "na + int (length (drop (nat na) (tarray t))) < 2147483648"
proof -
  have "sizearray t \<le> 67108864" "na \<le> 67108864"
    using assms by (simp_all add: table_ok_def MAXASIZE_def MAXBITS_def)
  then show ?thesis by simp
qed

lemma resize_slice:
  assumes ok: "table_ok t" and na: "0 \<le> na" "na \<le> MAXASIZE" and b: "table_ok b" "sizearray b = na"
    "na \<le> sizearray t \<Longrightarrow> drop (nat na) (array_block b) = drop (nat na) (tarray t) @ tspare t"
    "length (array_pairs na (drop (nat na) (tarray t))) \<le> capacity b"
  shows "\<exists>t'. reinsert_array (newkey d) [nat na..<length (tarray t)] b = Inr t' \<and> table_ok t' \<and> same_shape b t'
     \<and> capacity b \<le> capacity t' + length (array_pairs na (drop (nat na) (tarray t)))
     \<and> raw_get t' = put_all (array_pairs na (drop (nat na) (tarray t))) (raw_get b)"
proof (cases "na \<le> sizearray t")
  case True
  then have "nat na + length (drop (nat na) (tarray t)) = length (tarray t)" "int (nat na) = na"
    using na(1) by simp_all
  with reinsert_array_ok [of b "nat na" "drop (nat na) (tarray t)" "tspare t" d]
    slice_small [OF ok na] b(1,2,4) b(3) [OF True]
  show ?thesis by simp
next
  case False
  then show ?thesis using b(1) by (simp add: same_shape_def)
qed

lemma resize_with_ok:
  assumes ok: "table_ok t" and na: "0 \<le> na" "na \<le> MAXASIZE" and nh: "0 \<le> nh" "nh < 2147483648"
    and room: "int (moved t na) \<le> nh"
  shows "resize_with (newkey d) t na nh = Inl (ErrRun ''table overflow'') \<and> 2 ^ 26 < nh
    \<or> (\<exists>t'. resize_with (newkey d) t na nh = Inr t' \<and> table_ok t' \<and> sizearray t' = na
        \<and> raw_get t' = raw_get t \<and> nh \<le> int (capacity t' + moved t na))"
proof (rule resize_with_eq [OF ok na nh, of "newkey d"])
  fix b assume b: "fresh_hash b" "sizearray b = na" "nh \<le> int (capacity b)"
    "\<And>k. raw_get b k = (if 1 \<le> arrayindex k \<and> arrayindex k \<le> na \<and> arrayindex k \<le> sizearray t
       then tarray t ! nat (arrayindex k - 1) else LNil)"
    "na \<le> sizearray t \<Longrightarrow> drop (nat na) (array_block b) = drop (nat na) (tarray t) @ tspare t"
    "resize_with (newkey d) t na nh = bnd (reinsert_array (newkey d) [nat na..<length (tarray t)] b) (\<lambda>t3.
       reinsert_nodes (newkey d) (rev (tnode t)) (trim_block (na < sizearray t) t3))"
  let ?A = "array_pairs na (drop (nat na) (tarray t))"
  have bok: "table_ok b" using fresh_table_ok [OF b(1)] b(2) na(2) by simp
  have cA: "length ?A \<le> capacity b" using room b(3) by (simp add: moved_def length_array_pairs)
  obtain t4 where t4: "reinsert_array (newkey d) [nat na..<length (tarray t)] b = Inr t4" "table_ok t4" "same_shape b t4"
    "capacity b \<le> capacity t4 + length ?A" "raw_get t4 = put_all ?A (raw_get b)"
    using resize_slice [OF ok na bok b(2,5) cA, of d] by blast
  define t3 where "t3 = trim_block (na < sizearray t) t4"
  have t3: "table_ok t3" "capacity b \<le> capacity t3 + length ?A" "raw_get t3 = put_all ?A (raw_get b)"
    using t4 by (simp_all add: t3_def raw_get_trim_block)
  have sz3: "sizearray t3 = na" using t4(3) b(2) by (simp add: same_shape_def t3_def)
  have flt: "filter (\<lambda>nd. \<not> in_array t3 (i_key nd)) (live (rev (tnode t)))
    = rev (filter (\<lambda>nd. \<not> (1 \<le> arrayindex (i_key nd) \<and> arrayindex (i_key nd) \<le> na)) (live (tnode t)))"
    by (simp add: in_array_def sz3 rev_live rev_filter)
  have mv: "moved t na = length ?A + length (filter (\<lambda>nd. \<not> in_array t3 (i_key nd)) (live (rev (tnode t))))"
    by (simp add: flt moved_def length_array_pairs)
  have c3: "length (filter (\<lambda>nd. \<not> in_array t3 (i_key nd)) (live (rev (tnode t)))) \<le> capacity t3"
    using t3(2) room b(3) mv by linarith
  have vk: "\<forall>nd\<in>set (live (rev (tnode t))). valid_key (i_key nd)"
    using live_key(1) [OF ok] by (simp add: rev_live)
  obtain t' where t': "reinsert_nodes (newkey d) (rev (tnode t)) t3 = Inr t'" "table_ok t'" "same_shape t3 t'"
    "capacity t3 \<le> capacity t' + length (filter (\<lambda>nd. \<not> in_array t3 (i_key nd)) (live (rev (tnode t))))"
    "raw_get t' = put_all (node_pairs (rev (tnode t))) (raw_get t3)"
    using reinsert_nodes_ok [OF t3(1) vk c3, of d] unfolding fold_upd_pairs by blast
  have "raw_get t' = raw_get t" unfolding t'(5) t3(3) by (rule put_all_contents [OF ok na(1) b(4)])
  moreover have "sizearray t' = na" using t'(3) sz3 by (simp add: same_shape_def)
  moreover have "nh \<le> int (capacity t' + moved t na)" using b(3) t3(2) t'(4) mv by linarith
  ultimately show ?thesis using t'(1,2) t4(1) by (simp add: b(6) t3_def [symmetric])
qed simp

text \<open>\<open>luaH_resizearray\<close> leaves the size of the hash part as it is.\<close>

lemma moved_grow:
  assumes "table_ok t" and "sizearray t \<le> na"
  shows "int (moved t na) \<le> (if isdummy t then 0 else sizenode t)"
proof -
  obtain k where k: "node_size t k" using assms(1) by (auto simp: table_ok_def)
  have "drop (nat na) (tarray t) = []" using assms(2) by simp
  then have "moved t na \<le> length (live (tnode t))" by (simp add: moved_def)
  moreover have "length (live (tnode t)) \<le> length (tnode t)" by (simp add: live_def)
  moreover have "int (length (tnode t)) = sizenode t" using k sizenode_eq [OF k] by (simp add: node_size_def)
  moreover have "live (tnode t) = []" if "isdummy t"
    using assms(1) that by (simp add: table_ok_def live_def dummynode_def)
  ultimately show ?thesis by auto
qed

lemma resizearray_ok:
  assumes ok: "table_ok t" and na: "0 \<le> na" "na \<le> MAXASIZE"
    and room: "int (moved t na) \<le> (if isdummy t then 0 else sizenode t)"
  shows "\<exists>t'. luaH_resizearray t na = Inr t' \<and> table_ok t' \<and> sizearray t' = na \<and> raw_get t' = raw_get t"
proof -
  obtain k where k: "node_size t k" using ok by (auto simp: table_ok_def)
  then have "k \<le> 26" by (simp add: node_size_def MAXBITS_def)
  then have "(2::int) ^ k \<le> 2 ^ 26" by (intro power_increasing) simp_all
  then have "0 \<le> (if isdummy t then 0 else sizenode t)" "(if isdummy t then 0 else sizenode t) < 2147483648"
    "\<not> 2 ^ 26 < (if isdummy t then 0 else sizenode t)"
    by (simp_all add: sizenode_eq [OF k])
  with resize_with_ok [OF ok na this(1,2) room, of 1] show ?thesis
    unfolding luaH_resizearray_def resize_def by blast
qed

end
