(* ===== verification/TableCount.thy ===== *)
theory TableCount
  imports TableResize
begin

text \<open>
  What \<open>rehash\<close> counts: the integer keys by slices, the size of the array part computed from them, and
  the room this leaves. Then the storing operations as a whole.
\<close>

section \<open>Slices\<close>

abbreviation cnt :: "('a \<Rightarrow> bool) \<Rightarrow> 'a list \<Rightarrow> nat" where "cnt P xs \<equiv> length (filter P xs)"

lemma cnt_cong: "(\<And>x. x \<in> set xs \<Longrightarrow> P x = Q x) \<Longrightarrow> cnt P xs = cnt Q xs"
  by (simp cong: filter_cong)

lemma cnt_split: "(\<And>x. x \<in> set xs \<Longrightarrow> P x \<longleftrightarrow> Q x \<noteq> R x) \<Longrightarrow> (\<And>x. x \<in> set xs \<Longrightarrow> \<not> (Q x \<and> R x)) \<Longrightarrow>
  cnt P xs = cnt Q xs + cnt R xs"
  by (induction xs) auto

lemma ceillog2_le:
  assumes "1 \<le> k" "k \<le> MAXASIZE"
  shows "ceillog2 k \<le> int lg \<longleftrightarrow> k \<le> 2 ^ lg" "0 \<le> ceillog2 k" "ceillog2 k \<le> 26"
proof -
  have le: "0 \<le> ceillog2 k \<and> (ceillog2 k \<le> int lg \<longleftrightarrow> k \<le> 2 ^ lg)" for lg
  proof (cases "k = 1")
    case False
    then have k: "2 \<le> k" "k \<le> 4294967296" using assms by (simp_all add: MAXASIZE_def MAXBITS_def)
    note b = ceillog2_bounds [OF k]
    have "ceillog2 k \<le> int lg \<Longrightarrow> (2::int) ^ nat (ceillog2 k) \<le> 2 ^ lg" by (intro power_increasing) auto
    moreover have "int lg < ceillog2 k \<Longrightarrow> (2::int) ^ lg \<le> 2 ^ nat (ceillog2 k - 1)" by (intro power_increasing) auto
    ultimately show ?thesis using b by linarith
  qed (simp add: ceillog2_1)
  then show "ceillog2 k \<le> int lg \<longleftrightarrow> k \<le> 2 ^ lg" "0 \<le> ceillog2 k" by blast+
  have "ceillog2 k \<le> int 26 \<longleftrightarrow> k \<le> 2 ^ 26" using le by blast
  then show "ceillog2 k \<le> 26" using assms by (simp add: MAXASIZE_def MAXBITS_def)
qed

text \<open>\<open>nums\<close> holds the count of each slice of the keys \<open>K\<close>.\<close>

definition index_keys :: "int list \<Rightarrow> bool" where
  "index_keys K \<longleftrightarrow> (\<forall>k\<in>set K. 1 \<le> k \<and> k \<le> MAXASIZE)"

definition counts :: "int list \<Rightarrow> int list \<Rightarrow> bool" where
  "counts nums K \<longleftrightarrow> index_keys K \<and> length nums = MAXBITS + 1
     \<and> (\<forall>m \<le> MAXBITS. nums ! m = int (cnt (\<lambda>k. ceillog2 k = int m) K))"

definition index_key :: "TValue \<Rightarrow> int list" where
  "index_key key = (if 0 < arrayindex key \<and> arrayindex key \<le> MAXASIZE then [arrayindex key] else [])"

lemma countint_counts:
  assumes "counts nums K"
  obtains nums' where "countint key nums = (int (length (index_key key)), nums')" "counts nums' (index_key key @ K)"
proof (cases "0 < arrayindex key \<and> arrayindex key \<le> MAXASIZE")
  case True
  let ?k = "arrayindex key" let ?lg = "nat (ceillog2 ?k)"
  have lg: "0 \<le> ceillog2 ?k" "ceillog2 ?k \<le> 26" using ceillog2_le [of ?k] True by simp_all
  have "counts (nums[?lg := nums ! ?lg + 1]) (?k # K)"
    using assms True lg unfolding counts_def index_keys_def MAXBITS_def by (auto simp: nth_list_update)
  moreover have "countint key nums = (1, nums[?lg := nums ! ?lg + 1])" "index_key key = [?k]"
    using True by (simp_all add: countint_def index_key_def Let_def)
  ultimately show ?thesis using that by simp
next
  case False
  then have "countint key nums = (0, nums)" "index_key key = []" by (auto simp: countint_def index_key_def Let_def)
  then show ?thesis using that [of nums] assms by simp
qed

section \<open>The keys of the array part\<close>

definition array_keys :: "Table \<Rightarrow> int list" where
  "array_keys t = map (\<lambda>i. int i + 1) (filter (\<lambda>i. tarray t ! i \<noteq> LNil) [0..<length (tarray t)])"

lemma array_keys_range: "k \<in> set (array_keys t) \<Longrightarrow> 1 \<le> k \<and> k \<le> sizearray t"
  by (auto simp: array_keys_def)

lemma cnt_nth: "cnt P xs = cnt (\<lambda>i. P (xs ! i)) [0..<length xs]"
proof -
  have "cnt P xs = cnt P (map (\<lambda>i. xs ! i) [0..<length xs])" by (simp add: map_nth)
  then show ?thesis by (simp only: filter_map length_map comp_def)
qed

lemma cnt_array_keys: "cnt P (array_keys t) = cnt (\<lambda>i. tarray t ! i \<noteq> LNil \<and> P (int i + 1)) [0..<length (tarray t)]"
  by (simp add: array_keys_def filter_map comp_def conj_commute)

lemma cnt_drop:
  "cnt (\<lambda>v. v \<noteq> LNil) (drop n (tarray t)) = cnt (\<lambda>k. int n < k) (array_keys t)"
proof (cases "n \<le> length (tarray t)")
  case True
  have "cnt (\<lambda>v. v \<noteq> LNil) (drop n (tarray t))
      = cnt (\<lambda>i. tarray t ! (n + i) \<noteq> LNil) [0..<length (tarray t) - n]"
    using True by (subst cnt_nth) simp
  also have "\<dots> = cnt (\<lambda>i. tarray t ! i \<noteq> LNil) (map (\<lambda>i. n + i) [0..<length (tarray t) - n])"
    by (simp add: filter_map comp_def)
  also have "map (\<lambda>i. n + i) [0..<length (tarray t) - n] = [n..<length (tarray t)]"
    using True map_add_upt [of n "length (tarray t) - n"] by (simp add: add.commute)
  also have "cnt (\<lambda>i. tarray t ! i \<noteq> LNil) [n..<length (tarray t)]
      = cnt (\<lambda>i. tarray t ! i \<noteq> LNil \<and> int n < int i + 1) [0..<n] + cnt (\<lambda>i. tarray t ! i \<noteq> LNil \<and> int n < int i + 1) [n..<length (tarray t)]"
  proof -
    have "cnt (\<lambda>i. tarray t ! i \<noteq> LNil \<and> int n < int i + 1) [0..<n] = 0" by (auto simp: filter_empty_conv)
    moreover have "cnt (\<lambda>i. tarray t ! i \<noteq> LNil) [n..<length (tarray t)] = cnt (\<lambda>i. tarray t ! i \<noteq> LNil \<and> int n < int i + 1) [n..<length (tarray t)]"
      by (rule cnt_cong) auto
    ultimately show ?thesis by simp
  qed
  also have "\<dots> = cnt (\<lambda>i. tarray t ! i \<noteq> LNil \<and> int n < int i + 1) [0..<length (tarray t)]"
    using True upt_add_eq_append [of 0 n "length (tarray t) - n"] by simp
  finally show ?thesis by (simp add: cnt_array_keys)
next
  case False
  then have "cnt (\<lambda>k. int n < k) (array_keys t) = 0"
    using array_keys_range [of _ t] by (fastforce simp: filter_empty_conv)
  with False show ?thesis by simp
qed

lemma cnt_take:
  "cnt (\<lambda>v. v \<noteq> LNil) (take n (tarray t)) = cnt (\<lambda>k. k \<le> int n) (array_keys t)"
proof -
  have "cnt (\<lambda>v. v \<noteq> LNil) (take n (tarray t)) + cnt (\<lambda>v. v \<noteq> LNil) (drop n (tarray t)) = cnt (\<lambda>v. v \<noteq> LNil) (tarray t)"
    by (metis append_take_drop_id filter_append length_append)
  moreover have "cnt (\<lambda>k. k \<le> int n) (array_keys t) + cnt (\<lambda>k. int n < k) (array_keys t) = length (array_keys t)"
    using sum_length_filter_compl [of "\<lambda>k. k \<le> int n" "array_keys t"] by (simp add: not_le)
  moreover have "length (array_keys t) = cnt (\<lambda>v. v \<noteq> LNil) (tarray t)"
    by (subst cnt_nth) (simp add: array_keys_def)
  ultimately show ?thesis unfolding cnt_drop by linarith
qed

section \<open>The counting loops\<close>

lemma count_slice_eq:
  assumes "1 \<le> i"
  shows "count_slice t i lim = int (cnt (\<lambda>k. i \<le> k \<and> k \<le> lim) (array_keys t))"
proof (cases "i \<le> lim + 1")
  case True
  let ?n = "nat (i - 1)" let ?m = "nat lim"
  have n: "int ?n = i - 1" "nat (lim - i + 1) = ?m - ?n" "?n \<le> ?m" "int ?m = lim" using assms True by simp_all
  have "take (?m - ?n) (drop ?n (tarray t)) = drop ?n (take ?m (tarray t))" by (simp add: take_drop n(3))
  moreover have "take ?m (tarray t) = take ?n (tarray t) @ drop ?n (take ?m (tarray t))"
    using n(3) by (metis append_take_drop_id min.absorb1 take_take)
  then have "cnt (\<lambda>v. v \<noteq> LNil) (take ?m (tarray t))
      = cnt (\<lambda>v. v \<noteq> LNil) (take ?n (tarray t)) + cnt (\<lambda>v. v \<noteq> LNil) (drop ?n (take ?m (tarray t)))"
    by (metis filter_append length_append)
  then have "cnt (\<lambda>k. k \<le> lim) (array_keys t) = cnt (\<lambda>k. k \<le> i - 1) (array_keys t) + cnt (\<lambda>v. v \<noteq> LNil) (drop ?n (take ?m (tarray t)))"
    unfolding cnt_take n .
  moreover have "cnt (\<lambda>k. k \<le> lim) (array_keys t) = cnt (\<lambda>k. k \<le> i - 1) (array_keys t) + cnt (\<lambda>k. i \<le> k \<and> k \<le> lim) (array_keys t)"
    using True by (intro cnt_split) auto
  ultimately show ?thesis by (simp add: count_slice_def n)
next
  case False
  then have "cnt (\<lambda>k. i \<le> k \<and> k \<le> lim) (array_keys t) = 0" by (auto simp: filter_empty_conv)
  with False show ?thesis by (simp add: count_slice_def)
qed

definition slice_start :: "Table \<Rightarrow> nat \<Rightarrow> int" where
  "slice_start t lg = (if lg = 0 then 1 else min (2 ^ (lg - 1)) (sizearray t) + 1)"

lemma in_slice:
  assumes k: "k \<in> set (array_keys t)" and sz: "sizearray t \<le> MAXASIZE"
  shows "slice_start t lg \<le> k \<longleftrightarrow> int lg \<le> ceillog2 k"
proof -
  have r: "1 \<le> k" "k \<le> sizearray t" using array_keys_range [OF k] by simp_all
  then have k': "1 \<le> k" "k \<le> MAXASIZE" using sz by simp_all
  show ?thesis
  proof (cases lg)
    case 0
    then show ?thesis using r ceillog2_le(2) [OF k'] by (simp add: slice_start_def)
  next
    case (Suc m)
    have "slice_start t lg = min (2 ^ m) (sizearray t) + 1" using Suc by (simp add: slice_start_def)
    then have "slice_start t lg \<le> k \<longleftrightarrow> \<not> k \<le> 2 ^ m" using r by linarith
    also have "\<dots> \<longleftrightarrow> int lg \<le> ceillog2 k" using ceillog2_le(1) [OF k', of m] Suc by auto
    finally show ?thesis .
  qed
qed

lemma numusearray_loop_ok:
  assumes sz: "sizearray t \<le> MAXASIZE"
  shows "lg \<le> 27 \<Longrightarrow> length nums = MAXBITS + 1 \<Longrightarrow> \<exists>nums'.
    numusearray_loop t [lg..<27] (2 ^ lg) (slice_start t lg) nums ause
      = (ause + int (cnt (\<lambda>k. int lg \<le> ceillog2 k) (array_keys t)), nums')
    \<and> length nums' = length nums
    \<and> (\<forall>m\<le>MAXBITS. nums' ! m = nums ! m + (if lg \<le> m then int (cnt (\<lambda>k. ceillog2 k = int m) (array_keys t)) else 0))"
proof (induction "27 - lg" arbitrary: lg nums ause)
  case 0
  then have lg: "lg = 27" by simp
  have "cnt (\<lambda>k. int lg \<le> ceillog2 k) (array_keys t) = 0"
  proof -
    have "\<not> int lg \<le> ceillog2 k" if "k \<in> set (array_keys t)" for k
      using ceillog2_le(3) [of k] array_keys_range [OF that] sz lg by simp
    then show ?thesis by (auto simp: filter_empty_conv)
  qed
  then show ?case using lg by (auto simp: MAXBITS_def)
next
  case (Suc d)
  then have lg: "lg < 27" by simp
  then have upt: "[lg..<27] = lg # [Suc lg..<27]" by (simp add: upt_conv_Cons)
  let ?A = "array_keys t" let ?i = "slice_start t lg"
  let ?lim = "if 2 ^ lg > sizearray t then sizearray t else 2 ^ lg"
  have lim: "?lim = min (2 ^ lg) (sizearray t)" by simp
  have st: "1 \<le> ?i" "slice_start t (Suc lg) = ?lim + 1" by (simp_all add: slice_start_def)
  have split: "cnt (\<lambda>k. int lg \<le> ceillog2 k) ?A = cnt (\<lambda>k. ceillog2 k = int lg) ?A + cnt (\<lambda>k. int (Suc lg) \<le> ceillog2 k) ?A"
    by (rule cnt_split) auto
  have slice: "?i \<le> k \<and> k \<le> ?lim \<longleftrightarrow> ceillog2 k = int lg" if "k \<in> set ?A" for k
    using in_slice [OF that sz, of lg] in_slice [OF that sz, of "Suc lg"] st(2) by auto
  show ?case
  proof (cases "2 ^ lg > sizearray t \<and> ?i > ?lim")
    case True
    have no: "\<not> int lg \<le> ceillog2 k" if "k \<in> set ?A" for k
      using in_slice [OF that sz, of lg] array_keys_range [OF that] True by auto
    then have "cnt (\<lambda>k. int lg \<le> ceillog2 k) ?A = 0" "lg \<le> m \<Longrightarrow> cnt (\<lambda>k. ceillog2 k = int m) ?A = 0" for m
      by (fastforce simp: filter_empty_conv)+
    with True show ?thesis unfolding upt by (auto simp: Let_def)
  next
    case False
    have ile: "?i \<le> ?lim"
    proof (cases "2 ^ lg > sizearray t")
      case True with False show ?thesis by auto
    next
      case f: False
      show ?thesis
      proof (cases lg)
        case (Suc m)
        have "(1::int) \<le> 2 ^ m" by simp
        then have "min (2 ^ m) (sizearray t) + 1 \<le> 2 ^ Suc m" unfolding power_Suc by linarith
        with f Suc show ?thesis by (simp add: slice_start_def)
      qed (use f in \<open>simp add: slice_start_def\<close>)
    qed
    let ?lc = "int (cnt (\<lambda>k. ceillog2 k = int lg) ?A)"
    have lc: "count_slice t ?i ?lim = ?lc"
      unfolding count_slice_eq [OF st(1)] by (simp only: cnt_cong [OF slice])
    have eq: "numusearray_loop t [lg..<27] (2 ^ lg) ?i nums ause
      = numusearray_loop t [Suc lg..<27] (2 ^ Suc lg) (slice_start t (Suc lg)) (nums[lg := nums ! lg + ?lc]) (ause + ?lc)"
      unfolding upt numusearray_loop.simps Let_def lc using False ile by (auto simp: st(2) mult.commute)
    obtain nums' where r: "numusearray_loop t [Suc lg..<27] (2 ^ Suc lg) (slice_start t (Suc lg)) (nums[lg := nums ! lg + ?lc]) (ause + ?lc)
        = (ause + ?lc + int (cnt (\<lambda>k. int (Suc lg) \<le> ceillog2 k) ?A), nums')" "length nums' = length (nums[lg := nums ! lg + ?lc])"
      "\<And>m. m \<le> MAXBITS \<Longrightarrow> nums' ! m = nums[lg := nums ! lg + ?lc] ! m + (if Suc lg \<le> m then int (cnt (\<lambda>k. ceillog2 k = int m) ?A) else 0)"
    proof -
      have pre: "d = 27 - Suc lg" "Suc lg \<le> 27" "length (nums[lg := nums ! lg + ?lc]) = MAXBITS + 1"
        using Suc.hyps(2) Suc.prems(2) lg by simp_all
      show thesis using that Suc.hyps(1) [OF pre, of "ause + ?lc"] by blast
    qed
    have "nums' ! m = nums ! m + (if lg \<le> m then int (cnt (\<lambda>k. ceillog2 k = int m) ?A) else 0)" if "m \<le> MAXBITS" for m
      using r(3) [OF that] Suc.prems(2) that by (cases "m = lg") auto
    with r(1,2) eq split show ?thesis by (intro exI [of _ nums']) simp
  qed
qed

lemma numusearray_ok:
  assumes "sizearray t \<le> MAXASIZE"
  obtains nums where "numusearray t (replicate (MAXBITS + 1) 0) = (int (length (array_keys t)), nums)" "counts nums (array_keys t)"
proof -
  have ik: "index_keys (array_keys t)" using array_keys_range [of _ t] assms by (fastforce simp: index_keys_def)
  have "cnt (\<lambda>k. int 0 \<le> ceillog2 k) (array_keys t) = length (array_keys t)"
    using ik ceillog2_le(2) by (auto simp: index_keys_def)
  moreover have "slice_start t 0 = 1" by (simp add: slice_start_def)
  moreover define Z where "Z = replicate (MAXBITS + 1) (0::int)"
  then have Z: "length Z = MAXBITS + 1" "\<And>m. m \<le> MAXBITS \<Longrightarrow> Z ! m = 0" by (simp_all del: replicate_Suc)
  ultimately obtain nums where n: "numusearray_loop t [0..<27] 1 1 Z 0 = (int (length (array_keys t)), nums)"
    "length nums = MAXBITS + 1" "\<And>m. m \<le> MAXBITS \<Longrightarrow> nums ! m = int (cnt (\<lambda>k. ceillog2 k = int m) (array_keys t))"
    using numusearray_loop_ok [OF assms, of 0 Z 0] by auto
  have u: "[0..<MAXBITS + 1] = [0..<27]" by (simp add: MAXBITS_def)
  show thesis by (rule that [of nums]) (use n ik in \<open>auto simp only: numusearray_def counts_def Z_def u\<close>)
qed

definition node_keys :: "Node list \<Rightarrow> int list" where
  "node_keys ns = concat (map (\<lambda>nd. index_key (i_key nd)) (live ns))"

lemma numusehash_loop_ok:
  "n \<le> length (tnode t) \<Longrightarrow> counts nums K \<Longrightarrow> \<exists>nums' K'.
     numusehash_loop t n nums ause tot
       = Inr (tot + int (length (live (take n (tnode t)))), nums', ause + int (length (node_keys (take n (tnode t)))))
     \<and> counts nums' K' \<and> mset K' = mset (node_keys (take n (tnode t))) + mset K"
proof (induction n arbitrary: nums K ause tot)
  case 0
  then show ?case by (auto simp: live_def node_keys_def)
next
  case (Suc n)
  let ?nd = "tnode t ! n"
  have tk: "take (Suc n) (tnode t) = take n (tnode t) @ [?nd]" using Suc.prems(1) by (simp add: take_Suc_conv_app_nth)
  have g: "gnode t n = Inr ?nd" using Suc.prems(1) by (simp add: gnode_def)
  show ?case
  proof (cases "i_val ?nd = LNil")
    case True
    then have "live (take (Suc n) (tnode t)) = live (take n (tnode t))" by (simp add: tk live_def)
    with Suc.IH [of nums K ause tot] Suc.prems True g show ?thesis by (simp add: node_keys_def)
  next
    case False
    obtain nums1 where c: "countint (i_key ?nd) nums = (int (length (index_key (i_key ?nd))), nums1)"
      "counts nums1 (index_key (i_key ?nd) @ K)" by (rule countint_counts [OF Suc.prems(2)])
    have lv: "live (take (Suc n) (tnode t)) = live (take n (tnode t)) @ [?nd]" using False by (simp add: tk live_def)
    have nk: "node_keys (take (Suc n) (tnode t)) = node_keys (take n (tnode t)) @ index_key (i_key ?nd)"
      by (simp add: node_keys_def lv)
    have "n \<le> length (tnode t)" using Suc.prems(1) by simp
    from Suc.IH [OF this c(2), of "ause + int (length (index_key (i_key ?nd)))" "tot + 1"] g c(1) False
    show ?thesis by (auto simp: lv nk ac_simps)
  qed
qed

lemma counts_mset: "counts nums K \<Longrightarrow> mset K' = mset K \<Longrightarrow> counts nums K'"
  unfolding counts_def index_keys_def by (metis mset_eq_setD mset_filter size_mset)

section \<open>The size of the array part\<close>

lemma computesizes_loop_ok:
  assumes c: "counts nums K"
  shows "lg \<le> 26 \<Longrightarrow> na = cnt (\<lambda>k. k \<le> n) K \<Longrightarrow> 0 \<le> n \<Longrightarrow> n \<le> MAXASIZE \<Longrightarrow> n = 0 \<or> n div 2 < int na \<Longrightarrow> \<exists>na' n'.
    computesizes_loop (drop lg nums) (2 ^ lg) (int (cnt (\<lambda>k. ceillog2 k < int lg) K)) (int na) n (int (length K)) = Inr (int na', n')
    \<and> na' = cnt (\<lambda>k. k \<le> n') K \<and> 0 \<le> n' \<and> n' \<le> MAXASIZE \<and> (n' = 0 \<or> n' div 2 < int na')"
proof (induction "26 - lg" arbitrary: lg na n rule: less_induct)
  case less
  have len: "length nums = 27" and cl: "nums ! lg = int (cnt (\<lambda>k. ceillog2 k = int lg) K)"
    using c less.prems(1) by (simp_all add: counts_def MAXBITS_def)
  have dr: "drop lg nums = nums ! lg # drop (Suc lg) nums" using less.prems(1) len by (simp add: Cons_nth_drop_Suc)
  let ?a = "\<lambda>lg. int (cnt (\<lambda>k. ceillog2 k < int lg) K)"
  have add: "?a (Suc lg) = ?a lg + nums ! lg"
  proof -
    have "cnt (\<lambda>k. ceillog2 k < int (Suc lg)) K = cnt (\<lambda>k. ceillog2 k < int lg) K + cnt (\<lambda>k. ceillog2 k = int lg) K"
      by (rule cnt_split) auto
    then show ?thesis by (simp add: cl)
  qed
  have all: "cnt (\<lambda>k. ceillog2 k < int (Suc lg)) K = cnt (\<lambda>k. k \<le> 2 ^ lg) K"
  proof (rule cnt_cong)
    fix k assume "k \<in> set K"
    then have "1 \<le> k" "k \<le> MAXASIZE" using c by (auto simp: counts_def index_keys_def)
    from ceillog2_le(1) [OF this, of lg] show "(ceillog2 k < int (Suc lg)) = (k \<le> 2 ^ lg)" by auto
  qed
  show ?case
  proof (cases "(2::int) ^ lg div 2 < int (length K)")
    case False
    with less.prems show ?thesis by (subst computesizes_loop.simps) auto
  next
    case True
    define grow where "grow \<longleftrightarrow> nums ! lg > 0 \<and> ?a (Suc lg) > 2 ^ lg div 2"
    define na1 where "na1 = (if grow then cnt (\<lambda>k. k \<le> 2 ^ lg) K else na)"
    define n1 where "n1 = (if grow then 2 ^ lg else n)"
    have step: "computesizes_loop (drop lg nums) (2 ^ lg) (?a lg) (int na) n (int (length K))
      = (if ?a (Suc lg) = int (length K) then Inr (int na1, n1)
         else computesizes_loop (drop (Suc lg) nums) (2 ^ Suc lg) (?a (Suc lg)) (int na1) n1 (int (length K)))"
    proof (cases "nums ! lg > 0")
      case True
      with \<open>(2::int) ^ lg div 2 < int (length K)\<close> show ?thesis
        unfolding dr add all [symmetric] na1_def n1_def grow_def
        by (subst computesizes_loop.simps) (simp add: Let_def add mult.commute flip: add)
    next
      case False
      then have "nums ! lg = 0" using cl by simp
      with \<open>(2::int) ^ lg div 2 < int (length K)\<close> show ?thesis
        unfolding dr add na1_def n1_def grow_def
        by (subst computesizes_loop.simps) (simp add: Let_def mult.commute)
    qed
    have inv: "na1 = cnt (\<lambda>k. k \<le> n1) K" "0 \<le> n1" "n1 \<le> MAXASIZE" "n1 = 0 \<or> n1 div 2 < int na1"
    proof -
      have "(2::int) ^ lg \<le> 2 ^ 26" using less.prems(1) by (intro power_increasing) simp_all
      then have "(2::int) ^ lg \<le> MAXASIZE" by (simp add: MAXASIZE_def MAXBITS_def)
      then show "na1 = cnt (\<lambda>k. k \<le> n1) K" "0 \<le> n1" "n1 \<le> MAXASIZE" "n1 = 0 \<or> n1 div 2 < int na1"
        using less.prems all by (auto simp: na1_def n1_def grow_def)
    qed
    show ?thesis
    proof (cases "?a (Suc lg) = int (length K)")
      case True
      with step inv show ?thesis by auto
    next
      case False
      have "lg < 26"
      proof (rule ccontr)
        assume "\<not> lg < 26"
        then have "lg = 26" using less.prems(1) by simp
        moreover have "ceillog2 k < 27" if "k \<in> set K" for k
          using c that ceillog2_le(3) [of k] by (auto simp: counts_def index_keys_def)
        ultimately have "filter (\<lambda>k. ceillog2 k < int (Suc lg)) K = K" by simp
        with False show False by simp
      qed
      then have "26 - Suc lg < 26 - lg" "Suc lg \<le> 26" by simp_all
      from less.hyps [OF this inv] step False show ?thesis by simp
    qed
  qed
qed

lemma computesizes_ok:
  assumes "counts nums K"
  obtains na n where "computesizes nums (int (length K)) = Inr (int na, n)" "na = cnt (\<lambda>k. k \<le> n) K"
    "0 \<le> n" "n \<le> MAXASIZE" "n = 0 \<or> n div 2 < int na"
proof -
  have z: "cnt (\<lambda>k. k \<le> 0) K = 0" "cnt (\<lambda>k. ceillog2 k < int 0) K = 0"
    using assms ceillog2_le(2) by (fastforce simp: counts_def index_keys_def filter_empty_conv)+
  from computesizes_loop_ok [OF assms, of 0 0 0] z that show thesis
    by (auto simp: computesizes_def MAXASIZE_def)
qed

end
