(* ===== verification/TableMap.thy ===== *)
theory TableMap
  imports TableCount
begin

text \<open>
  Tables implement maps from keys, compared by raw equality, to values: the storing operations as a
  whole, sequences of them, the length operator and the traversal.
\<close>

section \<open>Rehashing makes room\<close>

lemma array_keys_total: "length (array_keys t) = cnt (\<lambda>k. k \<le> n) (array_keys t) + cnt (\<lambda>k. n < k) (array_keys t)"
  using sum_length_filter_compl [of "\<lambda>k. k \<le> n" "array_keys t"] by (simp add: not_le)

lemma live_total:
  assumes "n \<le> MAXASIZE"
  shows "length (live ns) = cnt (\<lambda>k. k \<le> n) (node_keys ns)
    + cnt (\<lambda>nd. \<not> (1 \<le> arrayindex (i_key nd) \<and> arrayindex (i_key nd) \<le> n)) (live ns)"
proof -
  have "cnt (\<lambda>k. k \<le> n) (index_key key) = (if 1 \<le> arrayindex key \<and> arrayindex key \<le> n then 1 else 0)" for key
    using assms by (auto simp: index_key_def)
  then have c: "cnt (\<lambda>k. k \<le> n) (concat (map (\<lambda>nd. index_key (i_key nd)) xs))
      = cnt (\<lambda>nd. 1 \<le> arrayindex (i_key nd) \<and> arrayindex (i_key nd) \<le> n) xs" for xs
    by (induction xs) auto
  show ?thesis unfolding node_keys_def c
    using sum_length_filter_compl [of "\<lambda>nd. 1 \<le> arrayindex (i_key nd) \<and> arrayindex (i_key nd) \<le> n" "live ns"]
    by simp
qed

lemma table_sizes:
  assumes "table_ok t"
  shows "length (tnode t) \<le> 67108864" "sizearray t \<le> 67108864" "nat (sizenode t) = length (tnode t)"
proof -
  obtain k where k: "node_size t k" using assms by (auto simp: table_ok_def)
  then have "k \<le> 26" "length (tnode t) = 2 ^ k" by (simp_all add: node_size_def MAXBITS_def)
  moreover from this have "(2::nat) ^ k \<le> 2 ^ 26" by (intro power_increasing) simp_all
  ultimately show "length (tnode t) \<le> 67108864" by simp
  show "sizearray t \<le> 67108864" using assms by (simp add: table_ok_def MAXASIZE_def MAXBITS_def)
  show "nat (sizenode t) = length (tnode t)" using sizenode_eq [OF k] k by (simp add: node_size_def nat_power_eq)
qed

text \<open>Only a table with \<open>2 ^ 26\<close> slots overflows.\<close>

definition crowded :: "Table \<Rightarrow> bool" where
  "crowded t \<longleftrightarrow> 2 ^ 26 \<le> length (tarray t) + length (tnode t)"

lemma crowded_simps [simp]:
  "crowded (t\<lparr>lastfree := l\<rparr>) = crowded t" "crowded (t\<lparr>flags := f\<rparr>) = crowded t"
  by (simp_all add: crowded_def)

lemma rehash_with_ok:
  assumes ok: "table_ok t"
  shows "rehash_with (newkey d) t ek = Inl (ErrRun ''table overflow'') \<and> crowded t
    \<or> (\<exists>t'. rehash_with (newkey d) t ek = Inr t' \<and> table_ok t' \<and> raw_get t' = raw_get t \<and> room_for t' ek)"
proof -
  note sz = table_sizes [OF ok]
  obtain nums1 where 1: "numusearray t (replicate (MAXBITS + 1) 0) = (int (length (array_keys t)), nums1)"
    "counts nums1 (array_keys t)"
    by (rule numusearray_ok [of t]) (use ok in \<open>simp_all add: table_ok_def\<close>)
  obtain nums2 K where 2: "numusehash_loop t (length (tnode t)) nums1 0 0
      = Inr (int (length (live (tnode t))), nums2, int (length (node_keys (tnode t))))"
    "counts nums2 K" "mset K = mset (node_keys (tnode t)) + mset (array_keys t)"
    using numusehash_loop_ok [OF le_refl [of "length (tnode t)"] 1(2), where ause = 0 and tot = 0] by auto
  obtain nums3 where 3: "countint ek nums2 = (int (length (index_key ek)), nums3)" "counts nums3 (index_key ek @ K)"
    by (rule countint_counts [OF 2(2)])
  let ?K = "index_key ek @ K"
  obtain na n where 4: "computesizes nums3 (int (length ?K)) = Inr (int na, n)" "na = cnt (\<lambda>k. k \<le> n) ?K"
    "0 \<le> n" "n \<le> MAXASIZE" by (rule computesizes_ok [OF 3(2)])
  have K: "length K = length (node_keys (tnode t)) + length (array_keys t)"
    "cnt P K = cnt P (node_keys (tnode t)) + cnt P (array_keys t)" for P
    using 2(3) by (metis length_append mset_append size_mset)
      (metis 2(3) filter_union_mset mset_filter size_mset size_union)
  let ?nh = "int (length (array_keys t)) + int (length (live (tnode t))) + 1 - int na"
  have eq: "rehash_with (newkey d) t ek = resize_with (newkey d) t n ?nh"
    using 1(1) 2(1) 3(1) 4(1)
    by (simp add: rehash_with_def numusehash_def sz(3) K(1) algebra_simps)
  have ek: "cnt (\<lambda>k. k \<le> n) (index_key ek) = (if 1 \<le> arrayindex ek \<and> arrayindex ek \<le> n then 1 else 0)"
    using 4(4) by (auto simp: index_key_def)
  have mv: "moved t n = cnt (\<lambda>k. n < k) (array_keys t)
      + cnt (\<lambda>nd. \<not> (1 \<le> arrayindex (i_key nd) \<and> arrayindex (i_key nd) \<le> n)) (live (tnode t))"
    using 4(3) by (simp add: moved_def cnt_drop)
  have m: "int (moved t n) = ?nh - 1 + (if 1 \<le> arrayindex ek \<and> arrayindex ek \<le> n then 1 else 0)"
    using array_keys_total [of t n] live_total [OF 4(4), of "tnode t"] 4(2) ek
    unfolding mv filter_append length_append K by simp
  have len: "length (array_keys t) \<le> length (tarray t)" "length (live (tnode t)) \<le> length (tnode t)"
    unfolding array_keys_def live_def by (simp_all add: length_filter_le [of _ "[0..<length (tarray t)]", simplified])
  have nh: "0 \<le> ?nh" "?nh < 2147483648" "int (moved t n) \<le> ?nh"
    using m len sz(1,2) by (auto split: if_splits)
  from resize_with_ok [OF ok 4(3,4) nh, of d] show ?thesis
  proof (elim disjE exE conjE)
    fix t' assume t': "resize_with (newkey d) t n ?nh = Inr t'" "table_ok t'" "sizearray t' = n"
      "raw_get t' = raw_get t" "?nh \<le> int (capacity t' + moved t n)"
    have "room_for t' ek"
      using t'(3,5) m by (auto simp: room_for_def in_array_def split: if_splits)
    with t' eq show ?thesis by simp
  qed (use len in \<open>simp add: eq crowded_def\<close>)
qed

text \<open>The insertion of a new key, with a rehash if there is no free node.\<close>

lemma lastfree_ok:
  assumes ok: "table_ok t" and full: "\<And>i. int i < lastfree t \<Longrightarrow> i_key (tnode t ! i) \<noteq> LNil" and l: "l \<le> lastfree t"
  shows "table_ok (t\<lparr>lastfree := l\<rparr>)" "raw_get (t\<lparr>lastfree := l\<rparr>) = raw_get t"
proof -
  let ?t = "t\<lparr>lastfree := l\<rparr>"
  have mp: "mainposition ?t = mainposition t" by (rule ext, rule mainposition_cong) simp
  have ia: "in_array ?t = in_array t" by (simp add: in_array_def fun_eq_iff)
  obtain k where "node_size t k" using ok by (auto simp: table_ok_def)
  then have "node_size ?t k" by (simp add: node_size_def)
  moreover have "nodes_ok (mainposition t) (tnode t) l" if "nodes_ok (mainposition t) (tnode t) (lastfree t)"
    using that full l unfolding nodes_ok_def by (smt (verit, best))
  ultimately show ok': "table_ok ?t" using ok l unfolding table_ok_def mp ia by (auto split: if_splits)
  show "raw_get ?t = raw_get t" by (rule ext) (simp add: raw_get_eq [OF ok] raw_get_eq [OF ok'] ia)
qed

lemma getfreepos_lastfree: "getfreepos t = (None, t') \<Longrightarrow> lastfree t' \<le> lastfree t"
proof (induction t arbitrary: t' rule: getfreepos.induct)
  case (1 t)
  then show ?case by (subst (asm) (2) getfreepos.simps) (force simp: Let_def split: if_splits)
qed

lemma newkey_ok:
  assumes ok: "table_ok t" and k: "valid_key k" and new: "table_slot t k = None"
  shows "newkey (Suc d) t k = Inl (ErrRun ''table overflow'') \<and> crowded t
    \<or> (\<exists>s t'. newkey (Suc d) t k = Inr (s, t') \<and> slot_found t k s t')"
proof (cases "\<not> isdummy t \<and> (i_val (tnode t ! mainposition t k) = LNil \<or> free_nodes (tnode t) \<noteq> {})")
  case True
  then have nd: "\<not> isdummy t" by simp
  obtain n t' where nt: "newkey_step (newkey d) t k = Inr (NodeSlot n, t')" "inserted t k n t'"
    using newkey_step_ok [OF ok nd k new] True by blast
  have ia: "\<not> in_array t k" using new by (simp add: table_slot_def split: if_split_asm)
  from inserted_slot [OF ok k nt(2) ia nd] nt(1) show ?thesis by (simp add: slot_found_def)
next
  case False
  let ?mp = "mainposition t k"
  obtain kk where "node_size t kk" using ok by (auto simp: table_ok_def)
  then have l: "?mp < length (tnode t)" by (rule mainposition_less)
  have nofree: "isdummy t \<or> free_nodes (tnode t) = {}" using False by blast
  have g: "\<exists>l. getfreepos t = (None, t\<lparr>lastfree := l\<rparr>) \<and> (\<forall>i. int i < lastfree t \<longrightarrow> i_key (tnode t ! i) \<noteq> LNil)"
  proof (cases rule: getfreepos_cases [of t])
    case (free n)
    have "lastfree t \<le> int (length (tnode t))" "isdummy t \<Longrightarrow> lastfree t \<le> 0"
      using ok by (auto simp: table_ok_def nodes_ok_def split: if_splits)
    with free(2,3) nofree have False by (auto simp: free_nodes_def)
    then show ?thesis ..
  qed blast
  then obtain l where gl: "getfreepos t = (None, t\<lparr>lastfree := l\<rparr>)" and full: "\<And>i. int i < lastfree t \<Longrightarrow> i_key (tnode t ! i) \<noteq> LNil"
    by blast
  have ll: "l \<le> lastfree t" using getfreepos_lastfree [OF gl] by simp
  let ?t = "t\<lparr>lastfree := l\<rparr>"
  have lf: "table_ok ?t" "raw_get ?t = raw_get t" using lastfree_ok [OF ok full ll] by blast+
  have val: "\<not> ttisnil (i_val (tnode t ! ?mp)) \<or> isdummy t" using False by auto
  have step: "newkey (Suc d) t k = bnd (rehash_with (newkey d) ?t k) (\<lambda>t. luaH_set_with (newkey d) t k)"
    using val l by (simp add: newkey_step_def gnode_def gl Let_def)
  from rehash_with_ok [OF lf(1), of d k] show ?thesis
  proof (elim disjE exE conjE)
    fix t' assume t': "rehash_with (newkey d) ?t k = Inr t'" "table_ok t'" "raw_get t' = raw_get ?t" "room_for t' k"
    from set_with_room [OF t'(2) k t'(4), of d] obtain s t2 where
      "luaH_set_with (newkey d) t' k = Inr (s, t2)" "slot_found t' k s t2" by blast
    moreover from this have "newkey (Suc d) t k = Inr (s, t2)" unfolding step using t'(1) by simp
    ultimately show ?thesis using t'(3) lf(2) by (auto simp: slot_found_def)
  qed (simp add: step del: newkey.simps)
qed

section \<open>Storing\<close>

text \<open>The four operations that find or make the slot of a key.\<close>

lemma get_or_newkey:
  assumes ok: "table_ok t" and k: "valid_key k"
  shows "(case table_slot t k of Some s \<Rightarrow> Inr (s, t) | None \<Rightarrow> newkey (Suc d) t k) = Inl (ErrRun ''table overflow'')
      \<and> crowded t
    \<or> (\<exists>s t'. (case table_slot t k of Some s \<Rightarrow> Inr (s, t) | None \<Rightarrow> newkey (Suc d) t k) = Inr (s, t') \<and> slot_found t k s t')"
proof (cases "table_slot t k")
  case None
  then show ?thesis using newkey_ok [OF ok k None, of d] by simp
next
  case (Some s)
  then show ?thesis using ok by (simp add: slot_found_def)
qed

lemma set_with_any:
  assumes ok: "table_ok t" and k: "valid_key k"
  shows "luaH_set_with (newkey (Suc d)) t k = Inl (ErrRun ''table overflow'') \<and> crowded t
    \<or> (\<exists>s t'. luaH_set_with (newkey (Suc d)) t k = Inr (s, t') \<and> slot_found t k s t')"
proof -
  have "luaH_set_with (newkey (Suc d)) t k = (case table_slot (t\<lparr>flags := 0\<rparr>) k of Some s \<Rightarrow> Inr (s, t\<lparr>flags := 0\<rparr>)
      | None \<Rightarrow> newkey (Suc d) (t\<lparr>flags := 0\<rparr>) k)"
    using k by (cases k) (auto simp: luaH_set_with_def luaH_get_eq [OF ok] valid_key_def split: option.split)
  with get_or_newkey [of "t\<lparr>flags := 0\<rparr>" k d] ok k show ?thesis
    by (auto simp: slot_found_def raw_get_flags)
qed

lemma luaH_set_valid:
  assumes ok: "table_ok t" and k: "valid_key k"
  shows "luaH_set t k = Inl (ErrRun ''table overflow'') \<or> (\<exists>s t'. luaH_set t k = Inr (s, t') \<and> slot_found t k s t')"
  using set_with_any [OF assms, of 0] by (auto simp: luaH_set_def simp del: newkey.simps)

lemma setnum_with_any:
  assumes ok: "table_ok t" and i: "- 2147483648 \<le> i" "i < 2147483648"
  shows "luaH_setnum_with (newkey (Suc d)) t i = Inl (ErrRun ''table overflow'') \<and> crowded t
    \<or> (\<exists>s t'. luaH_setnum_with (newkey (Suc d)) t i = Inr (s, t') \<and> slot_found t (LNumber (cast_num i)) s t')"
proof -
  have v: "valid_key (LNumber (cast_num i))"
    using cast_num_parts(3) [of i] i by (simp add: valid_key_def luai_numisnan_def luai_numeq_refl)
  have "luaH_setnum_with (newkey (Suc d)) t i = (case table_slot t (LNumber (cast_num i)) of Some s \<Rightarrow> Inr (s, t)
      | None \<Rightarrow> newkey (Suc d) t (LNumber (cast_num i)))"
    by (simp add: luaH_setnum_with_def luaH_getnum_eq [OF ok i] split: option.split)
  with get_or_newkey [OF ok v, of d] show ?thesis by simp
qed

lemma nan_slot: "luai_numisnan n \<Longrightarrow> table_slot t (LNumber n) = None"
proof -
  assume "luai_numisnan n"
  then have n: "\<not> luai_numeq m n" for m
    by (metis luai_numeq_sym luai_numeq_trans luai_numisnan_def)
  then have "\<not> holds (tnode t) i (LNumber n)" for i
    by (cases "i_key (tnode t ! i)") (auto simp: holds_def rawequal_cases)
  moreover have "\<not> in_array t (LNumber n)" using n by (simp add: in_array_def arrayindex_def)
  ultimately show ?thesis by (simp add: table_slot_def hslot_None)
qed

lemma luaH_set_invalid:
  assumes ok: "table_ok t"
  shows "luaH_set t LNil = Inl (ErrRun ''table index is nil'')"
    "luai_numisnan n \<Longrightarrow> luaH_set t (LNumber n) = Inl (ErrRun ''table index is NaN'')"
  using table_slot_nil [of t] by (simp_all add: luaH_set_def luaH_set_with_def luaH_get_eq [OF ok] nan_slot)

text \<open>A value is stored as \<open>lua_rawset\<close> does it.\<close>

definition rawset :: "Table \<Rightarrow> TValue \<Rightarrow> TValue \<Rightarrow> Table result" where
  "rawset t k v = bnd (luaH_set t k) (\<lambda>(s, t). Inr (set_slot t s v))"

lemma rawset_step:
  assumes "table_ok t"
  shows "case rawset t k v of
      Inr t' \<Rightarrow> valid_key k \<and> table_ok t'
        \<and> (\<forall>k'. raw_get t' k' = (if luaO_rawequalObj k k' then v else raw_get t k'))
    | Inl e \<Rightarrow> valid_key k \<and> e = ErrRun ''table overflow''
        \<or> k = LNil \<and> e = ErrRun ''table index is nil''
        \<or> (\<exists>n. k = LNumber n \<and> luai_numisnan n) \<and> e = ErrRun ''table index is NaN''"
proof (cases "valid_key k")
  case True
  from luaH_set_valid [OF assms True] show ?thesis
  proof (elim disjE exE conjE)
    fix s t' assume r: "luaH_set t k = Inr (s, t')" "slot_found t k s t'"
    from slot_found_store [OF r(2), of v] r(1) True show ?thesis by (simp add: rawset_def upd_def)
  qed (simp add: rawset_def True)
next
  case False
  then show ?thesis using luaH_set_invalid [OF assms] by (cases k) (auto simp: valid_key_def rawset_def)
qed

text \<open>
  C26: a table implements a map from keys, compared by raw equality, to values. Storing under a key
  that is neither nil nor NaN either makes the table too big, or leaves a well-formed table in
  which exactly the value of that key has changed, through collisions, chains that move, rehashes
  that carry entries between the two parts, and growth; one rehash is always enough to find room.
  For nil and NaN it is the error the code names.
\<close>

theorem rawset_implements_update:
  assumes "table_ok t"
  shows "case rawset t k v of
      Inr t' \<Rightarrow> valid_key k \<and> table_ok t'
        \<and> (\<forall>k'. raw_get t' k' = (if luaO_rawequalObj k k' then v else raw_get t k'))
    | Inl e \<Rightarrow> valid_key k \<and> e = ErrRun ''table overflow''
        \<or> k = LNil \<and> e = ErrRun ''table index is nil''
        \<or> (\<exists>n. k = LNumber n \<and> luai_numisnan n) \<and> e = ErrRun ''table index is NaN''"
  by (rule rawset_step [OF assms])

theorem rawset_implements_update_witness:
  "case rawset \<lparr>flags = 0, lsizenode = 0, metatable = None, tarray = [], tspare = [], tnode = [dummynode], isdummy = False, lastfree = 1\<rparr>
      (LBool 1) (LBool 0) of
      Inr t' \<Rightarrow> valid_key (LBool 1) \<and> table_ok t'
        \<and> (\<forall>k'. raw_get t' k' = (if luaO_rawequalObj (LBool 1) k' then LBool 0 else LNil))
    | Inl e \<Rightarrow> False"
proof -
  let ?t = "\<lparr>flags = 0, lsizenode = 0, metatable = None, tarray = [], tspare = [], tnode = [dummynode], isdummy = False, lastfree = 1\<rparr>"
  have ok: "fresh_hash ?t" "sizearray ?t \<le> MAXASIZE"
    by (auto simp: fresh_hash_def node_size_def MAXASIZE_def intro!: exI [of _ 0] exI [of _ 1])
  have "case rawset ?t (LBool 1) (LBool 0) of Inl _ \<Rightarrow> False | Inr _ \<Rightarrow> True" by code_simp
  then obtain t' where t': "rawset ?t (LBool 1) (LBool 0) = Inr t'" by (auto split: sum.splits)
  have "raw_get ?t k' = LNil" for k' unfolding fresh_raw_get [OF ok] by (auto simp: in_array_def)
  with rawset_implements_update [OF fresh_table_ok [OF ok], of "LBool 1" "LBool 0"]
  show ?thesis unfolding t' by simp
qed

text \<open>What a setter that returns \<open>r\<close> for the key \<open>k\<close> does, once a value is stored.\<close>

definition stores :: "Table \<Rightarrow> TValue \<Rightarrow> (slot \<times> Table) result \<Rightarrow> bool" where
  "stores t k r \<longleftrightarrow> (case r of
      Inl e \<Rightarrow> e = ErrRun ''table overflow''
    | Inr (s, t') \<Rightarrow> \<forall>v. table_ok (set_slot t' s v)
        \<and> (\<forall>k'. raw_get (set_slot t' s v) k' = (if luaO_rawequalObj k k' then v else raw_get t k')))"

lemma stores_intro:
  "r = Inl (ErrRun ''table overflow'') \<or> (\<exists>s t'. r = Inr (s, t') \<and> slot_found t k s t') \<Longrightarrow> stores t k r"
  using slot_found_store [of t k] by (auto simp: stores_def upd_def)

text \<open>
  C28: the setters for strings, wide strings and integers find or make the slot of their key, through
  which a value is stored as by \<open>luaH_set\<close>, or the table overflows; \<open>luaH_resizearray\<close> succeeds and
  keeps the contents when the array part grows, and when it shrinks and the hash part, whose size
  stays, has room for the elements that leave the array part.
\<close>

theorem setters_and_resize:
  assumes "table_ok t"
  shows "stores t (LString str) (luaH_setstr t str)
    \<and> stores t (LWString wstr) (luaH_setwstr t wstr)
    \<and> (- 2147483648 \<le> i \<and> i < 2147483648 \<longrightarrow> stores t (LNumber (cast_num i)) (luaH_setnum t i))
    \<and> (0 \<le> na \<and> na \<le> MAXASIZE
         \<and> (sizearray t \<le> na \<or> int (moved t na) \<le> (if isdummy t then 0 else sizenode t)) \<longrightarrow>
       (\<exists>t'. luaH_resizearray t na = Inr t' \<and> table_ok t' \<and> sizearray t' = na \<and> raw_get t' = raw_get t))"
proof (intro conjI impI)
  have "luaH_setstr t str = (case table_slot t (LString str) of Some s \<Rightarrow> Inr (s, t) | None \<Rightarrow> newkey (Suc 0) t (LString str))"
    by (simp add: luaH_setstr_def luaH_getstr_eq [OF assms] split: option.split)
  with get_or_newkey [OF assms, of "LString str" 0] show "stores t (LString str) (luaH_setstr t str)"
    by (intro stores_intro) (auto simp: valid_key_def simp del: newkey.simps)
  have "luaH_setwstr t wstr = (case table_slot t (LWString wstr) of Some s \<Rightarrow> Inr (s, t) | None \<Rightarrow> newkey (Suc 0) t (LWString wstr))"
    by (simp add: luaH_setwstr_def luaH_getwstr_eq [OF assms] split: option.split)
  with get_or_newkey [OF assms, of "LWString wstr" 0] show "stores t (LWString wstr) (luaH_setwstr t wstr)"
    by (intro stores_intro) (auto simp: valid_key_def simp del: newkey.simps)
next
  assume "- 2147483648 \<le> i \<and> i < 2147483648"
  then show "stores t (LNumber (cast_num i)) (luaH_setnum t i)"
    using setnum_with_any [OF assms, of i 0] by (intro stores_intro) (auto simp: luaH_setnum_def simp del: newkey.simps)
next
  assume na: "0 \<le> na \<and> na \<le> MAXASIZE
    \<and> (sizearray t \<le> na \<or> int (moved t na) \<le> (if isdummy t then 0 else sizenode t))"
  then have "int (moved t na) \<le> (if isdummy t then 0 else sizenode t)" using moved_grow [OF assms] by blast
  with resizearray_ok [OF assms] na
  show "\<exists>t'. luaH_resizearray t na = Inr t' \<and> table_ok t' \<and> sizearray t' = na \<and> raw_get t' = raw_get t"
    by blast
qed

theorem setters_and_resize_witness:
  "stores \<lparr>flags = 0, lsizenode = 0, metatable = None, tarray = [LBool 1, LBool 0], tspare = [], tnode = [dummynode], isdummy = False, lastfree = 1\<rparr> (LNumber (cast_num 2)) (luaH_setnum \<lparr>flags = 0, lsizenode = 0, metatable = None, tarray = [LBool 1, LBool 0], tspare = [], tnode = [dummynode], isdummy = False, lastfree = 1\<rparr> 2)
   \<and> (\<exists>t'. luaH_resizearray \<lparr>flags = 0, lsizenode = 0, metatable = None, tarray = [LBool 1, LBool 0], tspare = [], tnode = [dummynode], isdummy = False, lastfree = 1\<rparr> 4 = Inr t' \<and> raw_get t' = raw_get \<lparr>flags = 0, lsizenode = 0, metatable = None, tarray = [LBool 1, LBool 0], tspare = [], tnode = [dummynode], isdummy = False, lastfree = 1\<rparr>)"
proof -
  let ?t = "\<lparr>flags = 0, lsizenode = 0, metatable = None, tarray = [LBool 1, LBool 0], tspare = [], tnode = [dummynode], isdummy = False, lastfree = 1\<rparr>"
  have f: "fresh_hash ?t" "sizearray ?t \<le> MAXASIZE"
    by (auto simp: fresh_hash_def node_size_def MAXASIZE_def MAXBITS_def intro!: exI [of _ 0] exI [of _ 1])
  have "- 2147483648 \<le> (2::int) \<and> (2::int) < 2147483648" by simp
  moreover have "0 \<le> (4::int) \<and> (4::int) \<le> MAXASIZE \<and> (sizearray ?t \<le> 4 \<or> int (moved ?t 4) \<le> (if isdummy ?t then 0 else sizenode ?t))"
    by (simp add: MAXASIZE_def MAXBITS_def)
  ultimately show ?thesis using setters_and_resize [OF fresh_table_ok [OF f], of "[]" "[]" 2 4] by blast
qed

text \<open>
  C29: a table without a hash part whose first element is not nil cannot be emptied of its array part:
  storing that element in the hash part makes a rehash, which reallocates the array that
  \<open>luaH_resizearray\<close> is reading it from.
\<close>

lemma setnum_reallocates:
  "luaH_setnum_with (newkey 1) \<lparr>flags = f, lsizenode = 0, metatable = m, tarray = [], tspare = sp,
      tnode = [dummynode], isdummy = True, lastfree = 0\<rparr> 1
   = Inr (ArrSlot 0, \<lparr>flags = 0, lsizenode = 0, metatable = m, tarray = [LNil], tspare = [],
      tnode = [dummynode], isdummy = True, lastfree = 0\<rparr>)"
  by code_simp

theorem resizearray_frees_slice:
  assumes "isdummy t" and "tarray t = v # vs" and "v \<noteq> LNil"
  shows "luaH_resizearray t 0 = Inl OutOfBounds"
proof -
  define b where "b = \<lparr>flags = flags t, lsizenode = 0, metatable = metatable t, tarray = [],
    tspare = v # vs @ tspare t, tnode = [dummynode], isdummy = True, lastfree = 0\<rparr>"
  have "reinsert_array (newkey 1) (0 # is) b = Inl OutOfBounds" for "is"
    using setnum_reallocates [of "flags t" "metatable t" "v # vs @ tspare t"] assms(3)
    by (simp add: b_def array_block_def require_def del: newkey.simps One_nat_def)
  moreover have "[0..<nat (sizearray t)] = 0 # [1..<length (tarray t)]"
    using upt_conv_Cons [of 0 "length (tarray t)"] by (simp add: assms(2) nat_add_distrib del: upt_Suc)
  ultimately have "reinsert_array (newkey 1) [0..<nat (sizearray t)] b = Inl OutOfBounds"
    by (simp only:)
  moreover have "t\<lparr>tnode := [dummynode], isdummy := True, lsizenode := 0, lastfree := 0, tarray := [], tspare := v # vs @ tspare t\<rparr> = b"
    by (simp add: b_def)
  ultimately show ?thesis
    using assms by (simp add: luaH_resizearray_def resize_def resize_with_def Let_def setnodevector_def array_block_def
        del: newkey.simps One_nat_def upt_Suc reinsert_array.simps)
qed

theorem resizearray_frees_slice_witness:
  "luaH_resizearray \<lparr>flags = 0, lsizenode = 0, metatable = None, tarray = [LBool 1, LBool 0], tspare = [],
     tnode = [dummynode], isdummy = True, lastfree = 0\<rparr> 0 = Inl OutOfBounds"
  by (rule resizearray_frees_slice [of _ "LBool 1" "[LBool 0]"]) (simp, simp, rule TValue.distinct)

section \<open>Sequences of stores\<close>

text \<open>The contract of a map whose keys are compared by \<open>same\<close>, and what follows from it.\<close>

primrec put_seq :: "('t \<Rightarrow> 'k \<Rightarrow> 'v \<Rightarrow> 't result) \<Rightarrow> 't \<Rightarrow> ('k \<times> 'v) list \<Rightarrow> 't result" where
  "put_seq put t [] = Inr t"
| "put_seq put t (p # ps) = bnd (put t (fst p) (snd p)) (\<lambda>t. put_seq put t ps)"

primrec last_put :: "('k \<Rightarrow> 'k \<Rightarrow> bool) \<Rightarrow> ('k \<times> 'v) list \<Rightarrow> 'k \<Rightarrow> 'v \<Rightarrow> 'v" where
  "last_put same [] k d = d"
| "last_put same (p # ps) k d = last_put same ps k (if same (fst p) k then snd p else d)"

locale key_map =
  fixes ok :: "'t \<Rightarrow> bool" and get :: "'t \<Rightarrow> 'k \<Rightarrow> 'v" and put :: "'t \<Rightarrow> 'k \<Rightarrow> 'v \<Rightarrow> 't result"
    and same :: "'k \<Rightarrow> 'k \<Rightarrow> bool"
  assumes put_ok: "ok t \<Longrightarrow> put t k v = Inr t' \<Longrightarrow> ok t'"
    and put_get: "ok t \<Longrightarrow> put t k v = Inr t' \<Longrightarrow> get t' k' = (if same k k' then v else get t k')"
    and same_sym: "same k k' \<Longrightarrow> same k' k"
    and same_trans: "same k k' \<Longrightarrow> same k' k'' \<Longrightarrow> same k k''"
begin

lemma put_seq_ok: "ok t \<Longrightarrow> put_seq put t ps = Inr t' \<Longrightarrow> ok t' \<and> get t' k = last_put same ps k (get t k)"
proof (induction ps arbitrary: t)
  case (Cons p ps)
  then obtain t1 where t1: "put t (fst p) (snd p) = Inr t1" "put_seq put t1 ps = Inr t'"
    by (auto simp: bnd_eq_Inr)
  from Cons.IH [OF put_ok [OF Cons.prems(1) t1(1)] t1(2)] put_get [OF Cons.prems(1) t1(1), of k] show ?case by simp
qed simp

lemma put_twice:
  assumes "ok t" "put_seq put t [(k, v), (k', w)] = Inr t1" "put_seq put t [(k', w), (k, v)] = Inr t2" "\<not> same k k'"
  shows "get t1 = get t2"
proof
  fix a
  have "\<not> (same k a \<and> same k' a)" using assms(4) same_sym same_trans by blast
  then show "get t1 a = get t2 a"
    using put_seq_ok [OF assms(1,2), of a] put_seq_ok [OF assms(1,3), of a] by auto
qed

end

interpretation tables: key_map table_ok raw_get rawset luaO_rawequalObj
proof
  fix t k v t' assume "table_ok t" "rawset t k v = Inr t'"
  with rawset_step [OF \<open>table_ok t\<close>, of k v] show "table_ok t'" "raw_get t' k' = (if luaO_rawequalObj k k' then v else raw_get t k')" for k'
    by simp_all
qed (fact rawequal_sym rawequal_trans)+

lemma luaH_new_ok:
  assumes "0 \<le> narray" "narray \<le> MAXASIZE" "0 \<le> nhash" "nhash < 2147483648"
  shows "luaH_new narray nhash = Inl (ErrRun ''table overflow'')
    \<or> (\<exists>t. luaH_new narray nhash = Inr t \<and> table_ok t \<and> metatable t = None \<and> (\<forall>k. raw_get t k = LNil)
        \<and> sizearray t = narray \<and> nhash \<le> int (capacity t))"
proof -
  let ?t = "\<lparr>flags = - 1, lsizenode = 0, metatable = None, tarray = [], tspare = [], tnode = [dummynode], isdummy = True, lastfree = 0\<rparr>"
  let ?a = "?t\<lparr>tarray := replicate (nat narray) LNil\<rparr>"
  have eq: "luaH_new narray nhash = setnodevector ?a nhash"
    by (simp add: luaH_new_def setarrayvector_eq [OF assms(1,2)])
  from setnodevector_ok [OF assms(3,4), of ?a] show ?thesis unfolding eq
  proof (elim disjE exE conjE)
    fix t assume t: "setnodevector ?a nhash = Inr t" "array_block t = array_block ?a" "tarray t = tarray ?a" "fresh_hash t" "nhash \<le> int (capacity t)" "metatable t = metatable ?a"
    have sz: "sizearray t = narray" using t(3) assms(1) by simp
    have g: "raw_get t k = LNil" for k
      using t(3) sz unfolding fresh_raw_get [OF t(4), unfolded sz, OF assms(2)] by (auto simp: in_array_def)
    have "table_ok t" using fresh_table_ok [OF t(4)] sz assms(2) by simp
    with t(1,5,6) g sz show "setnodevector ?a nhash = Inl (ErrRun ''table overflow'') \<or> (\<exists>t. setnodevector ?a nhash = Inr t
      \<and> table_ok t \<and> metatable t = None \<and> (\<forall>k. raw_get t k = LNil) \<and> sizearray t = narray \<and> nhash \<le> int (capacity t))" by simp
  qed simp
qed

text \<open>
  C27: after \<open>luaH_new\<close> and any sequence of stores that succeeds, in whatever order keys came and
  whatever rehashes they caused, the value read for a key is the one stored last under an equal
  key, and nil if there is none; the table is well formed.
\<close>

theorem table_holds_last_values:
  assumes "luaH_new narray nhash = Inr t0" "0 \<le> narray" "narray \<le> MAXASIZE" "0 \<le> nhash"
    and "put_seq rawset t0 ps = Inr t" and "nhash < 2147483648"
  shows "table_ok t \<and> raw_get t k = last_put luaO_rawequalObj ps k LNil"
  using luaH_new_ok [OF assms(2,3,4,6)] tables.put_seq_ok [OF _ assms(5), of k] assms(1) by auto

theorem table_holds_last_values_witness:
  "\<exists>t. put_seq rawset \<lparr>flags = - 1, lsizenode = 0, metatable = None, tarray = [], tspare = [],
      tnode = [dummynode], isdummy = False, lastfree = 1\<rparr>
      [(LBool 1, LBool 0), (LBool 0, LBool 1), (LBool 1, LBool 1)] = Inr t
    \<and> table_ok t \<and> raw_get t (LBool 1) = LBool 1"
proof -
  let ?t0 = "\<lparr>flags = - 1, lsizenode = 0, metatable = None, tarray = [], tspare = [], tnode = [dummynode], isdummy = False, lastfree = 1\<rparr>"
  let ?ps = "[(LBool 1, LBool 0), (LBool 0, LBool 1), (LBool 1, LBool 1)]"
  have t0: "luaH_new 0 1 = Inr ?t0"
  proof -
    have "luaM_reallocv 1 sizeof_Node = Inr ()" by (simp add: luaM_reallocv_Inr sizeof_Node_def MAX_SIZET_def)
    moreover have "setarrayvector t 0 = Inr (t\<lparr>tarray := take (nat 0) (tarray t) @ replicate (nat (0 - sizearray t)) LNil, tspare := []\<rparr>)" for t
      by (rule setarrayvector_eq) (simp_all add: MAXASIZE_def)
    ultimately show ?thesis
      by (simp add: luaH_new_def setnodevector_def ceillog2_1 MAXBITS_def twoto_def c_uint_def cast_byte_def)
  qed
  have "case put_seq rawset ?t0 ?ps of Inl _ \<Rightarrow> False | Inr _ \<Rightarrow> True" by code_simp
  then obtain t where t: "put_seq rawset ?t0 ?ps = Inr t" by (auto split: sum.splits)
  have e: "last_put luaO_rawequalObj ?ps (LBool 1) LNil = LBool 1" by code_simp
  from table_holds_last_values [OF t0 _ _ _ t, of "LBool 1"] show ?thesis
    using t unfolding e by (simp add: MAXASIZE_def)
qed

end
