(* ===== verification/TableScan.thy ===== *)
theory TableScan
  imports TableMap
begin

text \<open>
  The length operator finds a border of the table, and \<open>next\<close> goes through its entries.
\<close>

section \<open>The length operator\<close>

definition num_at :: "Table \<Rightarrow> int \<Rightarrow> TValue" where
  "num_at t i = raw_get t (LNumber (cast_num i))"

lemma num_at_array:
  assumes "table_ok t" "1 \<le> i" "i \<le> sizearray t"
  shows "num_at t i = tarray t ! nat (i - 1)"
proof -
  have "arrayindex (LNumber (cast_num i)) = i"
    using table_sizes(2) [OF assms(1)] assms(2,3) by (intro arrayindex_int) simp_all
  with assms show ?thesis by (simp add: num_at_def raw_get_eq [OF assms(1)] in_array_def)
qed

lemma raw_get_slot: "table_ok t \<Longrightarrow> raw_get t k = (case table_slot t k of None \<Rightarrow> LNil | Some s \<Rightarrow> slot_value t s)"
  by (simp add: raw_get_def luaH_get_eq split: option.split)

lemma c_int_unat: "unat (j :: u32) \<le> 2147483647 \<Longrightarrow> c_int j = int (unat j)"
proof -
  assume "unat j \<le> 2147483647"
  then have "int (unat j) < 2147483648" "- 2147483648 \<le> int (unat j)" by linarith+
  then have "c_int (c_uint (int (unat j))) = int (unat j)" by (intro c_int_c_uint)
  moreover have "c_uint (int (unat j)) = j" by (simp add: c_uint_def)
  ultimately show ?thesis by simp
qed

lemma is_nil_at_eq:
  assumes "table_ok t" "unat j \<le> 2147483647"
  shows "is_nil_at t j = Inr (num_at t (int (unat j)) = LNil)"
proof -
  have r: "- 2147483648 \<le> int (unat j)" "int (unat j) < 2147483648" using assms(2) by linarith+
  have "luaH_getnum t (c_int j) = Inr (table_slot t (LNumber (cast_num (int (unat j)))))"
    unfolding c_int_unat [OF assms(2)] by (rule luaH_getnum_eq [OF assms(1) r])
  then show ?thesis
    unfolding is_nil_at_def num_at_def raw_get_slot [OF assms(1)] by (simp split: option.split)
qed

lemma binary_search_ok:
  assumes abs: "\<And>m. i0 < unat m \<Longrightarrow> unat m < j0 \<Longrightarrow> absent m = Inr (P (unat m))"
  shows "i0 \<le> unat i \<Longrightarrow> unat i < unat j \<Longrightarrow> unat j \<le> j0 \<Longrightarrow> unat j \<le> 2147483648 \<Longrightarrow> P (unat j) \<Longrightarrow>
    unat i = i0 \<or> \<not> P (unat i) \<Longrightarrow> unat j - unat i \<le> 2 ^ k \<Longrightarrow>
    \<exists>r. binary_search (Suc k) absent i j = Inr r \<and> unat i \<le> unat r \<and> unat r < unat j
      \<and> (unat r = i0 \<or> \<not> P (unat r)) \<and> P (unat r + 1)"
proof (induction k arbitrary: i j)
  case 0
  then have "unat j = unat i + 1" by simp
  then have "unat (j - i) = 1" by (simp add: unat_sub word_le_nat_alt)
  then have "j - i = 1" by (metis unsigned_1 word_unat_eq_iff)
  with 0 \<open>unat j = unat i + 1\<close> show ?case by auto
next
  case (Suc k)
  have d: "unat (j - i) = unat j - unat i" using Suc.prems(2) by (simp add: unat_sub word_le_nat_alt)
  show ?case
  proof (cases "j - i > 1")
    case False
    then have "unat j = unat i + 1" using d Suc.prems(2) by (simp add: word_less_nat_alt)
    with False Suc.prems show ?thesis by auto
  next
    case True
    then have d2: "unat j - unat i > 1" using d by (simp add: word_less_nat_alt)
    let ?m = "(i + j) div 2"
    have m: "unat ?m = (unat i + unat j) div 2"
      using Suc.prems(2,4) by (simp add: unat_div unat_word_ariths)
    have r: "unat i < unat ?m" "unat ?m < unat j" using d2 m by auto
    have am: "absent ?m = Inr (P (unat ?m))" using r Suc.prems by (intro abs) auto
    have eq: "binary_search (Suc (Suc k)) absent i j
      = (if P (unat ?m) then binary_search (Suc k) absent i ?m else binary_search (Suc k) absent ?m j)"
      using True am by (subst binary_search.simps) (simp add: Let_def del: binary_search.simps)
    have h: "unat ?m - unat i \<le> 2 ^ k" "unat j - unat ?m \<le> 2 ^ k" using Suc.prems(7) m by auto
    show ?thesis
    proof (cases "P (unat ?m)")
      case True
      from Suc.IH [of i ?m, OF Suc.prems(1) r(1) _ _ True Suc.prems(6) h(1)] r Suc.prems(3,4) eq True
      show ?thesis by (auto simp del: binary_search.simps)
    next
      case False
      from Suc.IH [of ?m j, OF _ r(2) Suc.prems(3,4,5) _ h(2)] r Suc.prems(1) eq False
      show ?thesis by (auto simp del: binary_search.simps)
    qed
  qed
qed

lemma double_search_ok:
  assumes ok: "table_ok t"
  shows "unat i < unat j \<Longrightarrow> unat j \<le> 2147483645 \<Longrightarrow> 2147483646 \<le> unat j * 2 ^ k \<Longrightarrow>
    unat i = 0 \<or> num_at t (int (unat i)) \<noteq> LNil \<Longrightarrow>
    double_search k t i j = Inr None
    \<or> (\<exists>i' j'. double_search k t i j = Inr (Some (i', j')) \<and> unat i' < unat j' \<and> unat j' \<le> 2147483645
        \<and> (unat i' = 0 \<or> num_at t (int (unat i')) \<noteq> LNil) \<and> num_at t (int (unat j')) = LNil)"
proof (induction k arbitrary: i j)
  case (Suc k)
  have m: "unat (c_uint MAX_INT) = 2147483645" by (simp add: c_uint_def MAX_INT_def INT_MAX_def)
  have d: "unat (j * 2) = unat j * 2" using Suc.prems(2) by (simp add: unat_word_ariths)
  have le: "j * 2 > c_uint MAX_INT \<longleftrightarrow> unat j * 2 > 2147483645"
    unfolding word_less_nat_alt m d ..
  have "is_nil_at t j = Inr (num_at t (int (unat j)) = LNil)" using Suc.prems(2) by (intro is_nil_at_eq [OF ok]) simp
  then have st: "double_search (Suc k) t i j = (if num_at t (int (unat j)) = LNil then Inr (Some (i, j))
      else if unat j * 2 > 2147483645 then Inr None else double_search k t j (j * 2))"
    unfolding double_search.simps le by (simp only: bnd_Inr)
  consider "num_at t (int (unat j)) = LNil" | "num_at t (int (unat j)) \<noteq> LNil" "unat j * 2 > 2147483645"
    | "num_at t (int (unat j)) \<noteq> LNil" "\<not> unat j * 2 > 2147483645" by blast
  then show ?case
  proof cases
    case 1
    then have "double_search (Suc k) t i j = Inr (Some (i, j))" unfolding st by (simp only: if_True simp_thms)
    with 1 Suc.prems show ?thesis by blast
  next
    case 2
    then have "double_search (Suc k) t i j = Inr None" unfolding st by (simp only: if_True if_False)
    then show ?thesis by blast
  next
    case 3
    have "unat j < unat (j * 2)" "unat (j * 2) \<le> 2147483645" "2147483646 \<le> unat (j * 2) * 2 ^ k"
      using 3 Suc.prems d by simp_all
    from Suc.IH [OF this] 3 have "double_search k t j (j * 2) = Inr None
      \<or> (\<exists>i' j'. double_search k t j (j * 2) = Inr (Some (i', j')) \<and> unat i' < unat j' \<and> unat j' \<le> 2147483645
        \<and> (unat i' = 0 \<or> num_at t (int (unat i')) \<noteq> LNil) \<and> num_at t (int (unat j')) = LNil)" by blast
    moreover have "double_search (Suc k) t i j = double_search k t j (j * 2)" using 3 unfolding st by (simp only: if_False)
    ultimately show ?thesis by (simp only:)
  qed
qed simp

text \<open>Present integer keys have different slots, so there are not more of them than slots.\<close>

lemma table_slot_in_table:
  assumes "table_ok t" "table_slot t k = Some s"
  shows "s \<in> ArrSlot ` {..<length (tarray t)} \<union> NodeSlot ` {..<length (tnode t)}"
proof (cases "in_array t k")
  case True
  then have "nat (arrayindex k - 1) < length (tarray t)" unfolding in_array_def by linarith
  with True assms(2) show ?thesis by (auto simp: table_slot_def)
next
  case False
  then obtain n where "s = NodeSlot n" "hslot (tnode t) k = Some n" using assms(2) by (auto simp: table_slot_def)
  moreover from this have "holds (tnode t) n k" using table_ok_one_key [OF assms(1)] by (simp add: hslot_Some)
  ultimately show ?thesis by (auto simp: holds_def)
qed

lemma table_slot_inject:
  assumes "table_ok t" "table_slot t k = Some s" "table_slot t k' = Some s"
  shows "luaO_rawequalObj k k'"
proof (cases "in_array t k")
  case True
  then have s: "s = ArrSlot (nat (arrayindex k - 1))" "1 \<le> arrayindex k" using assms(2) by (auto simp: table_slot_def in_array_def)
  then have "in_array t k'" using assms(3) by (auto simp: table_slot_def split: if_split_asm)
  then have "s = ArrSlot (nat (arrayindex k' - 1))" "1 \<le> arrayindex k'" using assms(3) by (auto simp: table_slot_def in_array_def)
  with s have "arrayindex k' = arrayindex k" by simp
  then show ?thesis using in_array_rawequal s(2) by blast
next
  case False
  then obtain n where n: "s = NodeSlot n" "hslot (tnode t) k = Some n" using assms(2) by (auto simp: table_slot_def)
  with assms(3) have "hslot (tnode t) k' = Some n" by (auto simp: table_slot_def split: if_split_asm)
  with n have "holds (tnode t) n k" "holds (tnode t) n k'" using table_ok_one_key [OF assms(1)] by (simp_all add: hslot_Some)
  then show ?thesis by (auto simp: holds_def dest: rawequal_sym rawequal_trans)
qed

lemma present_le:
  assumes ok: "table_ok t" and m: "m < 2147483648" and pres: "\<And>i. 1 \<le> i \<Longrightarrow> i \<le> m \<Longrightarrow> num_at t (int i) \<noteq> LNil"
  shows "m \<le> length (tarray t) + length (tnode t)"
proof -
  let ?f = "\<lambda>i. the (table_slot t (LNumber (cast_num (int i))))"
  let ?S = "ArrSlot ` {..<length (tarray t)} \<union> NodeSlot ` {..<length (tnode t)}"
  have some: "table_slot t (LNumber (cast_num (int i))) = Some (?f i)" if "i \<in> {1..m}" for i
    using pres [of i] that by (auto simp: num_at_def raw_get_slot [OF ok] split: option.splits)
  have inj: "inj_on ?f {1..m}"
  proof (rule inj_onI)
    fix i j assume ij: "i \<in> {1..m}" "j \<in> {1..m}" "?f i = ?f j"
    have "luaO_rawequalObj (LNumber (cast_num (int i))) (LNumber (cast_num (int j)))"
    proof (rule table_slot_inject [OF ok some [OF ij(1)]])
      show "table_slot t (LNumber (cast_num (int j))) = Some (?f i)" unfolding ij(3) by (rule some [OF ij(2)])
    qed
    then have "luai_numeq (cast_num (int i)) (cast_num (int j))" by (simp add: rawequal_cases)
    moreover have "\<bar>int i\<bar> < 2 ^ 53" "\<bar>int j\<bar> < 2 ^ 53" using ij(1,2) m by simp_all
    ultimately have "int i = int j" by (rule numeq_cast_num [THEN iffD1, rotated 2])
    then show "i = j" by simp
  qed
  have "card {1..m} = card (?f ` {1..m})" by (rule card_image [OF inj, symmetric])
  also have "\<dots> \<le> card ?S"
  proof (rule card_mono)
    show "?f ` {1..m} \<subseteq> ?S" using table_slot_in_table [OF ok some] by blast
  qed simp
  also have "\<dots> \<le> card (ArrSlot ` {..<length (tarray t)}) + card (NodeSlot ` {..<length (tnode t)})" by (rule card_Un_le)
  also have "\<dots> \<le> length (tarray t) + length (tnode t)"
    by (rule add_mono) (metis card_image_le card_lessThan finite_lessThan)+
  finally show ?thesis by simp
qed

lemma linear_search_ok:
  assumes ok: "table_ok t"
  shows "length (tarray t) + length (tnode t) + 1 \<le> k + unat i - 1 \<Longrightarrow> 1 \<le> unat i \<Longrightarrow> unat i \<le> 2147483647 \<Longrightarrow>
    (\<And>m. 1 \<le> m \<Longrightarrow> m < unat i \<Longrightarrow> num_at t (int m) \<noteq> LNil) \<Longrightarrow>
    \<exists>r. linear_search k t i = Inr r \<and> unat r \<le> 2147483646 \<and> (unat r = 0 \<or> num_at t (int (unat r)) \<noteq> LNil)
      \<and> num_at t (int (unat r + 1)) = LNil"
proof (induction k arbitrary: i)
  case 0
  from present_le [OF ok, of "unat i - 1"] 0 have "unat i - 1 \<le> length (tarray t) + length (tnode t)" by force
  with 0 show ?case by simp
next
  case (Suc k)
  have st: "linear_search (Suc k) t i = (if num_at t (int (unat i)) = LNil then Inr (i - 1) else linear_search k t (i + 1))"
    unfolding linear_search.simps is_nil_at_eq [OF ok Suc.prems(3)] by (simp only: bnd_Inr)
  show ?case
  proof (cases "num_at t (int (unat i)) = LNil")
    case True
    have "unat (i - 1) = unat i - 1" using Suc.prems(2) by (simp add: unat_sub word_le_nat_alt)
    moreover have "linear_search (Suc k) t i = Inr (i - 1)" using True unfolding st by (simp only: if_True simp_thms)
    moreover have "unat i - 1 = 0 \<or> num_at t (int (unat i - 1)) \<noteq> LNil"
      using Suc.prems(4) [of "unat i - 1"] by (cases "unat i = 1") auto
    ultimately show ?thesis using True Suc.prems(2,3) by (intro exI [of _ "i - 1"]) auto
  next
    case False
    have pres: "num_at t (int m) \<noteq> LNil" if "1 \<le> m" "m < unat i + 1" for m
      using Suc.prems(4) [OF that(1)] that(2) False by (cases "m = unat i") auto
    have "unat i \<le> length (tarray t) + length (tnode t)"
      by (rule present_le [OF ok]) (use Suc.prems(3) pres in auto)
    then have u: "unat i < 2147483647" using table_sizes(1,2) [OF ok] by linarith
    then have "unat (i + 1) = unat i + 1" by (simp add: unat_word_ariths)
    with Suc.IH [of "i + 1"] Suc.prems(1) u pres st False show ?thesis by (simp del: linear_search.simps)
  qed
qed

lemma getn_finds_border:
  assumes ok: "table_ok t"
  shows "\<exists>n. luaH_getn t = Inr n \<and> 0 \<le> n \<and> (n = 0 \<or> num_at t n \<noteq> LNil) \<and> num_at t (n + 1) = LNil"
proof -
  define j where "j = c_uint (sizearray t)"
  note sz = table_sizes [OF ok]
  have uj: "unat j = length (tarray t)" using sz(2) by (simp add: j_def c_uint_def unat_of_nat)
  have fin: ?thesis if "luaH_getn t = Inr (c_int r)" "unat r \<le> 2147483646" "unat r = 0 \<or> num_at t (int (unat r)) \<noteq> LNil"
    "num_at t (int (unat r) + 1) = LNil" for r
  proof -
    have c: "c_int r = int (unat r)" using that(2) by (intro c_int_unat) simp
    have "int (unat r) = 0 \<or> num_at t (int (unat r)) \<noteq> LNil" using that(3) by (cases "unat r = 0") simp_all
    with that(1,4) show ?thesis unfolding c using of_nat_0_le_iff by blast
  qed
  have fuel: "32 = Suc 31" by simp
  have last: "num_at t (int (unat j)) = tarray t ! (unat j - 1)" if "unat j \<noteq> 0"
  proof -
    have "1 \<le> int (unat j)" "int (unat j) \<le> sizearray t" "nat (int (unat j) - 1) = unat j - 1" using that uj by linarith+
    with num_at_array [OF ok this(1,2)] show ?thesis by (simp only:)
  qed
  consider (arr) "j > 0" "tarray t ! (unat j - 1) = LNil"
    | (dummy) "\<not> (j > 0 \<and> tarray t ! (unat j - 1) = LNil)" "isdummy t"
    | (hash) "\<not> (j > 0 \<and> tarray t ! (unat j - 1) = LNil)" "\<not> isdummy t" by blast
  then show ?thesis
  proof cases
    case arr
    let ?P = "\<lambda>m. num_at t (int m) = LNil"
    have jp: "0 < unat j" using arr(1) by (simp add: word_less_nat_alt)
    have at: "num_at t (int m) = tarray t ! (m - 1)" if "0 < m" "m \<le> unat j" for m
    proof -
      have "nat (int m - 1) = m - 1" using that(1) by simp
      then show ?thesis using num_at_array [OF ok, of "int m"] that uj by simp
    qed
    let ?abs = "\<lambda>m :: u32. Inr (ttisnil (tarray t ! (unat m - 1))) :: bool result"
    have "\<exists>r. binary_search (Suc 31) ?abs 0 j = Inr r \<and> unat (0 :: u32) \<le> unat r \<and> unat r < unat j
      \<and> (unat r = 0 \<or> \<not> ?P (unat r)) \<and> ?P (unat r + 1)"
    proof -
      have a: "?abs m = Inr (?P (unat m))" if "0 < unat m" "unat m < unat j" for m
        using at [of "unat m"] that by (simp only: ttis_simps)
      have p: "?P (unat j)" using at [OF jp le_refl] arr(2) by (simp only:)
      show ?thesis
      proof (rule binary_search_ok [where ?i0.0 = 0 and ?j0.0 = "unat j" and P = "?P", OF a])
        show "0 \<le> unat (0 :: u32)" "unat (0 :: u32) = 0 \<or> \<not> ?P (unat (0 :: u32))" "unat (0 :: u32) < unat j"
          using jp by simp_all
        show "unat j \<le> unat j" "?P (unat j)" by (rule order_refl, rule p)
        have "unat j \<le> 67108864" using sz(2) uj by simp
        then show "unat j \<le> 2147483648" "unat j - unat (0 :: u32) \<le> 2 ^ 31" by simp_all
      qed
    qed
    then obtain r where r: "binary_search (Suc 31) ?abs 0 j = Inr r"
      "unat r < unat j" "unat r = 0 \<or> \<not> ?P (unat r)" "?P (unat r + 1)" by blast
    have "luaH_getn t = Inr (c_int r)" using arr r(1) unfolding luaH_getn_def Let_def j_def [symmetric] fuel
      by (simp del: binary_search.simps)
    from fin [OF this] r(2-4) sz(2) uj show ?thesis by (simp add: add.commute)
  next
    case dummy
    have g: "luaH_getn t = Inr (c_int j)" using dummy unfolding luaH_getn_def Let_def j_def [symmetric] by auto
    have "num_at t (int (unat j)) \<noteq> LNil" if "unat j \<noteq> 0"
      using last [OF that] dummy(1) that by (simp only: word_less_nat_alt) simp
    moreover have "num_at t (int (unat j) + 1) = LNil"
    proof -
      have "\<not> in_array t (LNumber (cast_num (int (unat j) + 1)))"
        using arrayindex_int [of "int (unat j) + 1"] uj sz(2) by (simp add: in_array_def)
      moreover have "hval (tnode t) k = LNil" for k
      proof -
        have "tnode t = [dummynode]" using ok dummy(2) by (simp add: table_ok_def)
        then have "hslot (tnode t) k = None" by (auto simp: hslot_None holds_def dummynode_def)
        then show ?thesis by (simp add: hval_def)
      qed
      ultimately show ?thesis by (simp add: num_at_def raw_get_eq [OF ok])
    qed
    ultimately show ?thesis using fin [OF g] uj sz(2) by auto
  next
    case hash
    have g: "luaH_getn t = bnd (unbound_search t j) (\<lambda>r. Inr (c_int r))"
      using hash unfolding luaH_getn_def Let_def j_def [symmetric] by auto
    have uj1: "unat (j + 1) = unat j + 1" using uj sz(2) by (simp add: unat_word_ariths)
    have pj: "unat j = 0 \<or> num_at t (int (unat j)) \<noteq> LNil"
    proof (rule disjCI)
      assume "\<not> num_at t (int (unat j)) \<noteq> LNil"
      with last hash(1) show "unat j = 0" by (cases "unat j = 0") (simp_all only: word_less_nat_alt, simp)
    qed
    have "unat (j + 1) \<le> 2147483645" "2147483646 \<le> unat (j + 1) * 2 ^ 32" using uj1 uj sz(2) by simp_all
    from double_search_ok [OF ok _ this pj] uj1 consider
      (none) "double_search 32 t j (j + 1) = Inr None"
      | (some) i' j' where "double_search 32 t j (j + 1) = Inr (Some (i', j'))" "unat i' < unat j'" "unat j' \<le> 2147483645"
        "unat i' = 0 \<or> num_at t (int (unat i')) \<noteq> LNil" "num_at t (int (unat j')) = LNil"
      by (metis less_add_one)
    then show ?thesis
    proof cases
      case none
      obtain r where r: "linear_search (length (tarray t) + length (tnode t) + 1) t 1 = Inr r" "unat r \<le> 2147483646"
        "unat r = 0 \<or> num_at t (int (unat r)) \<noteq> LNil" "num_at t (int (unat r + 1)) = LNil"
        using linear_search_ok [OF ok, of "length (tarray t) + length (tnode t) + 1" 1] by auto
      from none r(1) have "luaH_getn t = Inr (c_int r)" by (simp add: g unbound_search_def)
      from fin [OF this] r(2-4) show ?thesis by (simp add: add.commute)
    next
      case some
      let ?P = "\<lambda>m. num_at t (int m) = LNil"
      have "\<exists>r. binary_search (Suc 31) (is_nil_at t) i' j' = Inr r \<and> unat i' \<le> unat r \<and> unat r < unat j'
        \<and> (unat r = unat i' \<or> \<not> ?P (unat r)) \<and> ?P (unat r + 1)"
      proof (rule binary_search_ok [where ?i0.0 = "unat i'" and ?j0.0 = "unat j'" and P = "?P"])
        show "is_nil_at t m = Inr (?P (unat m))" if "unat m < unat j'" for m
          using that some(3) by (intro is_nil_at_eq [OF ok]) simp
        show "unat j' \<le> 2147483648" "unat j' - unat i' \<le> 2 ^ 31" using some(3) by simp_all
      qed (use some in \<open>simp_all only: order_refl simp_thms\<close>)
      then obtain r where r: "binary_search 32 (is_nil_at t) i' j' = Inr r" "unat r < unat j'"
        "unat r = unat i' \<or> \<not> ?P (unat r)" "?P (unat r + 1)" unfolding fuel by blast
      have "luaH_getn t = Inr (c_int r)" unfolding g unbound_search_def some(1) by (simp add: r(1) del: binary_search.simps)
      moreover have "unat r = 0 \<or> num_at t (int (unat r)) \<noteq> LNil" using r(3) some(4) by metis
      moreover have "unat r \<le> 2147483646" using r(2) some(3) by linarith
      moreover have "num_at t (int (unat r) + 1) = LNil" using r(4) by (simp add: add.commute)
      ultimately show ?thesis by (intro fin)
    qed
  qed
qed

text \<open>
  C30: the length of a table is a border: the value at the result is not nil, unless the result is 0,
  and the value after it is nil. The doubling, linear and binary searches end.
\<close>

theorem getn_border:
  assumes ok: "table_ok t"
  shows "\<exists>n. luaH_getn t = Inr n \<and> 0 \<le> n \<and> (n = 0 \<or> num_at t n \<noteq> LNil) \<and> num_at t (n + 1) = LNil"
  using assms by (rule getn_finds_border)

theorem getn_border_witness:
  "\<exists>n. luaH_getn \<lparr>flags = 0, lsizenode = 0, metatable = None, tarray = [LBool 1, LNil, LBool 0, LNil], tspare = [], tnode = [dummynode],
      isdummy = True, lastfree = 0\<rparr> = Inr n \<and> n \<noteq> 2"
proof -
  let ?t = "\<lparr>flags = 0, lsizenode = 0, metatable = None, tarray = [LBool 1, LNil, LBool 0, LNil], tspare = [], tnode = [dummynode],
      isdummy = True, lastfree = 0\<rparr>"
  have f: "fresh_hash ?t" "sizearray ?t \<le> MAXASIZE"
    by (auto simp: fresh_hash_def node_size_def MAXASIZE_def MAXBITS_def intro!: exI [of _ 0])
  note ok = fresh_table_ok [OF f]
  from getn_border [OF ok] obtain n where n: "luaH_getn ?t = Inr n" "n = 0 \<or> num_at ?t n \<noteq> LNil" by blast
  have "num_at ?t 2 = LNil" using num_at_array [OF ok, of 2] by simp
  with n show ?thesis by auto
qed

section \<open>Traversal\<close>

text \<open>The positions of a table, those of the array part first, and the entries with a value.\<close>

definition key_at :: "Table \<Rightarrow> nat \<Rightarrow> TValue" where
  "key_at t p = (if p < length (tarray t) then LNumber (cast_num (int p + 1)) else i_key (tnode t ! (p - length (tarray t))))"

definition val_at :: "Table \<Rightarrow> nat \<Rightarrow> TValue" where
  "val_at t p = (if p < length (tarray t) then tarray t ! p else i_val (tnode t ! (p - length (tarray t))))"

definition slot_at :: "Table \<Rightarrow> nat \<Rightarrow> slot" where
  "slot_at t p = (if p < length (tarray t) then ArrSlot p else NodeSlot (p - length (tarray t)))"

definition full_from :: "Table \<Rightarrow> nat \<Rightarrow> nat list" where
  "full_from t p = filter (\<lambda>p. val_at t p \<noteq> LNil) [p..<length (tarray t) + length (tnode t)]"

definition table_entries :: "Table \<Rightarrow> (TValue \<times> TValue) list" where
  "table_entries t = map (\<lambda>p. (key_at t p, val_at t p)) (full_from t 0)"

definition nth_entry :: "(TValue \<times> TValue) list \<Rightarrow> nat \<Rightarrow> (TValue \<times> TValue) option" where
  "nth_entry es i = (if i < length es then Some (es ! i) else None)"

definition first_entry :: "Table \<Rightarrow> nat list \<Rightarrow> (TValue \<times> TValue) option" where
  "first_entry t ps = (case ps of [] \<Rightarrow> None | p # _ \<Rightarrow> Some (key_at t p, val_at t p))"

lemma full_from_step:
  "p < length (tarray t) + length (tnode t) \<Longrightarrow> full_from t p = (if val_at t p \<noteq> LNil then [p] else []) @ full_from t (Suc p)"
  by (simp add: full_from_def upt_conv_Cons)

lemma next_node_from:
  "n \<le> length (tnode t) \<Longrightarrow> next_node (drop n (tnode t)) = first_entry t (full_from t (length (tarray t) + n))"
proof (induction rule: inc_induct)
  case base
  then show ?case by (simp add: full_from_def first_entry_def)
next
  case (step n)
  have "drop n (tnode t) = tnode t ! n # drop (Suc n) (tnode t)" using step.hyps by (simp add: Cons_nth_drop_Suc)
  moreover have "val_at t (length (tarray t) + n) = i_val (tnode t ! n)" "key_at t (length (tarray t) + n) = i_key (tnode t ! n)"
    by (simp_all add: val_at_def key_at_def)
  ultimately show ?case using step by (simp add: full_from_step first_entry_def)
qed

lemma next_array_from:
  "p \<le> length (tarray t) \<Longrightarrow>
   (case next_array (int p) (drop p (tarray t)) of Some (i, v) \<Rightarrow> Some (LNumber (cast_num (i + 1)), v) | None \<Rightarrow> next_node (tnode t))
     = first_entry t (full_from t p)"
proof (induction rule: inc_induct)
  case base
  then show ?case using next_node_from [of 0 t] by simp
next
  case (step p)
  have "drop p (tarray t) = tarray t ! p # drop (Suc p) (tarray t)" using step.hyps by (simp add: Cons_nth_drop_Suc)
  moreover have "val_at t p = tarray t ! p" "key_at t p = LNumber (cast_num (int p + 1))"
    using step.hyps by (simp_all add: val_at_def key_at_def)
  ultimately show ?case using step by (simp add: full_from_step first_entry_def add.commute)
qed

lemma luaH_next_from:
  assumes ok: "table_ok t" and i: "luaH_findindex gca t key = Inr i" "- 1 \<le> i" "nat (i + 1) \<le> length (tarray t) + length (tnode t)"
  shows "luaH_next gca t key = Inr (first_entry t (full_from t (nat (i + 1))))"
proof -
  have nd: "take (nat (sizenode t)) (tnode t) = tnode t" using table_sizes(3) [OF ok] by simp
  show ?thesis
  proof (cases "nat (i + 1) \<le> length (tarray t)")
    case True
    have e: "int (nat (i + 1)) = i + 1" using i(2) by simp
    have "nat ((if i + 1 < sizearray t then sizearray t else i + 1) - sizearray t) = 0" using True by auto
    with next_array_from [OF True, unfolded e] show ?thesis
      by (auto simp: luaH_next_def i(1) Let_def nd split: option.splits)
  next
    case False
    then have "drop (nat (i + 1)) (tarray t) = []" by simp
    moreover have "nat (i + 1 - sizearray t) = nat (i + 1) - length (tarray t)" using False by simp
    moreover have "\<not> i + 1 < sizearray t" using False by simp
    moreover have "nat (i + 1) - length (tarray t) \<le> length (tnode t)" using i(3) by simp
    note next_node_from [OF this]
    ultimately show ?thesis using False by (simp add: luaH_next_def i(1) Let_def nd)
  qed
qed

text \<open>The slot of the key at a position with a value.\<close>

lemma slot_at_key:
  assumes ok: "table_ok t" and p: "p < length (tarray t) + length (tnode t)" "val_at t p \<noteq> LNil"
  shows "table_slot t (key_at t p) = Some (slot_at t p)" "slot_value t (slot_at t p) = val_at t p"
    "luaO_rawequalObj (key_at t p) (key_at t p)"
proof -
  show "slot_value t (slot_at t p) = val_at t p" by (simp add: slot_value_def slot_at_def val_at_def)
  have "table_slot t (key_at t p) = Some (slot_at t p) \<and> luaO_rawequalObj (key_at t p) (key_at t p)"
  proof (cases "p < length (tarray t)")
    case True
    have "int p + 1 < 2147483648" using True table_sizes(2) [OF ok] by linarith
    then have a: "arrayindex (key_at t p) = int p + 1" using True arrayindex_int [of "int p + 1"] by (simp add: key_at_def)
    then have "in_array t (key_at t p)" using True by (simp add: in_array_def)
    with a True show ?thesis using in_array_rawequal [of "key_at t p" "key_at t p"] by (simp add: table_slot_def slot_at_def)
  next
    case False
    let ?n = "p - length (tarray t)"
    have n: "?n < length (tnode t)" "key_at t p = i_key (tnode t ! ?n)" "i_val (tnode t ! ?n) \<noteq> LNil"
      using False p by (simp_all add: key_at_def val_at_def)
    then have l: "tnode t ! ?n \<in> set (live (tnode t))" by (simp add: live_def)
    note k = live_key [OF ok l]
    have "holds (tnode t) ?n (key_at t p)"
      using n valid_key_refl [OF k(1)] valid_not_nil [OF k(1)] by (simp add: holds_def)
    then have "hslot (tnode t) (key_at t p) = Some ?n" using table_ok_one_key [OF ok] by (simp add: hslot_Some)
    with False k n(2) valid_key_refl [OF k(1)] show ?thesis by (simp add: table_slot_def slot_at_def)
  qed
  then show "table_slot t (key_at t p) = Some (slot_at t p)" "luaO_rawequalObj (key_at t p) (key_at t p)" by blast+
qed

lemma slot_at_inject: "slot_at t p = slot_at t q \<Longrightarrow> p = q"
  by (auto simp: slot_at_def split: if_split_asm)

lemma slot_at_surj:
  assumes "table_ok t" "table_slot t k = Some s"
  obtains p where "p < length (tarray t) + length (tnode t)" "slot_at t p = s"
proof (cases s)
  case (ArrSlot i)
  then have "i < length (tarray t)" using table_slot_in_table [OF assms] by auto
  with ArrSlot that [of i] show ?thesis by (simp add: slot_at_def)
next
  case (NodeSlot n)
  then have "n < length (tnode t)" using table_slot_in_table [OF assms] by auto
  with NodeSlot that [of "length (tarray t) + n"] show ?thesis by (simp add: slot_at_def)
qed

lemma table_slot_rawequal: "luaO_rawequalObj k k' \<Longrightarrow> table_slot t k = table_slot t k'"
  using in_array_eq [of k k' t] hslot_rawequal [of k k' "tnode t"] in_array_rawequal [of k k']
  by (auto simp: table_slot_def in_array_def)

text \<open>The index of the key at a position.\<close>

definition no_dead :: "Table \<Rightarrow> bool" where
  "no_dead t \<longleftrightarrow> (\<forall>nd\<in>set (tnode t). \<forall>a. i_key nd \<noteq> LDeadKey a)"

lemma findindex_at:
  assumes ok: "table_ok t" and nd: "no_dead t" and p: "p < length (tarray t) + length (tnode t)" "val_at t p \<noteq> LNil"
  shows "luaH_findindex gca t (key_at t p) = Inr (int p)"
proof -
  note sl = slot_at_key [OF ok p]
  have nn: "key_at t p \<noteq> LNil" using sl(1) table_slot_nil [of t] by auto
  show ?thesis
  proof (cases "p < length (tarray t)")
    case True
    have "int p + 1 < 2147483648" using True table_sizes(2) [OF ok] by linarith
    then have "arrayindex (key_at t p) = int p + 1" using True arrayindex_int [of "int p + 1"] by (simp add: key_at_def)
    with nn True show ?thesis by (simp add: luaH_findindex_def)
  next
    case False
    let ?n = "p - length (tarray t)" and ?ns = "tnode t"
    have n: "?n < length ?ns" "key_at t p = i_key (?ns ! ?n)" "i_val (?ns ! ?n) \<noteq> LNil"
      using False p by (simp_all add: key_at_def val_at_def)
    then have l: "?ns ! ?n \<in> set (live ?ns)" by (simp add: live_def)
    note k = live_key [OF ok l]
    have dummy: "\<not> isdummy t" using ok n by (auto simp: table_ok_def dummynode_def)
    then have nok: "nodes_ok (mainposition t) ?ns (lastfree t)" using ok by (simp add: table_ok_def)
    let ?P = "\<lambda>nd. luaO_rawequalObj (i_key nd) (key_at t p)
      \<or> (case i_key nd of LDeadKey a \<Rightarrow> iscollectable (key_at t p) \<and> a = gca (key_at t p) | _ \<Rightarrow> False)"
    have P: "?P nd = luaO_rawequalObj (i_key nd) (key_at t p)" if "nd \<in> set ?ns" for nd
      using nd that by (auto simp: no_dead_def split: TValue.splits)
    obtain kk where "node_size t kk" using ok by (auto simp: table_ok_def)
    then have ml: "mainposition t (key_at t p) < length ?ns" by (rule mainposition_less)
    have re: "reach ?ns (mainposition t (key_at t p)) ?n"
      using nodes_okD(5) [OF nok n(1)] valid_not_nil [OF k(1)] n(2) by simp
    have "chain_find (length ?ns) t ?P (mainposition t (key_at t p)) = Inr (Some ?n)"
    proof (rule chain_find_ok [OF nodes_okD(1) [OF nok] ml, of ?P])
      fix m assume m: "chain_find (length ?ns) t ?P (mainposition t (key_at t p)) = Inr (Some m)" "m < length ?ns" "?P (?ns ! m)"
      then have eq: "luaO_rawequalObj (i_key (?ns ! m)) (i_key (?ns ! ?n))" using P [of "?ns ! m"] n(2) by simp
      then have "i_key (?ns ! m) \<noteq> LNil"
        using valid_not_nil [OF k(1)] by (cases "i_key (?ns ! ?n)") (auto simp: rawequal_cases)
      then have "m = ?n" using nodes_okD(8) [OF nok m(2) n(1) _ eq] by blast
      with m(1) show ?thesis by simp
    next
      assume "\<And>m. reach ?ns (mainposition t (key_at t p)) m \<Longrightarrow> \<not> ?P (?ns ! m)"
      from this [OF re] have "\<not> luaO_rawequalObj (key_at t p) (key_at t p)" unfolding n(2) [symmetric] by blast
      with sl(3) show ?thesis by simp
    qed
    moreover have "\<not> (0 < arrayindex (key_at t p) \<and> arrayindex (key_at t p) \<le> sizearray t)"
      using k(2) n(2) by (auto simp: in_array_def)
    ultimately show ?thesis using nn False by (auto simp: luaH_findindex_def Let_def of_nat_diff)
  qed
qed

lemma full_from_nth:
  "i < length (full_from t p) \<Longrightarrow> full_from t (Suc (full_from t p ! i)) = drop (Suc i) (full_from t p)"
proof (induction "length (tarray t) + length (tnode t) - p" arbitrary: p i)
  case 0
  then show ?case by (simp add: full_from_def)
next
  case (Suc m)
  then have st: "full_from t p = (if val_at t p \<noteq> LNil then [p] else []) @ full_from t (Suc p)" and m: "m = length (tarray t) + length (tnode t) - Suc p"
    by (simp_all add: full_from_step)
  show ?case
  proof (cases "val_at t p \<noteq> LNil")
    case False
    with Suc.hyps(1) [OF m, of i] Suc.prems st show ?thesis by simp
  next
    case True
    with Suc.hyps(1) [OF m, of "i - 1"] Suc.prems st show ?thesis by (cases i) simp_all
  qed
qed

text \<open>
  C31: a traversal with \<open>luaH_next\<close> from nil visits every entry of the table once and then ends. The
  next key after each entry is that of the entry that follows in \<open>table_entries\<close>; every key with
  a value is the key of one and only one entry, which has its value.
\<close>

theorem next_visits_all:
  assumes ok: "table_ok t" and nd: "no_dead t"
  defines "es \<equiv> table_entries t"
  shows "luaH_next gca t LNil = Inr (nth_entry es 0)
    \<and> (\<forall>i<length es. luaH_next gca t (fst (es ! i)) = Inr (nth_entry es (Suc i)))
    \<and> (\<forall>i<length es. raw_get t (fst (es ! i)) = snd (es ! i))
    \<and> (\<forall>k. raw_get t k \<noteq> LNil \<longrightarrow> (\<exists>!i. i < length es \<and> luaO_rawequalObj (fst (es ! i)) k))"
proof (intro conjI allI impI)
  let ?ps = "full_from t 0"
  have es: "length es = length ?ps" "\<And>i. i < length ?ps \<Longrightarrow> es ! i = (key_at t (?ps ! i), val_at t (?ps ! i))"
    by (simp_all add: es_def table_entries_def)
  have ps: "?ps ! i < length (tarray t) + length (tnode t)" "val_at t (?ps ! i) \<noteq> LNil" if "i < length ?ps" for i
    using nth_mem [OF that] by (auto simp: full_from_def)
  have fe: "first_entry t (drop i ?ps) = nth_entry es i" for i
    by (cases "i < length ?ps") (simp_all add: first_entry_def nth_entry_def es drop_eq_Nil flip: Cons_nth_drop_Suc)
  have "luaH_findindex gca t LNil = Inr (- 1)" by (simp add: luaH_findindex_def)
  from luaH_next_from [OF ok this] show "luaH_next gca t LNil = Inr (nth_entry es 0)" using fe [of 0] by simp
  show "luaH_next gca t (fst (es ! i)) = Inr (nth_entry es (Suc i))" if "i < length es" for i
  proof -
    have i: "i < length ?ps" using that es(1) by simp
    from luaH_next_from [OF ok findindex_at [OF ok nd ps [OF i]], of gca] ps(1) [OF i]
    have "luaH_next gca t (key_at t (?ps ! i)) = Inr (first_entry t (full_from t (Suc (?ps ! i))))"
      by (simp add: nat_add_distrib)
    then show ?thesis by (simp add: es(2) [OF i] full_from_nth [OF i] fe)
  qed
  show "raw_get t (fst (es ! i)) = snd (es ! i)" if "i < length es" for i
    using that slot_at_key [OF ok ps, of i] es by (simp add: raw_get_slot [OF ok])
  fix k assume k: "raw_get t k \<noteq> LNil"
  then obtain s where s: "table_slot t k = Some s" "slot_value t s \<noteq> LNil" by (auto simp: raw_get_slot [OF ok] split: option.splits)
  obtain p where p: "p < length (tarray t) + length (tnode t)" "slot_at t p = s" by (rule slot_at_surj [OF ok s(1)])
  have "slot_value t (slot_at t p) = val_at t p" by (simp add: slot_value_def slot_at_def val_at_def)
  with p s(2) have v: "val_at t p \<noteq> LNil" by simp
  then have "p \<in> set ?ps" using p(1) by (simp add: full_from_def)
  then obtain i where i: "i < length ?ps" "?ps ! i = p" by (auto simp: in_set_conv_nth)
  have eq: "luaO_rawequalObj (key_at t q) k \<longleftrightarrow> q = p" if "q < length (tarray t) + length (tnode t)" "val_at t q \<noteq> LNil" for q
  proof
    assume "luaO_rawequalObj (key_at t q) k"
    then have "table_slot t (key_at t q) = table_slot t k" by (rule table_slot_rawequal)
    then have "slot_at t q = slot_at t p" using slot_at_key(1) [OF ok that] s(1) p(2) by simp
    then show "q = p" by (rule slot_at_inject)
  next
    assume "q = p"
    then show "luaO_rawequalObj (key_at t q) k" using table_slot_inject [OF ok slot_at_key(1) [OF ok that]] s(1) p(2) by simp
  qed
  show "\<exists>!i. i < length es \<and> luaO_rawequalObj (fst (es ! i)) k"
  proof (rule ex1I [of _ i])
    show "i < length es \<and> luaO_rawequalObj (fst (es ! i)) k" using i es eq [OF ps [OF i(1)]] by simp
    fix j assume j: "j < length es \<and> luaO_rawequalObj (fst (es ! j)) k"
    then have jl: "j < length ?ps" using es(1) by simp
    have "luaO_rawequalObj (key_at t (?ps ! j)) k" using j es(2) [OF jl] by simp
    then have "?ps ! j = ?ps ! i" using eq [OF ps [OF jl]] i(2) by simp
    then show "j = i" using jl i(1) nth_eq_iff_index_eq [of ?ps j i] by (simp add: full_from_def)
  qed
qed

theorem next_visits_all_witness:
  "luaH_next (\<lambda>_. 0) \<lparr>flags = 0, lsizenode = 0, metatable = None, tarray = [LNil, LBool 1, LBool 0], tspare = [], tnode = [dummynode],
      isdummy = True, lastfree = 0\<rparr> (LNumber (cast_num 2)) = Inr (Some (LNumber (cast_num 3), LBool 0))"
proof -
  let ?t = "\<lparr>flags = 0, lsizenode = 0, metatable = None, tarray = [LNil, LBool 1, LBool 0], tspare = [], tnode = [dummynode],
      isdummy = True, lastfree = 0\<rparr>"
  have f: "fresh_hash ?t" "sizearray ?t \<le> MAXASIZE"
    by (auto simp: fresh_hash_def node_size_def MAXASIZE_def MAXBITS_def intro!: exI [of _ 0])
  have nd: "no_dead ?t" by (simp add: no_dead_def dummynode_def)
  have ps: "full_from ?t 0 = [1, 2]" by (simp add: full_from_def val_at_def dummynode_def upt_rec)
  have es: "table_entries ?t = [(LNumber (cast_num 2), LBool 1), (LNumber (cast_num 3), LBool 0)]"
    unfolding table_entries_def ps by (simp add: key_at_def val_at_def)
  note v = next_visits_all [OF fresh_table_ok [OF f] nd, of "\<lambda>_. 0", unfolded es, THEN conjunct2, THEN conjunct1]
  have "luaH_next (\<lambda>_. 0) ?t (fst ([(LNumber (cast_num 2), LBool 1), (LNumber (cast_num 3), LBool 0)] ! 0))
      = Inr (nth_entry [(LNumber (cast_num 2), LBool 1), (LNumber (cast_num 3), LBool 0)] (Suc 0))"
    by (rule v [rule_format]) simp
  then show ?thesis by (simp add: nth_entry_def)
qed

end
