(* ===== verification/CodeGen.thy ===== *)
theory CodeGen
  imports LuaTable Lexer "HOL-Library.Signed_Division"
begin

text \<open>
  The code generator (\<open>lcode.c\<close>) and \<open>luaM_growaux_\<close> of \<open>lmem.c\<close>. The state is that of the function
  being compiled, \<open>FuncState\<close>, with its prototype and the lexical state; positions and registers are
  \<^typ>\<open>int\<close>s as in the code, and a position outside the code array is \<open>OutOfBounds\<close>. \<open>fs->h\<close>, the table
  of constants, is the map \<open>lex_h\<close> of the lexical state, with one key for both zeros; that a table is
  such a map is the subject of \<open>TableMap\<close>.
\<close>

section \<open>Growing arrays\<close>

definition MINSIZEARRAY :: int where "MINSIZEARRAY = 4"

definition luaM_growaux :: "int \<Rightarrow> u32 \<Rightarrow> int \<Rightarrow> string \<Rightarrow> int result" where
  "luaM_growaux sz size_elems limit errormsg =
     bnd (if sz \<ge> limit div 2
          then if sz \<ge> limit then Inl (ErrRun errormsg) else Inr limit
          else Inr (if sz * 2 < MINSIZEARRAY then MINSIZEARRAY else sz * 2)) (\<lambda>newsize.
     bnd (luaM_reallocv (c_uint newsize) size_elems) (\<lambda>_. Inr newsize))"

text \<open>The array \<open>v\<close> with room for \<open>nelems + 1\<close> elements; \<open>x\<close> stands for the contents of new cells.\<close>

definition luaM_growvector :: "'a list \<Rightarrow> int \<Rightarrow> u32 \<Rightarrow> int \<Rightarrow> 'a \<Rightarrow> string \<Rightarrow> ('a list) result" where
  "luaM_growvector v nelems size_elems limit x errormsg =
     (if nelems + 1 > int (length v)
      then bnd (luaM_growaux (int (length v)) size_elems limit errormsg) (\<lambda>sz.
           Inr (v @ replicate (nat sz - length v) x))
      else Inr v)"

section \<open>The data\<close>

datatype expkind = VVOID | VNIL | VTRUE | VFALSE | VK | VKNUM | VLOCAL | VUPVAL | VGLOBAL | VINDEXED
  | VJMP | VRELOCABLE | VNONRELOC | VCALL | VVARARG

text \<open>The fields of the union \<open>u\<close> of \<open>expdesc\<close> are separate here; which is valid depends on the kind.\<close>

record expdesc =
  ek :: expkind
  einfo :: int
  eaux :: int
  enval :: lua_Number
  et :: int
  ef :: int

record upvaldesc =
  uv_k :: expkind
  uv_info :: int

record 'd FuncState =
  fproto :: Proto
  fhaddr :: addr
  fls :: "'d LexState"
  fpc :: int
  lasttarget :: int
  jpc :: int
  freereg :: int
  fnk :: int
  fnp :: int
  nlocvars :: int
  nactvar :: int
  fupvalues :: "upvaldesc list"
  actvar :: "int list"

definition NO_JUMP :: int where "NO_JUMP = - 1"

datatype BinOpr = OPR_BAND | OPR_BOR | OPR_BXOR | OPR_BSHL | OPR_BSHR
  | OPR_ADD | OPR_SUB | OPR_MUL | OPR_DIV | OPR_MOD | OPR_POW
  | OPR_CONCAT | OPR_NE | OPR_EQ | OPR_LT | OPR_LE | OPR_GT | OPR_GE
  | OPR_AND | OPR_OR | OPR_NOBINOPR

datatype UnOpr = OPR_MINUS | OPR_NOT | OPR_LEN | OPR_NOUNOPR

text \<open>The fields of a prototype that the code generator writes.\<close>

primrec with_code :: "Instruction list \<Rightarrow> Proto \<Rightarrow> Proto" where
  "with_code c' (Proto k c p l lv u s ld lld n np va m) = Proto k c' p l lv u s ld lld n np va m"

primrec with_lineinfo :: "int list \<Rightarrow> Proto \<Rightarrow> Proto" where
  "with_lineinfo l' (Proto k c p l lv u s ld lld n np va m) = Proto k c p l' lv u s ld lld n np va m"

primrec with_k :: "TValue list \<Rightarrow> Proto \<Rightarrow> Proto" where
  "with_k k' (Proto k c p l lv u s ld lld n np va m) = Proto k' c p l lv u s ld lld n np va m"

primrec with_maxstacksize :: "byte \<Rightarrow> Proto \<Rightarrow> Proto" where
  "with_maxstacksize m' (Proto k c p l lv u s ld lld n np va m) = Proto k c p l lv u s ld lld n np va m'"

definition getins :: "'d FuncState \<Rightarrow> int \<Rightarrow> Instruction result" where
  "getins fs pc =
     (if 0 \<le> pc \<and> pc < sizecode (fproto fs) then Inr (code (fproto fs) ! nat pc) else Inl OutOfBounds)"

text \<open>\<open>f\<close> applied to the instruction at \<open>pc\<close>.\<close>

definition updins :: "'d FuncState \<Rightarrow> int \<Rightarrow> (Instruction \<Rightarrow> Instruction) \<Rightarrow> ('d FuncState) result" where
  "updins fs pc f =
     bnd (getins fs pc) (\<lambda>i.
     Inr (fs\<lparr>fproto := with_code ((code (fproto fs))[nat pc := f i]) (fproto fs)\<rparr>))"

definition getcode :: "'d FuncState \<Rightarrow> expdesc \<Rightarrow> Instruction result" where
  "getcode fs e = getins fs (einfo e)"

definition hasjumps :: "expdesc \<Rightarrow> bool" where
  "hasjumps e \<longleftrightarrow> et e \<noteq> ef e"

definition isnumeral :: "expdesc \<Rightarrow> bool" where
  "isnumeral e \<longleftrightarrow> ek e = VKNUM \<and> et e = NO_JUMP \<and> ef e = NO_JUMP"

section \<open>Jump lists\<close>

definition fixjump :: "'d FuncState \<Rightarrow> int \<Rightarrow> int \<Rightarrow> ('d FuncState) result" where
  "fixjump fs pc dest =
     (let offset = dest - (pc + 1)
      in if \<bar>offset\<bar> > MAXARG_sBx then luaX_syntaxerror (fls fs) ''control structure too long''
         else updins fs pc (\<lambda>i. SETARG_sBx i offset))"

definition luaK_getlabel :: "'d FuncState \<Rightarrow> int \<times> 'd FuncState" where
  "luaK_getlabel fs = (fpc fs, fs\<lparr>lasttarget := fpc fs\<rparr>)"

definition getjump :: "'d FuncState \<Rightarrow> int \<Rightarrow> int result" where
  "getjump fs pc =
     bnd (getins fs pc) (\<lambda>i.
     let offset = GETARG_sBx i
     in Inr (if offset = NO_JUMP then NO_JUMP else (pc + 1) + offset))"

text \<open>
  The position of the instruction that controls the jump at \<open>pc\<close>. The table of modes has no entry
  for a word that is no instruction, such as the count after an \<open>OP_SETLIST\<close>.
\<close>

definition getjumpcontrol :: "'d FuncState \<Rightarrow> int \<Rightarrow> int result" where
  "getjumpcontrol fs pc =
     (if pc \<ge> 1
      then bnd (getins fs (pc - 1)) (\<lambda>i.
           if GET_OPCODE i \<ge> NUM_OPCODES then Inl OutOfBounds
           else Inr (if testTMode (GET_OPCODE i) then pc - 1 else pc))
      else Inr pc)"

text \<open>A jump list has at most one jump per instruction; the loops over one take that as their bound.\<close>

definition jump_fuel :: "'d FuncState \<Rightarrow> nat" where
  "jump_fuel fs = length (code (fproto fs)) + 1"

fun need_value_loop :: "nat \<Rightarrow> 'd FuncState \<Rightarrow> int \<Rightarrow> bool result" where
  "need_value_loop 0 fs list = Inl OutOfFuel"
| "need_value_loop (Suc n) fs list =
     (if list = NO_JUMP then Inr False
      else bnd (bnd (getjumpcontrol fs list) (getins fs)) (\<lambda>i.
           if GET_OPCODE i \<noteq> opcode OP_TESTSET then Inr True
           else bnd (getjump fs list) (need_value_loop n fs)))"

definition need_value :: "'d FuncState \<Rightarrow> int \<Rightarrow> bool result" where
  "need_value fs list = need_value_loop (jump_fuel fs) fs list"

definition patchtestreg :: "'d FuncState \<Rightarrow> int \<Rightarrow> int \<Rightarrow> (bool \<times> 'd FuncState) result" where
  "patchtestreg fs node reg =
     bnd (getjumpcontrol fs node) (\<lambda>p.
     bnd (getins fs p) (\<lambda>i.
     if GET_OPCODE i \<noteq> opcode OP_TESTSET then Inr (False, fs)
     else bnd (updins fs p (\<lambda>i.
                 if reg \<noteq> NO_REG \<and> reg \<noteq> GETARG_B i then SETARG_A i reg
                 else CREATE_ABC (opcode OP_TEST) (GETARG_B i) 0 (GETARG_C i))) (\<lambda>fs.
          Inr (True, fs))))"

fun removevalues_loop :: "nat \<Rightarrow> 'd FuncState \<Rightarrow> int \<Rightarrow> ('d FuncState) result" where
  "removevalues_loop 0 fs list = Inl OutOfFuel"
| "removevalues_loop (Suc n) fs list =
     (if list = NO_JUMP then Inr fs
      else bnd (patchtestreg fs list NO_REG) (\<lambda>(_, fs).
           bnd (getjump fs list) (removevalues_loop n fs)))"

definition removevalues :: "'d FuncState \<Rightarrow> int \<Rightarrow> ('d FuncState) result" where
  "removevalues fs list = removevalues_loop (jump_fuel fs) fs list"

fun patchlist_loop :: "nat \<Rightarrow> 'd FuncState \<Rightarrow> int \<Rightarrow> int \<Rightarrow> int \<Rightarrow> int \<Rightarrow> ('d FuncState) result" where
  "patchlist_loop 0 fs list vtarget reg dtarget = Inl OutOfFuel"
| "patchlist_loop (Suc n) fs list vtarget reg dtarget =
     (if list = NO_JUMP then Inr fs
      else bnd (getjump fs list) (\<lambda>next.
           bnd (patchtestreg fs list reg) (\<lambda>(v, fs).
           bnd (fixjump fs list (if v then vtarget else dtarget)) (\<lambda>fs.
           patchlist_loop n fs next vtarget reg dtarget))))"

definition patchlistaux :: "'d FuncState \<Rightarrow> int \<Rightarrow> int \<Rightarrow> int \<Rightarrow> int \<Rightarrow> ('d FuncState) result" where
  "patchlistaux fs list vtarget reg dtarget = patchlist_loop (jump_fuel fs) fs list vtarget reg dtarget"

definition dischargejpc :: "'d FuncState \<Rightarrow> ('d FuncState) result" where
  "dischargejpc fs =
     bnd (patchlistaux fs (jpc fs) (fpc fs) NO_REG (fpc fs)) (\<lambda>fs. Inr (fs\<lparr>jpc := NO_JUMP\<rparr>))"

text \<open>The last jump of the list from \<open>list\<close>.\<close>

fun last_jump :: "nat \<Rightarrow> 'd FuncState \<Rightarrow> int \<Rightarrow> int result" where
  "last_jump 0 fs list = Inl OutOfFuel"
| "last_jump (Suc n) fs list =
     bnd (getjump fs list) (\<lambda>next. if next \<noteq> NO_JUMP then last_jump n fs next else Inr list)"

definition luaK_concat :: "'d FuncState \<Rightarrow> int \<Rightarrow> int \<Rightarrow> (int \<times> 'd FuncState) result" where
  "luaK_concat fs l1 l2 =
     (if l2 = NO_JUMP then Inr (l1, fs)
      else if l1 = NO_JUMP then Inr (l2, fs)
      else bnd (last_jump (jump_fuel fs) fs l1) (\<lambda>list.
           bnd (fixjump fs list l2) (\<lambda>fs. Inr (l1, fs))))"

definition luaK_patchtohere :: "'d FuncState \<Rightarrow> int \<Rightarrow> ('d FuncState) result" where
  "luaK_patchtohere fs list =
     (let fs = snd (luaK_getlabel fs)
      in bnd (luaK_concat fs (jpc fs) list) (\<lambda>(l, fs). Inr (fs\<lparr>jpc := l\<rparr>)))"

definition luaK_patchlist :: "'d FuncState \<Rightarrow> int \<Rightarrow> int \<Rightarrow> ('d FuncState) result" where
  "luaK_patchlist fs list target =
     (if target = fpc fs then luaK_patchtohere fs list
      else patchlistaux fs list target NO_REG target)"

section \<open>Emitting code\<close>

definition sizeof_Instruction :: u32 where "sizeof_Instruction = 4"
definition sizeof_int :: u32 where "sizeof_int = 4"

definition luaK_code :: "'d FuncState \<Rightarrow> Instruction \<Rightarrow> int \<Rightarrow> (int \<times> 'd FuncState) result" where
  "luaK_code fs i line =
     bnd (dischargejpc fs) (\<lambda>fs.
     bnd (luaM_growvector (code (fproto fs)) (fpc fs) sizeof_Instruction MAX_INT 0 ''code size overflow'') (\<lambda>c.
     let fs = fs\<lparr>fproto := with_code (c[nat (fpc fs) := i]) (fproto fs)\<rparr> in
     bnd (luaM_growvector (lineinfo (fproto fs)) (fpc fs) sizeof_int MAX_INT 0 ''code size overflow'') (\<lambda>l.
     Inr (fpc fs, fs\<lparr>fproto := with_lineinfo (l[nat (fpc fs) := line]) (fproto fs), fpc := fpc fs + 1\<rparr>))))"

definition luaK_codeABC :: "'d FuncState \<Rightarrow> OpCode \<Rightarrow> int \<Rightarrow> int \<Rightarrow> int \<Rightarrow> (int \<times> 'd FuncState) result" where
  "luaK_codeABC fs op a b c = luaK_code fs (CREATE_ABC (opcode op) a b c) (lastline (fls fs))"

definition luaK_codeABx :: "'d FuncState \<Rightarrow> OpCode \<Rightarrow> int \<Rightarrow> int \<Rightarrow> (int \<times> 'd FuncState) result" where
  "luaK_codeABx fs op a bc = luaK_code fs (CREATE_ABx (opcode op) a bc) (lastline (fls fs))"

definition luaK_codeAsBx :: "'d FuncState \<Rightarrow> OpCode \<Rightarrow> int \<Rightarrow> int \<Rightarrow> (int \<times> 'd FuncState) result" where
  "luaK_codeAsBx fs op a sbx = luaK_codeABx fs op a (sbx + MAXARG_sBx)"

definition luaK_fixline :: "'d FuncState \<Rightarrow> int \<Rightarrow> ('d FuncState) result" where
  "luaK_fixline fs line =
     (if 0 \<le> fpc fs - 1 \<and> fpc fs - 1 < sizelineinfo (fproto fs)
      then Inr (fs\<lparr>fproto := with_lineinfo ((lineinfo (fproto fs))[nat (fpc fs - 1) := line]) (fproto fs)\<rparr>)
      else Inl OutOfBounds)"

definition luaK_nil :: "'d FuncState \<Rightarrow> int \<Rightarrow> int \<Rightarrow> ('d FuncState) result" where
  "luaK_nil fs from n =
     (let emit = bnd (luaK_codeABC fs OP_LOADNIL from (from + n - 1) 0) (\<lambda>(_, fs). Inr fs)
      in if fpc fs > lasttarget fs
         then if fpc fs = 0 then Inr fs
              else bnd (getins fs (fpc fs - 1)) (\<lambda>previous.
                if GET_OPCODE previous = opcode OP_LOADNIL
                   \<and> GETARG_A previous \<le> from \<and> from \<le> GETARG_B previous + 1
                then if from + n - 1 > GETARG_B previous
                     then updins fs (fpc fs - 1) (\<lambda>i. SETARG_B i (from + n - 1))
                     else Inr fs
                else emit)
         else emit)"

definition luaK_jump :: "'d FuncState \<Rightarrow> (int \<times> 'd FuncState) result" where
  "luaK_jump fs =
     (let l = jpc fs
      in bnd (luaK_codeAsBx (fs\<lparr>jpc := NO_JUMP\<rparr>) OP_JMP 0 NO_JUMP) (\<lambda>(j, fs). luaK_concat fs j l))"

definition luaK_ret :: "'d FuncState \<Rightarrow> int \<Rightarrow> int \<Rightarrow> ('d FuncState) result" where
  "luaK_ret fs first nret = bnd (luaK_codeABC fs OP_RETURN first (nret + 1) 0) (\<lambda>(_, fs). Inr fs)"

definition condjump :: "'d FuncState \<Rightarrow> OpCode \<Rightarrow> int \<Rightarrow> int \<Rightarrow> int \<Rightarrow> (int \<times> 'd FuncState) result" where
  "condjump fs op a b c = bnd (luaK_codeABC fs op a b c) (\<lambda>(_, fs). luaK_jump fs)"

section \<open>Registers\<close>

definition luaK_checkstack :: "'d FuncState \<Rightarrow> int \<Rightarrow> ('d FuncState) result" where
  "luaK_checkstack fs n =
     (let newstack = freereg fs + n
      in if newstack > uint (maxstacksize (fproto fs))
         then if newstack \<ge> MAXSTACK then luaX_syntaxerror (fls fs) ''function or expression too complex''
              else Inr (fs\<lparr>fproto := with_maxstacksize (cast_byte newstack) (fproto fs)\<rparr>)
         else Inr fs)"

definition luaK_reserveregs :: "'d FuncState \<Rightarrow> int \<Rightarrow> ('d FuncState) result" where
  "luaK_reserveregs fs n = bnd (luaK_checkstack fs n) (\<lambda>fs. Inr (fs\<lparr>freereg := freereg fs + n\<rparr>))"

definition free_reg :: "'d FuncState \<Rightarrow> int \<Rightarrow> 'd FuncState" where
  "free_reg fs reg = (if \<not> ISK reg \<and> reg \<ge> nactvar fs then fs\<lparr>freereg := freereg fs - 1\<rparr> else fs)"

definition freeexp :: "'d FuncState \<Rightarrow> expdesc \<Rightarrow> 'd FuncState" where
  "freeexp fs e = (if ek e = VNONRELOC then free_reg fs (einfo e) else fs)"

section \<open>Constants\<close>

text \<open>The key of a value in the table of constants: \<open>-0\<close> and \<open>0\<close> are the same.\<close>

definition canon :: "TValue \<Rightarrow> TValue" where
  "canon k = (case k of LNumber n \<Rightarrow> if luai_numeq n 0 then LNumber 0 else k | _ \<Rightarrow> k)"

definition addk :: "'d FuncState \<Rightarrow> TValue \<Rightarrow> TValue \<Rightarrow> (int \<times> 'd FuncState) result" where
  "addk fs key v =
     (if (case key of LNumber n \<Rightarrow> luai_numisnan n | _ \<Rightarrow> False) then Inl (ErrRun ''table index is NaN'') else
      case lex_h (fls fs) (canon key) of
        Some (LNumber n) \<Rightarrow> Inr (lua_number2int n, fs)
      | _ \<Rightarrow>
          let fs = fs\<lparr>fls := (fls fs)\<lparr>lex_h := (lex_h (fls fs))(canon key \<mapsto> LNumber (cast_num (fnk fs)))\<rparr>\<rparr>
          in bnd (luaM_growvector (pk (fproto fs)) (fnk fs) sizeof_TValue MAXARG_Bx LNil ''constant table overflow'') (\<lambda>k.
             Inr (fnk fs, fs\<lparr>fproto := with_k (k[nat (fnk fs) := v]) (fproto fs), fnk := fnk fs + 1\<rparr>)))"

definition luaK_stringK :: "'d FuncState \<Rightarrow> tstring \<Rightarrow> (int \<times> 'd FuncState) result" where
  "luaK_stringK fs s = addk fs (LString s) (LString s)"

definition luaK_wstringK :: "'d FuncState \<Rightarrow> wchar list \<Rightarrow> (int \<times> 'd FuncState) result" where
  "luaK_wstringK fs s = addk fs (LWString s) (LWString s)"

definition luaK_numberK :: "'d FuncState \<Rightarrow> lua_Number \<Rightarrow> (int \<times> 'd FuncState) result" where
  "luaK_numberK fs r = addk fs (LNumber r) (LNumber r)"

definition boolK :: "'d FuncState \<Rightarrow> bool \<Rightarrow> (int \<times> 'd FuncState) result" where
  "boolK fs b = addk fs (LBool (if b then 1 else 0)) (LBool (if b then 1 else 0))"

definition nilK :: "'d FuncState \<Rightarrow> (int \<times> 'd FuncState) result" where
  "nilK fs = addk fs (LTable (fhaddr fs)) LNil"

section \<open>Expressions\<close>

definition luaK_setreturns :: "'d FuncState \<Rightarrow> expdesc \<Rightarrow> int \<Rightarrow> ('d FuncState) result" where
  "luaK_setreturns fs e nresults =
     (if ek e = VCALL then updins fs (einfo e) (\<lambda>i. SETARG_C i (nresults + 1))
      else if ek e = VVARARG
      then bnd (updins fs (einfo e) (\<lambda>i. SETARG_B i (nresults + 1))) (\<lambda>fs.
           bnd (updins fs (einfo e) (\<lambda>i. SETARG_A i (freereg fs))) (\<lambda>fs.
           luaK_reserveregs fs 1))
      else Inr fs)"

definition luaK_setoneret :: "'d FuncState \<Rightarrow> expdesc \<Rightarrow> (expdesc \<times> 'd FuncState) result" where
  "luaK_setoneret fs e =
     (if ek e = VCALL
      then bnd (getcode fs e) (\<lambda>i. Inr (e\<lparr>ek := VNONRELOC, einfo := GETARG_A i\<rparr>, fs))
      else if ek e = VVARARG
      then bnd (updins fs (einfo e) (\<lambda>i. SETARG_B i 2)) (\<lambda>fs. Inr (e\<lparr>ek := VRELOCABLE\<rparr>, fs))
      else Inr (e, fs))"

definition luaK_dischargevars :: "'d FuncState \<Rightarrow> expdesc \<Rightarrow> (expdesc \<times> 'd FuncState) result" where
  "luaK_dischargevars fs e =
     (case ek e of
        VLOCAL \<Rightarrow> Inr (e\<lparr>ek := VNONRELOC\<rparr>, fs)
      | VUPVAL \<Rightarrow>
          bnd (luaK_codeABC fs OP_GETUPVAL 0 (einfo e) 0) (\<lambda>(pc, fs). Inr (e\<lparr>einfo := pc, ek := VRELOCABLE\<rparr>, fs))
      | VGLOBAL \<Rightarrow>
          bnd (luaK_codeABx fs OP_GETGLOBAL 0 (einfo e)) (\<lambda>(pc, fs). Inr (e\<lparr>einfo := pc, ek := VRELOCABLE\<rparr>, fs))
      | VINDEXED \<Rightarrow>
          bnd (luaK_codeABC (free_reg (free_reg fs (eaux e)) (einfo e)) OP_GETTABLE 0 (einfo e) (eaux e)) (\<lambda>(pc, fs).
          Inr (e\<lparr>einfo := pc, ek := VRELOCABLE\<rparr>, fs))
      | VVARARG \<Rightarrow> luaK_setoneret fs e
      | VCALL \<Rightarrow> luaK_setoneret fs e
      | _ \<Rightarrow> Inr (e, fs))"

definition code_label :: "'d FuncState \<Rightarrow> int \<Rightarrow> int \<Rightarrow> int \<Rightarrow> (int \<times> 'd FuncState) result" where
  "code_label fs a b jump = luaK_codeABC (snd (luaK_getlabel fs)) OP_LOADBOOL a b jump"

definition discharge2reg :: "'d FuncState \<Rightarrow> expdesc \<Rightarrow> int \<Rightarrow> (expdesc \<times> 'd FuncState) result" where
  "discharge2reg fs e reg =
     bnd (luaK_dischargevars fs e) (\<lambda>(e, fs).
     let done = (\<lambda>fs. Inr (e\<lparr>einfo := reg, ek := VNONRELOC\<rparr>, fs))
     in case ek e of
          VNIL \<Rightarrow> bnd (luaK_nil fs reg 1) done
        | VFALSE \<Rightarrow> bnd (luaK_codeABC fs OP_LOADBOOL reg 0 0) (\<lambda>(_, fs). done fs)
        | VTRUE \<Rightarrow> bnd (luaK_codeABC fs OP_LOADBOOL reg 1 0) (\<lambda>(_, fs). done fs)
        | VK \<Rightarrow> bnd (luaK_codeABx fs OP_LOADK reg (einfo e)) (\<lambda>(_, fs). done fs)
        | VKNUM \<Rightarrow>
            bnd (luaK_numberK fs (enval e)) (\<lambda>(n, fs).
            bnd (luaK_codeABx fs OP_LOADK reg n) (\<lambda>(_, fs). done fs))
        | VRELOCABLE \<Rightarrow> bnd (updins fs (einfo e) (\<lambda>i. SETARG_A i reg)) done
        | VNONRELOC \<Rightarrow>
            if reg \<noteq> einfo e then bnd (luaK_codeABC fs OP_MOVE reg (einfo e) 0) (\<lambda>(_, fs). done fs)
            else done fs
        | _ \<Rightarrow> Inr (e, fs))"

definition discharge2anyreg :: "'d FuncState \<Rightarrow> expdesc \<Rightarrow> (expdesc \<times> 'd FuncState) result" where
  "discharge2anyreg fs e =
     (if ek e \<noteq> VNONRELOC
      then bnd (luaK_reserveregs fs 1) (\<lambda>fs. discharge2reg fs e (freereg fs - 1))
      else Inr (e, fs))"

definition exp2reg :: "'d FuncState \<Rightarrow> expdesc \<Rightarrow> int \<Rightarrow> (expdesc \<times> 'd FuncState) result" where
  "exp2reg fs e reg =
     bnd (discharge2reg fs e reg) (\<lambda>(e, fs).
     bnd (if ek e = VJMP then bnd (luaK_concat fs (et e) (einfo e)) (\<lambda>(l, fs). Inr (e\<lparr>et := l\<rparr>, fs))
          else Inr (e, fs)) (\<lambda>(e, fs).
     bnd (if hasjumps e
          then bnd (bnd (need_value fs (et e)) (\<lambda>b. if b then Inr True else need_value fs (ef e))) (\<lambda>need.
               bnd (if need
                    then bnd (if ek e = VJMP then Inr (NO_JUMP, fs) else luaK_jump fs) (\<lambda>(fj, fs).
                         bnd (code_label fs reg 0 1) (\<lambda>(p_f, fs).
                         bnd (code_label fs reg 1 0) (\<lambda>(p_t, fs).
                         bnd (luaK_patchtohere fs fj) (\<lambda>fs. Inr (p_f, p_t, fs)))))
                    else Inr (NO_JUMP, NO_JUMP, fs)) (\<lambda>(p_f, p_t, fs).
               let (final, fs) = luaK_getlabel fs in
               bnd (patchlistaux fs (ef e) final reg p_f) (\<lambda>fs.
               patchlistaux fs (et e) final reg p_t)))
          else Inr fs) (\<lambda>fs.
     Inr (e\<lparr>ef := NO_JUMP, et := NO_JUMP, einfo := reg, ek := VNONRELOC\<rparr>, fs))))"

definition luaK_exp2nextreg :: "'d FuncState \<Rightarrow> expdesc \<Rightarrow> (expdesc \<times> 'd FuncState) result" where
  "luaK_exp2nextreg fs e =
     bnd (luaK_dischargevars fs e) (\<lambda>(e, fs).
     bnd (luaK_reserveregs (freeexp fs e) 1) (\<lambda>fs.
     exp2reg fs e (freereg fs - 1)))"

definition luaK_exp2anyreg :: "'d FuncState \<Rightarrow> expdesc \<Rightarrow> (int \<times> expdesc \<times> 'd FuncState) result" where
  "luaK_exp2anyreg fs e =
     bnd (luaK_dischargevars fs e) (\<lambda>(e, fs).
     if ek e = VNONRELOC \<and> \<not> hasjumps e then Inr (einfo e, e, fs)
     else if ek e = VNONRELOC \<and> einfo e \<ge> nactvar fs
     then bnd (exp2reg fs e (einfo e)) (\<lambda>(e, fs). Inr (einfo e, e, fs))
     else bnd (luaK_exp2nextreg fs e) (\<lambda>(e, fs). Inr (einfo e, e, fs)))"

definition luaK_exp2val :: "'d FuncState \<Rightarrow> expdesc \<Rightarrow> (expdesc \<times> 'd FuncState) result" where
  "luaK_exp2val fs e =
     (if hasjumps e then bnd (luaK_exp2anyreg fs e) (\<lambda>(_, e, fs). Inr (e, fs))
      else luaK_dischargevars fs e)"

definition luaK_exp2RK :: "'d FuncState \<Rightarrow> expdesc \<Rightarrow> (int \<times> expdesc \<times> 'd FuncState) result" where
  "luaK_exp2RK fs e =
     bnd (luaK_exp2val fs e) (\<lambda>(e, fs).
     if ek e \<in> {VKNUM, VTRUE, VFALSE, VNIL} \<and> fnk fs \<le> MAXINDEXRK
     then bnd (if ek e = VNIL then nilK fs else if ek e = VKNUM then luaK_numberK fs (enval e)
               else boolK fs (ek e = VTRUE)) (\<lambda>(n, fs).
          Inr (RKASK n, e\<lparr>einfo := n, ek := VK\<rparr>, fs))
     else if ek e = VK \<and> einfo e \<le> MAXINDEXRK then Inr (RKASK (einfo e), e, fs)
     else luaK_exp2anyreg fs e)"

definition luaK_storevar :: "'d FuncState \<Rightarrow> expdesc \<Rightarrow> expdesc \<Rightarrow> (expdesc \<times> 'd FuncState) result" where
  "luaK_storevar fs var ex =
     (case ek var of
        VLOCAL \<Rightarrow> exp2reg (freeexp fs ex) ex (einfo var)
      | VUPVAL \<Rightarrow>
          bnd (luaK_exp2anyreg fs ex) (\<lambda>(e, ex, fs).
          bnd (luaK_codeABC fs OP_SETUPVAL e (einfo var) 0) (\<lambda>(_, fs). Inr (ex, freeexp fs ex)))
      | VGLOBAL \<Rightarrow>
          bnd (luaK_exp2anyreg fs ex) (\<lambda>(e, ex, fs).
          bnd (luaK_codeABx fs OP_SETGLOBAL e (einfo var)) (\<lambda>(_, fs). Inr (ex, freeexp fs ex)))
      | VINDEXED \<Rightarrow>
          bnd (luaK_exp2RK fs ex) (\<lambda>(e, ex, fs).
          bnd (luaK_codeABC fs OP_SETTABLE (einfo var) (eaux var) e) (\<lambda>(_, fs). Inr (ex, freeexp fs ex)))
      | _ \<Rightarrow> Inr (ex, freeexp fs ex))"

definition luaK_self :: "'d FuncState \<Rightarrow> expdesc \<Rightarrow> expdesc \<Rightarrow> (expdesc \<times> expdesc \<times> 'd FuncState) result" where
  "luaK_self fs e key =
     bnd (luaK_exp2anyreg fs e) (\<lambda>(_, e, fs).
     let fs = freeexp fs e; func = freereg fs in
     bnd (luaK_reserveregs fs 2) (\<lambda>fs.
     bnd (luaK_exp2RK fs key) (\<lambda>(k, key, fs).
     bnd (luaK_codeABC fs OP_SELF func (einfo e) k) (\<lambda>(_, fs).
     Inr (e\<lparr>einfo := func, ek := VNONRELOC\<rparr>, key, freeexp fs key)))))"

section \<open>Conditions\<close>

definition invertjump :: "'d FuncState \<Rightarrow> expdesc \<Rightarrow> ('d FuncState) result" where
  "invertjump fs e =
     bnd (getjumpcontrol fs (einfo e)) (\<lambda>p.
     updins fs p (\<lambda>i. SETARG_A i (if GETARG_A i = 0 then 1 else 0)))"

definition jumponcond :: "'d FuncState \<Rightarrow> expdesc \<Rightarrow> int \<Rightarrow> (int \<times> expdesc \<times> 'd FuncState) result" where
  "jumponcond fs e cond =
     (let go = bnd (discharge2anyreg fs e) (\<lambda>(e, fs).
                 bnd (condjump (freeexp fs e) OP_TESTSET NO_REG (einfo e) cond) (\<lambda>(pc, fs). Inr (pc, e, fs)))
      in if ek e = VRELOCABLE
         then bnd (getcode fs e) (\<lambda>ie.
              if GET_OPCODE ie = opcode OP_NOT
              then bnd (condjump (fs\<lparr>fpc := fpc fs - 1\<rparr>) OP_TEST (GETARG_B ie) 0 (if cond = 0 then 1 else 0)) (\<lambda>(pc, fs).
                   Inr (pc, e, fs))
              else go)
         else go)"

definition luaK_goiftrue :: "'d FuncState \<Rightarrow> expdesc \<Rightarrow> (expdesc \<times> 'd FuncState) result" where
  "luaK_goiftrue fs e =
     bnd (luaK_dischargevars fs e) (\<lambda>(e, fs).
     bnd (if ek e \<in> {VK, VKNUM, VTRUE} then Inr (NO_JUMP, e, fs)
          else if ek e = VFALSE then bnd (luaK_jump fs) (\<lambda>(pc, fs). Inr (pc, e, fs))
          else if ek e = VJMP then bnd (invertjump fs e) (\<lambda>fs. Inr (einfo e, e, fs))
          else jumponcond fs e 0) (\<lambda>(pc, e, fs).
     bnd (luaK_concat fs (ef e) pc) (\<lambda>(l, fs).
     bnd (luaK_patchtohere fs (et e)) (\<lambda>fs.
     Inr (e\<lparr>ef := l, et := NO_JUMP\<rparr>, fs)))))"

definition luaK_goiffalse :: "'d FuncState \<Rightarrow> expdesc \<Rightarrow> (expdesc \<times> 'd FuncState) result" where
  "luaK_goiffalse fs e =
     bnd (luaK_dischargevars fs e) (\<lambda>(e, fs).
     bnd (if ek e \<in> {VNIL, VFALSE} then Inr (NO_JUMP, e, fs)
          else if ek e = VTRUE then bnd (luaK_jump fs) (\<lambda>(pc, fs). Inr (pc, e, fs))
          else if ek e = VJMP then Inr (einfo e, e, fs)
          else jumponcond fs e 1) (\<lambda>(pc, e, fs).
     bnd (luaK_concat fs (et e) pc) (\<lambda>(l, fs).
     bnd (luaK_patchtohere fs (ef e)) (\<lambda>fs.
     Inr (e\<lparr>et := l, ef := NO_JUMP\<rparr>, fs)))))"

definition codenot :: "'d FuncState \<Rightarrow> expdesc \<Rightarrow> (expdesc \<times> 'd FuncState) result" where
  "codenot fs e =
     bnd (luaK_dischargevars fs e) (\<lambda>(e, fs).
     bnd (if ek e \<in> {VNIL, VFALSE} then Inr (e\<lparr>ek := VTRUE\<rparr>, fs)
          else if ek e \<in> {VK, VKNUM, VTRUE} then Inr (e\<lparr>ek := VFALSE\<rparr>, fs)
          else if ek e = VJMP then bnd (invertjump fs e) (\<lambda>fs. Inr (e, fs))
          else if ek e \<in> {VRELOCABLE, VNONRELOC}
          then bnd (discharge2anyreg fs e) (\<lambda>(e, fs).
               bnd (luaK_codeABC (freeexp fs e) OP_NOT 0 (einfo e) 0) (\<lambda>(pc, fs).
               Inr (e\<lparr>einfo := pc, ek := VRELOCABLE\<rparr>, fs)))
          else Inr (e, fs)) (\<lambda>(e, fs).
     let e = e\<lparr>ef := et e, et := ef e\<rparr> in
     bnd (removevalues fs (ef e)) (\<lambda>fs.
     bnd (removevalues fs (et e)) (\<lambda>fs. Inr (e, fs)))))"

definition luaK_indexed :: "'d FuncState \<Rightarrow> expdesc \<Rightarrow> expdesc \<Rightarrow> (expdesc \<times> expdesc \<times> 'd FuncState) result" where
  "luaK_indexed fs t k =
     bnd (luaK_exp2RK fs k) (\<lambda>(r, k, fs). Inr (t\<lparr>eaux := r, ek := VINDEXED\<rparr>, k, fs))"

section \<open>Operators\<close>

text \<open>
  \<open>pw\<close> is the function \<open>pow\<close> of the C library. A shift count is taken modulo 32, as the target does
  where C leaves it undefined.
\<close>

definition fold_value :: "(lua_Number \<Rightarrow> lua_Number \<Rightarrow> lua_Number) \<Rightarrow> OpCode \<Rightarrow> lua_Number \<Rightarrow> lua_Number \<Rightarrow> lua_Number option" where
  "fold_value pw op v1 v2 =
     (let u1 = number2uint v1; u2 = number2uint v2; num = (\<lambda>w. cast_num (uint w))
      in case op of
           OP_ADD \<Rightarrow> Some (luai_numadd v1 v2)
         | OP_SUB \<Rightarrow> Some (luai_numsub v1 v2)
         | OP_MUL \<Rightarrow> Some (luai_nummul v1 v2)
         | OP_DIV \<Rightarrow> if luai_numeq v2 0 then None else Some (luai_numdiv v1 v2)
         | OP_MOD \<Rightarrow> if luai_numeq v2 0 then None else Some (luai_nummod v1 v2)
         | OP_POW \<Rightarrow> Some (pw v1 v2)
         | OP_UNM \<Rightarrow> Some (luai_numunm v1)
         | OP_BAND \<Rightarrow> Some (num (u1 AND u2))
         | OP_BOR \<Rightarrow> Some (num (u1 OR u2))
         | OP_BXOR \<Rightarrow> Some (num (u1 XOR u2))
         | OP_BSHL \<Rightarrow> Some (num (push_bit (unat (u2 AND 31)) u1))
         | OP_BSHR \<Rightarrow> Some (num (drop_bit (unat (u2 AND 31)) u1))
         | OP_LEN \<Rightarrow> None
         | _ \<Rightarrow> Some 0)"

definition constfolding ::
  "(lua_Number \<Rightarrow> lua_Number \<Rightarrow> lua_Number) \<Rightarrow> OpCode \<Rightarrow> expdesc \<Rightarrow> expdesc \<Rightarrow> expdesc option" where
  "constfolding pw op e1 e2 =
     (if \<not> isnumeral e1 \<or> \<not> isnumeral e2 then None
      else case fold_value pw op (enval e1) (enval e2) of
        None \<Rightarrow> None
      | Some r \<Rightarrow> if luai_numisnan r then None else Some (e1\<lparr>enval := r\<rparr>))"

definition codearith ::
  "(lua_Number \<Rightarrow> lua_Number \<Rightarrow> lua_Number) \<Rightarrow> 'd FuncState \<Rightarrow> OpCode \<Rightarrow> expdesc \<Rightarrow> expdesc
     \<Rightarrow> (expdesc \<times> 'd FuncState) result" where
  "codearith pw fs op e1 e2 =
     (case constfolding pw op e1 e2 of
        Some e1 \<Rightarrow> Inr (e1, fs)
      | None \<Rightarrow>
          bnd (luaK_exp2RK fs e1) (\<lambda>(o1, e1, fs).
          bnd (if op \<noteq> OP_UNM \<and> op \<noteq> OP_LEN then luaK_exp2RK fs e2 else Inr (0, e2, fs)) (\<lambda>(o2, e2, fs).
          bnd (luaK_codeABC (freeexp (freeexp fs e2) e1) op 0 o1 o2) (\<lambda>(pc, fs).
          Inr (e1\<lparr>einfo := pc, ek := VRELOCABLE\<rparr>, fs)))))"

definition codecomp :: "'d FuncState \<Rightarrow> OpCode \<Rightarrow> int \<Rightarrow> expdesc \<Rightarrow> expdesc \<Rightarrow> (expdesc \<times> 'd FuncState) result" where
  "codecomp fs op cond e1 e2 =
     bnd (luaK_exp2RK fs e1) (\<lambda>(o1, e1, fs).
     bnd (luaK_exp2RK fs e2) (\<lambda>(o2, e2, fs).
     let (o1, o2, cond) = (if cond = 0 \<and> op \<noteq> OP_EQ then (o2, o1, 1) else (o1, o2, cond)) in
     bnd (condjump (freeexp (freeexp fs e2) e1) op cond o1 o2) (\<lambda>(pc, fs).
     Inr (e1\<lparr>einfo := pc, ek := VJMP\<rparr>, fs))))"

definition luaK_prefix ::
  "(lua_Number \<Rightarrow> lua_Number \<Rightarrow> lua_Number) \<Rightarrow> 'd FuncState \<Rightarrow> UnOpr \<Rightarrow> expdesc \<Rightarrow> (expdesc \<times> 'd FuncState) result" where
  "luaK_prefix pw fs op e =
     (let e2 = \<lparr>ek = VKNUM, einfo = 0, eaux = 0, enval = 0, et = NO_JUMP, ef = NO_JUMP\<rparr>
      in case op of
           OPR_MINUS \<Rightarrow>
             bnd (if ek e = VK then luaK_exp2anyreg fs e else Inr (0, e, fs)) (\<lambda>(_, e, fs).
             codearith pw fs OP_UNM e e2)
         | OPR_NOT \<Rightarrow> codenot fs e
         | OPR_LEN \<Rightarrow> bnd (luaK_exp2anyreg fs e) (\<lambda>(_, e, fs). codearith pw fs OP_LEN e e2)
         | OPR_NOUNOPR \<Rightarrow> Inr (e, fs))"

definition luaK_infix :: "'d FuncState \<Rightarrow> BinOpr \<Rightarrow> expdesc \<Rightarrow> (expdesc \<times> 'd FuncState) result" where
  "luaK_infix fs op v =
     (case op of
        OPR_AND \<Rightarrow> luaK_goiftrue fs v
      | OPR_OR \<Rightarrow> luaK_goiffalse fs v
      | OPR_CONCAT \<Rightarrow> luaK_exp2nextreg fs v
      | _ \<Rightarrow> if \<not> isnumeral v then bnd (luaK_exp2RK fs v) (\<lambda>(_, v, fs). Inr (v, fs)) else Inr (v, fs))"

definition luaK_posfix ::
  "(lua_Number \<Rightarrow> lua_Number \<Rightarrow> lua_Number) \<Rightarrow> 'd FuncState \<Rightarrow> BinOpr \<Rightarrow> expdesc \<Rightarrow> expdesc
     \<Rightarrow> (expdesc \<times> 'd FuncState) result" where
  "luaK_posfix pw fs op e1 e2 =
     (case op of
        OPR_AND \<Rightarrow>
          bnd (luaK_dischargevars fs e2) (\<lambda>(e2, fs).
          bnd (luaK_concat fs (ef e2) (ef e1)) (\<lambda>(l, fs). Inr (e2\<lparr>ef := l\<rparr>, fs)))
      | OPR_OR \<Rightarrow>
          bnd (luaK_dischargevars fs e2) (\<lambda>(e2, fs).
          bnd (luaK_concat fs (et e2) (et e1)) (\<lambda>(l, fs). Inr (e2\<lparr>et := l\<rparr>, fs)))
      | OPR_CONCAT \<Rightarrow>
          bnd (luaK_exp2val fs e2) (\<lambda>(e2, fs).
          let go = bnd (luaK_exp2nextreg fs e2) (\<lambda>(e2, fs). codearith pw fs OP_CONCAT e1 e2)
          in if ek e2 = VRELOCABLE
             then bnd (getcode fs e2) (\<lambda>i.
                  if GET_OPCODE i = opcode OP_CONCAT
                  then bnd (updins (freeexp fs e1) (einfo e2) (\<lambda>i. SETARG_B i (einfo e1))) (\<lambda>fs.
                       Inr (e1\<lparr>ek := VRELOCABLE, einfo := einfo e2\<rparr>, fs))
                  else go)
             else go)
      | OPR_ADD \<Rightarrow> codearith pw fs OP_ADD e1 e2
      | OPR_SUB \<Rightarrow> codearith pw fs OP_SUB e1 e2
      | OPR_MUL \<Rightarrow> codearith pw fs OP_MUL e1 e2
      | OPR_DIV \<Rightarrow> codearith pw fs OP_DIV e1 e2
      | OPR_MOD \<Rightarrow> codearith pw fs OP_MOD e1 e2
      | OPR_POW \<Rightarrow> codearith pw fs OP_POW e1 e2
      | OPR_BAND \<Rightarrow> codearith pw fs OP_BAND e1 e2
      | OPR_BOR \<Rightarrow> codearith pw fs OP_BOR e1 e2
      | OPR_BXOR \<Rightarrow> codearith pw fs OP_BXOR e1 e2
      | OPR_BSHL \<Rightarrow> codearith pw fs OP_BSHL e1 e2
      | OPR_BSHR \<Rightarrow> codearith pw fs OP_BSHR e1 e2
      | OPR_EQ \<Rightarrow> codecomp fs OP_EQ 1 e1 e2
      | OPR_NE \<Rightarrow> codecomp fs OP_EQ 0 e1 e2
      | OPR_LT \<Rightarrow> codecomp fs OP_LT 1 e1 e2
      | OPR_LE \<Rightarrow> codecomp fs OP_LE 1 e1 e2
      | OPR_GT \<Rightarrow> codecomp fs OP_LT 0 e1 e2
      | OPR_GE \<Rightarrow> codecomp fs OP_LE 0 e1 e2
      | OPR_NOBINOPR \<Rightarrow> Inr (e1, fs))"

definition luaK_setlist :: "'d FuncState \<Rightarrow> int \<Rightarrow> int \<Rightarrow> int \<Rightarrow> ('d FuncState) result" where
  "luaK_setlist fs base nelems tostore =
     (let c = (nelems - 1) sdiv LFIELDS_PER_FLUSH + 1; b = (if tostore = LUA_MULTRET then 0 else tostore)
      in bnd (if c \<le> MAXARG_C then luaK_codeABC fs OP_SETLIST base b c
              else bnd (luaK_codeABC fs OP_SETLIST base b 0) (\<lambda>(_, fs).
                   luaK_code fs (word_of_int c) (lastline (fls fs)))) (\<lambda>(_, fs).
         Inr (fs\<lparr>freereg := base + 1\<rparr>)))"

end
