(* ===== verification/CodeJumps.thy ===== *)
theory CodeJumps
  imports CodeGen
begin

text \<open>
  The jump lists of the code generator: a list of pending jumps is threaded through the jump
  instructions themselves. Here it is related to the list of their positions, and \<open>patchlistaux\<close>,
  \<open>luaK_concat\<close> and \<open>luaK_code\<close> to what they do to those positions.
\<close>

section \<open>Jump lists\<close>

lemma with_code_simps [simp]:
  "code (with_code c P) = c" "lineinfo (with_code c P) = lineinfo P" "pk (with_code c P) = pk P"
  "maxstacksize (with_code c P) = maxstacksize P" "with_code c (with_code c' P) = with_code c P"
  "with_code (code P) P = P"
  by (cases P; simp)+

lemma with_lineinfo_simps [simp]:
  "code (with_lineinfo l P) = code P" "lineinfo (with_lineinfo l P) = l"
  "pk (with_lineinfo l P) = pk P" "maxstacksize (with_lineinfo l P) = maxstacksize P"
  by (cases P; simp)+

definition set_code :: "Instruction list \<Rightarrow> 'd FuncState \<Rightarrow> 'd FuncState" where
  "set_code c fs = fs\<lparr>fproto := with_code c (fproto fs)\<rparr>"

lemma set_code_simps [simp]:
  "code (fproto (set_code c fs)) = c" "fls (set_code c fs) = fls fs" "set_code c (set_code c' fs) = set_code c fs"
  "lineinfo (fproto (set_code c fs)) = lineinfo (fproto fs)" "set_code (code (fproto fs)) fs = fs"
  "fpc (set_code c fs) = fpc fs" "jpc (set_code c fs) = jpc fs" "freereg (set_code c fs) = freereg fs"
  "lasttarget (set_code c fs) = lasttarget fs" "fnk (set_code c fs) = fnk fs"
  "nactvar (set_code c fs) = nactvar fs" "pk (fproto (set_code c fs)) = pk (fproto fs)"
  "maxstacksize (fproto (set_code c fs)) = maxstacksize (fproto fs)"
  by (simp_all add: set_code_def)

text \<open>A jump at \<open>p\<close>, and the jump it is linked to.\<close>

definition is_jump :: "Instruction list \<Rightarrow> int \<Rightarrow> bool" where
  "is_jump c p \<longleftrightarrow> 0 \<le> p \<and> p < int (length c) \<and> GET_OPCODE (c ! nat p) = opcode OP_JMP
     \<and> (p \<ge> 1 \<longrightarrow> GET_OPCODE (c ! nat (p - 1)) < NUM_OPCODES)"

definition jump_link :: "Instruction list \<Rightarrow> int \<Rightarrow> int" where
  "jump_link c p = (if GETARG_sBx (c ! nat p) = NO_JUMP then NO_JUMP else p + 1 + GETARG_sBx (c ! nat p))"

fun jump_list :: "Instruction list \<Rightarrow> int \<Rightarrow> int list \<Rightarrow> bool" where
  "jump_list c l [] \<longleftrightarrow> l = NO_JUMP"
| "jump_list c l (p # ps) \<longleftrightarrow> l = p \<and> is_jump c p \<and> jump_list c (jump_link c p) ps"

lemma is_jump_pos: "is_jump c p \<Longrightarrow> 0 \<le> p \<and> p < int (length c) \<and> p \<noteq> NO_JUMP"
  by (simp add: is_jump_def NO_JUMP_def)

lemma jump_list_jumps: "jump_list c l ps \<Longrightarrow> p \<in> set ps \<Longrightarrow> is_jump c p"
  by (induction ps arbitrary: l) auto

lemma jump_list_unique: "jump_list c l ps \<Longrightarrow> jump_list c l qs \<Longrightarrow> ps = qs"
proof (induction ps arbitrary: l qs)
  case Nil
  then show ?case by (cases qs) (auto dest: is_jump_pos)
next
  case (Cons p ps)
  then show ?case by (cases qs) (auto dest: is_jump_pos)
qed

lemma jump_list_suffix: "jump_list c l (as @ p # ps) \<Longrightarrow> jump_list c p (p # ps)"
  by (induction as arbitrary: l) auto

lemma jump_list_distinct: "jump_list c l ps \<Longrightarrow> distinct ps"
proof (rule ccontr)
  assume l: "jump_list c l ps" and "\<not> distinct ps"
  then obtain as p bs ds where ps: "ps = as @ p # (bs @ p # ds)"
    using not_distinct_decomp by fastforce
  then have "ps = (as @ p # bs) @ p # ds" by simp
  with l have "jump_list c p (p # ds)" by (metis jump_list_suffix)
  moreover from l ps have "jump_list c p (p # (bs @ p # ds))" by (metis jump_list_suffix)
  ultimately have "p # ds = p # (bs @ p # ds)" by (rule jump_list_unique)
  then have "length (p # ds) = length (p # (bs @ p # ds))" by (rule arg_cong)
  then show False by simp
qed

lemma jump_list_length: "jump_list c l ps \<Longrightarrow> length ps \<le> length c"
proof -
  assume l: "jump_list c l ps"
  have "set ps \<subseteq> int ` {..<length c}"
    using jump_list_jumps [OF l] by (force simp: is_jump_def image_iff intro: bexI [of _ "nat _"])
  then have "card (set ps) \<le> card (int ` {..<length c})" by (intro card_mono) auto
  also have "\<dots> = length c" by (simp add: card_image)
  finally show ?thesis using jump_list_distinct [OF l] by (simp add: distinct_card)
qed

text \<open>A list depends only on its jumps, their links and the words before them.\<close>

lemma jump_list_cong:
  assumes "jump_list c l ps" and "\<And>p. p \<in> set ps \<Longrightarrow> p < int (length c')"
    and "\<And>p. p \<in> set ps \<Longrightarrow> c' ! nat p = c ! nat p"
    and "\<And>p. p \<in> set ps \<Longrightarrow> p \<ge> 1 \<Longrightarrow> GET_OPCODE (c' ! nat (p - 1)) < NUM_OPCODES"
  shows "jump_list c' l ps"
  using assms by (induction ps arbitrary: l) (auto simp: is_jump_def jump_link_def)

lemma getins_simps [simp]:
  "0 \<le> p \<Longrightarrow> p < sizecode (fproto fs) \<Longrightarrow> getins fs p = Inr (code (fproto fs) ! nat p)"
  by (simp add: getins_def)

lemma updins_simps [simp]:
  "0 \<le> p \<Longrightarrow> p < sizecode (fproto fs)
     \<Longrightarrow> updins fs p f = Inr (set_code ((code (fproto fs))[nat p := f (code (fproto fs) ! nat p)]) fs)"
  by (simp add: updins_def set_code_def)

lemma getjump_link: "is_jump (code (fproto fs)) p \<Longrightarrow> getjump fs p = Inr (jump_link (code (fproto fs)) p)"
  by (simp add: getjump_def is_jump_def jump_link_def)

section \<open>Patching a list\<close>

text \<open>Whether the jump at \<open>p\<close> is controlled by an \<open>OP_TESTSET\<close>, that is, produces a value.\<close>

definition value_jump :: "Instruction list \<Rightarrow> int \<Rightarrow> bool" where
  "value_jump c p \<longleftrightarrow> p \<ge> 1 \<and> GET_OPCODE (c ! nat (p - 1)) = opcode OP_TESTSET"

definition patched_test :: "int \<Rightarrow> Instruction \<Rightarrow> Instruction" where
  "patched_test reg i =
     (if reg \<noteq> NO_REG \<and> reg \<noteq> GETARG_B i then SETARG_A i reg
      else CREATE_ABC (opcode OP_TEST) (GETARG_B i) 0 (GETARG_C i))"

text \<open>
  The instruction at \<open>q\<close> after the jumps \<open>P\<close> were patched: a jump goes to \<open>vt\<close> if it produces a
  value and to \<open>dt\<close> otherwise, the test that produces the value is given its register, and nothing
  else changes.
\<close>

definition patched :: "Instruction list \<Rightarrow> int set \<Rightarrow> int \<Rightarrow> int \<Rightarrow> int \<Rightarrow> nat \<Rightarrow> Instruction" where
  "patched c P vt reg dt q =
     (if int q \<in> P then SETARG_sBx (c ! q) ((if value_jump c (int q) then vt else dt) - (int q + 1))
      else if int q + 1 \<in> P \<and> GET_OPCODE (c ! q) = opcode OP_TESTSET then patched_test reg (c ! q)
      else c ! q)"

definition patch_code :: "Instruction list \<Rightarrow> int set \<Rightarrow> int \<Rightarrow> int \<Rightarrow> int \<Rightarrow> Instruction list" where
  "patch_code c P vt reg dt = map (patched c P vt reg dt) [0..<length c]"

lemma length_patch_code [simp]: "length (patch_code c P vt reg dt) = length c"
  by (simp add: patch_code_def)

lemma patch_code_nth: "q < length c \<Longrightarrow> patch_code c P vt reg dt ! q = patched c P vt reg dt q"
  by (simp add: patch_code_def)

lemma patch_code_empty [simp]: "patch_code c {} vt reg dt = c"
  by (rule nth_equalityI) (simp_all add: patch_code_nth patched_def)

lemma GET_OPCODE_CREATE: "op < 64 \<Longrightarrow> GET_OPCODE (CREATE_ABC op a b c) = op"
  by (simp add: macro_get CREATE_ABC_def field_layout fld_or fld_push_above unat_of_op take_bit_op
      fld_push_same [of 6 0 "of_nat op", simplified])

lemma GET_OPCODE_patched_test:
  "GET_OPCODE i = opcode OP_TESTSET \<Longrightarrow>
     GET_OPCODE (patched_test reg i) = opcode OP_TEST \<or> GET_OPCODE (patched_test reg i) = opcode OP_TESTSET"
  by (auto simp: patched_test_def fields GET_OPCODE_CREATE opcode_lt)

lemma patched_opcode:
  "GET_OPCODE (c ! q) \<noteq> opcode OP_TESTSET \<Longrightarrow> GET_OPCODE (patched c P vt reg dt q) = GET_OPCODE (c ! q)"
  by (simp add: patched_def fields)

lemma patched_opcode_bound:
  "GET_OPCODE (c ! q) < NUM_OPCODES \<Longrightarrow> GET_OPCODE (patched c P vt reg dt q) < NUM_OPCODES"
  using GET_OPCODE_patched_test [of "c ! q" reg]
  by (auto simp: patched_def fields dest: arg_cong [of _ _ "\<lambda>n. n < NUM_OPCODES"]) (metis opcode_lt(1))+

text \<open>A list survives the patching of others.\<close>

lemma jump_opcodes: "opcode OP_JMP \<noteq> opcode OP_TESTSET" "opcode OP_JMP < NUM_OPCODES"
  by (simp_all add: opcode_lt)

lemma jump_list_patch_code:
  assumes l: "jump_list c l ps" and "P \<inter> set ps = {}"
  shows "jump_list (patch_code c P vt reg dt) l ps"
proof (rule jump_list_cong [OF l])
  fix p assume p: "p \<in> set ps"
  then have j: "is_jump c p" using l by (rule jump_list_jumps [rotated])
  have "nat p < length c" "int (nat p) = p" "int (nat p) \<notin> P" using j p assms(2) by (auto simp: is_jump_def)
  then show "patch_code c P vt reg dt ! nat p = c ! nat p"
    using j by (simp add: patch_code_nth patched_def is_jump_def jump_opcodes)
  assume "p \<ge> 1"
  then have "nat (p - 1) < length c" "GET_OPCODE (c ! nat (p - 1)) < NUM_OPCODES"
    using j by (auto simp: is_jump_def)
  then show "GET_OPCODE (patch_code c P vt reg dt ! nat (p - 1)) < NUM_OPCODES"
    by (simp add: patch_code_nth patched_opcode_bound)
qed (use jump_list_jumps [OF l] in \<open>auto simp: is_jump_def\<close>)

lemma value_jump_patch_one:
  assumes "is_jump c p" "is_jump c q" "p \<noteq> q"
  shows "value_jump (patch_code c {p} vt reg dt) q = value_jump c q"
proof (cases "q \<ge> 1")
  case True
  then have "nat (q - 1) < length c" "int (nat (q - 1)) = q - 1" using assms(2) by (auto simp: is_jump_def)
  with True assms show ?thesis
    by (cases "q - 1 = p") (auto simp: value_jump_def patch_code_nth patched_def is_jump_def fields)
qed (simp add: value_jump_def)

lemma patch_code_insert:
  assumes p: "is_jump c p" and P: "\<And>q. q \<in> P \<Longrightarrow> is_jump c q" and "p \<notin> P"
  shows "patch_code (patch_code c {p} vt reg dt) P vt reg dt = patch_code c (insert p P) vt reg dt"
proof (rule nth_equalityI)
  fix q assume "q < length (patch_code (patch_code c {p} vt reg dt) P vt reg dt)"
  then have q: "q < length c" by simp
  let ?c = "patch_code c {p} vt reg dt"
  have no_test: "GET_OPCODE (c ! q) \<noteq> opcode OP_TESTSET" if "int q = p \<or> int q \<in> P"
    using that p P [of "int q"] by (auto simp: is_jump_def jump_opcodes)
  consider "int q = p" | "int q \<in> P" | "int q \<noteq> p" "int q \<notin> P" by blast
  then show "patch_code ?c P vt reg dt ! q = patch_code c (insert p P) vt reg dt ! q"
  proof cases
    case 1
    with q assms(3) no_test show ?thesis by (auto simp: patch_code_nth patched_def fields)
  next
    case 2
    then have "int q \<noteq> p" using assms(3) by blast
    with 2 q no_test show ?thesis
      by (simp add: patch_code_nth patched_def [of ?c] patched_def [of c] value_jump_patch_one [OF p P])
  next
    case 3
    with q assms(3) show ?thesis by (auto simp: patch_code_nth patched_def)
  qed
qed simp

lemma patchtestreg_jump:
  assumes "is_jump (code (fproto fs)) p"
  shows "patchtestreg fs p reg = Inr (value_jump (code (fproto fs)) p,
    set_code (if value_jump (code (fproto fs)) p
      then (code (fproto fs))[nat (p - 1) := patched_test reg (code (fproto fs) ! nat (p - 1))]
      else code (fproto fs)) fs)"
proof (cases "p \<ge> 1 \<and> testTMode (GET_OPCODE (code (fproto fs) ! nat (p - 1)))")
  case True
  then show ?thesis
    using assms by (auto simp: patchtestreg_def getjumpcontrol_def is_jump_def value_jump_def patched_test_def)
next
  case False
  then have "\<not> value_jump (code (fproto fs)) p" by (auto simp: value_jump_def testTMode_opcode)
  moreover have "getjumpcontrol fs p = Inr p" using False assms by (auto simp: getjumpcontrol_def is_jump_def)
  ultimately show ?thesis using assms by (simp add: patchtestreg_def is_jump_def jump_opcodes)
qed

lemma fixjump_ok:
  assumes "0 \<le> p" "p < sizecode (fproto fs)" "\<bar>d - (p + 1)\<bar> \<le> MAXARG_sBx"
  shows "fixjump fs p d =
    Inr (set_code ((code (fproto fs))[nat p := SETARG_sBx (code (fproto fs) ! nat p) (d - (p + 1))]) fs)"
  using assms by (simp add: fixjump_def Let_def)

text \<open>One round of \<open>patchlistaux\<close>.\<close>

lemma patch_one:
  assumes j: "is_jump (code (fproto fs)) p"
    and "\<bar>vt - (p + 1)\<bar> \<le> MAXARG_sBx" "\<bar>dt - (p + 1)\<bar> \<le> MAXARG_sBx"
  shows "bnd (patchtestreg fs p reg) (\<lambda>(v, fs). fixjump fs p (if v then vt else dt)) =
    Inr (set_code (patch_code (code (fproto fs)) {p} vt reg dt) fs)"
proof -
  let ?c = "code (fproto fs)"
  let ?c1 = "if value_jump ?c p then ?c[nat (p - 1) := patched_test reg (?c ! nat (p - 1))] else ?c"
  have p: "0 \<le> p" "nat p < length ?c" using j by (auto simp: is_jump_def)
  have e: "?c1[nat p := SETARG_sBx (?c1 ! nat p) ((if value_jump ?c p then vt else dt) - (p + 1))]
      = patch_code ?c {p} vt reg dt"
  proof (rule nth_equalityI)
    fix q assume "q < length (?c1[nat p := SETARG_sBx (?c1 ! nat p) ((if value_jump ?c p then vt else dt) - (p + 1))])"
    then have q: "q < length ?c" by (simp split: if_splits)
    consider "int q = p" | "int q + 1 = p" | "int q \<noteq> p" "int q + 1 \<noteq> p" by blast
    then show "?c1[nat p := SETARG_sBx (?c1 ! nat p) ((if value_jump ?c p then vt else dt) - (p + 1))] ! q
        = patch_code ?c {p} vt reg dt ! q"
    proof cases
      case 1
      with q p show ?thesis by (auto simp: patch_code_nth patched_def value_jump_def nth_list_update)
    next
      case 2
      then have "nat (p - 1) = q" "nat p \<noteq> q" "p \<ge> 1" by auto
      with 2 q show ?thesis by (auto simp: patch_code_nth patched_def value_jump_def nth_list_update)
    next
      case 3
      then have "nat p \<noteq> q" "value_jump ?c p \<Longrightarrow> nat (p - 1) \<noteq> q" using p by (auto simp: value_jump_def)
      with 3 q show ?thesis by (auto simp: patch_code_nth patched_def nth_list_update)
    qed
  qed simp
  have "fixjump (set_code ?c1 fs) p (if value_jump ?c p then vt else dt) =
      Inr (set_code (?c1[nat p := SETARG_sBx (?c1 ! nat p) ((if value_jump ?c p then vt else dt) - (p + 1))]) fs)"
    using assms p by (subst fixjump_ok) auto
  with e show ?thesis by (simp add: patchtestreg_jump [OF j])
qed

lemma patchlist_loop_list:
  assumes "jump_list (code (fproto fs)) l ps" and "length ps < n"
    and "\<And>p. p \<in> set ps \<Longrightarrow> \<bar>vt - (p + 1)\<bar> \<le> MAXARG_sBx \<and> \<bar>dt - (p + 1)\<bar> \<le> MAXARG_sBx"
  shows "patchlist_loop n fs l vt reg dt =
    Inr (set_code (patch_code (code (fproto fs)) (set ps) vt reg dt) fs)"
  using assms
proof (induction ps arbitrary: n fs l)
  case Nil
  then show ?case by (cases n) auto
next
  case (Cons p ps)
  let ?c = "code (fproto fs)" and ?c1 = "patch_code (code (fproto fs)) {p} vt reg dt"
  from Cons.prems obtain m where n: "n = Suc m" and m: "length ps < m" by (cases n) auto
  from Cons.prems(1) have l: "l = p" and j: "is_jump ?c p" and t: "jump_list ?c (jump_link ?c p) ps" by auto
  have d: "p \<notin> set ps" using jump_list_distinct [OF Cons.prems(1)] by simp
  have "jump_list ?c1 (jump_link ?c p) ps" using t d by (auto intro: jump_list_patch_code)
  then have "patchlist_loop m (set_code ?c1 fs) (jump_link ?c p) vt reg dt =
      Inr (set_code (patch_code ?c1 (set ps) vt reg dt) fs)"
    using Cons.IH [of "set_code ?c1 fs" "jump_link ?c p" m] m Cons.prems(3) by simp
  moreover have "patch_code ?c1 (set ps) vt reg dt = patch_code ?c (set (p # ps)) vt reg dt"
    using patch_code_insert [OF j _ d] jump_list_jumps [OF t] by simp
  moreover have "patchlist_loop n fs l vt reg dt =
      bnd (bnd (patchtestreg fs p reg) (\<lambda>(v, fs). fixjump fs p (if v then vt else dt)))
        (\<lambda>fs. patchlist_loop m fs (jump_link ?c p) vt reg dt)"
    using j by (simp add: n l getjump_link is_jump_pos bnd_assoc case_prod_unfold)
  ultimately show ?case using patch_one [OF j] Cons.prems(3) by simp
qed

lemma patchlistaux_list:
  assumes "jump_list (code (fproto fs)) l ps"
    and "\<And>p. p \<in> set ps \<Longrightarrow> \<bar>vt - (p + 1)\<bar> \<le> MAXARG_sBx \<and> \<bar>dt - (p + 1)\<bar> \<le> MAXARG_sBx"
  shows "patchlistaux fs l vt reg dt =
    Inr (set_code (patch_code (code (fproto fs)) (set ps) vt reg dt) fs)"
  unfolding patchlistaux_def jump_fuel_def
  using assms jump_list_length [OF assms(1)] by (intro patchlist_loop_list) auto

section \<open>Joining lists\<close>

definition list_head :: "int list \<Rightarrow> int" where
  "list_head ps = (case ps of [] \<Rightarrow> NO_JUMP | p # _ \<Rightarrow> p)"

lemma list_head_simps [simp]: "list_head [] = NO_JUMP" "list_head (p # ps) = p"
  by (simp_all add: list_head_def)

lemma jump_list_head: "jump_list c l ps \<Longrightarrow> l = list_head ps"
  by (cases ps) auto

text \<open>The code with the list \<open>qs\<close> linked to the end of \<open>ps\<close>.\<close>

definition link_code :: "Instruction list \<Rightarrow> int list \<Rightarrow> int list \<Rightarrow> Instruction list" where
  "link_code c ps qs =
     (if ps = [] \<or> qs = [] then c
      else c[nat (last ps) := SETARG_sBx (c ! nat (last ps)) (hd qs - (last ps + 1))])"

lemma length_link_code [simp]: "length (link_code c ps qs) = length c"
  by (simp add: link_code_def)

lemma link_code_nth: "q < length c \<Longrightarrow> q \<noteq> nat (last ps) \<Longrightarrow> link_code c ps qs ! q = c ! q"
  by (simp add: link_code_def)

lemma link_code_opcode: "GET_OPCODE (link_code c ps qs ! q) = GET_OPCODE (c ! q)"
  by (cases "q = nat (last ps)"; cases "q < length c") (auto simp: link_code_def fields nth_list_update list_update_beyond)

lemma jump_list_link_other:
  assumes l: "jump_list c l rs" and "set ps \<inter> set rs = {}" and "\<And>p. p \<in> set ps \<Longrightarrow> 0 \<le> p"
  shows "jump_list (link_code c ps qs) l rs"
proof (rule jump_list_cong [OF l])
  fix p assume p: "p \<in> set rs"
  then have j: "is_jump c p" using l by (rule jump_list_jumps [rotated])
  show "link_code c ps qs ! nat p = c ! nat p"
  proof (cases "ps = []")
    case False
    then have "0 \<le> last ps" "last ps \<noteq> p" using assms(2,3) p by (metis disjoint_iff last_in_set)+
    then show ?thesis using j by (intro link_code_nth) (auto simp: is_jump_def)
  qed (simp add: link_code_def)
  show "p \<ge> 1 \<Longrightarrow> GET_OPCODE (link_code c ps qs ! nat (p - 1)) < NUM_OPCODES"
    using j by (simp add: link_code_opcode is_jump_def)
qed (use jump_list_jumps [OF l] in \<open>auto simp: is_jump_def\<close>)

lemma jump_list_link:
  assumes "jump_list c l ps" and q: "jump_list c l2 qs" and "set ps \<inter> set qs = {}"
    and "ps \<noteq> []" and "qs \<noteq> []" and off: "\<bar>hd qs - (last ps + 1)\<bar> \<le> MAXARG_sBx"
  shows "jump_list (link_code c ps qs) l (ps @ qs)"
  using assms(1,3,4) off
proof (induction ps arbitrary: l)
  case Nil
  then show ?case by simp
next
  case (Cons p ps)
  then have j: "is_jump c p" and t: "jump_list c (jump_link c p) ps" and l: "l = p" by auto
  have pos: "x \<in> set (p # ps) \<Longrightarrow> 0 \<le> x" for x
    using jump_list_jumps [OF Cons.prems(1)] by (auto simp: is_jump_def)
  have d: "distinct (p # ps)" using Cons.prems(1) by (rule jump_list_distinct)
  have isj: "is_jump (link_code c xs qs) p" for xs
    using j by (simp add: is_jump_def link_code_opcode)
  show ?case
  proof (cases "ps = []")
    case True
    let ?c = "link_code c [p] qs"
    have "nat p < length c" using j unfolding is_jump_def by linarith
    then have "?c ! nat p = SETARG_sBx (c ! nat p) (hd qs - (p + 1))"
      using assms(5) by (simp add: link_code_def)
    moreover have "hd qs \<noteq> p" using Cons.prems(2) assms(5) by (cases qs) auto
    ultimately have "jump_link ?c p = hd qs"
      using Cons.prems(4) True by (simp add: jump_link_def NO_JUMP_def fields)
    moreover have "jump_list ?c (hd qs) qs"
      using jump_list_link_other [OF q, of "[p]" qs] Cons.prems(2) pos jump_list_head [OF q] assms(5)
      by (cases qs) auto
    ultimately show ?thesis using True l isj by simp
  next
    case False
    then have e: "link_code c (p # ps) qs = link_code c ps qs" by (simp add: link_code_def)
    have "last ps \<noteq> p" "0 \<le> last ps" using False d pos by (metis distinct.simps(2) last_in_set list.set_intros(2))+
    then have "link_code c ps qs ! nat p = c ! nat p" using j by (intro link_code_nth) (auto simp: is_jump_def)
    then have "jump_link (link_code c ps qs) p = jump_link c p" by (simp add: jump_link_def)
    moreover have "jump_list (link_code c ps qs) (jump_link c p) (ps @ qs)"
      using Cons.IH [OF t] Cons.prems(2,4) False by simp
    ultimately show ?thesis using e l isj by simp
  qed
qed

lemma last_jump_list:
  assumes "jump_list (code (fproto fs)) l ps" and "ps \<noteq> []" and "length ps \<le> n"
  shows "last_jump n fs l = Inr (last ps)"
  using assms
proof (induction ps arbitrary: n l)
  case (Cons p ps)
  then obtain m where n: "n = Suc m" by (cases n) auto
  from Cons.prems have j: "is_jump (code (fproto fs)) p" and l: "l = p"
    and t: "jump_list (code (fproto fs)) (jump_link (code (fproto fs)) p) ps" by auto
  show ?case
  proof (cases ps)
    case Nil
    with t l j n show ?thesis by (simp add: getjump_link)
  next
    case (Cons q qs)
    with t have "jump_link (code (fproto fs)) p \<noteq> NO_JUMP" by (auto dest: is_jump_pos)
    with Cons Cons.IH [OF t, of m] Cons.prems(3) l j n show ?thesis by (simp add: getjump_link)
  qed
qed simp

lemma luaK_concat_list:
  assumes p: "jump_list (code (fproto fs)) l1 ps" and q: "jump_list (code (fproto fs)) l2 qs"
    and "\<And>p q. p \<in> set ps \<Longrightarrow> q \<in> set qs \<Longrightarrow> \<bar>q - (p + 1)\<bar> \<le> MAXARG_sBx"
  shows "luaK_concat fs l1 l2 =
    Inr (list_head (ps @ qs), set_code (link_code (code (fproto fs)) ps qs) fs)"
proof -
  consider "qs = []" | "ps = []" "qs \<noteq> []" | "ps \<noteq> []" "qs \<noteq> []" by blast
  then show ?thesis
  proof cases
    case 1
    with q jump_list_head [OF p] show ?thesis by (simp add: luaK_concat_def link_code_def)
  next
    case 2
    with p q jump_list_head [OF q] show ?thesis
      by (auto simp: luaK_concat_def link_code_def neq_Nil_conv dest: is_jump_pos)
  next
    case 3
    then have l1: "l1 \<noteq> NO_JUMP" "l1 = list_head (ps @ qs)" and l2: "l2 \<noteq> NO_JUMP" "l2 = hd qs"
      using p q by (auto simp: neq_Nil_conv dest: is_jump_pos)
    have "last_jump (jump_fuel fs) fs l1 = Inr (last ps)"
      using p 3(1) jump_list_length [OF p] by (intro last_jump_list) (auto simp: jump_fuel_def)
    moreover have "is_jump (code (fproto fs)) (last ps)" using p 3(1) by (metis jump_list_jumps last_in_set)
    then have "fixjump fs (last ps) (hd qs) = Inr (set_code (link_code (code (fproto fs)) ps qs) fs)"
      using assms(3) [of "last ps" "hd qs"] 3 by (subst fixjump_ok) (auto simp: is_jump_def link_code_def)
    ultimately show ?thesis using l1 l2 by (simp add: luaK_concat_def)
  qed
qed

end
