(* ===== verification/CodeEmit.thy ===== *)
theory CodeEmit
  imports CodeJumps
begin

text \<open>
  Emitting instructions: the invariant of a function being compiled, what \<open>luaK_code\<close> and the
  operations over it do to the code array, and the properties of the jump lists.
\<close>

section \<open>The function being compiled\<close>

text \<open>
  The code array has room for the \<open>fpc fs\<close> instructions emitted, its size is at most twice that, and
  the jumps \<open>ps\<close> wait for the next instruction.
\<close>

definition fs_ok :: "'d FuncState \<Rightarrow> int list \<Rightarrow> bool" where
  "fs_ok fs ps \<longleftrightarrow> 0 \<le> fpc fs \<and> fpc fs \<le> sizecode (fproto fs) \<and> fpc fs \<le> sizelineinfo (fproto fs)
     \<and> sizecode (fproto fs) \<le> 2 * fpc fs + 4 \<and> sizelineinfo (fproto fs) \<le> 2 * fpc fs + 4
     \<and> jump_list (code (fproto fs)) (jpc fs) ps \<and> (\<forall>p\<in>set ps. p < fpc fs)"

lemma growvector_room:
  assumes "0 \<le> n" "n \<le> int (length v)" "int (length v) \<le> 2 * n + 4" "n \<le> MAXARG_sBx"
  shows "\<exists>w. luaM_growvector v n 4 MAX_INT x msg = Inr (v @ w) \<and> n < int (length (v @ w))
    \<and> int (length (v @ w)) \<le> 2 * (n + 1) + 4"
proof (cases "n + 1 > int (length v)")
  case False
  then show ?thesis using assms by (intro exI [of _ "[]"]) (simp add: luaM_growvector_def)
next
  case True
  then have n: "int (length v) = n" using assms by simp
  let ?sz = "if n * 2 < 4 then 4 else n * 2"
  have b: "n \<le> 131071" using assms(4) by (simp add: MAXARG_sBx_def MAXARG_Bx_def field_layout drop_bit_eq_div)
  have "luaM_reallocv (c_uint ?sz) 4 = Inr ()"
    using b assms(1) by (simp add: luaM_reallocv_Inr MAX_SIZET_def word_le_def uint_word_ariths)
  moreover have "\<not> n \<ge> MAX_INT div 2" using b by (simp add: MAX_INT_def INT_MAX_def)
  ultimately have "luaM_growaux n 4 MAX_INT msg = Inr ?sz"
    by (simp only: luaM_growaux_def MINSIZEARRAY_def bnd_Inr if_False)
  then have "luaM_growvector v n 4 MAX_INT x msg = Inr (v @ replicate (nat ?sz - length v) x)"
    using True n by (simp only: luaM_growvector_def if_True bnd_Inr)
  moreover have "int (length (v @ replicate (nat ?sz - length v) x)) = ?sz"
    using n by auto
  ultimately show ?thesis using n assms(1) by (intro exI [of _ "replicate (nat ?sz - length v) x"]) auto
qed

lemma fs_ok_offsets:
  assumes "fs_ok fs ps" and "fpc fs \<le> MAXARG_sBx" and "p \<in> set ps"
  shows "\<bar>fpc fs - (p + 1)\<bar> \<le> MAXARG_sBx"
proof -
  have "is_jump (code (fproto fs)) p" "p < fpc fs"
    using assms by (auto simp: fs_ok_def dest: jump_list_jumps)
  then show ?thesis using assms(2) by (simp add: is_jump_def)
qed

lemma dischargejpc_list:
  assumes "fs_ok fs ps" and "fpc fs \<le> MAXARG_sBx"
  shows "dischargejpc fs = Inr ((set_code (patch_code (code (fproto fs)) (set ps) (fpc fs) NO_REG (fpc fs)) fs)
    \<lparr>jpc := NO_JUMP\<rparr>)"
proof -
  have "patchlistaux fs (jpc fs) (fpc fs) NO_REG (fpc fs) =
      Inr (set_code (patch_code (code (fproto fs)) (set ps) (fpc fs) NO_REG (fpc fs)) fs)"
    using assms fs_ok_offsets [OF assms] by (intro patchlistaux_list) (auto simp: fs_ok_def)
  then show ?thesis by (simp add: dischargejpc_def)
qed

text \<open>The state after instructions were emitted: only the code, its lines and the jumps change.\<close>

definition emitted :: "'d FuncState \<Rightarrow> Instruction list \<Rightarrow> int list \<Rightarrow> int \<Rightarrow> int \<Rightarrow> 'd FuncState" where
  "emitted fs c l pc j =
     fs\<lparr>fproto := with_lineinfo l (with_code c (fproto fs)), fpc := pc, jpc := j\<rparr>"

lemma with_code_lineinfo [simp]:
  "with_code c (with_lineinfo l P) = with_lineinfo l (with_code c P)"
  "with_lineinfo l (with_lineinfo l' P) = with_lineinfo l P" "with_lineinfo (lineinfo P) P = P"
  by (cases P; simp)+

lemma emitted_simps [simp]:
  "code (fproto (emitted fs c l pc j)) = c" "lineinfo (fproto (emitted fs c l pc j)) = l"
  "fpc (emitted fs c l pc j) = pc" "jpc (emitted fs c l pc j) = j" "fls (emitted fs c l pc j) = fls fs"
  "lasttarget (emitted fs c l pc j) = lasttarget fs" "freereg (emitted fs c l pc j) = freereg fs"
  "fnk (emitted fs c l pc j) = fnk fs" "nactvar (emitted fs c l pc j) = nactvar fs"
  "pk (fproto (emitted fs c l pc j)) = pk (fproto fs)"
  "maxstacksize (fproto (emitted fs c l pc j)) = maxstacksize (fproto fs)"
  by (simp_all add: emitted_def)

text \<open>The code \<open>c\<close> and lines \<open>l\<close> after one instruction was appended and the jumps \<open>ps\<close> were sent to it.\<close>

definition appended :: "'d FuncState \<Rightarrow> int list \<Rightarrow> Instruction \<Rightarrow> int \<Rightarrow> Instruction list \<Rightarrow> int list \<Rightarrow> bool" where
  "appended fs ps i line c l \<longleftrightarrow>
     fpc fs < int (length c) \<and> int (length c) \<le> 2 * (fpc fs + 1) + 4
     \<and> fpc fs < int (length l) \<and> int (length l) \<le> 2 * (fpc fs + 1) + 4
     \<and> c ! nat (fpc fs) = i \<and> l ! nat (fpc fs) = line
     \<and> (\<forall>q. int q < fpc fs \<longrightarrow> c ! q = patched (code (fproto fs)) (set ps) (fpc fs) NO_REG (fpc fs) q)
     \<and> (\<forall>q. int q < fpc fs \<longrightarrow> l ! q = lineinfo (fproto fs) ! q)"

lemma luaK_code_emits:
  assumes ok: "fs_ok fs ps" and room: "fpc fs < MAXARG_sBx"
  obtains c l where "luaK_code fs i line = Inr (fpc fs, emitted fs c l (fpc fs + 1) NO_JUMP)"
    and "appended fs ps i line c l"
proof -
  let ?c = "patch_code (code (fproto fs)) (set ps) (fpc fs) NO_REG (fpc fs)"
  obtain w where w: "luaM_growvector ?c (fpc fs) 4 MAX_INT 0 ''code size overflow'' = Inr (?c @ w)"
      "fpc fs < int (length (?c @ w))" "int (length (?c @ w)) \<le> 2 * (fpc fs + 1) + 4"
    using growvector_room [of "fpc fs" ?c 0 "''code size overflow''"] ok room
    by (auto simp: fs_ok_def)
  obtain v where v: "luaM_growvector (lineinfo (fproto fs)) (fpc fs) 4 MAX_INT 0 ''code size overflow'' = Inr (lineinfo (fproto fs) @ v)"
      "fpc fs < int (length (lineinfo (fproto fs) @ v))" "int (length (lineinfo (fproto fs) @ v)) \<le> 2 * (fpc fs + 1) + 4"
    using growvector_room [of "fpc fs" "lineinfo (fproto fs)" 0 "''code size overflow''"] ok room
    by (auto simp: fs_ok_def)
  have pc: "0 \<le> fpc fs" "fpc fs \<le> sizecode (fproto fs)" "fpc fs \<le> sizelineinfo (fproto fs)"
    using ok by (simp_all add: fs_ok_def)
  let ?c' = "(?c @ w)[nat (fpc fs) := i]" and ?l' = "(lineinfo (fproto fs) @ v)[nat (fpc fs) := line]"
  have "?c' ! nat (fpc fs) = i" "?l' ! nat (fpc fs) = line" using w(2) v(2) pc(1) by (simp_all add: nat_less_iff)
  moreover have "?l' ! q = lineinfo (fproto fs) ! q" if "int q < fpc fs" for q
    using that pc by (simp add: nth_append)
  moreover have "?c' ! q = patched (code (fproto fs)) (set ps) (fpc fs) NO_REG (fpc fs) q" if "int q < fpc fs" for q
  proof -
    have "q < length (code (fproto fs))" "nat (fpc fs) \<noteq> q" using that pc by auto
    then show ?thesis by (simp add: nth_append patch_code_nth)
  qed
  ultimately have "appended fs ps i line ?c' ?l'" using w v by (simp add: appended_def)
  moreover have "luaK_code fs i line = Inr (fpc fs, emitted fs ?c' ?l' (fpc fs + 1) NO_JUMP)"
    using dischargejpc_list [OF ok] room w(1) v(1)
    by (simp add: luaK_code_def sizeof_Instruction_def sizeof_int_def Let_def emitted_def set_code_def)
  ultimately show ?thesis using that by blast
qed

section \<open>Properties of the jump lists\<close>

lemma sBx_set: "\<bar>d\<bar> \<le> MAXARG_sBx \<Longrightarrow> GETARG_sBx (SETARG_sBx i d) = d"
  by (rule GETARG_sBx_SETARG_sBx) auto

definition jump_target :: "Instruction list \<Rightarrow> int \<Rightarrow> int" where
  "jump_target c p = p + 1 + GETARG_sBx (c ! nat p)"

text \<open>A function with the code \<open>c\<close>, all of it emitted, for examples.\<close>

definition fs_of :: "'d LexState \<Rightarrow> Instruction list \<Rightarrow> int \<Rightarrow> 'd FuncState" where
  "fs_of ls c j =
     \<lparr>fproto = with_lineinfo (replicate (length c) 0) (with_code c luaF_newproto), fhaddr = 1, fls = ls,
      fpc = int (length c), lasttarget = - 1, jpc = j, freereg = 0, fnk = 0, fnp = 0, nlocvars = 0, nactvar = 0,
      fupvalues = [], actvar = []\<rparr>"

lemma fs_of_simps [simp]:
  "code (fproto (fs_of ls c j)) = c" "length (lineinfo (fproto (fs_of ls c j))) = length c"
  "fpc (fs_of ls c j) = int (length c)" "jpc (fs_of ls c j) = j" "fls (fs_of ls c j) = ls"
  "lasttarget (fs_of ls c j) = - 1" "freereg (fs_of ls c j) = 0"
  by (simp_all add: fs_of_def)

abbreviation jmp :: "int \<Rightarrow> Instruction" where
  "jmp d \<equiv> CREATE_ABx (opcode OP_JMP) 0 (d + 131071)"

lemma jmp_fields:
  assumes "- 131071 \<le> d" "d \<le> 131072"
  shows "GET_OPCODE (jmp d) = opcode OP_JMP" "GETARG_sBx (jmp d) = d"
  using assms by (simp_all add: encoded drop_bit_eq_div)

text \<open>The word before the next position is an instruction, not the count of a long \<open>OP_SETLIST\<close>.\<close>

definition last_insn :: "'d FuncState \<Rightarrow> bool" where
  "last_insn fs \<longleftrightarrow> (fpc fs \<ge> 1 \<longrightarrow> GET_OPCODE (code (fproto fs) ! nat (fpc fs - 1)) < NUM_OPCODES)"

lemma patched_empty [simp]: "patched c {} vt reg dt q = c ! q"
  by (simp add: patched_def)

lemma luaK_codeAsBx_jmp: "luaK_codeAsBx fs OP_JMP 0 NO_JUMP = luaK_code fs (jmp (- 1)) (lastline (fls fs))"
  by (simp add: luaK_codeAsBx_def luaK_codeABx_def NO_JUMP_def MAXARG_sBx_def MAXARG_Bx_def field_layout drop_bit_eq_div)

lemma jump_list_pos: "jump_list c l ps \<Longrightarrow> p \<in> set ps \<Longrightarrow> 0 \<le> p \<and> nat p < length c"
  by (drule (1) jump_list_jumps) (auto simp: is_jump_def)

lemma luaK_jump_list:
  assumes ok: "fs_ok fs ps" and room: "fpc fs < MAXARG_sBx" and "last_insn fs"
  shows "\<exists>c l. luaK_jump fs = Inr (fpc fs, emitted fs c l (fpc fs + 1) NO_JUMP)
    \<and> fs_ok (emitted fs c l (fpc fs + 1) NO_JUMP) [] \<and> jump_list c (fpc fs) (fpc fs # ps)
    \<and> (\<forall>q. int q < fpc fs \<longrightarrow> c ! q = code (fproto fs) ! q \<and> l ! q = lineinfo (fproto fs) ! q)
    \<and> GET_OPCODE (c ! nat (fpc fs)) = opcode OP_JMP"
proof -
  let ?fs = "fs\<lparr>jpc := NO_JUMP\<rparr>"
  have ok0: "fs_ok ?fs []" using ok by (simp add: fs_ok_def)
  have pc0: "0 \<le> fpc fs" using ok by (simp add: fs_ok_def)
  obtain c l where e: "luaK_code ?fs (jmp (- 1)) (lastline (fls fs)) = Inr (fpc ?fs, emitted ?fs c l (fpc ?fs + 1) NO_JUMP)"
      and "appended ?fs [] (jmp (- 1)) (lastline (fls fs)) c l"
    using room by (rule luaK_code_emits [OF ok0, of "jmp (- 1)" "lastline (fls fs)", simplified]) simp
  then have len: "fpc fs < int (length c)" "int (length c) \<le> 2 * (fpc fs + 1) + 4"
        "fpc fs < int (length l)" "int (length l) \<le> 2 * (fpc fs + 1) + 4"
      and i: "c ! nat (fpc fs) = jmp (- 1)"
      and same: "\<And>q. int q < fpc fs \<Longrightarrow> c ! q = code (fproto fs) ! q" "\<And>q. int q < fpc fs \<Longrightarrow> l ! q = lineinfo (fproto fs) ! q"
    by (simp_all add: appended_def)
  let ?fs1 = "emitted ?fs c l (fpc fs + 1) NO_JUMP"
  have j: "jump_list c (fpc fs) [fpc fs]"
    using pc0 len(1) i assms(3) same(1) [of "nat (fpc fs - 1)"]
    by (simp add: is_jump_def jump_link_def jmp_fields [of "- 1", simplified] last_insn_def NO_JUMP_def)
  have below: "p < fpc fs" if "p \<in> set ps" for p using ok that by (simp add: fs_ok_def)
  have jl: "jump_list (code (fproto fs)) (jpc fs) ps" using ok by (simp add: fs_ok_def)
  have p: "jump_list c (jpc fs) ps"
  proof (rule jump_list_cong [OF jl])
    fix p assume p: "p \<in> set ps"
    then have "is_jump (code (fproto fs)) p" using jl by (rule jump_list_jumps [rotated])
    then show "c ! nat p = code (fproto fs) ! nat p"
        "p \<ge> 1 \<Longrightarrow> GET_OPCODE (c ! nat (p - 1)) < NUM_OPCODES"
      using below [OF p] same(1) [of "nat p"] same(1) [of "nat (p - 1)"] by (auto simp: is_jump_def)
  qed (use below len in fastforce)
  let ?c' = "link_code c [fpc fs] ps"
  have "luaK_concat ?fs1 (fpc fs) (jpc fs) = Inr (list_head ([fpc fs] @ ps), set_code (link_code (code (fproto ?fs1)) [fpc fs] ps) ?fs1)"
  proof (rule luaK_concat_list)
    show "\<bar>q - (p + 1)\<bar> \<le> MAXARG_sBx" if "p \<in> set [fpc fs]" "q \<in> set ps" for p q
      using that below [of q] jump_list_pos [OF jl, of q] room by auto
  qed (use j p in simp_all)
  then have "luaK_jump fs = Inr (fpc fs, emitted fs ?c' l (fpc fs + 1) NO_JUMP)"
    using e by (simp add: luaK_jump_def luaK_codeAsBx_jmp set_code_def emitted_def)
  moreover have "fs_ok (emitted fs ?c' l (fpc fs + 1) NO_JUMP) []"
    using len pc0 by (simp add: fs_ok_def)
  moreover have "jump_list ?c' (fpc fs) (fpc fs # ps)"
  proof (cases "ps = []")
    case True
    with j show ?thesis by (simp add: link_code_def)
  next
    case False
    have "hd ps \<in> set ps" using False by simp
    then have "\<bar>hd ps - (last [fpc fs] + 1)\<bar> \<le> MAXARG_sBx"
      using below jump_list_pos [OF jl] room by fastforce
    with jump_list_link [OF j p] False below show ?thesis by fastforce
  qed
  moreover have "?c' ! q = code (fproto fs) ! q \<and> l ! q = lineinfo (fproto fs) ! q" if q: "int q < fpc fs" for q
    using same [OF q] len(1) q by (subst link_code_nth) auto
  moreover have "GET_OPCODE (?c' ! nat (fpc fs)) = opcode OP_JMP"
    using i by (simp add: link_code_opcode jmp_fields [of "- 1", simplified])
  ultimately show ?thesis by blast
qed

lemma luaK_patchtohere_list:
  assumes ok: "fs_ok fs ps" and "fpc fs \<le> MAXARG_sBx" and q: "jump_list (code (fproto fs)) l qs"
    and "\<forall>q\<in>set qs. q < fpc fs" and "set ps \<inter> set qs = {}"
  shows "luaK_patchtohere fs l =
      Inr ((set_code (link_code (code (fproto fs)) ps qs) fs)\<lparr>lasttarget := fpc fs, jpc := list_head (ps @ qs)\<rparr>)"
    and "fs_ok ((set_code (link_code (code (fproto fs)) ps qs) fs)\<lparr>lasttarget := fpc fs, jpc := list_head (ps @ qs)\<rparr>) (ps @ qs)"
proof -
  have p: "jump_list (code (fproto fs)) (jpc fs) ps" and below: "\<forall>p\<in>set ps. p < fpc fs"
    using ok by (simp_all add: fs_ok_def)
  have off: "\<bar>y - (x + 1)\<bar> \<le> MAXARG_sBx" if "x \<in> set ps" "y \<in> set qs" for x y
  proof -
    have "x < fpc fs" "y < fpc fs" using that assms(4) below by blast+
    with that assms(2) show ?thesis using jump_list_pos [OF p, of x] jump_list_pos [OF q, of y] by auto
  qed
  let ?fs = "snd (luaK_getlabel fs)"
  have f: "code (fproto ?fs) = code (fproto fs)" "jpc ?fs = jpc fs" by (simp_all add: luaK_getlabel_def)
  have "luaK_concat ?fs (jpc ?fs) l = Inr (list_head (ps @ qs), set_code (link_code (code (fproto ?fs)) ps qs) ?fs)"
    using p q off by (intro luaK_concat_list) (simp_all add: f)
  then show "luaK_patchtohere fs l =
      Inr ((set_code (link_code (code (fproto fs)) ps qs) fs)\<lparr>lasttarget := fpc fs, jpc := list_head (ps @ qs)\<rparr>)"
    by (simp add: luaK_patchtohere_def luaK_getlabel_def set_code_def)
  have "jump_list (link_code (code (fproto fs)) ps qs) (list_head (ps @ qs)) (ps @ qs)"
  proof (cases "ps = [] \<or> qs = []")
    case True
    then show ?thesis using p q jump_list_head [OF p] jump_list_head [OF q] by (auto simp: link_code_def)
  next
    case False
    then have "list_head (ps @ qs) = jpc fs" using jump_list_head [OF p] by (cases ps) auto
    moreover have "\<bar>hd qs - (last ps + 1)\<bar> \<le> MAXARG_sBx" using False off by auto
    ultimately show ?thesis using jump_list_link [OF p q assms(5)] False by auto
  qed
  then show "fs_ok ((set_code (link_code (code (fproto fs)) ps qs) fs)\<lparr>lasttarget := fpc fs, jpc := list_head (ps @ qs)\<rparr>) (ps @ qs)"
    using ok assms(4) by (auto simp: fs_ok_def)
qed

text \<open>
  C8: patching a list of jumps ends, sends every jump of the list to the value target if an
  \<open>OP_TESTSET\<close> controls it and to the default target otherwise, gives those tests their register,
  and changes no other instruction.
\<close>

theorem patch_retargets:
  assumes "jump_list (code (fproto fs)) l ps"
    and "\<forall>p\<in>set ps. \<bar>vtarget - (p + 1)\<bar> \<le> MAXARG_sBx \<and> \<bar>dtarget - (p + 1)\<bar> \<le> MAXARG_sBx"
  shows "\<exists>c'. patchlistaux fs l vtarget reg dtarget = Inr (fs\<lparr>fproto := with_code c' (fproto fs)\<rparr>)
    \<and> length c' = length (code (fproto fs))
    \<and> (\<forall>p\<in>set ps. GET_OPCODE (c' ! nat p) = opcode OP_JMP
          \<and> jump_target c' p = (if value_jump (code (fproto fs)) p then vtarget else dtarget)
          \<and> (value_jump (code (fproto fs)) p
              \<longrightarrow> c' ! nat (p - 1) = patched_test reg (code (fproto fs) ! nat (p - 1))))
    \<and> (\<forall>q<length c'. int q \<notin> set ps \<and> \<not> (int q + 1 \<in> set ps \<and> value_jump (code (fproto fs)) (int q + 1))
          \<longrightarrow> c' ! q = code (fproto fs) ! q)"
proof -
  let ?c = "code (fproto fs)"
  let ?c' = "patch_code ?c (set ps) vtarget reg dtarget"
  have "patchlistaux fs l vtarget reg dtarget = Inr (fs\<lparr>fproto := with_code ?c' (fproto fs)\<rparr>)"
    using patchlistaux_list [OF assms(1)] assms(2) by (auto simp: set_code_def)
  moreover have "GET_OPCODE (?c' ! nat p) = opcode OP_JMP
      \<and> jump_target ?c' p = (if value_jump ?c p then vtarget else dtarget)
      \<and> (value_jump ?c p \<longrightarrow> ?c' ! nat (p - 1) = patched_test reg (?c ! nat (p - 1)))" if p: "p \<in> set ps" for p
  proof -
    have j: "is_jump ?c p" using assms(1) p by (rule jump_list_jumps)
    then have n: "nat p < length ?c" "int (nat p) = p" "nat (p - 1) < length ?c" by (auto simp: is_jump_def)
    have "?c' ! nat p = SETARG_sBx (?c ! nat p) ((if value_jump ?c p then vtarget else dtarget) - (p + 1))"
      using n p by (simp add: patch_code_nth patched_def)
    moreover have "?c' ! nat (p - 1) = patched_test reg (?c ! nat (p - 1))" if "value_jump ?c p"
    proof -
      have v: "int (nat (p - 1)) = p - 1" "GET_OPCODE (?c ! nat (p - 1)) = opcode OP_TESTSET"
        using that by (auto simp: value_jump_def)
      then have "p - 1 \<notin> set ps" using jump_list_jumps [OF assms(1), of "p - 1"] by (auto simp: is_jump_def)
      with n v p show ?thesis by (simp add: patch_code_nth patched_def)
    qed
    moreover have "\<bar>(if value_jump ?c p then vtarget else dtarget) - (p + 1)\<bar> \<le> MAXARG_sBx"
      using assms(2) p by auto
    moreover have "GET_OPCODE (?c ! nat p) = opcode OP_JMP" using j by (simp add: is_jump_def)
    ultimately show ?thesis by (simp add: jump_target_def sBx_fields_other sBx_set)
  qed
  moreover have "?c' ! q = ?c ! q"
    if "q < length ?c'" "int q \<notin> set ps" "\<not> (int q + 1 \<in> set ps \<and> value_jump ?c (int q + 1))" for q
    using that by (auto simp: patch_code_nth patched_def value_jump_def)
  ultimately show ?thesis by (intro exI [of _ ?c']) auto
qed

text \<open>Two jumps, the later one of the value of a test.\<close>

abbreviation two_jumps :: "Instruction list" where
  "two_jumps \<equiv> [jmp 1, CREATE_ABC (opcode OP_TESTSET) 255 3 1, jmp (- 1), 0]"

lemma two_jumps_list: "jump_list two_jumps 0 [0, 2]"
  by (simp add: is_jump_def jump_link_def jmp_fields NO_JUMP_def encoded)

theorem patch_retargets_witness:
  "\<forall>ls :: unit LexState. \<exists>c'. patchlistaux (fs_of ls two_jumps NO_JUMP) 0 4 2 3 =
      Inr ((fs_of ls two_jumps NO_JUMP)\<lparr>fproto := with_code c' (fproto (fs_of ls two_jumps NO_JUMP))\<rparr>)
    \<and> jump_target c' 0 = 3 \<and> jump_target c' 2 = 4 \<and> GETARG_A (c' ! 1) = 2"
proof
  fix ls :: "unit LexState"
  have v: "value_jump two_jumps 2" "\<not> value_jump two_jumps 0" by (simp_all add: value_jump_def encoded)
  have "patched_test 2 (two_jumps ! 1) = SETARG_A (two_jumps ! 1) 2" by (simp add: patched_test_def encoded)
  then have t: "GETARG_A (patched_test 2 (two_jumps ! 1)) = 2" by (simp add: fields)
  have "\<forall>p\<in>set [0, 2]. \<bar>4 - (p + 1)\<bar> \<le> MAXARG_sBx \<and> \<bar>3 - (p + 1)\<bar> \<le> MAXARG_sBx"
    by (simp add: encoded drop_bit_eq_div)
  then obtain c' where "patchlistaux (fs_of ls two_jumps NO_JUMP) 0 4 2 3 =
        Inr ((fs_of ls two_jumps NO_JUMP)\<lparr>fproto := with_code c' (fproto (fs_of ls two_jumps NO_JUMP))\<rparr>)"
      and p: "\<forall>p\<in>set [0, 2]. jump_target c' p = (if value_jump two_jumps p then 4 else 3)
        \<and> (value_jump two_jumps p \<longrightarrow> c' ! nat (p - 1) = patched_test 2 (two_jumps ! nat (p - 1)))"
    using patch_retargets [of "fs_of ls two_jumps NO_JUMP" 0 "[0, 2]" 4 3 2, unfolded fs_of_simps, OF two_jumps_list]
    by blast
  moreover have "jump_target c' 0 = 3" "jump_target c' 2 = 4" "GETARG_A (c' ! 1) = 2"
    using p v t by auto
  ultimately show "\<exists>c'. patchlistaux (fs_of ls two_jumps NO_JUMP) 0 4 2 3 =
      Inr ((fs_of ls two_jumps NO_JUMP)\<lparr>fproto := with_code c' (fproto (fs_of ls two_jumps NO_JUMP))\<rparr>)
    \<and> jump_target c' 0 = 3 \<and> jump_target c' 2 = 4 \<and> GETARG_A (c' ! 1) = 2" by blast
qed


text \<open>
  C32: \<open>luaK_concat\<close> appends one list of jumps to another: the result is the list of the positions of
  the first followed by those of the second, only the last jump of the first is written, and every
  other list is left as it was.
\<close>

theorem concat_appends:
  assumes "jump_list (code (fproto fs)) l1 ps" and "jump_list (code (fproto fs)) l2 qs"
    and "set ps \<inter> set qs = {}"
    and "\<forall>p\<in>set ps. \<forall>q\<in>set qs. \<bar>q - (p + 1)\<bar> \<le> MAXARG_sBx"
  shows "\<exists>l c'. luaK_concat fs l1 l2 = Inr (l, fs\<lparr>fproto := with_code c' (fproto fs)\<rparr>)
    \<and> jump_list c' l (ps @ qs)
    \<and> length c' = length (code (fproto fs))
    \<and> (\<forall>q<length c'. ps = [] \<or> int q \<noteq> last ps \<longrightarrow> c' ! q = code (fproto fs) ! q)
    \<and> (\<forall>l3 rs. jump_list (code (fproto fs)) l3 rs \<and> set rs \<inter> set ps = {} \<longrightarrow> jump_list c' l3 rs)"
proof -
  let ?c = "code (fproto fs)"
  let ?c' = "link_code ?c ps qs"
  have p0: "0 \<le> p" if "p \<in> set ps" for p using jump_list_pos [OF assms(1) that] by simp
  have "luaK_concat fs l1 l2 = Inr (list_head (ps @ qs), fs\<lparr>fproto := with_code ?c' (fproto fs)\<rparr>)"
    using luaK_concat_list [OF assms(1,2)] assms(4) by (auto simp: set_code_def)
  moreover have "jump_list ?c' (list_head (ps @ qs)) (ps @ qs)"
  proof (cases "ps = [] \<or> qs = []")
    case True
    then show ?thesis using assms(1,2) jump_list_head [OF assms(1)] jump_list_head [OF assms(2)]
      by (auto simp: link_code_def)
  next
    case False
    then have "list_head (ps @ qs) = l1" using jump_list_head [OF assms(1)] by (cases ps) auto
    with False assms(4) jump_list_link [OF assms(1-3)] show ?thesis by auto
  qed
  moreover have "?c' ! q = ?c ! q" if "q < length ?c'" "ps = [] \<or> int q \<noteq> last ps" for q
  proof (cases "ps = []")
    case False
    then have "0 \<le> last ps" using p0 by simp
    with that False show ?thesis by (intro link_code_nth) auto
  qed (simp add: link_code_def)
  moreover have "jump_list ?c' l3 rs" if "jump_list ?c l3 rs" "set rs \<inter> set ps = {}" for l3 rs
    using that p0 by (intro jump_list_link_other) auto
  ultimately show ?thesis by (intro exI [of _ "list_head (ps @ qs)"] exI [of _ ?c']) auto
qed

theorem concat_appends_witness:
  "\<forall>ls :: unit LexState. \<exists>l c'. luaK_concat (fs_of ls [jmp (- 1), jmp (- 1), 0] NO_JUMP) 1 0 =
      Inr (l, (fs_of ls [jmp (- 1), jmp (- 1), 0] NO_JUMP)
        \<lparr>fproto := with_code c' (fproto (fs_of ls [jmp (- 1), jmp (- 1), 0] NO_JUMP))\<rparr>)
    \<and> jump_list c' l [1, 0]"
proof
  fix ls :: "unit LexState"
  let ?c = "[jmp (- 1), jmp (- 1), 0]"
  have "is_jump ?c 0" "is_jump ?c 1" "jump_link ?c 0 = NO_JUMP" "jump_link ?c 1 = NO_JUMP"
    by (simp_all add: is_jump_def jump_link_def NO_JUMP_def jmp_fields [of "- 1", simplified] opcode_lt)
  then have l: "jump_list ?c 1 [1]" "jump_list ?c 0 [0]" by simp_all
  have "\<forall>p\<in>set [1]. \<forall>q\<in>set [0]. \<bar>q - (p + 1)\<bar> \<le> MAXARG_sBx"
    by (simp add: encoded drop_bit_eq_div)
  with concat_appends [of "fs_of ls ?c NO_JUMP" 1 "[1]" 0 "[0]", unfolded fs_of_simps, OF l]
  show "\<exists>l c'. luaK_concat (fs_of ls ?c NO_JUMP) 1 0 =
      Inr (l, (fs_of ls ?c NO_JUMP)\<lparr>fproto := with_code c' (fproto (fs_of ls ?c NO_JUMP))\<rparr>)
    \<and> jump_list c' l [1, 0]" by auto
qed

text \<open>
  C33: \<open>luaK_code\<close> keeps the function well formed: it stores the instruction and its line at the next
  position, sends every jump that waited for that position to it, and changes no other instruction
  but the tests of those jumps.
\<close>

theorem code_appends:
  assumes "fs_ok fs ps" and "fpc fs < MAXARG_sBx"
  shows "\<exists>fs'. luaK_code fs i line = Inr (fpc fs, fs') \<and> fs_ok fs' [] \<and> fpc fs' = fpc fs + 1
    \<and> code (fproto fs') ! nat (fpc fs) = i \<and> lineinfo (fproto fs') ! nat (fpc fs) = line
    \<and> (\<forall>p\<in>set ps. jump_target (code (fproto fs')) p = fpc fs)
    \<and> (\<forall>q. int q < fpc fs \<longrightarrow> lineinfo (fproto fs') ! q = lineinfo (fproto fs) ! q
         \<and> (int q \<notin> set ps \<and> \<not> (int q + 1 \<in> set ps \<and> value_jump (code (fproto fs)) (int q + 1))
            \<longrightarrow> code (fproto fs') ! q = code (fproto fs) ! q))"
proof -
  obtain c l where e: "luaK_code fs i line = Inr (fpc fs, emitted fs c l (fpc fs + 1) NO_JUMP)"
      and a: "appended fs ps i line c l"
    using assms by (rule luaK_code_emits)
  have pc0: "0 \<le> fpc fs" using assms(1) by (simp add: fs_ok_def)
  have "jump_target c p = fpc fs" if p: "p \<in> set ps" for p
  proof -
    have "0 \<le> p" "p < fpc fs" using assms(1) p jump_list_pos [of "code (fproto fs)" "jpc fs" ps p]
      by (auto simp: fs_ok_def)
    then have "c ! nat p = SETARG_sBx (code (fproto fs) ! nat p) (fpc fs - (p + 1))"
      using a p by (simp add: appended_def patched_def)
    with fs_ok_offsets [OF assms(1) _ p] assms(2) show ?thesis by (simp add: jump_target_def sBx_set)
  qed
  moreover have "c ! q = code (fproto fs) ! q"
    if "int q < fpc fs" "int q \<notin> set ps" "\<not> (int q + 1 \<in> set ps \<and> value_jump (code (fproto fs)) (int q + 1))" for q
    using a that by (auto simp: appended_def patched_def value_jump_def)
  ultimately show ?thesis using e a pc0
    by (intro exI [of _ "emitted fs c l (fpc fs + 1) NO_JUMP"]) (auto simp: fs_ok_def appended_def)
qed

theorem code_appends_witness:
  "\<forall>ls :: unit LexState. \<exists>fs'. luaK_code (fs_of ls [jmp (- 1)] 0) 7 3 = Inr (1, fs')
    \<and> code (fproto fs') ! 1 = 7 \<and> jump_target (code (fproto fs')) 0 = 1"
proof
  fix ls :: "unit LexState"
  have "fs_ok (fs_of ls [jmp (- 1)] 0) [0]"
    by (simp add: fs_ok_def is_jump_def jump_link_def NO_JUMP_def jmp_fields [of "- 1", simplified])
  moreover have "fpc (fs_of ls [jmp (- 1)] 0) < MAXARG_sBx" by (simp add: encoded drop_bit_eq_div)
  ultimately show "\<exists>fs'. luaK_code (fs_of ls [jmp (- 1)] 0) 7 3 = Inr (1, fs')
    \<and> code (fproto fs') ! 1 = 7 \<and> jump_target (code (fproto fs')) 0 = 1"
    using code_appends [of "fs_of ls [jmp (- 1)] 0" "[0]" 7 3] by auto
qed

section \<open>Jumps over code\<close>

text \<open>A block of instructions with their lines.\<close>

fun code_all :: "'d FuncState \<Rightarrow> (Instruction \<times> int) list \<Rightarrow> ('d FuncState) result" where
  "code_all fs [] = Inr fs"
| "code_all fs ((i, line) # is) = bnd (luaK_code fs i line) (\<lambda>(_, fs). code_all fs is)"

text \<open>No pending jumps: the instructions emitted before stay as they are.\<close>

lemma code_one:
  assumes "fs_ok fs []" and "fpc fs < MAXARG_sBx"
  shows "\<exists>fs'. luaK_code fs i line = Inr (fpc fs, fs') \<and> fs_ok fs' [] \<and> fpc fs' = fpc fs + 1
    \<and> code (fproto fs') ! nat (fpc fs) = i \<and> (\<forall>q. int q < fpc fs \<longrightarrow> code (fproto fs') ! q = code (fproto fs) ! q)
    \<and> freereg fs' = freereg fs \<and> fls fs' = fls fs"
proof -
  obtain c l where "luaK_code fs i line = Inr (fpc fs, emitted fs c l (fpc fs + 1) NO_JUMP)"
      and a: "appended fs [] i line c l"
    using assms by (rule luaK_code_emits)
  then show ?thesis
    using assms(1) by (intro exI [of _ "emitted fs c l (fpc fs + 1) NO_JUMP"]) (auto simp: appended_def fs_ok_def)
qed

lemma code_all_appends:
  assumes "fs_ok fs []" and "fpc fs + int (length is) \<le> MAXARG_sBx"
  shows "\<exists>fs'. code_all fs is = Inr fs' \<and> fs_ok fs' [] \<and> fpc fs' = fpc fs + int (length is)
    \<and> (\<forall>q. int q < fpc fs \<longrightarrow> code (fproto fs') ! q = code (fproto fs) ! q)
    \<and> (\<forall>k<length is. code (fproto fs') ! (nat (fpc fs) + k) = fst (is ! k))"
  using assms
proof (induction "is" arbitrary: fs)
  case (Cons il "is")
  obtain i line where il: "il = (i, line)" by (cases il)
  obtain fs1 where e: "luaK_code fs i line = Inr (fpc fs, fs1)" "fs_ok fs1 []" "fpc fs1 = fpc fs + 1"
      "code (fproto fs1) ! nat (fpc fs) = i" "\<forall>q. int q < fpc fs \<longrightarrow> code (fproto fs1) ! q = code (fproto fs) ! q"
    using code_one [OF Cons.prems(1), of i line] Cons.prems(2) by auto
  obtain fs' where f: "code_all fs1 is = Inr fs'" "fs_ok fs' []" "fpc fs' = fpc fs1 + int (length is)"
      "\<forall>q. int q < fpc fs1 \<longrightarrow> code (fproto fs') ! q = code (fproto fs1) ! q"
      "\<forall>k<length is. code (fproto fs') ! (nat (fpc fs1) + k) = fst (is ! k)"
    using Cons.IH [OF e(2)] Cons.prems(2) e(3) by auto
  have pc0: "0 \<le> fpc fs" using Cons.prems(1) by (simp add: fs_ok_def)
  have "code (fproto fs') ! (nat (fpc fs) + k) = fst ((il # is) ! k)" if "k < length (il # is)" for k
  proof (cases k)
    case 0
    with f(4) e il pc0 show ?thesis by simp
  next
    case (Suc m)
    then have "nat (fpc fs1) + m = nat (fpc fs) + k" using e(3) pc0 by auto
    with f(5) Suc that show ?thesis by (metis Suc_less_eq length_Cons nth_Cons_Suc)
  qed
  moreover have "code_all fs (il # is) = Inr fs'" "fpc fs' = fpc fs + int (length (il # is))"
    using e(1,3) f(1,3) by (simp_all add: il)
  moreover have "code (fproto fs') ! q = code (fproto fs) ! q" if "int q < fpc fs" for q
    using e(3,5) f(4) that by simp
  ultimately show ?case using f(2) by blast
qed auto

text \<open>
  C7: a forward jump: \<open>luaK_jump\<close>, any block of instructions, \<open>luaK_patchtohere\<close> and the next
  instruction put that instruction after the block; the jump, and every jump that was waiting when it was
  emitted, goes to it, and the block stands in between as it was emitted.
\<close>

theorem forward_jump:
  assumes ok: "fs_ok fs ps" and last: "last_insn fs" and room: "fpc fs + int (length is) + 2 \<le> MAXARG_sBx"
  shows "\<exists>fs'. bnd (luaK_jump fs) (\<lambda>(j, fs). bnd (code_all fs is) (\<lambda>fs. bnd (luaK_patchtohere fs j) (\<lambda>fs.
        luaK_code fs i line))) = Inr (fpc fs + 1 + int (length is), fs')
    \<and> fs_ok fs' []
    \<and> code (fproto fs') ! nat (fpc fs + 1 + int (length is)) = i
    \<and> (\<forall>p\<in>insert (fpc fs) (set ps). GET_OPCODE (code (fproto fs') ! nat p) = opcode OP_JMP
          \<and> jump_target (code (fproto fs')) p = fpc fs + 1 + int (length is))
    \<and> (\<forall>k<length is. code (fproto fs') ! (nat (fpc fs) + 1 + k) = fst (is ! k))"
proof -
  have pc0: "0 \<le> fpc fs" and below: "\<forall>p\<in>set ps. p < fpc fs" using ok by (simp_all add: fs_ok_def)
  have room1: "fpc fs < MAXARG_sBx" using room by simp
  obtain c l where j: "luaK_jump fs = Inr (fpc fs, emitted fs c l (fpc fs + 1) NO_JUMP)"
      and ok1: "fs_ok (emitted fs c l (fpc fs + 1) NO_JUMP) []" and jl: "jump_list c (fpc fs) (fpc fs # ps)"
    using luaK_jump_list [OF ok room1 last] by blast
  let ?fs1 = "emitted fs c l (fpc fs + 1) NO_JUMP" and ?n = "int (length is)"
  have "fpc ?fs1 + ?n \<le> MAXARG_sBx" using room by simp
  from code_all_appends [OF ok1 this] obtain fs2 where a: "code_all ?fs1 is = Inr fs2" "fs_ok fs2 []"
      "fpc fs2 = fpc fs + 1 + ?n"
      and same: "\<forall>q. int q < fpc fs + 1 \<longrightarrow> code (fproto fs2) ! q = c ! q"
      and body: "\<forall>k<length is. code (fproto fs2) ! (nat (fpc fs + 1) + k) = fst (is ! k)"
    by auto
  have inl: "\<forall>p\<in>set (fpc fs # ps). p < fpc fs2" using below a(3) by auto
  have jl2: "jump_list (code (fproto fs2)) (fpc fs) (fpc fs # ps)"
  proof (rule jump_list_cong [OF jl])
    fix p assume p: "p \<in> set (fpc fs # ps)"
    then have "is_jump c p" using jl by (rule jump_list_jumps [rotated])
    moreover have "p \<le> fpc fs" using p below by auto
    ultimately show "code (fproto fs2) ! nat p = c ! nat p"
        "p \<ge> 1 \<Longrightarrow> GET_OPCODE (code (fproto fs2) ! nat (p - 1)) < NUM_OPCODES"
      using same by (auto simp: is_jump_def)
    show "p < sizecode (fproto fs2)" using p inl a(2) by (auto simp: fs_ok_def)
  qed
  have room2: "fpc fs2 \<le> MAXARG_sBx" using room a(3) by simp
  note h = luaK_patchtohere_list [OF a(2) room2 jl2 inl, simplified]
  let ?fs3 = "fs2\<lparr>lasttarget := fpc fs2, jpc := fpc fs\<rparr>"
  have h': "luaK_patchtohere fs2 (fpc fs) = Inr ?fs3" "fs_ok ?fs3 (fpc fs # ps)"
    using h by (simp_all add: link_code_def set_code_def)
  have room3: "fpc ?fs3 < MAXARG_sBx" using room a(3) by simp
  from code_appends [OF h'(2) room3, of i line] obtain fs' where e: "luaK_code ?fs3 i line = Inr (fpc fs2, fs')"
      "fs_ok fs' []" "code (fproto fs') ! nat (fpc fs2) = i"
      "\<forall>p\<in>set (fpc fs # ps). jump_target (code (fproto fs')) p = fpc fs2"
      and s: "\<forall>q. int q < fpc fs2 \<longrightarrow> (int q \<notin> set (fpc fs # ps)
         \<and> \<not> (int q + 1 \<in> set (fpc fs # ps) \<and> value_jump (code (fproto fs2)) (int q + 1))
            \<longrightarrow> code (fproto fs') ! q = code (fproto fs2) ! q)"
    by auto
  obtain c' l' where e2: "luaK_code ?fs3 i line = Inr (fpc ?fs3, emitted ?fs3 c' l' (fpc ?fs3 + 1) NO_JUMP)"
      and ap: "appended ?fs3 (fpc fs # ps) i line c' l'"
    using h'(2) room3 by (rule luaK_code_emits)
  have fs': "code (fproto fs') = c'"
  proof -
    have "fs' = emitted ?fs3 c' l' (fpc ?fs3 + 1) NO_JUMP" using e(1) e2 by simp
    then show ?thesis by simp
  qed
  have "GET_OPCODE (c' ! nat p) = opcode OP_JMP" if p: "p \<in> set (fpc fs # ps)" for p
  proof -
    have "is_jump (code (fproto fs2)) p" using jl2 p by (rule jump_list_jumps)
    moreover have "int (nat p) < fpc fs2" using p inl a(3) pc0 by auto
    ultimately show ?thesis using ap by (simp add: appended_def patched_opcode is_jump_def jump_opcodes)
  qed
  moreover have "code (fproto fs') ! (nat (fpc fs) + 1 + k) = fst (is ! k)" if k: "k < length is" for k
  proof -
    have n: "nat (fpc fs + 1) + k = nat (fpc fs) + 1 + k" "int (nat (fpc fs) + 1 + k) = fpc fs + 1 + int k"
      using pc0 by auto
    have "fpc fs + 1 + int k \<notin> set (fpc fs # ps)" "fpc fs + 1 + int k + 1 \<notin> set (fpc fs # ps)"
      using below by fastforce+
    then have "code (fproto fs') ! (nat (fpc fs) + 1 + k) = code (fproto fs2) ! (nat (fpc fs) + 1 + k)"
      using s k a(3) n(2) by (metis add_strict_left_mono of_nat_less_iff)
    with body k n(1) show ?thesis by simp
  qed
  ultimately show ?thesis using e j a(1,3) h'(1) fs' by (intro exI [of _ fs']) auto
qed

theorem forward_jump_witness:
  "\<forall>ls :: unit LexState. \<exists>fs'. bnd (luaK_jump (fs_of ls [jmp (- 1)] 0)) (\<lambda>(j, fs). bnd (code_all fs [(7, 1), (9, 1)])
      (\<lambda>fs. bnd (luaK_patchtohere fs j) (\<lambda>fs. luaK_code fs 11 2))) = Inr (4, fs')
    \<and> jump_target (code (fproto fs')) 0 = 4 \<and> jump_target (code (fproto fs')) 1 = 4
    \<and> code (fproto fs') ! 2 = 7"
proof
  fix ls :: "unit LexState"
  let ?fs = "fs_of ls [jmp (- 1)] 0" and ?is = "[(7, 1), (9 :: Instruction, 1 :: int)]"
  have ok: "fs_ok ?fs [0]" "last_insn ?fs"
    by (simp_all add: fs_ok_def is_jump_def jump_link_def NO_JUMP_def last_insn_def jmp_fields [of "- 1", simplified] opcode_lt)
  have room: "fpc ?fs + int (length ?is) + 2 \<le> MAXARG_sBx" by (simp add: encoded drop_bit_eq_div)
  have f: "fpc ?fs = 1" and n: "1 + 1 + int (length ?is) = 4" by simp_all
  from forward_jump [OF ok room, of 11 2, unfolded f n] obtain fs' where
      "bnd (luaK_jump ?fs) (\<lambda>(j, fs). bnd (code_all fs ?is) (\<lambda>fs. bnd (luaK_patchtohere fs j) (\<lambda>fs.
        luaK_code fs 11 2))) = Inr (4, fs')"
      and t: "\<forall>p\<in>insert 1 (set [0]). GET_OPCODE (code (fproto fs') ! nat p) = opcode OP_JMP \<and> jump_target (code (fproto fs')) p = 4"
      and b: "\<forall>k<length ?is. code (fproto fs') ! (nat 1 + 1 + k) = fst (?is ! k)"
    by blast
  moreover have "jump_target (code (fproto fs')) 0 = 4" "jump_target (code (fproto fs')) 1 = 4" using t by auto
  moreover have "code (fproto fs') ! 2 = 7" using b [rule_format, of 0] by (simp add: numeral_2_eq_2)
  ultimately show "\<exists>fs'. bnd (luaK_jump ?fs) (\<lambda>(j, fs). bnd (code_all fs ?is)
      (\<lambda>fs. bnd (luaK_patchtohere fs j) (\<lambda>fs. luaK_code fs 11 2))) = Inr (4, fs')
    \<and> jump_target (code (fproto fs')) 0 = 4 \<and> jump_target (code (fproto fs')) 1 = 4
    \<and> code (fproto fs') ! 2 = 7" by blast
qed

section \<open>The count of a long list\<close>

text \<open>
  C9: patching a jump emitted right after a constructor with 26901 to 26950 items destroys its
  code: the word after the \<open>OP_SETLIST\<close>, the block number 539, is taken for an \<open>OP_TESTSET\<close> that controls
  the jump and is overwritten with 26, so that the items are stored in block 26.
\<close>

theorem patch_overwrites_count:
  assumes ok: "fs_ok fs []" and room: "fpc fs + 3 < MAXARG_sBx"
    and "26900 < nelems" "nelems \<le> 26950" and "tostore \<noteq> LUA_MULTRET" and "0 \<le> target" "target \<le> fpc fs"
  shows "\<exists>fs'. bnd (luaK_setlist fs base nelems tostore) (\<lambda>fs. bnd (luaK_jump fs) (\<lambda>(j, fs).
        luaK_patchlist fs j target)) = Inr fs'
    \<and> code (fproto fs') ! nat (fpc fs) = CREATE_ABC (opcode OP_SETLIST) base tostore 0
    \<and> (nelems - 1) sdiv LFIELDS_PER_FLUSH + 1 = 539
    \<and> code (fproto fs') ! nat (fpc fs + 1) = 26"
proof -
  have pc0: "0 \<le> fpc fs" using ok by (simp add: fs_ok_def)
  have "(nelems - 1) div 50 = 538" using assms(3,4) by (simp add: div_pos_geq)
  then have c: "(nelems - 1) sdiv LFIELDS_PER_FLUSH + 1 = 539"
    using assms(3) by (simp add: LFIELDS_PER_FLUSH_def signed_divide_int_def)
  let ?i = "CREATE_ABC (opcode OP_SETLIST) base tostore 0" and ?line = "lastline (fls fs)"
  obtain fs1 where f1: "luaK_code fs ?i ?line = Inr (fpc fs, fs1)" "fs_ok fs1 []" "fpc fs1 = fpc fs + 1"
      "code (fproto fs1) ! nat (fpc fs) = ?i" "fls fs1 = fls fs"
    using code_one [OF ok, of ?i ?line] room by auto
  obtain fs2 where f2: "luaK_code fs1 539 ?line = Inr (fpc fs1, fs2)" "fs_ok fs2 []" "fpc fs2 = fpc fs1 + 1"
      "code (fproto fs2) ! nat (fpc fs1) = 539"
      "\<forall>q. int q < fpc fs1 \<longrightarrow> code (fproto fs2) ! q = code (fproto fs1) ! q"
    using code_one [OF f1(2), of 539 ?line] room f1(3) by auto
  let ?fs2 = "fs2\<lparr>freereg := base + 1\<rparr>"
  have "luaK_setlist fs base nelems tostore = Inr ?fs2"
    using f1(1,5) f2(1) assms(5) by (simp add: luaK_setlist_def c Let_def luaK_codeABC_def MAXARG_C_def SIZE_C_def)
  moreover have ok2: "fs_ok ?fs2 []" using f2(2) by (simp add: fs_ok_def)
  have op: "GET_OPCODE 539 = opcode OP_TESTSET" by code_simp
  have last2: "last_insn ?fs2" using f1(3) f2(3,4) op by (simp add: last_insn_def opcode_lt add.commute)
  have room2: "fpc ?fs2 < MAXARG_sBx" using room f1(3) f2(3) by simp
  obtain d l where j: "luaK_jump ?fs2 = Inr (fpc ?fs2, emitted ?fs2 d l (fpc ?fs2 + 1) NO_JUMP)"
      and ok3: "fs_ok (emitted ?fs2 d l (fpc ?fs2 + 1) NO_JUMP) []" and jl: "jump_list d (fpc ?fs2) (fpc ?fs2 # [])"
      and same: "\<forall>q. int q < fpc ?fs2 \<longrightarrow> d ! q = code (fproto ?fs2) ! q \<and> l ! q = lineinfo (fproto ?fs2) ! q"
    using luaK_jump_list [OF ok2 room2 last2] by blast
  let ?fs3 = "emitted ?fs2 d l (fpc ?fs2 + 1) NO_JUMP" and ?p = "fpc fs + 2"
  have p: "fpc ?fs2 = ?p" "nat (?p - 1) = nat (fpc fs + 1)" using f1(3) f2(3) by simp_all
  have w: "d ! nat (fpc fs + 1) = 539" "d ! nat (fpc fs) = ?i"
    using same [rule_format, of "nat (fpc fs + 1)"] same [rule_format, of "nat (fpc fs)"] f2(4,5) f1(3,4) p pc0 by simp_all
  have v: "value_jump d ?p" using w(1) pc0 p(2) op by (simp add: value_jump_def)
  have off: "\<forall>q\<in>set [?p]. \<bar>target - (q + 1)\<bar> \<le> MAXARG_sBx \<and> \<bar>target - (q + 1)\<bar> \<le> MAXARG_sBx"
    using assms(6,7) room by auto
  have jl': "jump_list (code (fproto ?fs3)) ?p [?p]" using jl p(1) by simp
  obtain c' where e: "patchlistaux ?fs3 ?p target NO_REG target = Inr (?fs3\<lparr>fproto := with_code c' (fproto ?fs3)\<rparr>)"
      and len: "length c' = length (code (fproto ?fs3))"
      and t: "value_jump (code (fproto ?fs3)) ?p \<Longrightarrow> c' ! nat (?p - 1) = patched_test NO_REG (code (fproto ?fs3) ! nat (?p - 1))"
      and rest: "\<forall>q<length c'. int q \<notin> set [?p] \<and> \<not> (int q + 1 \<in> set [?p] \<and> value_jump (code (fproto ?fs3)) (int q + 1))
          \<longrightarrow> c' ! q = code (fproto ?fs3) ! q"
    using patch_retargets [OF jl' off, of NO_REG] by auto
  have "patched_test NO_REG 539 = 26" by code_simp
  then have "c' ! nat (fpc fs + 1) = 26" using t v w(1) p(2) by simp
  moreover have "c' ! nat (fpc fs) = ?i"
    using rest [rule_format, of "nat (fpc fs)"] w(2) pc0 jump_list_pos [OF jl', of ?p] len by simp
  moreover have "luaK_patchlist ?fs3 ?p target = Inr (?fs3\<lparr>fproto := with_code c' (fproto ?fs3)\<rparr>)"
    using e p(1) assms(7) by (simp add: luaK_patchlist_def)
  ultimately show ?thesis using j p(1) c by (simp add: set_code_def)
qed

theorem patch_overwrites_count_witness:
  "\<forall>ls :: unit LexState. \<exists>fs'. bnd (luaK_setlist (fs_of ls [] NO_JUMP) 0 26950 50) (\<lambda>fs. bnd (luaK_jump fs) (\<lambda>(j, fs).
        luaK_patchlist fs j 0)) = Inr fs'
    \<and> code (fproto fs') ! 0 = CREATE_ABC (opcode OP_SETLIST) 0 50 0 \<and> code (fproto fs') ! 1 = 26"
proof
  fix ls :: "unit LexState"
  have "fs_ok (fs_of ls [] NO_JUMP) []" by (simp add: fs_ok_def)
  moreover have "fpc (fs_of ls [] NO_JUMP) + 3 < MAXARG_sBx" by (simp add: encoded drop_bit_eq_div)
  ultimately show "\<exists>fs'. bnd (luaK_setlist (fs_of ls [] NO_JUMP) 0 26950 50) (\<lambda>fs. bnd (luaK_jump fs) (\<lambda>(j, fs).
        luaK_patchlist fs j 0)) = Inr fs'
    \<and> code (fproto fs') ! 0 = CREATE_ABC (opcode OP_SETLIST) 0 50 0 \<and> code (fproto fs') ! 1 = 26"
    using patch_overwrites_count [of "fs_of ls [] NO_JUMP" 26950 50 0 0] by (auto simp: LUA_MULTRET_def)
qed

end
