(* ===== verification/CodeConst.thy ===== *)
theory CodeConst
  imports CodeEmit
begin

text \<open>
  The constants and the registers of a function: \<open>addk\<close> keeps one entry for each constant, found
  through the table of constants, and the registers in use fit the stack the function declares.
\<close>

section \<open>Constants\<close>

lemma with_k_simps [simp]:
  "code (with_k k P) = code P" "lineinfo (with_k k P) = lineinfo P" "pk (with_k k P) = k"
  "maxstacksize (with_k k P) = maxstacksize P"
  by (cases P; simp)+

text \<open>\<open>v\<close> is the constant entered under \<open>key\<close>; the table of constants stands for nil.\<close>

definition k_entry :: "'d FuncState \<Rightarrow> TValue \<Rightarrow> TValue \<Rightarrow> bool" where
  "k_entry fs key v \<longleftrightarrow> (if key = LTable (fhaddr fs) then v = LNil else luaO_rawequalObj key v)"

text \<open>A number in the table of constants is the index of the constant in \<open>k\<close>.\<close>

definition k_ok :: "'d FuncState \<Rightarrow> bool" where
  "k_ok fs \<longleftrightarrow> 0 \<le> fnk fs \<and> fnk fs \<le> sizek (fproto fs) \<and> sizek (fproto fs) \<le> MAXARG_Bx
     \<and> (\<forall>key n. lex_h (fls fs) key = Some (LNumber n) \<longrightarrow> canon key = key \<and> key \<noteq> LNil
          \<and> (\<exists>i. 0 \<le> i \<and> i < fnk fs \<and> n = cast_num i \<and> k_entry fs key (pk (fproto fs) ! nat i)))"

text \<open>What is passed to \<open>addk\<close>.\<close>

definition kv_ok :: "'d FuncState \<Rightarrow> TValue \<times> TValue \<Rightarrow> bool" where
  "kv_ok fs kv \<longleftrightarrow> (case kv of (key, v) \<Rightarrow>
     if key = LTable (fhaddr fs) then v = LNil else v = key \<and> valid_key key)"

lemma MAXARG_Bx_eq: "MAXARG_Bx = 262143"
  by (simp add: MAXARG_Bx_def field_layout)

lemma growvector_k:
  assumes "0 \<le> n" "n \<le> int (length v)" "int (length v) \<le> MAXARG_Bx" "n < MAXARG_Bx"
  shows "\<exists>w. luaM_growvector v n sizeof_TValue MAXARG_Bx x msg = Inr (v @ w) \<and> n < int (length (v @ w))
    \<and> int (length (v @ w)) \<le> MAXARG_Bx"
proof (cases "n + 1 > int (length v)")
  case False
  then show ?thesis using assms by (intro exI [of _ "[]"]) (simp add: luaM_growvector_def)
next
  case True
  then have n: "int (length v) = n" using assms by simp
  define sz where "sz = (if n \<ge> MAXARG_Bx div 2 then MAXARG_Bx else if n * 2 < 4 then 4 else n * 2)"
  have sz: "n < sz" "sz \<le> MAXARG_Bx" using assms(1,4) by (auto simp: sz_def MAXARG_Bx_eq)
  then have "luaM_reallocv (c_uint sz) sizeof_TValue = Inr ()"
    using assms(1) by (simp add: luaM_reallocv_Inr sizeof_TValue_def MAX_SIZET_def word_le_def uint_word_ariths MAXARG_Bx_eq)
  then have "luaM_growaux n sizeof_TValue MAXARG_Bx msg = Inr sz"
    using assms(4) by (simp add: luaM_growaux_def MINSIZEARRAY_def sz_def split: if_splits)
  then have "luaM_growvector v n sizeof_TValue MAXARG_Bx x msg = Inr (v @ replicate (nat sz - length v) x)"
    using True n by (simp only: luaM_growvector_def if_True bnd_Inr)
  moreover have "int (length (v @ replicate (nat sz - length v) x)) = sz"
    using n sz assms(1) by auto
  ultimately show ?thesis using sz by (intro exI [of _ "replicate (nat sz - length v) x"]) auto
qed

lemma canon_canon [simp]: "canon (canon k) = canon k"
  by (simp add: canon_def split: TValue.split)

lemma canon_rawequal: "valid_key k \<Longrightarrow> luaO_rawequalObj (canon k) k"
  by (cases k) (auto simp: canon_def rawequal_cases valid_key_def luai_numisnan_def dest: luai_numeq_sym)

lemma numeq_zero: "luai_numeq m n \<Longrightarrow> m \<noteq> n \<Longrightarrow> luai_numeq m 0 \<and> luai_numeq n 0"
  using luai_numeq_cases [of m n] by (auto simp: luai_numeq_def numkey_def is_nan_def inf_mag_def dmag_def)

lemma canon_eq_iff:
  assumes "valid_key k" "valid_key k'"
  shows "canon k = canon k' \<longleftrightarrow> luaO_rawequalObj k k'"
proof
  assume "canon k = canon k'"
  with canon_rawequal [OF assms(1)] canon_rawequal [OF assms(2)]
  show "luaO_rawequalObj k k'" by (metis rawequal_sym rawequal_trans)
next
  assume e: "luaO_rawequalObj k k'"
  show "canon k = canon k'"
  proof (cases "k = k'")
    case False
    with e obtain m n where k: "k = LNumber m" "k' = LNumber n" "luai_numeq m n" "m \<noteq> n"
      by (cases k; cases k') (auto simp: rawequal_cases)
    with numeq_zero [of m n] show ?thesis by (simp add: canon_def)
  qed simp
qed

lemma canon_other [simp]: "canon (LTable a) = LTable a" "canon LNil = LNil"
  by (simp_all add: canon_def)

lemma canon_table: "canon k = LTable a \<longleftrightarrow> k = LTable a"
  by (cases k) (auto simp: canon_def)

lemma canon_nil: "canon k = LNil \<longleftrightarrow> k = LNil"
  by (cases k) (auto simp: canon_def)

text \<open>
  \<open>addk\<close> returns the index of an entry equal to the constant, keeps the entries and the other keys, and
  leaves the function well formed.
\<close>

definition added :: "'d FuncState \<Rightarrow> TValue \<Rightarrow> TValue \<Rightarrow> int \<Rightarrow> 'd FuncState \<Rightarrow> bool" where
  "added fs key v i fs' \<longleftrightarrow> k_ok fs' \<and> 0 \<le> i \<and> i < fnk fs' \<and> fnk fs \<le> fnk fs' \<and> fnk fs' \<le> fnk fs + 1
     \<and> (fnk fs' = fnk fs + 1 \<longrightarrow> i = fnk fs)
     \<and> luaO_rawequalObj (pk (fproto fs') ! nat i) v
     \<and> (\<forall>j. 0 \<le> j \<and> j < fnk fs \<longrightarrow> pk (fproto fs') ! nat j = pk (fproto fs) ! nat j)
     \<and> lex_h (fls fs') = (lex_h (fls fs))(canon key \<mapsto> LNumber (cast_num i))
     \<and> (\<forall>n. lex_h (fls fs) (canon key) = Some (LNumber n) \<longrightarrow> n = cast_num i)
     \<and> (\<exists>h k n. fs' = fs\<lparr>fls := (fls fs)\<lparr>lex_h := h\<rparr>, fproto := with_k k (fproto fs), fnk := n\<rparr>)"

lemma rawequal_nil: "luaO_rawequalObj LNil v \<longleftrightarrow> v = LNil" "luaO_rawequalObj v LNil \<longleftrightarrow> v = LNil"
  by (cases v; simp add: rawequal_cases)+

lemma kv_ok_entry:
  assumes "kv_ok fs (key, v)"
  shows "k_entry fs (canon key) v" "canon key \<noteq> LNil" "\<not> (case key of LNumber n \<Rightarrow> luai_numisnan n | _ \<Rightarrow> False)"
    "k_entry fs (canon key) w \<Longrightarrow> luaO_rawequalObj w v"
proof -
  have "k_entry fs (canon key) v \<and> canon key \<noteq> LNil
    \<and> \<not> (case key of LNumber n \<Rightarrow> luai_numisnan n | _ \<Rightarrow> False)
    \<and> (k_entry fs (canon key) w \<longrightarrow> luaO_rawequalObj w v)"
  proof (cases "key = LTable (fhaddr fs)")
    case True
    with assms show ?thesis by (simp add: kv_ok_def k_entry_def rawequal_cases)
  next
    case False
    then have v: "v = key" "valid_key key" using assms by (simp_all add: kv_ok_def)
    then have "key \<noteq> LNil" "\<not> (case key of LNumber n \<Rightarrow> luai_numisnan n | _ \<Rightarrow> False)"
      by (auto simp: valid_key_def split: TValue.splits)
    moreover have "luaO_rawequalObj (canon key) key" using v(2) by (rule canon_rawequal)
    moreover have "canon key \<noteq> LTable (fhaddr fs)" using False by (simp add: canon_table)
    ultimately show ?thesis using v(1)
      by (metis canon_nil k_entry_def rawequal_sym rawequal_trans)
  qed
  then show "k_entry fs (canon key) v" "canon key \<noteq> LNil"
    "\<not> (case key of LNumber n \<Rightarrow> luai_numisnan n | _ \<Rightarrow> False)"
    "k_entry fs (canon key) w \<Longrightarrow> luaO_rawequalObj w v" by blast+
qed

lemma with_k_same [simp]: "with_k (pk P) P = P"
  by (cases P) simp

lemma addk_adds:
  assumes ok: "k_ok fs" and kv: "kv_ok fs (key, v)" and room: "fnk fs < MAXARG_Bx"
  shows "\<exists>i fs'. addk fs key v = Inr (i, fs') \<and> added fs key v i fs'"
proof (cases "\<exists>n. lex_h (fls fs) (canon key) = Some (LNumber n)")
  case True
  then obtain n where n: "lex_h (fls fs) (canon key) = Some (LNumber n)" by blast
  with ok obtain i where i: "0 \<le> i" "i < fnk fs" "n = cast_num i" "k_entry fs (canon key) (pk (fproto fs) ! nat i)"
    by (force simp: k_ok_def)
  have "i < 2147483648" using i(2) room by (simp add: MAXARG_Bx_eq)
  then have "addk fs key v = Inr (i, fs)" using n i kv_ok_entry(3) [OF kv] by (simp add: addk_def)
  moreover have "(lex_h (fls fs))(canon key \<mapsto> LNumber (cast_num i)) = lex_h (fls fs)"
    using n i(3) by auto
  moreover have "\<exists>h k n. fs = fs\<lparr>fls := (fls fs)\<lparr>lex_h := h\<rparr>, fproto := with_k k (fproto fs), fnk := n\<rparr>"
    by (intro exI [of _ "lex_h (fls fs)"] exI [of _ "pk (fproto fs)"] exI [of _ "fnk fs"]) simp
  ultimately show ?thesis using i n ok kv_ok_entry(4) [OF kv] by (auto simp: added_def)
next
  case False
  have b: "0 \<le> fnk fs" "fnk fs \<le> sizek (fproto fs)" "sizek (fproto fs) \<le> MAXARG_Bx"
    using ok by (simp_all add: k_ok_def)
  obtain w where w: "luaM_growvector (pk (fproto fs)) (fnk fs) sizeof_TValue MAXARG_Bx LNil ''constant table overflow''
        = Inr (pk (fproto fs) @ w)" "fnk fs < int (length (pk (fproto fs) @ w))" "int (length (pk (fproto fs) @ w)) \<le> MAXARG_Bx"
    using growvector_k [OF b room] by blast
  let ?h = "(lex_h (fls fs))(canon key \<mapsto> LNumber (cast_num (fnk fs)))"
  let ?k = "(pk (fproto fs) @ w)[nat (fnk fs) := v]"
  let ?fs' = "fs\<lparr>fls := (fls fs)\<lparr>lex_h := ?h\<rparr>, fproto := with_k ?k (fproto fs), fnk := fnk fs + 1\<rparr>"
  have e: "addk fs key v = Inr (fnk fs, ?fs')"
    using False w(1) kv_ok_entry(3) [OF kv]
    by (auto simp: addk_def Let_def split: option.split TValue.split)
  have new: "?k ! nat (fnk fs) = v" using w(2) b by (simp add: nat_less_iff)
  have old: "?k ! nat j = pk (fproto fs) ! nat j" if "0 \<le> j" "j < fnk fs" for j
    using that b by (simp add: nth_append nat_less_iff)
  have "k_ok ?fs'"
    unfolding k_ok_def
  proof (intro conjI allI impI)
    fix k n assume "lex_h (fls ?fs') k = Some (LNumber n)"
    then have "?h k = Some (LNumber n)" by simp
    then consider "k = canon key" "n = cast_num (fnk fs)" | "lex_h (fls fs) k = Some (LNumber n)"
      by (cases "k = canon key") auto
    then have "canon k = k \<and> k \<noteq> LNil \<and> (\<exists>i. 0 \<le> i \<and> i < fnk ?fs' \<and> n = cast_num i \<and> k_entry ?fs' k (pk (fproto ?fs') ! nat i))"
    proof cases
      case 1
      with kv_ok_entry [OF kv] new b show ?thesis
        by (auto intro!: exI [of _ "fnk fs"] simp: k_entry_def)
    next
      case 2
      with ok obtain i where "canon k = k" "k \<noteq> LNil" "0 \<le> i" "i < fnk fs" "n = cast_num i" "k_entry fs k (pk (fproto fs) ! nat i)"
        unfolding k_ok_def by blast
      with old show ?thesis by (auto intro!: exI [of _ i] simp: k_entry_def)
    qed
    then show "canon k = k" "k \<noteq> LNil" "\<exists>i. 0 \<le> i \<and> i < fnk ?fs' \<and> n = cast_num i \<and> k_entry ?fs' k (pk (fproto ?fs') ! nat i)"
      by blast+
  qed (use b w in auto)
  moreover have "luaO_rawequalObj v v" using kv_ok_entry [OF kv] by blast
  ultimately have "added fs key v (fnk fs) ?fs'" using b new old False by (auto simp: added_def)
  with e show ?thesis by blast
qed

fun add_all :: "'d FuncState \<Rightarrow> (TValue \<times> TValue) list \<Rightarrow> (int list \<times> 'd FuncState) result" where
  "add_all fs [] = Inr ([], fs)"
| "add_all fs ((key, v) # kvs) =
     bnd (addk fs key v) (\<lambda>(i, fs). bnd (add_all fs kvs) (\<lambda>(is, fs). Inr (i # is, fs)))"

definition k_index :: "'d FuncState \<Rightarrow> TValue \<times> TValue \<Rightarrow> int \<Rightarrow> bool" where
  "k_index fs kv i \<longleftrightarrow> 0 \<le> i \<and> i < fnk fs \<and> luaO_rawequalObj (pk (fproto fs) ! nat i) (snd kv)
     \<and> lex_h (fls fs) (canon (fst kv)) = Some (LNumber (cast_num i))"

text \<open>Entries stay where they are while others are added.\<close>

definition k_grows :: "'d FuncState \<Rightarrow> 'd FuncState \<Rightarrow> bool" where
  "k_grows fs fs' \<longleftrightarrow> k_ok fs' \<and> fnk fs \<le> fnk fs' \<and> fhaddr fs' = fhaddr fs
     \<and> (\<forall>j. 0 \<le> j \<and> j < fnk fs \<longrightarrow> pk (fproto fs') ! nat j = pk (fproto fs) ! nat j)
     \<and> (\<forall>key n. lex_h (fls fs) key = Some (LNumber n) \<longrightarrow> lex_h (fls fs') key = Some (LNumber n))"

lemma added_grows: "added fs key v i fs' \<Longrightarrow> k_grows fs fs'"
  by (auto simp: added_def k_grows_def)

lemma added_index: "added fs key v i fs' \<Longrightarrow> k_index fs' (key, v) i"
  by (auto simp: added_def k_index_def)

lemma k_index_grows: "k_index fs kv i \<Longrightarrow> k_grows fs fs' \<Longrightarrow> k_index fs' kv i"
  by (auto simp: k_index_def k_grows_def)

lemma k_grows_trans: "k_grows fs fs1 \<Longrightarrow> k_grows fs1 fs2 \<Longrightarrow> k_grows fs fs2"
  by (auto simp: k_grows_def)

lemma add_all_adds:
  assumes "k_ok fs" and "\<forall>kv\<in>set kvs. kv_ok fs kv" and "fnk fs + int (length kvs) \<le> MAXARG_Bx"
  shows "\<exists>is fs'. add_all fs kvs = Inr (is, fs') \<and> k_grows fs fs' \<and> list_all2 (k_index fs') kvs is"
  using assms
proof (induction kvs arbitrary: fs)
  case Nil
  then show ?case by (auto simp: k_grows_def)
next
  case (Cons kv kvs)
  obtain key v where kv: "kv = (key, v)" by (cases kv)
  obtain i fs1 where a: "addk fs key v = Inr (i, fs1)" "added fs key v i fs1"
    using addk_adds [of fs key v] Cons.prems kv by auto
  have "fhaddr fs1 = fhaddr fs" "fnk fs1 \<le> fnk fs + 1" "k_ok fs1"
    using a(2) by (auto simp: added_def)
  then have "k_ok fs1" "\<forall>kv\<in>set kvs. kv_ok fs1 kv" "fnk fs1 + int (length kvs) \<le> MAXARG_Bx"
    using Cons.prems by (auto simp: kv_ok_def)
  from Cons.IH [OF this] obtain js fs' where b: "add_all fs1 kvs = Inr (js, fs')" "k_grows fs1 fs'"
      "list_all2 (k_index fs') kvs js" by blast
  have "k_index fs' (key, v) i" using added_index [OF a(2)] b(2) by (rule k_index_grows)
  moreover have "k_grows fs fs'" using added_grows [OF a(2)] b(2) by (rule k_grows_trans)
  ultimately show ?case using a(1) b kv by (intro exI [of _ "i # js"] exI [of _ fs']) auto
qed

text \<open>
  C35: whatever constants are added to a function, in any order, each gets the index of an entry of \<open>k\<close>
  that is equal to it, earlier entries stay where they are, and two of them share an index exactly
  when they are equal.
\<close>

theorem constants_shared:
  assumes "k_ok fs" and "\<forall>kv\<in>set kvs. kv_ok fs kv" and "fnk fs + int (length kvs) \<le> MAXARG_Bx"
  shows "\<exists>is fs'. add_all fs kvs = Inr (is, fs') \<and> k_ok fs' \<and> length is = length kvs
    \<and> (\<forall>a<length kvs. 0 \<le> is ! a \<and> is ! a < fnk fs' \<and> luaO_rawequalObj (pk (fproto fs') ! nat (is ! a)) (snd (kvs ! a)))
    \<and> (\<forall>j. 0 \<le> j \<and> j < fnk fs \<longrightarrow> pk (fproto fs') ! nat j = pk (fproto fs) ! nat j)
    \<and> (\<forall>a<length kvs. \<forall>b<length kvs. is ! a = is ! b \<longleftrightarrow> luaO_rawequalObj (snd (kvs ! a)) (snd (kvs ! b)))"
proof -
  obtain js fs' where e: "add_all fs kvs = Inr (js, fs')" and g: "k_grows fs fs'" and l: "list_all2 (k_index fs') kvs js"
    using add_all_adds [OF assms] by blast
  have len: "length js = length kvs" using l by (simp add: list_all2_lengthD)
  have ki: "k_index fs' (kvs ! a) (js ! a)" if "a < length kvs" for a using l that by (simp add: list_all2_conv_all_nth)
  have share: "js ! a = js ! b \<longleftrightarrow> luaO_rawequalObj (snd (kvs ! a)) (snd (kvs ! b))"
    if ab: "a < length kvs" "b < length kvs" for a b
  proof
    assume "js ! a = js ! b"
    then have "luaO_rawequalObj (pk (fproto fs') ! nat (js ! a)) (snd (kvs ! a))"
        "luaO_rawequalObj (pk (fproto fs') ! nat (js ! a)) (snd (kvs ! b))"
      using ki [OF ab(1)] ki [OF ab(2)] by (simp_all add: k_index_def)
    then show "luaO_rawequalObj (snd (kvs ! a)) (snd (kvs ! b))" by (blast intro: rawequal_sym rawequal_trans)
  next
    assume eq: "luaO_rawequalObj (snd (kvs ! a)) (snd (kvs ! b))"
    obtain ka va kb vb where kv: "kvs ! a = (ka, va)" "kvs ! b = (kb, vb)" by (metis surj_pair)
    have ok: "kv_ok fs (ka, va)" "kv_ok fs (kb, vb)" using assms(2) nth_mem [OF ab(1)] nth_mem [OF ab(2)] kv by auto
    have nil: "va = LNil \<longleftrightarrow> vb = LNil" 
    proof -
      have "luaO_rawequalObj va vb" using eq kv by simp
      then show ?thesis by (metis rawequal_nil)
    qed
    have "canon ka = canon kb"
    proof (cases "va = LNil")
      case True
      with nil ok show ?thesis by (auto simp: kv_ok_def valid_key_def split: if_splits)
    next
      case False
      with nil ok have "va = ka" "vb = kb" "valid_key ka" "valid_key kb" by (auto simp: kv_ok_def split: if_splits)
      with eq kv show ?thesis by (simp add: canon_eq_iff)
    qed
    then have "cast_num (js ! a) = cast_num (js ! b)"
      using ki [OF ab(1)] ki [OF ab(2)] kv by (simp add: k_index_def)
    moreover have "fnk fs' \<le> MAXARG_Bx" using g by (simp add: k_grows_def k_ok_def)
    then have "lua_number2int (cast_num (js ! a)) = js ! a" "lua_number2int (cast_num (js ! b)) = js ! b"
      using ki [OF ab(1)] ki [OF ab(2)] by (simp_all add: k_index_def MAXARG_Bx_eq)
    ultimately show "js ! a = js ! b" by metis
  qed
  with e g len ki show ?thesis
    by (intro exI [of _ js] exI [of _ fs']) (simp add: k_grows_def k_index_def)
qed

text \<open>\<open>true\<close>, nil and a string, with \<open>true\<close> twice.\<close>

theorem constants_shared_witness:
  "\<forall>ls :: unit LexState. \<exists>i j k fs'.
     add_all (fs_of (ls\<lparr>lex_h := \<lambda>_. None\<rparr>) [] NO_JUMP)
       [(LBool 1, LBool 1), (LTable 1, LNil), (LString [97], LString [97]), (LBool 1, LBool 1)] = Inr ([i, j, k, i], fs')
     \<and> i \<noteq> j \<and> j \<noteq> k \<and> luaO_rawequalObj (pk (fproto fs') ! nat k) (LString [97])"
proof
  fix ls :: "unit LexState"
  let ?fs = "fs_of (ls\<lparr>lex_h := \<lambda>_. None\<rparr>) [] NO_JUMP"
  let ?kvs = "[(LBool 1, LBool 1), (LTable 1, LNil), (LString [97], LString [97]), (LBool 1, LBool 1)]"
  have h: "fhaddr ?fs = 1" "fnk ?fs = 0" "pk (fproto ?fs) = []" by (simp_all add: fs_of_def luaF_newproto_def)
  then have "k_ok ?fs" "\<forall>kv\<in>set ?kvs. kv_ok ?fs kv" "fnk ?fs + int (length ?kvs) \<le> MAXARG_Bx"
    by (simp_all add: k_ok_def kv_ok_def valid_key_def MAXARG_Bx_eq)
  from constants_shared [OF this] obtain js fs' where e: "add_all ?fs ?kvs = Inr (js, fs')"
      and len: "length js = length ?kvs"
      and v: "\<forall>a<length ?kvs. 0 \<le> js ! a \<and> js ! a < fnk fs' \<and> luaO_rawequalObj (pk (fproto fs') ! nat (js ! a)) (snd (?kvs ! a))"
      and s: "\<forall>a<length ?kvs. \<forall>b<length ?kvs. js ! a = js ! b \<longleftrightarrow> luaO_rawequalObj (snd (?kvs ! a)) (snd (?kvs ! b))"
    by blast
  obtain i j k l where js: "js = [i, j, k, l]" using len by (auto simp: length_Suc_conv)
  have "l = i" "i \<noteq> j" "j \<noteq> k"
    using s [rule_format, of 3 0] s [rule_format, of 0 1] s [rule_format, of 1 2] js by (simp_all add: rawequal_cases)
  moreover have "luaO_rawequalObj (pk (fproto fs') ! nat k) (LString [97])" using v [rule_format, of 2] js by simp
  ultimately show "\<exists>i j k fs'. add_all ?fs ?kvs = Inr ([i, j, k, i], fs')
     \<and> i \<noteq> j \<and> j \<noteq> k \<and> luaO_rawequalObj (pk (fproto fs') ! nat k) (LString [97])"
    using e js by blast
qed

section \<open>Registers\<close>

lemma with_maxstacksize_simps [simp]:
  "code (with_maxstacksize m P) = code P" "lineinfo (with_maxstacksize m P) = lineinfo P"
  "pk (with_maxstacksize m P) = pk P" "maxstacksize (with_maxstacksize m P) = m"
  "with_maxstacksize (maxstacksize P) P = P"
  by (cases P; simp)+

definition regs_ok :: "'d FuncState \<Rightarrow> bool" where
  "regs_ok fs \<longleftrightarrow> 0 \<le> nactvar fs \<and> nactvar fs \<le> freereg fs \<and> freereg fs \<le> uint (maxstacksize (fproto fs))
     \<and> uint (maxstacksize (fproto fs)) < MAXSTACK"

lemma luaX_syntaxerror_bnd [simp]: "bnd (luaX_syntaxerror ls msg) f = luaX_syntaxerror ls msg"
  by (cases "token (tok ls) = 0"; cases "txtToken ls (token (tok ls))") (simp_all add: luaX_syntaxerror_def luaX_lexerror_def)

lemma uint_cast_byte: "0 \<le> x \<Longrightarrow> x < 256 \<Longrightarrow> uint (cast_byte x) = x"
  by (simp add: cast_byte_def unsigned_of_int take_bit_int_eq_self)

lemma reserveregs_ok:
  assumes "regs_ok fs" and "0 \<le> n" and "freereg fs + n < MAXSTACK"
  shows "\<exists>m. luaK_reserveregs fs n =
      Inr (fs\<lparr>fproto := with_maxstacksize m (fproto fs), freereg := freereg fs + n\<rparr>)
    \<and> uint m = max (uint (maxstacksize (fproto fs))) (freereg fs + n)"
proof (cases "freereg fs + n > uint (maxstacksize (fproto fs))")
  case True
  then have "uint (cast_byte (freereg fs + n)) = freereg fs + n"
    using assms by (intro uint_cast_byte) (simp_all add: regs_ok_def MAXSTACK_def)
  then show ?thesis using True assms(3)
    by (intro exI [of _ "cast_byte (freereg fs + n)"]) (simp add: luaK_reserveregs_def luaK_checkstack_def)
next
  case False
  then show ?thesis
    by (intro exI [of _ "maxstacksize (fproto fs)"]) (simp add: luaK_reserveregs_def luaK_checkstack_def)
qed

text \<open>
  C36: reserving registers keeps those in use within the stack the function declares, which stays below
  250 and grows no further than needed; if that is not possible it raises the error the code names.
\<close>

theorem reserveregs_fits:
  assumes "regs_ok fs" and "0 \<le> n"
  shows "if freereg fs + n < MAXSTACK
    then \<exists>fs'. luaK_reserveregs fs n = Inr fs' \<and> regs_ok fs' \<and> freereg fs' = freereg fs + n
        \<and> code (fproto fs') = code (fproto fs)
        \<and> uint (maxstacksize (fproto fs')) = max (uint (maxstacksize (fproto fs))) (freereg fs + n)
    else luaK_reserveregs fs n = luaX_syntaxerror (fls fs) ''function or expression too complex''"
proof (cases "freereg fs + n < MAXSTACK")
  case True
  obtain m where "luaK_reserveregs fs n = Inr (fs\<lparr>fproto := with_maxstacksize m (fproto fs), freereg := freereg fs + n\<rparr>)"
      "uint m = max (uint (maxstacksize (fproto fs))) (freereg fs + n)"
    using reserveregs_ok [OF assms True] by blast
  with True assms show ?thesis by (auto simp: regs_ok_def)
next
  case False
  have "freereg fs + n > uint (maxstacksize (fproto fs))" using False assms by (simp add: regs_ok_def)
  with False show ?thesis by (simp add: luaK_reserveregs_def luaK_checkstack_def)
qed

theorem reserveregs_fits_witness:
  "\<forall>ls :: unit LexState. (\<exists>fs'. luaK_reserveregs (fs_of ls [] NO_JUMP) 3 = Inr fs' \<and> freereg fs' = 3
      \<and> uint (maxstacksize (fproto fs')) = 3)
    \<and> luaK_reserveregs (fs_of ls [] NO_JUMP) 250 = luaX_syntaxerror ls ''function or expression too complex''"
proof
  fix ls :: "unit LexState"
  have "regs_ok (fs_of ls [] NO_JUMP)" by (simp add: regs_ok_def fs_of_def luaF_newproto_def MAXSTACK_def)
  from reserveregs_fits [OF this, of 3] reserveregs_fits [OF this, of 250]
  show "(\<exists>fs'. luaK_reserveregs (fs_of ls [] NO_JUMP) 3 = Inr fs' \<and> freereg fs' = 3
      \<and> uint (maxstacksize (fproto fs')) = 3)
    \<and> luaK_reserveregs (fs_of ls [] NO_JUMP) 250 = luaX_syntaxerror ls ''function or expression too complex''"
    by (auto simp: MAXSTACK_def fs_of_def luaF_newproto_def)
qed

end
