(* ===== verification/CodeExpr.thy ===== *)
theory CodeExpr
  imports CodeConst
begin

text \<open>
  Code generation for expressions: from a well-formed function and expression, each operation that
  turns an expression into a register or operand returns, with the function well formed again and the
  operand in range. The code array is never indexed outside and no loop over a jump list runs away.
\<close>

section \<open>Operations that return\<close>

definition returns :: "('a \<Rightarrow> bool) \<Rightarrow> 'a result \<Rightarrow> bool" where
  "returns P m \<longleftrightarrow> (case m of Inl e \<Rightarrow> False | Inr x \<Rightarrow> P x)"

lemma returns_Inr [simp]: "returns P (Inr x) = P x"
  by (simp add: returns_def)

lemma returns_bnd: "returns P m \<Longrightarrow> (\<And>x. P x \<Longrightarrow> returns Q (f x)) \<Longrightarrow> returns Q (bnd m f)"
  by (cases m) (simp_all add: returns_def)

lemma returns_mono: "returns P m \<Longrightarrow> (\<And>x. P x \<Longrightarrow> Q x) \<Longrightarrow> returns Q m"
  by (cases m) (simp_all add: returns_def)

lemma returnsI: "m = Inr x \<Longrightarrow> P x \<Longrightarrow> returns P m"
  by simp

section \<open>Steps of the code generator\<close>

definition st_ok :: "'d FuncState \<Rightarrow> int list \<Rightarrow> bool" where
  "st_ok fs ps \<longleftrightarrow> fs_ok fs ps \<and> last_insn fs \<and> k_ok fs"

text \<open>
  From \<open>fs\<close> with the pending jumps \<open>ps\<close> to \<open>fs'\<close> with \<open>ps'\<close>: of the jumps below the old position only
  those of \<open>ps\<close> and \<open>Q\<close> may have changed, and every other instruction has kept its opcode unless it was
  the test of a value.
\<close>

definition op_at :: "'d FuncState \<Rightarrow> nat \<Rightarrow> nat" where
  "op_at fs q = GET_OPCODE (code (fproto fs) ! q)"

definition same_op :: "nat \<Rightarrow> nat \<Rightarrow> bool" where
  "same_op o1 o2 \<longleftrightarrow> o2 = o1 \<or> o1 = opcode OP_TESTSET \<and> o2 = opcode OP_TEST"

definition keeps :: "'d FuncState \<Rightarrow> 'd FuncState \<Rightarrow> int set \<Rightarrow> bool" where
  "keeps fs fs' P \<longleftrightarrow> (\<forall>q. int q < fpc fs \<longrightarrow> same_op (op_at fs q) (op_at fs' q)
     \<and> (op_at fs q = opcode OP_JMP \<and> int q \<notin> P \<longrightarrow> code (fproto fs') ! q = code (fproto fs) ! q))"

definition steps :: "'d FuncState \<Rightarrow> int list \<Rightarrow> int set \<Rightarrow> 'd FuncState \<Rightarrow> int list \<Rightarrow> bool" where
  "steps fs ps Q fs' ps' \<longleftrightarrow> st_ok fs' ps' \<and> fpc fs \<le> fpc fs' \<and> nactvar fs' = nactvar fs \<and> k_grows fs fs'
     \<and> set ps' \<subseteq> set ps \<union> Q \<union> {fpc fs..} \<and> keeps fs fs' (set ps \<union> Q)"

lemma same_op_refl [simp]: "same_op o1 o1"
  by (simp add: same_op_def)

lemma same_op_trans: "same_op o1 o2 \<Longrightarrow> same_op o2 o3 \<Longrightarrow> same_op o1 o3"
  by (auto simp: same_op_def)

lemma same_op_bound: "same_op o1 o2 \<Longrightarrow> o1 < NUM_OPCODES \<Longrightarrow> o2 < NUM_OPCODES"
  by (auto simp: same_op_def opcode_lt)

lemma steps_refl: "st_ok fs ps \<Longrightarrow> steps fs ps Q fs ps"
  by (auto simp: steps_def keeps_def k_grows_def st_ok_def)

lemma steps_trans:
  assumes a: "steps fs ps Q fs1 ps1" and b: "steps fs1 ps1 Q1 fs2 ps2"
    and Q: "Q1 \<subseteq> set ps \<union> Q \<union> {fpc fs..}"
  shows "steps fs ps Q fs2 ps2"
proof -
  have pc: "fpc fs \<le> fpc fs1" "fpc fs1 \<le> fpc fs2" using a b by (simp_all add: steps_def)
  have new: "{fpc fs1..} \<subseteq> {fpc fs..}" using pc by auto
  have s1: "set ps1 \<subseteq> set ps \<union> Q \<union> {fpc fs..}" using a by (simp add: steps_def)
  have "keeps fs fs2 (set ps \<union> Q)"
    unfolding keeps_def
  proof (intro allI impI)
    fix q assume q: "int q < fpc fs"
    have k1: "same_op (op_at fs q) (op_at fs1 q)"
        "op_at fs q = opcode OP_JMP \<and> int q \<notin> set ps \<union> Q \<longrightarrow> code (fproto fs1) ! q = code (fproto fs) ! q"
      using a q by (simp_all add: steps_def keeps_def)
    have k2: "same_op (op_at fs1 q) (op_at fs2 q)"
        "op_at fs1 q = opcode OP_JMP \<and> int q \<notin> set ps1 \<union> Q1 \<longrightarrow> code (fproto fs2) ! q = code (fproto fs1) ! q"
      using b q pc by (simp_all add: steps_def keeps_def)
    show "same_op (op_at fs q) (op_at fs2 q) \<and>
        (op_at fs q = opcode OP_JMP \<and> int q \<notin> set ps \<union> Q \<longrightarrow> code (fproto fs2) ! q = code (fproto fs) ! q)"
    proof (intro conjI impI)
      show "same_op (op_at fs q) (op_at fs2 q)" using k1(1) k2(1) by (rule same_op_trans)
      assume j: "op_at fs q = opcode OP_JMP \<and> int q \<notin> set ps \<union> Q"
      then have "code (fproto fs1) ! q = code (fproto fs) ! q" using k1(2) by blast
      moreover have "int q \<notin> set ps1 \<union> Q1" using j s1 Q q by auto
      ultimately show "code (fproto fs2) ! q = code (fproto fs) ! q" using j k2(2) by (simp add: op_at_def)
    qed
  qed
  moreover have "k_grows fs fs2" using a b by (auto simp: steps_def intro: k_grows_trans)
  moreover have "set ps2 \<subseteq> set ps \<union> Q \<union> {fpc fs..}" using b s1 Q new by (auto simp: steps_def)
  ultimately show ?thesis using a b pc by (simp add: steps_def)
qed

lemma steps_mono: "steps fs ps Q fs' ps' \<Longrightarrow> Q \<subseteq> Q' \<Longrightarrow> steps fs ps Q' fs' ps'"
  by (auto simp: steps_def keeps_def)

text \<open>A list of jumps that are neither pending nor given to the operation survives.\<close>

lemma jump_list_steps:
  assumes l: "jump_list (code (fproto fs)) l rs" and below: "\<And>r. r \<in> set rs \<Longrightarrow> r < fpc fs"
    and s: "steps fs ps Q fs' ps'" and d: "set rs \<inter> (set ps \<union> Q) = {}"
  shows "jump_list (code (fproto fs')) l rs"
proof (rule jump_list_cong [OF l])
  have ok: "fpc fs \<le> fpc fs'" "fpc fs' \<le> sizecode (fproto fs')"
    using s by (simp_all add: steps_def st_ok_def fs_ok_def)
  fix p assume p: "p \<in> set rs"
  then have j: "is_jump (code (fproto fs)) p" using l by (rule jump_list_jumps [rotated])
  have b: "p < fpc fs" using p by (rule below)
  then show "p < sizecode (fproto fs')" using ok by simp
  have k: "keeps fs fs' (set ps \<union> Q)" using s by (simp add: steps_def)
  have "int (nat p) = p" using j by (simp add: is_jump_def)
  then show "code (fproto fs') ! nat p = code (fproto fs) ! nat p"
    using k [unfolded keeps_def, rule_format, of "nat p"] j b d p by (auto simp: is_jump_def op_at_def)
  assume "p \<ge> 1"
  then show "GET_OPCODE (code (fproto fs') ! nat (p - 1)) < NUM_OPCODES"
    using k [unfolded keeps_def, rule_format, of "nat (p - 1)"] j b
    by (auto simp: is_jump_def op_at_def intro: same_op_bound)
qed

text \<open>The registers and constants are as before.\<close>

definition same_regs :: "'d FuncState \<Rightarrow> 'd FuncState \<Rightarrow> bool" where
  "same_regs fs fs' \<longleftrightarrow> freereg fs' = freereg fs \<and> maxstacksize (fproto fs') = maxstacksize (fproto fs) \<and> fnk fs' = fnk fs"

lemma same_regs_refl [simp]: "same_regs fs fs"
  by (simp add: same_regs_def)

lemma same_regs_trans: "same_regs fs fs1 \<Longrightarrow> same_regs fs1 fs2 \<Longrightarrow> same_regs fs fs2"
  by (simp add: same_regs_def)

lemma k_grows_same:
  "k_ok fs \<Longrightarrow> fls fs' = fls fs \<Longrightarrow> fnk fs' = fnk fs \<Longrightarrow> pk (fproto fs') = pk (fproto fs) \<Longrightarrow> fhaddr fs' = fhaddr fs
     \<Longrightarrow> k_grows fs fs'"
  by (simp add: k_grows_def k_ok_def k_entry_def)

lemma patched_same_op: "same_op (GET_OPCODE (c ! q)) (GET_OPCODE (patched c P vt reg dt q))"
  using GET_OPCODE_patched_test [of "c ! q" reg] by (auto simp: patched_def same_op_def fields)

lemma patched_jump: "GET_OPCODE (c ! q) = opcode OP_JMP \<Longrightarrow> int q \<notin> P \<Longrightarrow> patched c P vt reg dt q = c ! q"
  by (simp add: patched_def)

lemma emitted_rest [simp]: "fhaddr (emitted fs c l pc j) = fhaddr fs"
  by (simp add: emitted_def)

lemma set_code_rest [simp]: "fhaddr (set_code c fs) = fhaddr fs"
  by (simp add: set_code_def)

lemma code_step:
  assumes ok: "st_ok fs ps" and room: "fpc fs < MAXARG_sBx" and op: "GET_OPCODE i < NUM_OPCODES"
  shows "returns (\<lambda>(pc, fs'). pc = fpc fs \<and> fpc fs' = fpc fs + 1 \<and> steps fs ps {} fs' [] \<and> same_regs fs fs'
      \<and> code (fproto fs') ! nat pc = i) (luaK_code fs i line)"
proof -
  have fok: "fs_ok fs ps" using ok by (simp add: st_ok_def)
  obtain c l where e: "luaK_code fs i line = Inr (fpc fs, emitted fs c l (fpc fs + 1) NO_JUMP)"
      and a: "appended fs ps i line c l"
    using fok room by (rule luaK_code_emits)
  let ?fs = "emitted fs c l (fpc fs + 1) NO_JUMP"
  have pc0: "0 \<le> fpc fs" using fok by (simp add: fs_ok_def)
  have "fs_ok ?fs []" using a pc0 by (simp add: fs_ok_def appended_def)
  moreover have "last_insn ?fs" using a op by (simp add: last_insn_def appended_def)
  moreover have "k_grows fs ?fs" using ok by (intro k_grows_same) (simp_all add: st_ok_def)
  moreover have "keeps fs ?fs (set ps \<union> {})"
    using a by (auto simp: keeps_def appended_def op_at_def patched_same_op patched_jump)
  ultimately have "steps fs ps {} ?fs []"
    by (auto simp: steps_def st_ok_def k_grows_def emitted_def)
  then show ?thesis using a by (intro returnsI [OF e]) (simp add: appended_def same_regs_def)
qed

lemma GET_OPCODE_CREATE_ABx: "op < 64 \<Longrightarrow> GET_OPCODE (CREATE_ABx op a b) = op"
  by (simp add: macro_get CREATE_ABx_def field_layout fld_or fld_push_above unat_of_op take_bit_op
      fld_push_same [of 6 0 "of_nat op", simplified])

lemma getlabel_step: "st_ok fs ps \<Longrightarrow> st_ok (fs\<lparr>lasttarget := n\<rparr>) ps"
  by (simp add: st_ok_def fs_ok_def last_insn_def k_ok_def k_entry_def)

lemma code_one_step:
  assumes "st_ok fs ps" "fpc fs < MAXARG_sBx"
  shows "returns (\<lambda>(pc, fs'). pc = fpc fs \<and> fpc fs' = fpc fs + 1 \<and> steps fs ps {} fs' [] \<and> same_regs fs fs'
      \<and> code (fproto fs') ! nat pc = CREATE_ABC (opcode op) a b c) (luaK_codeABC fs op a b c)"
    "returns (\<lambda>(pc, fs'). pc = fpc fs \<and> fpc fs' = fpc fs + 1 \<and> steps fs ps {} fs' [] \<and> same_regs fs fs'
      \<and> code (fproto fs') ! nat pc = CREATE_ABx (opcode op) a b) (luaK_codeABx fs op a b)"
  unfolding luaK_codeABC_def luaK_codeABx_def
  by (rule code_step [OF assms], simp add: GET_OPCODE_CREATE GET_OPCODE_CREATE_ABx opcode_lt)+

lemma jump_step:
  assumes ok: "st_ok fs ps" and room: "fpc fs < MAXARG_sBx"
  shows "returns (\<lambda>(j, fs'). j = fpc fs \<and> fpc fs' = fpc fs + 1 \<and> steps fs ps {} fs' [] \<and> same_regs fs fs'
      \<and> jump_list (code (fproto fs')) j (j # ps)) (luaK_jump fs)"
proof -
  have fok: "fs_ok fs ps" "last_insn fs" using ok by (simp_all add: st_ok_def)
  obtain c l where e: "luaK_jump fs = Inr (fpc fs, emitted fs c l (fpc fs + 1) NO_JUMP)"
      and a: "fs_ok (emitted fs c l (fpc fs + 1) NO_JUMP) []" "jump_list c (fpc fs) (fpc fs # ps)"
      "\<forall>q. int q < fpc fs \<longrightarrow> c ! q = code (fproto fs) ! q \<and> l ! q = lineinfo (fproto fs) ! q"
      "GET_OPCODE (c ! nat (fpc fs)) = opcode OP_JMP"
    using luaK_jump_list [OF fok(1) room fok(2)] by blast
  let ?fs = "emitted fs c l (fpc fs + 1) NO_JUMP"
  have "last_insn ?fs" using a(4) by (simp add: last_insn_def opcode_lt)
  moreover have "k_grows fs ?fs" using ok by (intro k_grows_same) (simp_all add: st_ok_def)
  moreover have "keeps fs ?fs (set ps \<union> {})" using a(3) by (simp add: keeps_def op_at_def)
  ultimately have "steps fs ps {} ?fs []"
    using a(1) by (auto simp: steps_def st_ok_def k_grows_def emitted_def)
  then show ?thesis using a(2) by (intro returnsI [OF e]) (simp add: same_regs_def)
qed

text \<open>Rewriting the code in place.\<close>

lemma set_code_step:
  assumes ok: "st_ok fs ps" and len: "length c = length (code (fproto fs))"
    and l: "jump_list c (jpc fs) ps"
    and k: "\<And>q. int q < fpc fs \<Longrightarrow> same_op (op_at fs q) (GET_OPCODE (c ! q))"
      "\<And>q. int q < fpc fs \<Longrightarrow> op_at fs q = opcode OP_JMP \<Longrightarrow> int q \<notin> set ps \<union> Q \<Longrightarrow> c ! q = code (fproto fs) ! q"
  shows "steps fs ps Q (set_code c fs) ps"
proof -
  have "last_insn (set_code c fs)"
    unfolding last_insn_def
  proof
    assume "1 \<le> fpc (set_code c fs)"
    then have "int (nat (fpc fs - 1)) < fpc fs" "op_at fs (nat (fpc fs - 1)) < NUM_OPCODES"
      using ok by (simp_all add: st_ok_def last_insn_def op_at_def)
    then show "GET_OPCODE (code (fproto (set_code c fs)) ! nat (fpc (set_code c fs) - 1)) < NUM_OPCODES"
      using k(1) [of "nat (fpc fs - 1)"] by (simp add: same_op_bound)
  qed
  moreover have "fs_ok (set_code c fs) ps" using ok len l by (simp add: st_ok_def fs_ok_def)
  moreover have "k_grows fs (set_code c fs)" using ok by (intro k_grows_same) (simp_all add: st_ok_def)
  moreover have "keeps fs (set_code c fs) (set ps \<union> Q)" using k by (auto simp: keeps_def op_at_def)
  ultimately show ?thesis by (auto simp: steps_def st_ok_def k_grows_def)
qed

lemma patch_step:
  assumes ok: "st_ok fs ps" and l: "jump_list (code (fproto fs)) l qs" and below: "\<forall>q\<in>set qs. q < fpc fs"
    and d: "set ps \<inter> set qs = {}" and room: "fpc fs < MAXARG_sBx"
    and t: "- 1 \<le> vt" "vt \<le> fpc fs" "- 1 \<le> dt" "dt \<le> fpc fs"
  shows "patchlistaux fs l vt reg dt = Inr (set_code (patch_code (code (fproto fs)) (set qs) vt reg dt) fs)"
    "steps fs ps (set qs) (set_code (patch_code (code (fproto fs)) (set qs) vt reg dt) fs) ps"
proof -
  have "\<bar>vt - (q + 1)\<bar> \<le> MAXARG_sBx \<and> \<bar>dt - (q + 1)\<bar> \<le> MAXARG_sBx" if "q \<in> set qs" for q
    using jump_list_pos [OF l that] below that room t by fastforce
  then show "patchlistaux fs l vt reg dt = Inr (set_code (patch_code (code (fproto fs)) (set qs) vt reg dt) fs)"
    using l by (intro patchlistaux_list) auto
  have len: "int q < fpc fs \<Longrightarrow> q < length (code (fproto fs))" for q using ok by (auto simp: st_ok_def fs_ok_def)
  show "steps fs ps (set qs) (set_code (patch_code (code (fproto fs)) (set qs) vt reg dt) fs) ps"
  proof (rule set_code_step [OF ok])
    show "jump_list (patch_code (code (fproto fs)) (set qs) vt reg dt) (jpc fs) ps"
      using ok d by (intro jump_list_patch_code) (auto simp: st_ok_def fs_ok_def)
  qed (use len in \<open>auto simp: patch_code_nth op_at_def patched_same_op patched_jump\<close>)
qed

lemma concat_step:
  assumes ok: "st_ok fs ps" and p: "jump_list (code (fproto fs)) l1 rs" and q: "jump_list (code (fproto fs)) l2 qs"
    and "set rs \<inter> set qs = {}" and "set ps \<inter> set rs = {}"
    and below: "\<forall>q\<in>set rs \<union> set qs. q < fpc fs" and room: "fpc fs < MAXARG_sBx"
  shows "returns (\<lambda>(l, fs'). fpc fs' = fpc fs \<and> steps fs ps (set rs) fs' ps \<and> same_regs fs fs'
      \<and> jump_list (code (fproto fs')) l (rs @ qs)) (luaK_concat fs l1 l2)"
proof -
  let ?c = "link_code (code (fproto fs)) rs qs"
  have off: "\<bar>y - (x + 1)\<bar> \<le> MAXARG_sBx" if "x \<in> set rs" "y \<in> set qs" for x y
  proof -
    have "x < fpc fs" "y < fpc fs" using that below by auto
    with jump_list_pos [OF p that(1)] jump_list_pos [OF q that(2)] room show ?thesis by auto
  qed
  then have e: "luaK_concat fs l1 l2 = Inr (list_head (rs @ qs), set_code ?c fs)"
    by (rule luaK_concat_list [OF p q])
  have "jump_list ?c (list_head (rs @ qs)) (rs @ qs)"
  proof (cases "rs = [] \<or> qs = []")
    case True
    then show ?thesis using p q jump_list_head [OF p] jump_list_head [OF q] by (auto simp: link_code_def)
  next
    case False
    then have "list_head (rs @ qs) = l1" using jump_list_head [OF p] by (cases rs) auto
    with False off jump_list_link [OF p q assms(4)] show ?thesis by auto
  qed
  moreover have "steps fs ps (set rs) (set_code ?c fs) ps"
  proof (rule set_code_step [OF ok])
    show "jump_list ?c (jpc fs) ps"
      using ok assms(5) jump_list_pos [OF p] by (intro jump_list_link_other) (auto simp: st_ok_def fs_ok_def)
    show "?c ! k = code (fproto fs) ! k" if "int k < fpc fs" "int k \<notin> set ps \<union> set rs" for k
    proof (cases "rs = []")
      case False
      then have "last rs \<in> set rs" by simp
      then have "nat (last rs) \<noteq> k" using that(2) jump_list_pos [OF p, of "last rs"] by auto
      then show ?thesis by (simp add: link_code_def)
    qed (simp add: link_code_def)
  qed (simp_all add: link_code_opcode op_at_def)
  ultimately show ?thesis by (intro returnsI [OF e]) (simp add: same_regs_def)
qed

lemma patchtohere_step:
  assumes ok: "st_ok fs ps" and q: "jump_list (code (fproto fs)) l qs" and below: "\<forall>q\<in>set qs. q < fpc fs"
    and d: "set ps \<inter> set qs = {}" and room: "fpc fs < MAXARG_sBx"
  shows "returns (\<lambda>fs'. fpc fs' = fpc fs \<and> steps fs ps (set qs) fs' (ps @ qs) \<and> same_regs fs fs') (luaK_patchtohere fs l)"
proof -
  let ?fs = "snd (luaK_getlabel fs)"
  have g: "?fs = fs\<lparr>lasttarget := fpc fs\<rparr>" by (simp add: luaK_getlabel_def)
  have ok': "st_ok ?fs ps" using ok unfolding g by (rule getlabel_step)
  have j: "jump_list (code (fproto ?fs)) (jpc ?fs) ps" using ok by (simp add: g st_ok_def fs_ok_def)
  have room': "fpc fs \<le> MAXARG_sBx" using room by simp
  have fok: "fs_ok fs ps" using ok by (simp add: st_ok_def)
  note h = luaK_patchtohere_list [OF fok room' q below d]
  let ?c = "link_code (code (fproto fs)) ps qs"
  let ?fs' = "(set_code ?c fs)\<lparr>lasttarget := fpc fs, jpc := list_head (ps @ qs)\<rparr>"
  have "last_insn ?fs'" using ok by (simp add: st_ok_def last_insn_def link_code_opcode)
  moreover have "k_grows fs ?fs'" using ok by (intro k_grows_same) (simp_all add: st_ok_def)
  moreover have "?c ! k = code (fproto fs) ! k" if "int k \<notin> set ps" for k
  proof (cases "ps = []")
    case False
    then have "last ps \<in> set ps" by simp
    then have "nat (last ps) \<noteq> k" using that jump_list_pos [OF j, of "last ps"] by auto
    then show ?thesis by (simp add: link_code_def)
  qed (simp add: link_code_def)
  then have "keeps fs ?fs' (set ps \<union> set qs)" by (auto simp: keeps_def op_at_def link_code_opcode)
  ultimately have "steps fs ps (set qs) ?fs' (ps @ qs)"
    using h(2) by (auto simp: steps_def st_ok_def k_grows_def)
  then show ?thesis by (intro returnsI [OF h(1)]) (simp add: same_regs_def)
qed

text \<open>Changing operands of one instruction that is no jump.\<close>

lemma updins_step:
  assumes ok: "st_ok fs ps" and pc: "0 \<le> pc" "pc < fpc fs" and "op_at fs (nat pc) \<noteq> opcode OP_JMP"
    and f: "\<And>i. GET_OPCODE (f i) = GET_OPCODE i"
  shows "returns (\<lambda>fs'. fpc fs' = fpc fs \<and> steps fs ps {} fs' ps \<and> same_regs fs fs'
      \<and> op_at fs' (nat pc) = op_at fs (nat pc)) (updins fs pc f)"
proof -
  have b: "pc < sizecode (fproto fs)" using ok pc by (simp add: st_ok_def fs_ok_def)
  let ?c = "(code (fproto fs))[nat pc := f (code (fproto fs) ! nat pc)]"
  have e: "updins fs pc f = Inr (set_code ?c fs)" using b pc by simp
  have op: "GET_OPCODE (?c ! q) = op_at fs q" for q
    using f by (cases "q = nat pc"; cases "q < length (code (fproto fs))") (auto simp: op_at_def nth_list_update list_update_beyond)
  have "steps fs ps {} (set_code ?c fs) ps"
  proof (rule set_code_step [OF ok])
    have l: "jump_list (code (fproto fs)) (jpc fs) ps" using ok by (simp add: st_ok_def fs_ok_def)
    show "jump_list ?c (jpc fs) ps"
    proof (rule jump_list_cong [OF l])
      fix p assume "p \<in> set ps"
      with l have j: "is_jump (code (fproto fs)) p" by (rule jump_list_jumps)
      then have "nat p \<noteq> nat pc" using assms(4) by (auto simp: is_jump_def op_at_def)
      then show "?c ! nat p = code (fproto fs) ! nat p" by simp
      show "p < int (length ?c)" using j by (simp add: is_jump_def)
      show "p \<ge> 1 \<Longrightarrow> GET_OPCODE (?c ! nat (p - 1)) < NUM_OPCODES"
        using j by (simp only: op) (simp add: is_jump_def op_at_def)
    qed
    fix q assume "op_at fs q = opcode OP_JMP"
    then show "?c ! q = code (fproto fs) ! q" using assms(4) by (cases "q = nat pc") auto
  qed (simp_all only: op same_op_refl length_list_update)
  then show ?thesis using op by (intro returnsI [OF e]) (simp add: same_regs_def op_at_def)
qed

text \<open>Whether every jump of a list produces a value.\<close>

lemma need_value_list:
  assumes "jump_list (code (fproto fs)) l qs"
  shows "\<exists>b. need_value fs l = Inr b"
proof -
  have "\<exists>b. need_value_loop n fs l = Inr b" if "length qs < n" for n
    using assms that
  proof (induction qs arbitrary: l n)
    case Nil
    then show ?case by (cases n) auto
  next
    case (Cons q qs)
    then obtain m where n: "n = Suc m" and m: "length qs < m" by (cases n) auto
    from Cons.prems have j: "is_jump (code (fproto fs)) q" and l: "l = q"
      and t: "jump_list (code (fproto fs)) (jump_link (code (fproto fs)) q) qs" by auto
    have "\<exists>p. getjumpcontrol fs q = Inr p \<and> 0 \<le> p \<and> p < sizecode (fproto fs)"
      using j by (cases "q \<ge> 1") (auto simp: getjumpcontrol_def is_jump_def)
    then show ?case using Cons.IH [OF t m] j n l is_jump_pos [OF j] by (auto simp: getjump_link)
  qed
  then show ?thesis using jump_list_length [OF assms] unfolding need_value_def jump_fuel_def
    by (metis Suc_eq_plus1 le_imp_less_Suc)
qed

text \<open>Constants and registers.\<close>

lemma addk_step:
  assumes ok: "st_ok fs ps" and "kv_ok fs (key, v)" and "fnk fs < MAXARG_Bx"
  shows "returns (\<lambda>(i, fs'). steps fs ps {} fs' ps \<and> fpc fs' = fpc fs \<and> code (fproto fs') = code (fproto fs)
      \<and> freereg fs' = freereg fs \<and> maxstacksize (fproto fs') = maxstacksize (fproto fs) \<and> 0 \<le> i \<and> i < fnk fs'
      \<and> i \<le> fnk fs \<and> fnk fs' \<le> fnk fs + 1) (addk fs key v)"
proof -
  obtain i fs' where e: "addk fs key v = Inr (i, fs')" and a: "added fs key v i fs'"
    using addk_adds [of fs key v] assms by (auto simp: st_ok_def)
  obtain h k n where f: "fs' = fs\<lparr>fls := (fls fs)\<lparr>lex_h := h\<rparr>, fproto := with_k k (fproto fs), fnk := n\<rparr>"
    using a unfolding added_def by blast
  have c: "code (fproto fs') = code (fproto fs)" "fpc fs' = fpc fs" "jpc fs' = jpc fs" "nactvar fs' = nactvar fs"
      "lineinfo (fproto fs') = lineinfo (fproto fs)" "freereg fs' = freereg fs"
      "maxstacksize (fproto fs') = maxstacksize (fproto fs)"
    by (simp_all add: f)
  have "st_ok fs' ps" using ok a c by (simp add: st_ok_def fs_ok_def last_insn_def added_def)
  then have "steps fs ps {} fs' ps"
    using added_grows [OF a] c by (auto simp: steps_def keeps_def op_at_def)
  moreover have "i \<le> fnk fs" "0 \<le> i" "i < fnk fs'" "fnk fs' \<le> fnk fs + 1" using a by (auto simp: added_def)
  ultimately show ?thesis using c by (intro returnsI [OF e]) simp
qed

lemma freereg_step: "st_ok fs ps \<Longrightarrow> steps fs ps Q (fs\<lparr>freereg := n\<rparr>) ps"
  by (auto simp: steps_def st_ok_def fs_ok_def last_insn_def k_ok_def k_entry_def k_grows_def keeps_def op_at_def)

lemma reserve_step:
  assumes ok: "st_ok fs ps" and "regs_ok fs" and "0 \<le> n" and "freereg fs + n < MAXSTACK"
  shows "returns (\<lambda>fs'. steps fs ps {} fs' ps \<and> fpc fs' = fpc fs \<and> fnk fs' = fnk fs \<and> code (fproto fs') = code (fproto fs)
      \<and> regs_ok fs' \<and> freereg fs' = freereg fs + n) (luaK_reserveregs fs n)"
proof -
  obtain m where e: "luaK_reserveregs fs n = Inr (fs\<lparr>fproto := with_maxstacksize m (fproto fs), freereg := freereg fs + n\<rparr>)"
      and m: "uint m = max (uint (maxstacksize (fproto fs))) (freereg fs + n)"
    using reserveregs_ok [OF assms(2-4)] by blast
  have "steps fs ps {} (fs\<lparr>fproto := with_maxstacksize m (fproto fs), freereg := freereg fs + n\<rparr>) ps"
    using ok by (auto simp: steps_def st_ok_def fs_ok_def last_insn_def k_ok_def k_entry_def k_grows_def keeps_def op_at_def)
  then show ?thesis using assms m by (intro returnsI [OF e]) (auto simp: regs_ok_def)
qed

section \<open>Expressions\<close>

text \<open>
  The jumps of an expression are two disjoint lists among the positions \<open>X\<close>, and for \<open>VJMP\<close> the jump of
  the comparison itself.
\<close>

definition exp_jumps :: "'d FuncState \<Rightarrow> int set \<Rightarrow> expdesc \<Rightarrow> bool" where
  "exp_jumps fs X e \<longleftrightarrow> (\<forall>x\<in>X. x < fpc fs) \<and> (\<exists>ts gs. jump_list (code (fproto fs)) (et e) ts
     \<and> jump_list (code (fproto fs)) (ef e) gs \<and> set ts \<inter> set gs = {} \<and> set ts \<union> set gs \<subseteq> X
     \<and> (ek e = VJMP \<longrightarrow> jump_list (code (fproto fs)) (einfo e) [einfo e] \<and> einfo e \<in> X - (set ts \<union> set gs)))"

text \<open>A register in use: a variable, or the temporary on top.\<close>

definition is_temp :: "'d FuncState \<Rightarrow> int \<Rightarrow> bool" where
  "is_temp fs r \<longleftrightarrow> \<not> ISK r \<and> r \<ge> nactvar fs"

definition reg_at :: "'d FuncState \<Rightarrow> int \<Rightarrow> int \<Rightarrow> bool" where
  "reg_at fs n r \<longleftrightarrow> 0 \<le> r \<and> r < n \<and> \<not> ISK r \<and> (r \<ge> nactvar fs \<longrightarrow> r = n - 1)"

text \<open>An operand: a register below \<open>n\<close> or a constant.\<close>

definition operand_ok :: "'d FuncState \<Rightarrow> int \<Rightarrow> int \<Rightarrow> bool" where
  "operand_ok fs n r \<longleftrightarrow> (if ISK r then INDEXK r < fnk fs \<and> 0 \<le> INDEXK r \<and> INDEXK r \<le> MAXINDEXRK else reg_at fs n r)"

definition kind_ok :: "'d FuncState \<Rightarrow> expdesc \<Rightarrow> bool" where
  "kind_ok fs e \<longleftrightarrow> (case ek e of
     VVOID \<Rightarrow> False | VNIL \<Rightarrow> True | VTRUE \<Rightarrow> True | VFALSE \<Rightarrow> True | VJMP \<Rightarrow> True
   | VK \<Rightarrow> 0 \<le> einfo e \<and> einfo e < fnk fs
   | VKNUM \<Rightarrow> \<not> luai_numisnan (enval e)
   | VLOCAL \<Rightarrow> 0 \<le> einfo e \<and> einfo e < nactvar fs
   | VUPVAL \<Rightarrow> True
   | VGLOBAL \<Rightarrow> True
   | VINDEXED \<Rightarrow> operand_ok fs (freereg fs) (eaux e)
        \<and> reg_at fs (if is_temp fs (eaux e) then freereg fs - 1 else freereg fs) (einfo e)
   | VRELOCABLE \<Rightarrow> 0 \<le> einfo e \<and> einfo e < fpc fs \<and> op_at fs (nat (einfo e)) \<notin> {opcode OP_JMP, opcode OP_TESTSET}
   | VNONRELOC \<Rightarrow> reg_at fs (freereg fs) (einfo e)
   | VCALL \<Rightarrow> 0 \<le> einfo e \<and> einfo e < fpc fs \<and> nactvar fs < freereg fs
        \<and> GETARG_A (code (fproto fs) ! nat (einfo e)) = freereg fs - 1
   | VVARARG \<Rightarrow> 0 \<le> einfo e \<and> einfo e < fpc fs \<and> op_at fs (nat (einfo e)) = opcode OP_VARARG)"

text \<open>The first register above the ones in use once the expression has given back its own.\<close>

definition level :: "'d FuncState \<Rightarrow> expdesc \<Rightarrow> int" where
  "level fs e = (case ek e of
     VNONRELOC \<Rightarrow> if is_temp fs (einfo e) then freereg fs - 1 else freereg fs
   | VCALL \<Rightarrow> freereg fs - 1
   | VINDEXED \<Rightarrow> freereg fs - (if is_temp fs (eaux e) then 1 else 0) - (if is_temp fs (einfo e) then 1 else 0)
   | _ \<Rightarrow> freereg fs)"

definition exp_ok :: "'d FuncState \<Rightarrow> int list \<Rightarrow> int set \<Rightarrow> expdesc \<Rightarrow> bool" where
  "exp_ok fs ps X e \<longleftrightarrow> st_ok fs ps \<and> regs_ok fs \<and> exp_jumps fs X e \<and> kind_ok fs e \<and> X \<inter> set ps = {}"

definition discharged :: "expdesc \<Rightarrow> bool" where
  "discharged e \<longleftrightarrow> ek e \<in> {VNIL, VTRUE, VFALSE, VK, VKNUM, VJMP, VRELOCABLE, VNONRELOC}"

definition has_room :: "'d FuncState \<Rightarrow> int \<Rightarrow> bool" where
  "has_room fs n \<longleftrightarrow> fpc fs + n < MAXARG_sBx \<and> fnk fs + n < MAXARG_Bx"

lemma exp_jumps_steps:
  assumes "exp_jumps fs X e" and s: "steps fs ps Q fs' ps'" and d: "X \<inter> (set ps \<union> Q) = {}"
    and e: "et e' = et e" "ef e' = ef e" "ek e' = VJMP \<Longrightarrow> ek e = VJMP \<and> einfo e' = einfo e"
  shows "exp_jumps fs' X e'"
proof -
  obtain ts gs where l: "jump_list (code (fproto fs)) (et e) ts" "jump_list (code (fproto fs)) (ef e) gs"
      and x: "set ts \<inter> set gs = {}" "set ts \<union> set gs \<subseteq> X" "\<forall>x\<in>X. x < fpc fs"
      and j: "ek e = VJMP \<longrightarrow> jump_list (code (fproto fs)) (einfo e) [einfo e] \<and> einfo e \<in> X - (set ts \<union> set gs)"
    using assms(1) unfolding exp_jumps_def by blast
  have surv: "jump_list (code (fproto fs')) l rs" if "jump_list (code (fproto fs)) l rs" "set rs \<subseteq> X" for l rs
    using that x(3) d by (intro jump_list_steps [OF _ _ s]) auto
  have "fpc fs \<le> fpc fs'" using s by (simp add: steps_def)
  then have "\<forall>x\<in>X. x < fpc fs'" using x(3) by fastforce
  moreover have "jump_list (code (fproto fs')) (et e') ts" "jump_list (code (fproto fs')) (ef e') gs"
    using surv [OF l(1)] surv [OF l(2)] x(2) e(1,2) by auto
  moreover have "jump_list (code (fproto fs')) (einfo e') [einfo e'] \<and> einfo e' \<in> X - (set ts \<union> set gs)" if "ek e' = VJMP"
  proof -
    have v: "jump_list (code (fproto fs)) (einfo e) [einfo e]" "einfo e \<in> X - (set ts \<union> set gs)" "einfo e' = einfo e"
      using e(3) [OF that] j by auto
    then show ?thesis using surv [OF v(1)] by simp
  qed
  ultimately show ?thesis using x(1,2) unfolding exp_jumps_def by blast
qed

lemma steps_disjoint:
  assumes "steps fs ps Q fs' ps'" "X \<inter> set ps = {}" "X \<inter> Q = {}" "\<forall>x\<in>X. x < fpc fs"
  shows "X \<inter> set ps' = {}"
  using assms by (fastforce simp: steps_def)

text \<open>\<open>luaK_dischargevars\<close>: variables, calls and table accesses become values.\<close>

lemma not_ISK: "0 \<le> r \<Longrightarrow> r < 256 \<Longrightarrow> \<not> ISK r"
  using and_exp_eq_0_iff_not_bit [of r 8] by (simp add: ISK_mask bit_iff_odd)


lemma reg_at_level: "reg_at fs n r \<Longrightarrow> n \<le> nactvar fs \<Longrightarrow> \<not> is_temp fs r"
  by (auto simp: reg_at_def is_temp_def)

lemma free_reg_at:
  "reg_at fs (freereg fs) r \<Longrightarrow> free_reg fs r = fs\<lparr>freereg := (if is_temp fs r then freereg fs - 1 else freereg fs)\<rparr>"
  by (simp add: free_reg_def is_temp_def)

lemma freeexp_eq:
  "kind_ok fs e \<Longrightarrow> discharged e \<Longrightarrow> freeexp fs e = fs\<lparr>freereg := level fs e\<rparr>"
  by (auto simp: freeexp_def kind_ok_def discharged_def level_def free_reg_at)

lemma level_bounds:
  assumes "regs_ok fs" "kind_ok fs e"
  shows "nactvar fs \<le> level fs e" "level fs e \<le> freereg fs"
  using assms by (auto simp: regs_ok_def kind_ok_def level_def is_temp_def reg_at_def operand_ok_def split: expkind.splits if_splits)

lemma regs_ok_lower: "regs_ok fs \<Longrightarrow> nactvar fs \<le> n \<Longrightarrow> n \<le> freereg fs \<Longrightarrow> regs_ok (fs\<lparr>freereg := n\<rparr>)"
  by (simp add: regs_ok_def)

lemma regs_ok_same: "regs_ok fs \<Longrightarrow> same_regs fs fs' \<Longrightarrow> nactvar fs' = nactvar fs \<Longrightarrow> regs_ok fs'"
  by (simp add: regs_ok_def same_regs_def)

text \<open>After one instruction was emitted for \<open>e\<close>.\<close>

lemma exp_ok_steps:
  assumes ok: "exp_ok fs ps X e" and s: "steps fs ps {} fs' ps'" and "regs_ok fs'" and "kind_ok fs' e'"
    and e: "et e' = et e" "ef e' = ef e" "ek e' = VJMP \<Longrightarrow> ek e = VJMP \<and> einfo e' = einfo e"
  shows "exp_ok fs' ps' X e'"
proof -
  have X: "X \<inter> set ps = {}" and j: "exp_jumps fs X e" using ok by (simp_all add: exp_ok_def)
  then have b: "\<forall>x\<in>X. x < fpc fs" by (simp add: exp_jumps_def)
  have "X \<inter> set ps' = {}" using steps_disjoint [OF s X _ b] by simp
  moreover have "exp_jumps fs' X e'" using exp_jumps_steps [OF j s _ e] X by simp
  ultimately show ?thesis using assms(3,4) s by (simp add: exp_ok_def steps_def)
qed

lemma relocatable_kind:
  assumes "code (fproto fs') ! nat pc = CREATE_ABC (opcode op) a b c \<or> code (fproto fs') ! nat pc = CREATE_ABx (opcode op) a b"
    and "0 \<le> pc" "pc < fpc fs'" "op \<notin> {OP_JMP, OP_TESTSET}" "ek e = VRELOCABLE" "einfo e = pc"
  shows "kind_ok fs' e"
  using assms by (auto simp: kind_ok_def op_at_def GET_OPCODE_CREATE GET_OPCODE_CREATE_ABx opcode_lt)

definition discharges :: "'d FuncState \<Rightarrow> int list \<Rightarrow> int set \<Rightarrow> expdesc \<Rightarrow> expdesc \<times> 'd FuncState \<Rightarrow> bool" where
  "discharges fs ps X e r \<longleftrightarrow> (case r of (e', fs') \<Rightarrow> \<exists>ps'. steps fs ps {} fs' ps' \<and> exp_ok fs' ps' X e' \<and> discharged e'
     \<and> level fs' e' = level fs e \<and> freereg fs' \<le> freereg fs \<and> fpc fs' \<le> fpc fs + 1 \<and> fnk fs' = fnk fs
     \<and> et e' = et e \<and> ef e' = ef e)"

lemma emit_discharges:
  assumes ok: "exp_ok fs ps X e" and op: "op \<notin> {OP_JMP, OP_TESTSET}" and k: "ek e \<in> {VUPVAL, VGLOBAL, VINDEXED}"
    and m: "returns (\<lambda>(pc, fs'). pc = fpc fs \<and> fpc fs' = fpc fs + 1 \<and> steps (fs\<lparr>freereg := level fs e\<rparr>) ps {} fs' []
      \<and> same_regs (fs\<lparr>freereg := level fs e\<rparr>) fs'
      \<and> (code (fproto fs') ! nat pc = CREATE_ABC (opcode op) a b c \<or> code (fproto fs') ! nat pc = CREATE_ABx (opcode op) a b)) m"
  shows "returns (discharges fs ps X e) (bnd m (\<lambda>(pc, fs). Inr (e\<lparr>einfo := pc, ek := VRELOCABLE\<rparr>, fs)))"
proof (rule returns_bnd [OF m], clarsimp)
  fix fs'
  let ?fs = "fs\<lparr>freereg := level fs e\<rparr>" and ?e = "e\<lparr>einfo := fpc fs, ek := VRELOCABLE\<rparr>"
  assume pc: "fpc fs' = fpc fs + 1" and s: "steps ?fs ps {} fs' []" and r: "same_regs ?fs fs'"
    and c: "code (fproto fs') ! nat (fpc fs) = CREATE_ABC (opcode op) a b c \<or> code (fproto fs') ! nat (fpc fs) = CREATE_ABx (opcode op) a b"
  then have n: "fnk fs' = fnk fs" by (simp add: same_regs_def)
  have st: "st_ok fs ps" "regs_ok fs" "kind_ok fs e" using ok by (simp_all add: exp_ok_def)
  have s': "steps fs ps {} fs' []"
    using freereg_step [OF st(1), of "{}" "level fs e"] s by (rule steps_trans) simp
  have "0 \<le> fpc fs" using st(1) by (simp add: st_ok_def fs_ok_def)
  then have "kind_ok fs' ?e" using c pc op by (intro relocatable_kind [of fs' "fpc fs" op a b c]) auto
  moreover have "regs_ok fs'"
    using regs_ok_same [OF regs_ok_lower [OF st(2) level_bounds [OF st(2,3)]] r] s' by (simp add: steps_def)
  ultimately have "exp_ok fs' [] X ?e" using exp_ok_steps [OF ok s', of ?e] by simp
  moreover have "level fs' ?e = level fs e" "freereg fs' \<le> freereg fs"
    using r level_bounds [OF st(2,3)] by (simp_all add: level_def [of fs'] same_regs_def)
  ultimately show "discharges fs ps X e (?e, fs')"
    using s' pc n by (auto simp: discharges_def discharged_def)
qed

lemma refl_discharges:
  "exp_ok fs ps X e \<Longrightarrow> exp_ok fs ps X e' \<Longrightarrow> discharged e' \<Longrightarrow> level fs e' = level fs e \<Longrightarrow> et e' = et e \<Longrightarrow> ef e' = ef e
     \<Longrightarrow> discharges fs ps X e (e', fs)"
  by (auto simp: discharges_def exp_ok_def intro!: exI [of _ ps] steps_refl)

lemma dischargevars_step:
  assumes ok: "exp_ok fs ps X e" and room: "has_room fs 1"
  shows "returns (discharges fs ps X e) (luaK_dischargevars fs e)"
proof -
  have st: "st_ok fs ps" "regs_ok fs" "kind_ok fs e" using ok by (simp_all add: exp_ok_def)
  have jm: "exp_jumps fs X e" "X \<inter> set ps = {}" using ok by (simp_all add: exp_ok_def)
  have m: "fpc fs < MAXARG_sBx" using room by (simp add: has_room_def)
  have st': "st_ok (fs\<lparr>freereg := n\<rparr>) ps" for n
    using freereg_step [OF st(1)] by (simp add: steps_def)
  have same: "exp_ok fs ps X e'" if "kind_ok fs e'" "et e' = et e" "ef e' = ef e" "ek e' \<noteq> VJMP" for e'
    using st jm that by (auto simp: exp_ok_def exp_jumps_def)
  show ?thesis
  proof (cases "discharged e")
    case True
    then have "luaK_dischargevars fs e = Inr (e, fs)"
      by (auto simp: luaK_dischargevars_def discharged_def split: expkind.split)
    then show ?thesis using refl_discharges [OF ok ok True] by simp
  next
    case False
    then consider "ek e = VLOCAL" | "ek e = VUPVAL" | "ek e = VGLOBAL" | "ek e = VINDEXED" | "ek e = VCALL" | "ek e = VVARARG"
      using st(3) by (cases "ek e") (auto simp: discharged_def kind_ok_def)
    then show ?thesis
    proof cases
      case 1
      let ?e = "e\<lparr>ek := VNONRELOC\<rparr>"
      have "0 \<le> einfo e" "einfo e < nactvar fs" "nactvar fs \<le> freereg fs" "freereg fs < 250"
        using 1 st by (simp_all add: kind_ok_def regs_ok_def MAXSTACK_def)
      then have "kind_ok fs ?e" "level fs ?e = level fs e"
        using 1 by (simp_all add: kind_ok_def reg_at_def not_ISK level_def is_temp_def)
      then have "discharges fs ps X e (?e, fs)"
        using refl_discharges [OF ok same] by (simp add: discharged_def)
      then show ?thesis using 1 by (simp add: luaK_dischargevars_def)
    next
      case 2
      then have l: "fs\<lparr>freereg := level fs e\<rparr> = fs" by (simp add: level_def)
      have "returns (discharges fs ps X e)
          (bnd (luaK_codeABC fs OP_GETUPVAL 0 (einfo e) 0) (\<lambda>(pc, fs). Inr (e\<lparr>einfo := pc, ek := VRELOCABLE\<rparr>, fs)))"
        by (rule emit_discharges [where op = OP_GETUPVAL, OF ok _ _ returns_mono [OF code_one_step(1) [OF st(1) m]]]) (use 2 l in auto)
      then show ?thesis using 2 by (simp add: luaK_dischargevars_def)
    next
      case 3
      then have l: "fs\<lparr>freereg := level fs e\<rparr> = fs" by (simp add: level_def)
      have "returns (discharges fs ps X e)
          (bnd (luaK_codeABx fs OP_GETGLOBAL 0 (einfo e)) (\<lambda>(pc, fs). Inr (e\<lparr>einfo := pc, ek := VRELOCABLE\<rparr>, fs)))"
        by (rule emit_discharges [where op = OP_GETGLOBAL, OF ok _ _ returns_mono [OF code_one_step(2) [OF st(1) m]]]) (use 3 l in auto)
      then show ?thesis using 3 by (simp add: luaK_dischargevars_def)
    next
      case 4
      let ?fs = "fs\<lparr>freereg := level fs e\<rparr>"
      have f: "free_reg (free_reg fs (eaux e)) (einfo e) = ?fs"
        using 4 by (simp add: level_def free_reg_def is_temp_def)
      have m': "fpc ?fs < MAXARG_sBx" using m by simp
      have "returns (discharges fs ps X e)
          (bnd (luaK_codeABC ?fs OP_GETTABLE 0 (einfo e) (eaux e)) (\<lambda>(pc, fs). Inr (e\<lparr>einfo := pc, ek := VRELOCABLE\<rparr>, fs)))"
        by (rule emit_discharges [where op = OP_GETTABLE, OF ok _ _ returns_mono [OF code_one_step(1) [OF st' m']]]) (use 4 in auto)
      then show ?thesis using 4 f by (simp add: luaK_dischargevars_def)
    next
      case 5
      let ?e = "e\<lparr>ek := VNONRELOC, einfo := freereg fs - 1\<rparr>"
      have c: "0 \<le> einfo e" "einfo e < fpc fs" "nactvar fs < freereg fs" "0 \<le> nactvar fs" "freereg fs < 250"
          "GETARG_A (code (fproto fs) ! nat (einfo e)) = freereg fs - 1"
        using 5 st by (simp_all add: kind_ok_def regs_ok_def MAXSTACK_def)
      have "einfo e < sizecode (fproto fs)" using c(2) st(1) by (simp add: st_ok_def fs_ok_def)
      then have i: "getcode fs e = Inr (code (fproto fs) ! nat (einfo e))" using c(1) by (simp add: getcode_def)
      have "kind_ok fs ?e" "level fs ?e = level fs e"
        using 5 c by (simp_all add: kind_ok_def reg_at_def not_ISK level_def is_temp_def)
      then have "discharges fs ps X e (?e, fs)"
        using refl_discharges [OF ok same] by (simp add: discharged_def)
      then show ?thesis using 5 i c(6) by (simp add: luaK_dischargevars_def luaK_setoneret_def)
    next
      case 6
      let ?e = "e\<lparr>ek := VRELOCABLE\<rparr>"
      have c: "0 \<le> einfo e" "einfo e < fpc fs" "op_at fs (nat (einfo e)) = opcode OP_VARARG"
        using 6 st by (simp_all add: kind_ok_def)
      have "returns (discharges fs ps X e) (bnd (updins fs (einfo e) (\<lambda>i. SETARG_B i 2)) (\<lambda>fs. Inr (?e, fs)))"
      proof (rule returns_bnd [OF updins_step [OF st(1) c(1,2)]])
        fix fs' assume r: "fpc fs' = fpc fs \<and> steps fs ps {} fs' ps \<and> same_regs fs fs' \<and> op_at fs' (nat (einfo e)) = op_at fs (nat (einfo e))"
        then have k: "kind_ok fs' ?e" using c by (simp add: kind_ok_def)
        have "regs_ok fs'" using r regs_ok_same [OF st(2)] by (simp add: steps_def)
        then have "exp_ok fs' ps X ?e" using r by (intro exp_ok_steps [OF ok _ _ k]) auto
        moreover have "level fs' ?e = level fs e" using 6 r by (simp add: level_def same_regs_def)
        ultimately show "returns (discharges fs ps X e) (Inr (?e, fs'))"
          using r by (auto simp: discharges_def discharged_def same_regs_def)
      qed (use c(3) in \<open>simp_all add: fields\<close>)
      then show ?thesis using 6 by (simp add: luaK_dischargevars_def luaK_setoneret_def)
    qed
  qed
qed

section \<open>Values in registers\<close>

lemma dischargevars_id: "discharged e \<Longrightarrow> luaK_dischargevars fs e = Inr (e, fs)"
  by (auto simp: luaK_dischargevars_def discharged_def split: expkind.split)

lemma nil_step:
  assumes ok: "st_ok fs ps" and m: "fpc fs < MAXARG_sBx"
  shows "returns (\<lambda>fs'. (\<exists>ps'. steps fs ps {} fs' ps') \<and> fpc fs' \<le> fpc fs + 1 \<and> same_regs fs fs') (luaK_nil fs from n)"
proof -
  let ?P = "\<lambda>fs'. (\<exists>ps'. steps fs ps {} fs' ps') \<and> fpc fs' \<le> fpc fs + 1 \<and> same_regs fs fs'"
  let ?emit = "bnd (luaK_codeABC fs OP_LOADNIL from (from + n - 1) 0) (\<lambda>(_, fs). Inr fs)"
  have emit: "returns ?P ?emit"
    by (rule returns_bnd [OF code_one_step(1) [OF ok m]]) auto
  have skip: "returns ?P (Inr fs)" using steps_refl [OF ok] by auto
  show ?thesis
  proof (cases "fpc fs > lasttarget fs \<and> fpc fs \<noteq> 0")
    case False
    with emit skip show ?thesis by (auto simp: luaK_nil_def Let_def)
  next
    case True
    then have pc: "0 \<le> fpc fs - 1" "fpc fs - 1 < fpc fs" "fpc fs - 1 < sizecode (fproto fs)"
      using ok by (auto simp: st_ok_def fs_ok_def)
    have upd: "returns ?P (updins fs (fpc fs - 1) (\<lambda>i. SETARG_B i (from + n - 1)))"
      if "GET_OPCODE (code (fproto fs) ! nat (fpc fs - 1)) = opcode OP_LOADNIL"
      by (rule returns_mono [OF updins_step [OF ok pc(1,2)]]) (use that in \<open>auto simp: op_at_def fields\<close>)
    from True pc(1,3) emit skip upd show ?thesis by (auto simp: luaK_nil_def Let_def)
  qed
qed

lemma numberK_step:
  assumes "st_ok fs ps" "fnk fs < MAXARG_Bx" "\<not> luai_numisnan r"
  shows "returns (\<lambda>(i, fs'). steps fs ps {} fs' ps \<and> fpc fs' = fpc fs \<and> code (fproto fs') = code (fproto fs)
      \<and> freereg fs' = freereg fs \<and> maxstacksize (fproto fs') = maxstacksize (fproto fs) \<and> 0 \<le> i \<and> i < fnk fs'
      \<and> i \<le> fnk fs \<and> fnk fs' \<le> fnk fs + 1) (luaK_numberK fs r)"
  unfolding luaK_numberK_def by (rule addk_step [OF assms(1) _ assms(2)]) (simp add: kv_ok_def valid_key_def assms(3))

text \<open>What \<open>discharge2reg\<close> and \<open>exp2reg\<close> do to the function.\<close>

definition grown :: "'d FuncState \<Rightarrow> 'd FuncState \<Rightarrow> int \<Rightarrow> bool" where
  "grown fs fs' n \<longleftrightarrow> freereg fs' = freereg fs \<and> maxstacksize (fproto fs') = maxstacksize (fproto fs)
     \<and> fpc fs' \<le> fpc fs + n \<and> fnk fs' \<le> fnk fs + 1"

lemma discharge2reg_step:
  assumes ok: "exp_ok fs ps X e" and d: "discharged e" and room: "has_room fs 1"
  shows "returns (\<lambda>(e', fs'). (\<exists>ps'. steps fs ps {} fs' ps') \<and> grown fs fs' 1
      \<and> e' = (if ek e = VJMP then e else e\<lparr>einfo := reg, ek := VNONRELOC\<rparr>)) (discharge2reg fs e reg)"
proof -
  have st: "st_ok fs ps" "kind_ok fs e" using ok by (simp_all add: exp_ok_def)
  have m: "fpc fs < MAXARG_sBx" "fnk fs < MAXARG_Bx" using room by (simp_all add: has_room_def)
  let ?e = "e\<lparr>einfo := reg, ek := VNONRELOC\<rparr>"
  let ?P = "\<lambda>(e', fs'). (\<exists>ps'. steps fs ps {} fs' ps') \<and> grown fs fs' 1 \<and> e' = (if ek e = VJMP then e else ?e)"
  have P: "?P (?e, fs')" if "steps fs ps {} fs' ps'" "same_regs fs fs'" "fpc fs' \<le> fpc fs + 1" "ek e \<noteq> VJMP" for fs' ps'
    using that by (auto simp: grown_def same_regs_def)
  have abc: "returns ?P (bnd (luaK_codeABC fs op a b c) (\<lambda>(_, fs). Inr (?e, fs)))" if "ek e \<noteq> VJMP" for op a b c
    by (rule returns_bnd [OF code_one_step(1) [OF st(1) m(1)]]) (use that P in auto)
  have abx: "returns ?P (bnd (luaK_codeABx fs op a b) (\<lambda>(_, fs). Inr (?e, fs)))" if "ek e \<noteq> VJMP" for op a b
    by (rule returns_bnd [OF code_one_step(2) [OF st(1) m(1)]]) (use that P in auto)
  consider "ek e = VNIL" | "ek e = VTRUE" | "ek e = VFALSE" | "ek e = VK" | "ek e = VKNUM" | "ek e = VJMP"
    | "ek e = VRELOCABLE" | "ek e = VNONRELOC"
    using d by (auto simp: discharged_def)
  then show ?thesis
  proof cases
    case 1
    have "returns ?P (bnd (luaK_nil fs reg 1) (\<lambda>fs. Inr (?e, fs)))"
      by (rule returns_bnd [OF nil_step [OF st(1) m(1)]]) (use 1 P in auto)
    then show ?thesis using 1 by (simp add: discharge2reg_def dischargevars_id [OF d] Let_def)
  next
    case 5
    then have "\<not> luai_numisnan (enval e)" using st(2) by (simp add: kind_ok_def)
    from numberK_step [OF st(1) m(2) this]
    have "returns ?P (bnd (luaK_numberK fs (enval e)) (\<lambda>(n, fs). bnd (luaK_codeABx fs OP_LOADK reg n) (\<lambda>(_, fs). Inr (?e, fs))))"
    proof (rule returns_bnd, clarify)
      fix n fs1 assume s: "steps fs ps {} fs1 ps" and r: "fpc fs1 = fpc fs" "freereg fs1 = freereg fs"
        "maxstacksize (fproto fs1) = maxstacksize (fproto fs)" "fnk fs1 \<le> fnk fs + 1"
      have st1: "st_ok fs1 ps" "fpc fs1 < MAXARG_sBx" using s r(1) m(1) by (simp_all add: steps_def)
      show "returns ?P (bnd (luaK_codeABx fs1 OP_LOADK reg n) (\<lambda>(_, fs). Inr (?e, fs)))"
      proof (rule returns_bnd [OF code_one_step(2) [OF st1]], clarify)
        fix pc fs2 assume s2: "steps fs1 ps {} fs2 []" and r2: "fpc fs2 = fpc fs1 + 1" "same_regs fs1 fs2"
        have "steps fs ps {} fs2 []" using s s2 by (rule steps_trans) simp
        then show "returns ?P (Inr (?e, fs2))" using 5 r r2 by (auto simp: grown_def same_regs_def)
      qed
    qed
    then show ?thesis using 5 by (simp add: discharge2reg_def dischargevars_id [OF d] Let_def)
  next
    case 6
    then show ?thesis using steps_refl [OF st(1)] by (auto simp: discharge2reg_def dischargevars_id [OF d] Let_def grown_def)
  next
    case 7
    have c: "0 \<le> einfo e" "einfo e < fpc fs" "op_at fs (nat (einfo e)) \<noteq> opcode OP_JMP"
      using 7 st(2) by (simp_all add: kind_ok_def)
    have "returns ?P (bnd (updins fs (einfo e) (\<lambda>i. SETARG_A i reg)) (\<lambda>fs. Inr (?e, fs)))"
      by (rule returns_bnd [OF updins_step [OF st(1) c]]) (use 7 P in \<open>auto simp: fields\<close>)
    then show ?thesis using 7 by (simp add: discharge2reg_def dischargevars_id [OF d] Let_def)
  next
    case 8
    have "?P (?e, fs)" using steps_refl [OF st(1)] 8 by (auto simp: grown_def)
    then show ?thesis using 8 abc [of OP_MOVE] by (simp add: discharge2reg_def dischargevars_id [OF d] Let_def)
  qed (use abc abx in \<open>simp_all add: discharge2reg_def dischargevars_id [OF d] Let_def\<close>)
qed

text \<open>The two loads that \<open>exp2reg\<close> adds for jumps without a value.\<close>

lemma lasttarget_step: "st_ok fs ps \<Longrightarrow> steps fs ps Q (fs\<lparr>lasttarget := n\<rparr>) ps"
  by (auto simp: steps_def st_ok_def fs_ok_def last_insn_def k_ok_def k_entry_def k_grows_def keeps_def op_at_def)

lemma label_step:
  assumes ok: "st_ok fs ps" and m: "fpc fs < MAXARG_sBx"
  shows "returns (\<lambda>(p, fs'). p = fpc fs \<and> fpc fs' = fpc fs + 1 \<and> steps fs ps {} fs' [] \<and> same_regs fs fs')
    (code_label fs a b j)"
proof -
  let ?fs = "fs\<lparr>lasttarget := fpc fs\<rparr>"
  have s: "steps fs ps {} ?fs ps" using ok by (rule lasttarget_step)
  then have st: "st_ok ?fs ps" "fpc ?fs < MAXARG_sBx" using m by (simp_all add: steps_def)
  show ?thesis
    unfolding code_label_def luaK_getlabel_def snd_conv
    by (rule returns_mono [OF code_one_step(1) [OF st]]) (use steps_trans [OF s] in \<open>auto simp: same_regs_def\<close>)
qed

abbreviation value_labels :: "bool \<Rightarrow> 'd FuncState \<Rightarrow> int \<Rightarrow> (int \<times> int \<times> 'd FuncState) result" where
  "value_labels v fs reg \<equiv>
     bnd (if v then Inr (NO_JUMP, fs) else luaK_jump fs) (\<lambda>(fj, fs).
     bnd (code_label fs reg 0 1) (\<lambda>(p_f, fs).
     bnd (code_label fs reg 1 0) (\<lambda>(p_t, fs).
     bnd (luaK_patchtohere fs fj) (\<lambda>fs. Inr (p_f, p_t, fs)))))"

definition labelled :: "'d FuncState \<Rightarrow> int list \<Rightarrow> int \<times> int \<times> 'd FuncState \<Rightarrow> bool" where
  "labelled fs ps r \<longleftrightarrow> (case r of (p_f, p_t, fs') \<Rightarrow> (\<exists>ps'. steps fs ps {} fs' ps') \<and> same_regs fs fs'
     \<and> fpc fs' \<le> fpc fs + 3 \<and> - 1 \<le> p_f \<and> p_f \<le> fpc fs' \<and> - 1 \<le> p_t \<and> p_t \<le> fpc fs')"

lemma value_labels_step:
  assumes ok: "st_ok fs ps" and m: "fpc fs + 3 < MAXARG_sBx"
  shows "returns (labelled fs ps) (value_labels v fs reg)"
proof -
  have pc0: "0 \<le> fpc fs" using ok by (simp add: st_ok_def fs_ok_def)
  have j: "returns (\<lambda>(fj, fs1). \<exists>ps1 qs. steps fs ps {} fs1 ps1 \<and> same_regs fs fs1 \<and> fpc fs1 \<le> fpc fs + 1
      \<and> jump_list (code (fproto fs1)) fj qs \<and> set qs \<subseteq> insert (fpc fs) (set ps) \<and> (\<forall>q\<in>set qs. q < fpc fs1) \<and> set qs \<inter> set ps1 = {})
      (if v then Inr (NO_JUMP, fs) else luaK_jump fs)"
  proof (cases v)
    case True
    have "\<exists>ps1 qs. steps fs ps {} fs ps1 \<and> same_regs fs fs \<and> fpc fs \<le> fpc fs + 1 \<and> jump_list (code (fproto fs)) NO_JUMP qs
        \<and> set qs \<subseteq> insert (fpc fs) (set ps) \<and> (\<forall>q\<in>set qs. q < fpc fs) \<and> set qs \<inter> set ps1 = {}"
      by (rule exI [of _ ps], rule exI [of _ "[]"]) (simp add: steps_refl [OF ok])
    then show ?thesis using True by simp
  next
    case False
    have m1: "fpc fs < MAXARG_sBx" using m by simp
    have b: "\<forall>p\<in>set ps. p < fpc fs" using ok by (simp add: st_ok_def fs_ok_def)
    have "\<exists>ps1 qs. steps fs ps {} fs1 ps1 \<and> same_regs fs fs1 \<and> fpc fs1 \<le> fpc fs + 1 \<and> jump_list (code (fproto fs1)) (fpc fs) qs
        \<and> set qs \<subseteq> insert (fpc fs) (set ps) \<and> (\<forall>q\<in>set qs. q < fpc fs1) \<and> set qs \<inter> set ps1 = {}"
      if "fpc fs1 = fpc fs + 1" "steps fs ps {} fs1 []" "same_regs fs fs1" "jump_list (code (fproto fs1)) (fpc fs) (fpc fs # ps)" for fs1
      by (rule exI [of _ "[]"], rule exI [of _ "fpc fs # ps"]) (use b that in force)
    then show ?thesis unfolding if_not_P [OF False]
      by (intro returns_mono [OF jump_step [OF ok m1]]) auto
  qed
  show ?thesis
  proof (rule returns_bnd [OF j], clarify)
    fix fj fs1 ps1 qs
    assume s1: "steps fs ps {} fs1 ps1" and r1: "same_regs fs fs1" "fpc fs1 \<le> fpc fs + 1"
      and l1: "jump_list (code (fproto fs1)) fj qs" and q: "set qs \<subseteq> insert (fpc fs) (set ps)" "\<forall>q\<in>set qs. q < fpc fs1"
        "set qs \<inter> set ps1 = {}"
    have st1: "st_ok fs1 ps1" "fpc fs \<le> fpc fs1" using s1 by (simp_all add: steps_def)
    have m1: "fpc fs1 < MAXARG_sBx" using r1 m by simp
    show "returns (labelled fs ps) (bnd (code_label fs1 reg 0 1) (\<lambda>(p_f, fs). bnd (code_label fs reg 1 0) (\<lambda>(p_t, fs).
        bnd (luaK_patchtohere fs fj) (\<lambda>fs. Inr (p_f, p_t, fs)))))"
    proof (rule returns_bnd [OF label_step [OF st1(1) m1]], clarify)
      fix fs2 assume r2: "fpc fs2 = fpc fs1 + 1" "same_regs fs1 fs2" and s2: "steps fs1 ps1 {} fs2 []"
      have st2: "st_ok fs2 []" "fpc fs2 < MAXARG_sBx" using s2 r1 r2 m by (simp_all add: steps_def)
      show "returns (labelled fs ps) (bnd (code_label fs2 reg 1 0) (\<lambda>(p_t, fs). bnd (luaK_patchtohere fs fj) (\<lambda>fs. Inr (fpc fs1, p_t, fs))))"
      proof (rule returns_bnd [OF label_step [OF st2]], clarify)
        fix fs3 assume r3: "fpc fs3 = fpc fs2 + 1" "same_regs fs2 fs3" and s3: "steps fs2 [] {} fs3 []"
        have s13: "steps fs1 ps1 {} fs3 []" using s2 s3 by (rule steps_trans) simp
        have l3: "jump_list (code (fproto fs3)) fj qs"
          by (rule jump_list_steps [OF l1 _ s13]) (use q in auto)
        have st3: "st_ok fs3 []" "\<forall>x\<in>set qs. x < fpc fs3" "fpc fs3 < MAXARG_sBx"
          using s3 q(2) r1 r2 r3 m by (auto simp: steps_def)
        show "returns (labelled fs ps) (bnd (luaK_patchtohere fs3 fj) (\<lambda>fs. Inr (fpc fs1, fpc fs2, fs)))"
        proof (rule returns_bnd [OF patchtohere_step [OF st3(1) l3 st3(2) _ st3(3)]])
          fix fs4 assume r4: "fpc fs4 = fpc fs3 \<and> steps fs3 [] (set qs) fs4 ([] @ qs) \<and> same_regs fs3 fs4"
          have "steps fs ps {} fs3 []" using s1 s13 by (rule steps_trans) simp
          moreover have "steps fs3 [] (set qs) fs4 qs" using r4 by simp
          ultimately have "steps fs ps {} fs4 qs" by (rule steps_trans) (use q in auto)
          moreover have "same_regs fs fs4" using r1(1) r2(2) r3(2) r4 by (blast intro: same_regs_trans)
          ultimately show "returns (labelled fs ps) (Inr (fpc fs1, fpc fs2, fs4))"
            using r1 r2 r3 r4 pc0 st1(2) by (auto simp: labelled_def)
        qed simp
      qed
    qed
  qed
qed

definition two_lists :: "'d FuncState \<Rightarrow> int set \<Rightarrow> int \<Rightarrow> int \<Rightarrow> bool" where
  "two_lists fs X t f \<longleftrightarrow> (\<forall>x\<in>X. x < fpc fs) \<and> (\<exists>ts gs. jump_list (code (fproto fs)) t ts
     \<and> jump_list (code (fproto fs)) f gs \<and> set ts \<inter> set gs = {} \<and> set ts \<union> set gs \<subseteq> X)"

lemma two_lists_steps:
  assumes "two_lists fs X t f" and s: "steps fs ps Q fs' ps'" and d: "X \<inter> (set ps \<union> Q) = {}"
  shows "two_lists fs' X t f"
proof -
  obtain ts gs where l: "jump_list (code (fproto fs)) t ts" "jump_list (code (fproto fs)) f gs"
      and x: "set ts \<inter> set gs = {}" "set ts \<union> set gs \<subseteq> X" "\<forall>x\<in>X. x < fpc fs"
    using assms(1) unfolding two_lists_def by blast
  have "jump_list (code (fproto fs')) l rs" if "jump_list (code (fproto fs)) l rs" "set rs \<subseteq> X" for l rs
    using that x(3) d by (intro jump_list_steps [OF _ _ s]) auto
  moreover have "\<forall>x\<in>X. x < fpc fs'" using x(3) s by (fastforce simp: steps_def)
  ultimately show ?thesis using l x unfolding two_lists_def by (meson le_sup_iff)
qed

lemma patch_two_lists:
  assumes ok: "st_ok fs ps" and "two_lists fs X t f" and d: "X \<inter> set ps = {}" and m: "fpc fs < MAXARG_sBx"
    and p: "- 1 \<le> p_f" "p_f \<le> fpc fs" "- 1 \<le> p_t" "p_t \<le> fpc fs"
  shows "returns (\<lambda>fs'. steps fs ps X fs' ps \<and> same_regs fs fs' \<and> fpc fs' = fpc fs)
    (bnd (patchlistaux fs f (fpc fs) reg p_f) (\<lambda>fs'. patchlistaux fs' t (fpc fs) reg p_t))"
proof -
  obtain ts gs where l: "jump_list (code (fproto fs)) t ts" "jump_list (code (fproto fs)) f gs"
      and x: "set ts \<inter> set gs = {}" "set ts \<union> set gs \<subseteq> X" "\<forall>x\<in>X. x < fpc fs"
    using assms(2) unfolding two_lists_def by blast
  have pc: "- 1 \<le> fpc fs" using ok by (simp add: st_ok_def fs_ok_def)
  have g: "\<forall>q\<in>set gs. q < fpc fs" "set ps \<inter> set gs = {}" "\<forall>q\<in>set ts. q < fpc fs" "set ps \<inter> set ts = {}"
    using x d by auto
  note a = patch_step [OF ok l(2) g(1,2) m pc order_refl p(1,2), of reg]
  let ?fs = "set_code (patch_code (code (fproto fs)) (set gs) (fpc fs) reg p_f) fs"
  have l2: "jump_list (code (fproto ?fs)) t ts"
    using x g by (intro jump_list_steps [OF l(1) _ a(2)]) auto
  have st2: "st_ok ?fs ps" using a(2) by (simp add: steps_def)
  have fpc2: "fpc ?fs = fpc fs" by simp
  note b = patch_step [OF st2 l2, unfolded fpc2, OF g(3,4) m pc order_refl p(3,4), of reg]
  let ?fs2 = "set_code (patch_code (code (fproto ?fs)) (set ts) (fpc fs) reg p_t) ?fs"
  have "steps fs ps X ?fs ps" using a(2) by (rule steps_mono) (use x in auto)
  then have "steps fs ps X ?fs2 ps" using b(2) by (rule steps_trans) (use x in auto)
  then show ?thesis by (simp add: a(1) b(1)) (simp add: same_regs_def)
qed

text \<open>\<open>exp2reg\<close> puts a value into a register and closes its jumps.\<close>

lemma exp2reg_lists:
  assumes j: "exp_jumps fs X e" and ok: "st_ok fs ps" and d: "X \<inter> set ps = {}" and m: "fpc fs < MAXARG_sBx"
  shows "returns (\<lambda>(e', fs'). steps fs ps X fs' ps \<and> same_regs fs fs' \<and> fpc fs' = fpc fs
      \<and> two_lists fs' X (et e') (ef e') \<and> ek e' = ek e \<and> (\<exists>l. e' = e\<lparr>et := l\<rparr>))
    (if ek e = VJMP then bnd (luaK_concat fs (et e) (einfo e)) (\<lambda>(l, fs). Inr (e\<lparr>et := l\<rparr>, fs)) else Inr (e, fs))"
proof (cases "ek e = VJMP")
  case False
  then have "two_lists fs X (et e) (ef e)" using j unfolding exp_jumps_def two_lists_def by blast
  moreover have "e = e\<lparr>et := et e\<rparr>" by simp
  ultimately show ?thesis using False steps_refl [OF ok] by (auto intro: exI [of _ "et e"])
next
  case True
  obtain ts gs where l: "jump_list (code (fproto fs)) (et e) ts" "jump_list (code (fproto fs)) (ef e) gs"
      and x: "set ts \<inter> set gs = {}" "set ts \<union> set gs \<subseteq> X" "\<forall>x\<in>X. x < fpc fs"
      and v: "jump_list (code (fproto fs)) (einfo e) [einfo e]" "einfo e \<in> X - (set ts \<union> set gs)"
    using j True unfolding exp_jumps_def by blast
  have c: "set ts \<inter> set [einfo e] = {}" "set ps \<inter> set ts = {}" "\<forall>q\<in>set ts \<union> set [einfo e]. q < fpc fs"
    using v x d by auto
  show ?thesis unfolding if_P [OF True]
  proof (rule returns_bnd [OF concat_step [OF ok l(1) v(1) c m]], clarify)
    fix t fs' assume r: "fpc fs' = fpc fs" "same_regs fs fs'" and s: "steps fs ps (set ts) fs' ps"
      and t: "jump_list (code (fproto fs')) t (ts @ [einfo e])"
    have "jump_list (code (fproto fs')) (ef e) gs" using x d by (intro jump_list_steps [OF l(2) _ s]) auto
    then have "two_lists fs' X t (ef e)"
      unfolding two_lists_def using t x v r(1) by (intro conjI exI [of _ "ts @ [einfo e]"] exI [of _ gs]) auto
    moreover have "steps fs ps X fs' ps" using s by (rule steps_mono) (use x in auto)
    ultimately show "returns (\<lambda>(e', fs'). steps fs ps X fs' ps \<and> same_regs fs fs' \<and> fpc fs' = fpc fs
      \<and> two_lists fs' X (et e') (ef e') \<and> ek e' = ek e \<and> (\<exists>l. e' = e\<lparr>et := l\<rparr>)) (Inr (e\<lparr>et := t\<rparr>, fs'))"
      using r by auto
  qed
qed

lemma exp2reg_step:
  assumes ok: "exp_ok fs ps X e" and d: "discharged e" and room: "has_room fs 5"
  shows "returns (\<lambda>(e', fs'). (\<exists>ps'. steps fs ps X fs' ps') \<and> grown fs fs' 4
      \<and> e' = e\<lparr>ef := NO_JUMP, et := NO_JUMP, einfo := reg, ek := VNONRELOC\<rparr>) (exp2reg fs e reg)"
    (is "returns ?P _")
proof -
  have st: "st_ok fs ps" "exp_jumps fs X e" "X \<inter> set ps = {}" using ok by (simp_all add: exp_ok_def)
  have b: "\<forall>x\<in>X. x < fpc fs" using st(2) by (simp add: exp_jumps_def)
  have room1: "has_room fs 1" and m: "fpc fs + 5 < MAXARG_sBx" using room by (simp_all add: has_room_def)
  let ?done = "e\<lparr>ef := NO_JUMP, et := NO_JUMP, einfo := reg, ek := VNONRELOC\<rparr>"
  show ?thesis unfolding exp2reg_def
  proof (rule returns_bnd [OF discharge2reg_step [OF ok d room1]], clarify)
    fix fs1 ps1 assume s1: "steps fs ps {} fs1 ps1" and g1: "grown fs fs1 1"
    let ?e = "if ek e = VJMP then e else e\<lparr>einfo := reg, ek := VNONRELOC\<rparr>"
    have st1: "st_ok fs1 ps1" using s1 by (simp add: steps_def)
    have d1: "X \<inter> set ps1 = {}" using steps_disjoint [OF s1 st(3) _ b] by simp
    have j1: "exp_jumps fs1 X ?e" using st(3) by (intro exp_jumps_steps [OF st(2) s1]) auto
    have m1: "fpc fs1 < MAXARG_sBx" using g1 m by (simp add: grown_def)
    have s1X: "steps fs ps X fs1 ps1" using s1 by (rule steps_mono) simp
    show "returns ?P (bnd (if ek ?e = VJMP then bnd (luaK_concat fs1 (et ?e) (einfo ?e)) (\<lambda>(l, fs). Inr (?e\<lparr>et := l\<rparr>, fs))
          else Inr (?e, fs1)) (\<lambda>(e, fs).
       bnd (if hasjumps e
          then bnd (bnd (need_value fs (et e)) (\<lambda>b. if b then Inr True else need_value fs (ef e))) (\<lambda>need.
               bnd (if need then value_labels (ek e = VJMP) fs reg else Inr (NO_JUMP, NO_JUMP, fs)) (\<lambda>(p_f, p_t, fs).
               let (final, fs) = luaK_getlabel fs in
               bnd (patchlistaux fs (ef e) final reg p_f) (\<lambda>fs. patchlistaux fs (et e) final reg p_t)))
          else Inr fs) (\<lambda>fs. Inr (e\<lparr>ef := NO_JUMP, et := NO_JUMP, einfo := reg, ek := VNONRELOC\<rparr>, fs))))"
    proof (rule returns_bnd [OF exp2reg_lists [OF j1 st1 d1 m1]], clarify)
      fix fs2 t assume s2: "steps fs1 ps1 X fs2 ps1" and r2: "same_regs fs1 fs2" "fpc fs2 = fpc fs1"
        and l2: "two_lists fs2 X (et (?e\<lparr>et := t\<rparr>)) (ef (?e\<lparr>et := t\<rparr>))"
      let ?e2 = "?e\<lparr>et := t\<rparr>"
      have s02: "steps fs ps X fs2 ps1" using s1X s2 by (rule steps_trans) auto
      have st2: "st_ok fs2 ps1" using s2 by (simp add: steps_def)
      have g2: "grown fs fs2 1" using g1 r2 by (simp add: grown_def same_regs_def)
      have fin: "?P (?e2\<lparr>ef := NO_JUMP, et := NO_JUMP, einfo := reg, ek := VNONRELOC\<rparr>, fs')"
        if "steps fs ps X fs' ps'" "grown fs fs' 4" for fs' ps'
        using that by (cases "ek e = VJMP") auto
      have nv: "\<exists>b. bnd (need_value fs2 (et ?e2)) (\<lambda>b. if b then Inr True else need_value fs2 (ef ?e2)) = Inr b"
      proof -
        obtain ts gs where "jump_list (code (fproto fs2)) (et ?e2) ts" "jump_list (code (fproto fs2)) (ef ?e2) gs"
          using l2 unfolding two_lists_def by blast
        then obtain b1 b2 where "need_value fs2 (et ?e2) = Inr b1" "need_value fs2 (ef ?e2) = Inr b2"
          using need_value_list by blast
        then show ?thesis by (simp only: bnd_Inr) (cases b1; auto)
      qed
      then obtain need where nd: "bnd (need_value fs2 (et ?e2)) (\<lambda>b. if b then Inr True else need_value fs2 (ef ?e2)) = Inr need"
        by blast
      have m2: "fpc fs2 + 3 < MAXARG_sBx" using g2 m by (simp add: grown_def)
      have lab: "returns (labelled fs2 ps1) (if need then value_labels (ek ?e2 = VJMP) fs2 reg else Inr (NO_JUMP, NO_JUMP, fs2))"
      proof (cases need)
        case True
        then show ?thesis using value_labels_step [OF st2 m2] by simp
      next
        case False
        have "0 \<le> fpc fs2" using st2 by (simp add: st_ok_def fs_ok_def)
        then show ?thesis using False steps_refl [OF st2] by (auto simp: labelled_def NO_JUMP_def)
      qed
      have patch: "returns (\<lambda>fs'. (\<exists>ps'. steps fs ps X fs' ps') \<and> grown fs fs' 4)
          (bnd (if need then value_labels (ek ?e2 = VJMP) fs2 reg else Inr (NO_JUMP, NO_JUMP, fs2)) (\<lambda>(p_f, p_t, fs).
               let (final, fs) = luaK_getlabel fs in
               bnd (patchlistaux fs (ef ?e2) final reg p_f) (\<lambda>fs. patchlistaux fs (et ?e2) final reg p_t)))"
      proof (rule returns_bnd [OF lab], clarify)
        fix p_f p_t fs3 assume "labelled fs2 ps1 (p_f, p_t, fs3)"
        then obtain ps3 where s3: "steps fs2 ps1 {} fs3 ps3" and r3: "same_regs fs2 fs3" "fpc fs3 \<le> fpc fs2 + 3"
            and p: "- 1 \<le> p_f" "p_f \<le> fpc fs3" "- 1 \<le> p_t" "p_t \<le> fpc fs3"
          by (auto simp: labelled_def)
        let ?fs3 = "fs3\<lparr>lasttarget := fpc fs3\<rparr>"
        have st3: "st_ok fs3 ps3" using s3 by (simp add: steps_def)
        have s3': "steps fs2 ps1 {} ?fs3 ps3" using s3 lasttarget_step [OF st3, of "{}"] by (rule steps_trans) simp
        have l3: "two_lists ?fs3 X (et ?e2) (ef ?e2)" using d1 by (intro two_lists_steps [OF l2 s3']) simp
        have b2: "\<forall>x\<in>X. x < fpc fs2" using l2 by (simp add: two_lists_def)
        have d3: "X \<inter> set ps3 = {}" using steps_disjoint [OF s3 d1 _ b2] by simp
        have m3: "fpc ?fs3 < MAXARG_sBx" using r3 g2 m by (simp add: grown_def)
        have st3': "st_ok ?fs3 ps3" using s3' by (simp add: steps_def)
        have p': "- 1 \<le> p_f" "p_f \<le> fpc ?fs3" "- 1 \<le> p_t" "p_t \<le> fpc ?fs3" using p by simp_all
        have s03: "steps fs ps X ?fs3 ps3" using s02 s3' by (rule steps_trans) simp
        have "returns (\<lambda>fs'. (\<exists>ps'. steps fs ps X fs' ps') \<and> grown fs fs' 4)
            (bnd (patchlistaux ?fs3 (ef ?e2) (fpc ?fs3) reg p_f) (\<lambda>fs. patchlistaux fs (et ?e2) (fpc ?fs3) reg p_t))"
        proof (rule returns_mono [OF patch_two_lists [OF st3' l3 d3 m3 p']])
          fix fs' assume f: "steps ?fs3 ps3 X fs' ps3 \<and> same_regs ?fs3 fs' \<and> fpc fs' = fpc ?fs3"
          then have "steps fs ps X fs' ps3" using s03 by (blast intro: steps_trans)
          moreover have "grown fs fs' 4" using f r3 g2 by (simp add: grown_def same_regs_def)
          ultimately show "(\<exists>ps'. steps fs ps X fs' ps') \<and> grown fs fs' 4" by blast
        qed
        then show "returns (\<lambda>fs'. (\<exists>ps'. steps fs ps X fs' ps') \<and> grown fs fs' 4)
            (let (final, fs) = luaK_getlabel fs3 in
               bnd (patchlistaux fs (ef ?e2) final reg p_f) (\<lambda>fs. patchlistaux fs (et ?e2) final reg p_t))"
          by (simp add: luaK_getlabel_def)
      qed
      have "returns (\<lambda>fs'. (\<exists>ps'. steps fs ps X fs' ps') \<and> grown fs fs' 4) (if hasjumps ?e2
          then bnd (bnd (need_value fs2 (et ?e2)) (\<lambda>b. if b then Inr True else need_value fs2 (ef ?e2))) (\<lambda>need.
               bnd (if need then value_labels (ek ?e2 = VJMP) fs2 reg else Inr (NO_JUMP, NO_JUMP, fs2)) (\<lambda>(p_f, p_t, fs).
               let (final, fs) = luaK_getlabel fs in
               bnd (patchlistaux fs (ef ?e2) final reg p_f) (\<lambda>fs. patchlistaux fs (et ?e2) final reg p_t)))
          else Inr fs2)"
      proof (cases "hasjumps ?e2")
        case True
        then show ?thesis using patch by (simp only: if_True nd bnd_Inr)
      next
        case False
        have "grown fs fs2 4" using g2 by (simp add: grown_def)
        then show ?thesis using False s02 by (simp only: if_False returns_Inr) blast
      qed
      then show "returns ?P (bnd (if hasjumps ?e2
          then bnd (bnd (need_value fs2 (et ?e2)) (\<lambda>b. if b then Inr True else need_value fs2 (ef ?e2))) (\<lambda>need.
               bnd (if need then value_labels (ek ?e2 = VJMP) fs2 reg else Inr (NO_JUMP, NO_JUMP, fs2)) (\<lambda>(p_f, p_t, fs).
               let (final, fs) = luaK_getlabel fs in
               bnd (patchlistaux fs (ef ?e2) final reg p_f) (\<lambda>fs. patchlistaux fs (et ?e2) final reg p_t)))
          else Inr fs2) (\<lambda>fs. Inr (?e2\<lparr>ef := NO_JUMP, et := NO_JUMP, einfo := reg, ek := VNONRELOC\<rparr>, fs)))"
        by (rule returns_bnd) (use fin in auto)
    qed
  qed
qed

text \<open>An expression that is in a register, with no jumps left.\<close>

definition in_reg :: "'d FuncState \<Rightarrow> int list \<Rightarrow> int set \<Rightarrow> int \<Rightarrow> int \<Rightarrow> expdesc \<times> 'd FuncState \<Rightarrow> bool" where
  "in_reg fs ps X lev n r \<longleftrightarrow> (case r of (e', fs') \<Rightarrow> \<exists>ps'. steps fs ps X fs' ps' \<and> exp_ok fs' ps' {} e'
     \<and> ek e' = VNONRELOC \<and> et e' = NO_JUMP \<and> ef e' = NO_JUMP \<and> level fs' e' = lev
     \<and> fpc fs' \<le> fpc fs + n \<and> fnk fs' \<le> fnk fs + 1)"

lemma in_reg_ok:
  assumes "st_ok fs' ps'" "regs_ok fs'" "reg_at fs' (freereg fs') (einfo e)"
    and "ek e = VNONRELOC" "et e = NO_JUMP" "ef e = NO_JUMP"
  shows "exp_ok fs' ps' {} e"
  using assms by (auto simp: exp_ok_def exp_jumps_def kind_ok_def intro!: exI [of _ "[]"])

lemma has_room_mono: "has_room fs n \<Longrightarrow> fpc fs' + k \<le> fpc fs + n \<Longrightarrow> fnk fs' + k \<le> fnk fs + n \<Longrightarrow> has_room fs' k"
  by (simp add: has_room_def)

lemma kind_ok_top:
  assumes k: "kind_ok fs1 e" "discharged e" "nactvar fs1 \<le> level fs1 e" and f: "freereg fs2 = level fs1 e + 1"
    and s: "fpc fs2 = fpc fs1" "fnk fs2 = fnk fs1" "code (fproto fs2) = code (fproto fs1)" "nactvar fs2 = nactvar fs1"
  shows "kind_ok fs2 e"
proof (cases "ek e = VNONRELOC")
  case True
  then have r: "reg_at fs1 (freereg fs1) (einfo e)" using k(1) by (simp add: kind_ok_def)
  have "reg_at fs2 (freereg fs2) (einfo e)"
  proof (cases "is_temp fs1 (einfo e)")
    case T: True
    then have "level fs1 e = freereg fs1 - 1" using True by (simp add: level_def)
    with r f s(4) show ?thesis by (simp add: reg_at_def)
  next
    case False
    then have "einfo e < nactvar fs1" using r by (auto simp: is_temp_def reg_at_def)
    with r f s(4) k(3) show ?thesis by (simp add: reg_at_def)
  qed
  with True show ?thesis by (simp add: kind_ok_def)
next
  case False
  with k(1,2) s show ?thesis by (auto simp: discharged_def kind_ok_def op_at_def)
qed

lemma exp2nextreg_step:
  assumes ok: "exp_ok fs ps X e" and room: "has_room fs 6" and lev: "level fs e + 1 < MAXSTACK"
  shows "returns (\<lambda>(e', fs'). in_reg fs ps X (level fs e) 5 (e', fs') \<and> einfo e' = level fs e \<and> freereg fs' = level fs e + 1)
    (luaK_exp2nextreg fs e)"
proof -
  let ?P = "\<lambda>(e', fs'). in_reg fs ps X (level fs e) 5 (e', fs') \<and> einfo e' = level fs e \<and> freereg fs' = level fs e + 1"
  have room1: "has_room fs 1" using room by (simp add: has_room_def)
  show ?thesis unfolding luaK_exp2nextreg_def
  proof (rule returns_bnd [OF dischargevars_step [OF ok room1]], clarify)
    fix e1 fs1 assume "discharges fs ps X e (e1, fs1)"
    then obtain ps1 where s1: "steps fs ps {} fs1 ps1" and ok1: "exp_ok fs1 ps1 X e1" and d: "discharged e1"
        and r1: "level fs1 e1 = level fs e" "fpc fs1 \<le> fpc fs + 1" "fnk fs1 = fnk fs"
      by (auto simp: discharges_def)
    have st1: "st_ok fs1 ps1" "regs_ok fs1" "kind_ok fs1 e1" using ok1 by (simp_all add: exp_ok_def)
    let ?fs1 = "fs1\<lparr>freereg := level fs e\<rparr>"
    have f: "freeexp fs1 e1 = ?fs1" using freeexp_eq [OF st1(3) d] r1(1) by simp
    have s1': "steps fs1 ps1 {} ?fs1 ps1" using st1(1) by (rule freereg_step)
    have reg1: "regs_ok ?fs1" using regs_ok_lower [OF st1(2) level_bounds [OF st1(2,3)]] r1(1) by simp
    have st1': "st_ok ?fs1 ps1" using s1' by (simp add: steps_def)
    have lev': "freereg ?fs1 + 1 < MAXSTACK" using lev by simp
    show "returns ?P (bnd (luaK_reserveregs (freeexp fs1 e1) 1) (\<lambda>fs. exp2reg fs e1 (freereg fs - 1)))"
      unfolding f
    proof (rule returns_bnd [OF reserve_step [OF st1' reg1 _ lev']])
      fix fs2 assume r: "steps ?fs1 ps1 {} fs2 ps1 \<and> fpc fs2 = fpc ?fs1 \<and> fnk fs2 = fnk ?fs1 \<and> code (fproto fs2) = code (fproto ?fs1)
        \<and> regs_ok fs2 \<and> freereg fs2 = freereg ?fs1 + 1"
      then have r2: "fpc fs2 = fpc fs1" "fnk fs2 = fnk fs1" "code (fproto fs2) = code (fproto fs1)" "regs_ok fs2"
          "freereg fs2 = level fs e + 1" "nactvar fs2 = nactvar fs1" and s2: "steps ?fs1 ps1 {} fs2 ps1"
        by (simp_all add: steps_def)
      have s12: "steps fs1 ps1 {} fs2 ps1" using s1' s2 by (rule steps_trans) simp
      have s02: "steps fs ps {} fs2 ps1" using s1 s12 by (rule steps_trans) simp
      have "nactvar fs1 \<le> level fs e" using level_bounds [OF st1(2,3)] r1(1) by simp
      then have "kind_ok fs2 e1"
        using r1(1) r2 by (intro kind_ok_top [OF st1(3) d]) simp_all
      then have ok2: "exp_ok fs2 ps1 X e1" using r2(4) by (intro exp_ok_steps [OF ok1 s12]) auto
      have room2: "has_room fs2 5" using room r1(2,3) r2 by (simp add: has_room_def)
      show "returns ?P (exp2reg fs2 e1 (freereg fs2 - 1))"
      proof (rule returns_mono [OF exp2reg_step [OF ok2 d room2]], clarify)
        fix fs3 ps3 assume s3: "steps fs2 ps1 X fs3 ps3" and g: "grown fs2 fs3 4"
        let ?e = "e1\<lparr>ef := NO_JUMP, et := NO_JUMP, einfo := freereg fs2 - 1, ek := VNONRELOC\<rparr>"
        have "steps fs ps X fs2 ps1" using s02 by (rule steps_mono) simp
        then have s: "steps fs ps X fs3 ps3" using s3 by (rule steps_trans) auto
        have n3: "nactvar fs3 = nactvar fs2" "st_ok fs3 ps3" using s3 by (simp_all add: steps_def)
        have reg3: "regs_ok fs3" using r2(4) g n3 by (simp add: regs_ok_def grown_def)
        have fr: "freereg fs3 = level fs e + 1" using g r2(5) by (simp add: grown_def)
        have lo: "0 \<le> nactvar fs3" "nactvar fs3 \<le> level fs e"
          using reg3 \<open>nactvar fs1 \<le> level fs e\<close> n3 r2(6) by (simp_all add: regs_ok_def)
        have isk: "\<not> ISK (level fs e)" using lo lev by (intro not_ISK) (simp_all add: MAXSTACK_def)
        then have "exp_ok fs3 ps3 {} ?e"
          using fr r2(5) lo by (intro in_reg_ok [OF n3(2) reg3]) (auto simp: reg_at_def)
        moreover have "level fs3 ?e = level fs e" using fr r2(5) lo isk by (simp add: level_def is_temp_def)
        ultimately have "in_reg fs ps X (level fs e) 5 (?e, fs3)"
          using s g r1(2,3) r2(1,2) by (auto simp: in_reg_def grown_def)
        then show "in_reg fs ps X (level fs e) 5 (?e, fs3) \<and> einfo ?e = level fs e \<and> freereg fs3 = level fs e + 1"
          using fr r2(5) by simp
      qed
    qed simp
  qed
qed

lemma no_jumps_closed:
  assumes "exp_jumps fs X e" "\<not> hasjumps e"
  shows "et e = NO_JUMP \<and> ef e = NO_JUMP"
proof -
  obtain ts gs where l: "jump_list (code (fproto fs)) (et e) ts" "jump_list (code (fproto fs)) (ef e) gs" "set ts \<inter> set gs = {}"
    using assms(1) unfolding exp_jumps_def by blast
  then have "ts = gs" using assms(2) by (auto simp: hasjumps_def intro: jump_list_unique)
  with l show ?thesis by simp
qed

definition any_reg :: "'d FuncState \<Rightarrow> int list \<Rightarrow> int set \<Rightarrow> expdesc \<Rightarrow> int \<times> expdesc \<times> 'd FuncState \<Rightarrow> bool" where
  "any_reg fs ps X e r \<longleftrightarrow> (case r of (i, e', fs') \<Rightarrow> i = einfo e' \<and> in_reg fs ps X (level fs e) 6 (e', fs'))"

lemma exp2anyreg_step:
  assumes ok: "exp_ok fs ps X e" and room: "has_room fs 7" and lev: "level fs e + 1 < MAXSTACK"
  shows "returns (any_reg fs ps X e) (luaK_exp2anyreg fs e)"
proof -
  have room1: "has_room fs 1" using room by (simp add: has_room_def)
  show ?thesis unfolding luaK_exp2anyreg_def
  proof (rule returns_bnd [OF dischargevars_step [OF ok room1]], clarify)
    fix e1 fs1 assume "discharges fs ps X e (e1, fs1)"
    then obtain ps1 where s1: "steps fs ps {} fs1 ps1" and ok1: "exp_ok fs1 ps1 X e1" and d: "discharged e1"
        and r1: "level fs1 e1 = level fs e" "fpc fs1 \<le> fpc fs + 1" "fnk fs1 = fnk fs"
      by (auto simp: discharges_def)
    have st1: "st_ok fs1 ps1" "regs_ok fs1" "kind_ok fs1 e1" "exp_jumps fs1 X e1" using ok1 by (simp_all add: exp_ok_def)
    have s1X: "steps fs ps X fs1 ps1" using s1 by (rule steps_mono) simp
    show "returns (any_reg fs ps X e)
        (if ek e1 = VNONRELOC \<and> \<not> hasjumps e1 then Inr (einfo e1, e1, fs1)
         else if ek e1 = VNONRELOC \<and> einfo e1 \<ge> nactvar fs1
         then bnd (exp2reg fs1 e1 (einfo e1)) (\<lambda>(e, fs). Inr (einfo e, e, fs))
         else bnd (luaK_exp2nextreg fs1 e1) (\<lambda>(e, fs). Inr (einfo e, e, fs)))"
    proof (cases "ek e1 = VNONRELOC \<and> \<not> hasjumps e1")
      case True
      then have c: "et e1 = NO_JUMP" "ef e1 = NO_JUMP" using no_jumps_closed [OF st1(4)] by simp_all
      have "exp_ok fs1 ps1 {} e1" using True st1 c by (intro in_reg_ok) (simp_all add: kind_ok_def)
      then have "any_reg fs ps X e (einfo e1, e1, fs1)"
        using True s1X r1 c by (auto simp: any_reg_def in_reg_def)
      then show ?thesis using True by simp
    next
      case F: False
      show ?thesis
      proof (cases "ek e1 = VNONRELOC \<and> einfo e1 \<ge> nactvar fs1")
        case True
        have room2: "has_room fs1 5" using room r1 by (simp add: has_room_def)
        have "returns (any_reg fs ps X e) (bnd (exp2reg fs1 e1 (einfo e1)) (\<lambda>(e, fs). Inr (einfo e, e, fs)))"
        proof (rule returns_bnd [OF exp2reg_step [OF ok1 d room2]], clarify)
          fix fs2 ps2 assume s2: "steps fs1 ps1 X fs2 ps2" and g: "grown fs1 fs2 4"
          let ?e = "e1\<lparr>ef := NO_JUMP, et := NO_JUMP, einfo := einfo e1, ek := VNONRELOC\<rparr>"
          have s: "steps fs ps X fs2 ps2" using s1X s2 by (rule steps_trans) auto
          have st2: "st_ok fs2 ps2" "nactvar fs2 = nactvar fs1" "freereg fs2 = freereg fs1"
            using s2 g by (simp_all add: steps_def grown_def)
          have reg2: "regs_ok fs2" using st1(2) g st2(2) by (simp add: regs_ok_def grown_def)
          have "reg_at fs1 (freereg fs1) (einfo e1)" using True st1(3) by (simp add: kind_ok_def)
          then have "reg_at fs2 (freereg fs2) (einfo e1)" unfolding reg_at_def st2 .
          then have "exp_ok fs2 ps2 {} ?e" by (intro in_reg_ok [OF st2(1) reg2]) simp_all
          moreover have "level fs2 ?e = level fs1 e1" using True st2 by (simp add: level_def is_temp_def)
          then have "level fs2 ?e = level fs e" by (simp only: r1(1))
          ultimately show "returns (any_reg fs ps X e) (Inr (einfo ?e, ?e, fs2))"
            using s g r1 by (auto simp: any_reg_def in_reg_def grown_def)
        qed
        then show ?thesis using True F by simp
      next
        case False
        have room2: "has_room fs1 6" using room r1 by (simp add: has_room_def)
        have lev2: "level fs1 e1 + 1 < MAXSTACK" using lev r1(1) by simp
        have "returns (any_reg fs ps X e) (bnd (luaK_exp2nextreg fs1 e1) (\<lambda>(e, fs). Inr (einfo e, e, fs)))"
        proof (rule returns_bnd [OF exp2nextreg_step [OF ok1 room2 lev2]], clarify)
          fix e2 fs2 assume "in_reg fs1 ps1 X (level fs1 e1) 5 (e2, fs2)"
          then obtain ps2 where "steps fs1 ps1 X fs2 ps2" "exp_ok fs2 ps2 {} e2" "ek e2 = VNONRELOC" "et e2 = NO_JUMP"
              "ef e2 = NO_JUMP" "level fs2 e2 = level fs1 e1" "fpc fs2 \<le> fpc fs1 + 5" "fnk fs2 \<le> fnk fs1 + 1"
            by (auto simp: in_reg_def)
          moreover from this s1X have "steps fs ps X fs2 ps2" by (blast intro: steps_trans)
          ultimately show "returns (any_reg fs ps X e) (Inr (einfo e2, e2, fs2))"
            using r1 by (auto simp: any_reg_def in_reg_def)
        qed
        then show ?thesis unfolding if_not_P [OF F] if_not_P [OF False] .
      qed
    qed
  qed
qed

section \<open>Operands\<close>

lemma BITRK_eq: "BITRK = 256" "MAXINDEXRK = 255"
  by (simp_all add: BITRK_def MAXINDEXRK_def SIZE_B_def)

lemma RKASK_ok:
  assumes "0 \<le> n" "n \<le> MAXINDEXRK"
  shows "ISK (RKASK n)" "INDEXK (RKASK n) = n"
proof -
  have n: "n < 2 ^ 8" using assms(2) by (simp add: BITRK_eq)
  have b: "\<not> bit n k" if "8 \<le> k" for k
  proof -
    have "n < 2 ^ k" using n that by (meson one_le_numeral order_less_le_trans power_increasing)
    then show ?thesis using assms(1) by (simp add: bit_iff_odd)
  qed
  have p: "bit (256 :: int) k \<longleftrightarrow> k = 8" for k
    using bit_exp_iff [where 'a = int, of 8 k] by simp
  show "ISK (RKASK n)"
  proof -
    have "bit ((n OR 256) AND 256) 8" by (simp add: bit_simps p)
    then show ?thesis by (auto simp: ISK_mask RKASK_def BITRK_eq)
  qed
  have "INDEXK (RKASK n) = (n OR 256) AND NOT 256" by (simp add: INDEXK_def RKASK_def BITRK_eq)
  also have "\<dots> = n" using b by (intro bit_eqI) (auto simp: bit_simps p)
  finally show "INDEXK (RKASK n) = n" .
qed

definition has_value :: "'d FuncState \<Rightarrow> int list \<Rightarrow> int set \<Rightarrow> expdesc \<Rightarrow> expdesc \<times> 'd FuncState \<Rightarrow> bool" where
  "has_value fs ps X e r \<longleftrightarrow> (case r of (e', fs') \<Rightarrow> \<exists>ps'. steps fs ps X fs' ps'
     \<and> (\<exists>Y. Y \<subseteq> X \<and> exp_ok fs' ps' Y e') \<and> discharged e' \<and> et e' = NO_JUMP \<and> ef e' = NO_JUMP \<and> level fs' e' = level fs e
     \<and> fpc fs' \<le> fpc fs + 6 \<and> fnk fs' \<le> fnk fs + 1)"

lemma exp2val_step:
  assumes ok: "exp_ok fs ps X e" and room: "has_room fs 7" and lev: "level fs e + 1 < MAXSTACK"
  shows "returns (has_value fs ps X e) (luaK_exp2val fs e)"
proof (cases "hasjumps e")
  case True
  have "returns (has_value fs ps X e) (bnd (luaK_exp2anyreg fs e) (\<lambda>(_, e, fs). Inr (e, fs)))"
    by (rule returns_bnd [OF exp2anyreg_step [OF ok room lev]])
      (fastforce simp: any_reg_def in_reg_def has_value_def discharged_def)
  then show ?thesis using True by (simp add: luaK_exp2val_def)
next
  case False
  have c: "et e = NO_JUMP" "ef e = NO_JUMP" using no_jumps_closed [OF _ False] ok by (auto simp: exp_ok_def)
  have room1: "has_room fs 1" using room by (simp add: has_room_def)
  have "returns (has_value fs ps X e) (luaK_dischargevars fs e)"
  proof (rule returns_mono [OF dischargevars_step [OF ok room1]])
    fix r assume d: "discharges fs ps X e r"
    obtain e1 fs1 where r: "r = (e1, fs1)" by (cases r)
    with d obtain ps1 where s1: "steps fs ps {} fs1 ps1" and h: "exp_ok fs1 ps1 X e1" "discharged e1"
        "level fs1 e1 = level fs e" "fpc fs1 \<le> fpc fs + 1" "fnk fs1 = fnk fs" "et e1 = et e" "ef e1 = ef e"
      by (auto simp: discharges_def)
    have "steps fs ps X fs1 ps1" using s1 by (rule steps_mono) simp
    with h c show "has_value fs ps X e r" unfolding r has_value_def by auto
  qed
  then show ?thesis using False by (simp add: luaK_exp2val_def)
qed

text \<open>Constants that fit an operand.\<close>

lemma const_step:
  assumes ok: "st_ok fs ps" and "fnk fs \<le> MAXINDEXRK" and k: "ek e \<in> {VKNUM, VTRUE, VFALSE, VNIL}" "kind_ok fs e"
  shows "returns (\<lambda>(n, fs'). steps fs ps {} fs' ps \<and> fpc fs' = fpc fs \<and> freereg fs' = freereg fs
      \<and> maxstacksize (fproto fs') = maxstacksize (fproto fs) \<and> 0 \<le> n \<and> n < fnk fs' \<and> n \<le> MAXINDEXRK \<and> fnk fs' \<le> fnk fs + 1)
    (if ek e = VNIL then nilK fs else if ek e = VKNUM then luaK_numberK fs (enval e) else boolK fs (ek e = VTRUE))"
proof -
  have m: "fnk fs < MAXARG_Bx" using assms(2) by (simp add: BITRK_eq MAXARG_Bx_eq)
  let ?P = "\<lambda>(n, fs'). steps fs ps {} fs' ps \<and> fpc fs' = fpc fs \<and> freereg fs' = freereg fs
      \<and> maxstacksize (fproto fs') = maxstacksize (fproto fs) \<and> 0 \<le> n \<and> n < fnk fs' \<and> n \<le> MAXINDEXRK \<and> fnk fs' \<le> fnk fs + 1"
  have add: "returns ?P (addk fs key v)" if "kv_ok fs (key, v)" for key v
    by (rule returns_mono [OF addk_step [OF ok that m]]) (use assms(2) in auto)
  have "returns ?P (nilK fs)" unfolding nilK_def by (rule add) (simp add: kv_ok_def)
  moreover have "returns ?P (boolK fs b)" for b unfolding boolK_def by (rule add) (simp add: kv_ok_def valid_key_def)
  moreover have "returns ?P (luaK_numberK fs (enval e))" if "ek e = VKNUM"
    unfolding luaK_numberK_def by (rule add) (use that k(2) in \<open>simp add: kv_ok_def valid_key_def kind_ok_def\<close>)
  ultimately show ?thesis by (cases "ek e = VNIL"; cases "ek e = VKNUM") simp_all
qed

definition is_operand :: "'d FuncState \<Rightarrow> int list \<Rightarrow> int set \<Rightarrow> expdesc \<Rightarrow> int \<times> expdesc \<times> 'd FuncState \<Rightarrow> bool" where
  "is_operand fs ps X e r \<longleftrightarrow> (case r of (i, e', fs') \<Rightarrow> \<exists>ps'. steps fs ps X fs' ps' \<and> exp_ok fs' ps' {} e'
     \<and> (if ISK i then ek e' = VK else ek e' = VNONRELOC \<and> einfo e' = i) \<and> operand_ok fs' (freereg fs') i
     \<and> et e' = NO_JUMP \<and> ef e' = NO_JUMP \<and> level fs' e' = level fs e
     \<and> fpc fs' \<le> fpc fs + 12 \<and> fnk fs' \<le> fnk fs + 2)"

lemma exp2RK_step:
  assumes ok: "exp_ok fs ps X e" and room: "has_room fs 14" and lev: "level fs e + 1 < MAXSTACK"
  shows "returns (is_operand fs ps X e) (luaK_exp2RK fs e)"
proof -
  have room1: "has_room fs 7" using room by (simp add: has_room_def)
  show ?thesis unfolding luaK_exp2RK_def
  proof (rule returns_bnd [OF exp2val_step [OF ok room1 lev]], clarify)
    fix e1 fs1 assume "has_value fs ps X e (e1, fs1)"
    then obtain ps1 Y where s1: "steps fs ps X fs1 ps1" and Y: "Y \<subseteq> X" and ok1: "exp_ok fs1 ps1 Y e1" and d: "discharged e1"
        and c: "et e1 = NO_JUMP" "ef e1 = NO_JUMP" and r1: "level fs1 e1 = level fs e" "fpc fs1 \<le> fpc fs + 6" "fnk fs1 \<le> fnk fs + 1"
      by (auto simp: has_value_def)
    have st1: "st_ok fs1 ps1" "regs_ok fs1" "kind_ok fs1 e1" using ok1 by (simp_all add: exp_ok_def)
    have K: "is_operand fs ps X e (RKASK n, e', fs2)"
      if "steps fs1 ps1 {} fs2 ps1" "fpc fs2 = fpc fs1" "freereg fs2 = freereg fs1" "maxstacksize (fproto fs2) = maxstacksize (fproto fs1)"
        "0 \<le> n" "n < fnk fs2" "n \<le> MAXINDEXRK" "fnk fs2 \<le> fnk fs1 + 1"
        "ek e' = VK" "einfo e' = n" "et e' = NO_JUMP" "ef e' = NO_JUMP" "level fs1 e1 = freereg fs1" for n e' fs2
    proof -
      have st2: "st_ok fs2 ps1" "nactvar fs2 = nactvar fs1" using that(1) by (simp_all add: steps_def)
      have reg2: "regs_ok fs2" using st1(2) st2(2) that(3,4) by (simp add: regs_ok_def)
      have "exp_jumps fs2 {} e'"
        unfolding exp_jumps_def using that(9,11,12) by (auto intro!: exI [of _ "[]"])
      then have "exp_ok fs2 ps1 {} e'" using st2 reg2 that(5,6,9,10) by (simp add: exp_ok_def kind_ok_def)
      moreover have "steps fs ps X fs2 ps1" using s1 that(1) by (rule steps_trans) simp
      moreover have "level fs2 e' = freereg fs2" using that(9) by (simp add: level_def)
      then have "level fs2 e' = level fs e" using r1(1) that(3,13) by simp
      moreover have "operand_ok fs2 (freereg fs2) (RKASK n)"
        using that(5-7) RKASK_ok [OF that(5,7)] by (simp add: operand_ok_def)
      ultimately show ?thesis
        using that RKASK_ok [OF that(5,7)] r1(2,3) by (auto simp: is_operand_def)
    qed
    have any: "returns (is_operand fs ps X e) (luaK_exp2anyreg fs1 e1)"
    proof -
      have room2: "has_room fs1 7" using room r1 by (simp add: has_room_def)
      have lev2: "level fs1 e1 + 1 < MAXSTACK" using lev r1(1) by simp
      show ?thesis
      proof (rule returns_mono [OF exp2anyreg_step [OF ok1 room2 lev2]], clarify)
        fix i e2 fs2 assume "any_reg fs1 ps1 Y e1 (i, e2, fs2)"
        then obtain ps2 where s2: "steps fs1 ps1 Y fs2 ps2" and ok2: "exp_ok fs2 ps2 {} e2" and
            h: "ek e2 = VNONRELOC" "et e2 = NO_JUMP" "ef e2 = NO_JUMP" "level fs2 e2 = level fs1 e1" "fpc fs2 \<le> fpc fs1 + 6"
              "fnk fs2 \<le> fnk fs1 + 1" "i = einfo e2"
          by (auto simp: any_reg_def in_reg_def)
        have r: "reg_at fs2 (freereg fs2) i" using ok2 h(1,7) by (simp add: exp_ok_def kind_ok_def)
        then have "\<not> ISK i" by (simp add: reg_at_def)
        moreover have "steps fs ps X fs2 ps2" using s1 s2 by (rule steps_trans) (use Y in auto)
        ultimately show "is_operand fs ps X e (i, e2, fs2)"
          using ok2 h r r1 by (auto simp: is_operand_def operand_ok_def)
      qed
    qed
    show "returns (is_operand fs ps X e)
       (if ek e1 \<in> {VKNUM, VTRUE, VFALSE, VNIL} \<and> fnk fs1 \<le> MAXINDEXRK
        then bnd (if ek e1 = VNIL then nilK fs1 else if ek e1 = VKNUM then luaK_numberK fs1 (enval e1)
               else boolK fs1 (ek e1 = VTRUE)) (\<lambda>(n, fs). Inr (RKASK n, e1\<lparr>einfo := n, ek := VK\<rparr>, fs))
        else if ek e1 = VK \<and> einfo e1 \<le> MAXINDEXRK then Inr (RKASK (einfo e1), e1, fs1)
        else luaK_exp2anyreg fs1 e1)"
    proof (cases "ek e1 \<in> {VKNUM, VTRUE, VFALSE, VNIL} \<and> fnk fs1 \<le> MAXINDEXRK")
      case True
      then have k: "fnk fs1 \<le> MAXINDEXRK" "ek e1 \<in> {VKNUM, VTRUE, VFALSE, VNIL}" by blast+
      then have "level fs1 e1 = freereg fs1" by (auto simp: level_def)
      then show ?thesis unfolding if_P [OF True]
        by (intro returns_bnd [OF const_step [OF st1(1) k st1(3)]]) (use K c in auto)
    next
      case False
      show ?thesis unfolding if_not_P [OF False]
      proof (cases "ek e1 = VK \<and> einfo e1 \<le> MAXINDEXRK")
        case True
        then have "level fs1 e1 = freereg fs1" "0 \<le> einfo e1" "einfo e1 < fnk fs1"
          using st1(3) by (simp_all add: level_def kind_ok_def)
        then have "is_operand fs ps X e (RKASK (einfo e1), e1, fs1)"
          using True c steps_refl [OF st1(1), of "{}"] by (intro K) auto
        then show "returns (is_operand fs ps X e) (if ek e1 = VK \<and> einfo e1 \<le> MAXINDEXRK then Inr (RKASK (einfo e1), e1, fs1)
            else luaK_exp2anyreg fs1 e1)" using True by simp
      next
        case False
        then show "returns (is_operand fs ps X e) (if ek e1 = VK \<and> einfo e1 \<le> MAXINDEXRK then Inr (RKASK (einfo e1), e1, fs1)
            else luaK_exp2anyreg fs1 e1)" using any unfolding if_not_P [OF False] by blast
      qed
    qed
  qed
qed

section \<open>The properties\<close>

text \<open>
  C5: from a well-formed function and expression (constant, variable, table access, call, comparison or
  pending value, with any lists of jumps), \<open>luaK_exp2RK\<close> returns a valid operand, the index of a constant
  below \<open>nk\<close> that fits the field or a register in use below the stack size the function declares; the
  expression has no jumps left and takes no other register, and no instruction emitted before has
  changed its opcode, but for tests that lost their value.
\<close>

theorem operand_generated:
  assumes "exp_ok fs ps X e" and "has_room fs 14" and "level fs e + 1 < MAXSTACK"
  shows "\<exists>r e' fs' ps'. luaK_exp2RK fs e = Inr (r, e', fs') \<and> exp_ok fs' ps' {} e'
    \<and> (if ISK r then 0 \<le> INDEXK r \<and> INDEXK r < fnk fs' \<and> INDEXK r \<le> MAXINDEXRK
       else 0 \<le> r \<and> r < freereg fs' \<and> freereg fs' \<le> uint (maxstacksize (fproto fs')) \<and> uint (maxstacksize (fproto fs')) < MAXSTACK)
    \<and> et e' = NO_JUMP \<and> ef e' = NO_JUMP \<and> level fs' e' = level fs e
    \<and> fpc fs \<le> fpc fs' \<and> fpc fs' \<le> fpc fs + 12
    \<and> (\<forall>q. int q < fpc fs \<longrightarrow> same_op (op_at fs q) (op_at fs' q))"
proof -
  from exp2RK_step [OF assms] obtain r e' fs' where e: "luaK_exp2RK fs e = Inr (r, e', fs')"
      and o: "is_operand fs ps X e (r, e', fs')"
    by (cases "luaK_exp2RK fs e") (auto simp: returns_def)
  from o obtain ps' where s: "steps fs ps X fs' ps'" and ok: "exp_ok fs' ps' {} e'" and r: "operand_ok fs' (freereg fs') r"
      and h: "et e' = NO_JUMP" "ef e' = NO_JUMP" "level fs' e' = level fs e" "fpc fs' \<le> fpc fs + 12"
    by (auto simp: is_operand_def)
  have "freereg fs' \<le> uint (maxstacksize (fproto fs'))" "uint (maxstacksize (fproto fs')) < MAXSTACK"
    using ok by (simp_all add: exp_ok_def regs_ok_def)
  moreover have "fpc fs \<le> fpc fs'" "\<forall>q. int q < fpc fs \<longrightarrow> same_op (op_at fs q) (op_at fs' q)"
    using s by (simp_all add: steps_def keeps_def)
  ultimately show ?thesis using e ok r h
    by (intro exI [of _ r] exI [of _ e'] exI [of _ fs'] exI [of _ ps']) (auto simp: operand_ok_def reg_at_def split: if_splits)
qed

text \<open>A comparison, \<open>OP_EQ\<close> and its jump, as an expression.\<close>

abbreviation eq_code :: "Instruction list" where
  "eq_code \<equiv> [CREATE_ABC (opcode OP_EQ) 1 256 257, jmp (- 1)]"

abbreviation eq_exp :: expdesc where
  "eq_exp \<equiv> \<lparr>ek = VJMP, einfo = 1, eaux = 0, enval = 0, et = NO_JUMP, ef = NO_JUMP\<rparr>"

lemma eq_exp_ok:
  "exp_ok (fs_of (ls\<lparr>lex_h := \<lambda>_. None\<rparr>) eq_code NO_JUMP) [] {1} eq_exp"
proof -
  let ?fs = "fs_of (ls\<lparr>lex_h := \<lambda>_. None\<rparr>) eq_code NO_JUMP"
  have j: "is_jump eq_code 1" "jump_link eq_code 1 = NO_JUMP"
    by (simp_all add: is_jump_def jump_link_def NO_JUMP_def jmp_fields [of "- 1", simplified] GET_OPCODE_CREATE opcode_lt)
  have f: "fnk ?fs = 0" "nactvar ?fs = 0" "maxstacksize (fproto ?fs) = 0" "pk (fproto ?fs) = []"
    by (simp_all add: fs_of_def luaF_newproto_def)
  have "st_ok ?fs []"
    using f by (simp add: st_ok_def fs_ok_def last_insn_def k_ok_def jmp_fields [of "- 1", simplified] opcode_lt MAXARG_Bx_eq)
  moreover have "regs_ok ?fs" using f by (simp add: regs_ok_def MAXSTACK_def)
  moreover have "exp_jumps ?fs {1} eq_exp"
    unfolding exp_jumps_def using j by (auto intro!: exI [of _ "[]"])
  ultimately show ?thesis by (simp add: exp_ok_def kind_ok_def)
qed

lemma eq_exp_room:
  "has_room (fs_of ls eq_code NO_JUMP) 14" "level (fs_of ls eq_code NO_JUMP) eq_exp = 0"
  by (simp_all add: has_room_def MAXARG_Bx_eq MAXARG_sBx_def drop_bit_eq_div level_def fs_of_def)

theorem operand_generated_witness:
  "\<forall>ls :: unit LexState. \<exists>r e' fs'. luaK_exp2RK (fs_of (ls\<lparr>lex_h := \<lambda>_. None\<rparr>) eq_code NO_JUMP) eq_exp = Inr (r, e', fs')
    \<and> 2 \<le> fpc fs' \<and> et e' = NO_JUMP \<and> ef e' = NO_JUMP"
proof
  fix ls :: "unit LexState"
  let ?fs = "fs_of (ls\<lparr>lex_h := \<lambda>_. None\<rparr>) eq_code NO_JUMP"
  have lev: "level ?fs eq_exp + 1 < MAXSTACK" unfolding eq_exp_room(2) by (simp add: MAXSTACK_def)
  have f: "fpc ?fs = 2" by simp
  from operand_generated [OF eq_exp_ok eq_exp_room(1) lev, unfolded f]
  show "\<exists>r e' fs'. luaK_exp2RK ?fs eq_exp = Inr (r, e', fs') \<and> 2 \<le> fpc fs' \<and> et e' = NO_JUMP \<and> ef e' = NO_JUMP"
    by blast
qed

text \<open>
  C34: \<open>luaK_exp2nextreg\<close> puts the value of any well-formed expression into the first register that is free
  once the expression has given back its own, with every jump of the expression closed and the function
  well formed.
\<close>

theorem nextreg_placed:
  assumes "exp_ok fs ps X e" and "has_room fs 6" and "level fs e + 1 < MAXSTACK"
  shows "\<exists>e' fs' ps'. luaK_exp2nextreg fs e = Inr (e', fs') \<and> exp_ok fs' ps' {} e'
    \<and> ek e' = VNONRELOC \<and> einfo e' = level fs e \<and> et e' = NO_JUMP \<and> ef e' = NO_JUMP
    \<and> freereg fs' = level fs e + 1 \<and> fpc fs \<le> fpc fs' \<and> fpc fs' \<le> fpc fs + 5
    \<and> (\<forall>q. int q < fpc fs \<longrightarrow> same_op (op_at fs q) (op_at fs' q))"
proof -
  from exp2nextreg_step [OF assms] obtain e' fs' where e: "luaK_exp2nextreg fs e = Inr (e', fs')"
      and o: "in_reg fs ps X (level fs e) 5 (e', fs')" "einfo e' = level fs e" "freereg fs' = level fs e + 1"
    by (cases "luaK_exp2nextreg fs e") (auto simp: returns_def)
  from o(1) obtain ps' where s: "steps fs ps X fs' ps'" and ok: "exp_ok fs' ps' {} e'"
      and h: "ek e' = VNONRELOC" "et e' = NO_JUMP" "ef e' = NO_JUMP" "fpc fs' \<le> fpc fs + 5"
    by (auto simp: in_reg_def)
  have "fpc fs \<le> fpc fs'" "\<forall>q. int q < fpc fs \<longrightarrow> same_op (op_at fs q) (op_at fs' q)"
    using s by (simp_all add: steps_def keeps_def)
  with e o(2,3) ok h show ?thesis by blast
qed

theorem nextreg_placed_witness:
  "\<forall>ls :: unit LexState. \<exists>e' fs'. luaK_exp2nextreg (fs_of (ls\<lparr>lex_h := \<lambda>_. None\<rparr>) eq_code NO_JUMP) eq_exp = Inr (e', fs')
    \<and> ek e' = VNONRELOC \<and> einfo e' = 0 \<and> freereg fs' = 1"
proof
  fix ls :: "unit LexState"
  let ?fs = "fs_of (ls\<lparr>lex_h := \<lambda>_. None\<rparr>) eq_code NO_JUMP"
  have lev: "level ?fs eq_exp + 1 < MAXSTACK" unfolding eq_exp_room(2) by (simp add: MAXSTACK_def)
  have room: "has_room ?fs 6" using eq_exp_room(1) [of "ls\<lparr>lex_h := \<lambda>_. None\<rparr>"] by (simp add: has_room_def)
  from nextreg_placed [OF eq_exp_ok room lev, unfolded eq_exp_room(2)]
  show "\<exists>e' fs'. luaK_exp2nextreg ?fs eq_exp = Inr (e', fs') \<and> ek e' = VNONRELOC \<and> einfo e' = 0 \<and> freereg fs' = 1"
    by auto
qed

end
