(* ===== verification/StrMatch.thy ===== *)
theory StrMatch
  imports StrLib Lexer
begin

text \<open>
  The string functions and the pattern matching of \<open>lstrlib.c\<close>. A pattern is the list of its bytes up to
  the terminating zero, a pointer into it the rest of that list; a position in the subject is an index
  into its bytes, of which the one after the last is the zero that ends every Lua string. An error is
  its message without the position \<open>luaL_error\<close> puts before it.
\<close>

section \<open>Characters\<close>

definition islower :: "int \<Rightarrow> bool" where "islower c \<longleftrightarrow> 97 \<le> c \<and> c \<le> 122"
definition isupper :: "int \<Rightarrow> bool" where "isupper c \<longleftrightarrow> 65 \<le> c \<and> c \<le> 90"
definition isxdigit :: "int \<Rightarrow> bool" where
  "isxdigit c \<longleftrightarrow> isdigit c \<or> 65 \<le> c \<and> c \<le> 70 \<or> 97 \<le> c \<and> c \<le> 102"
definition ispunct :: "int \<Rightarrow> bool" where "ispunct c \<longleftrightarrow> 33 \<le> c \<and> c \<le> 126 \<and> \<not> isalnum c"
definition toupper :: "int \<Rightarrow> int" where "toupper c = (if islower c then c - 32 else c)"

definition LUA_QL :: "string \<Rightarrow> string" where "LUA_QL x = CHR 0x27 # x @ [CHR 0x27]"

section \<open>Parts of a string\<close>

definition posrelat :: "int \<Rightarrow> nat \<Rightarrow> int" where
  "posrelat pos len = (if pos \<ge> 0 then pos else int len + pos + 1)"

definition str_len :: "byte list \<Rightarrow> TValue" where
  "str_len s = LNumber (cast_num (int (length s)))"

definition str_sub :: "byte list \<Rightarrow> int \<Rightarrow> int \<Rightarrow> byte list" where
  "str_sub s i j =
     (let l = length s; start = posrelat i l; e = posrelat j l;
          start = (if start < 1 then 1 else start); e = (if e > int l then int l else e)
      in if start \<le> e then take (nat (e - start + 1)) (drop (nat (start - 1)) s) else [])"

definition str_reverse :: "byte list list \<Rightarrow> byte list \<Rightarrow> luaL_Buffer" where
  "str_reverse st s = luaL_pushresult (fold (\<lambda>c b. luaL_addchar b c) (rev s) (luaL_buffinit st))"

definition str_lower :: "byte list list \<Rightarrow> byte list \<Rightarrow> luaL_Buffer" where
  "str_lower st s = luaL_pushresult (fold (\<lambda>c b. luaL_addchar b (word_of_int (tolower (uint c)))) s (luaL_buffinit st))"

definition str_upper :: "byte list list \<Rightarrow> byte list \<Rightarrow> luaL_Buffer" where
  "str_upper st s = luaL_pushresult (fold (\<lambda>c b. luaL_addchar b (word_of_int (toupper (uint c)))) s (luaL_buffinit st))"

definition str_rep :: "byte list list \<Rightarrow> byte list \<Rightarrow> int \<Rightarrow> luaL_Buffer" where
  "str_rep st s n = luaL_pushresult (((\<lambda>b. luaL_addlstring b s) ^^ nat n) (luaL_buffinit st))"

text \<open>The comparison of \<open>pose\<close> with the length is unsigned.\<close>

definition str_byte :: "byte list \<Rightarrow> int \<Rightarrow> int \<Rightarrow> TValue list result" where
  "str_byte s i j =
     (let l = length s; posi = posrelat i l; pose = posrelat j l;
          posi = (if posi \<le> 0 then 1 else posi); pose = (if uint (c_uint pose) > int l then int l else pose)
      in if posi > pose then Inr []
         else let n = pose - posi + 1
              in if posi + n \<le> pose then Inl (ErrRun ''string slice too long'')
                 else Inr (map (\<lambda>c. LNumber (cast_num (uint c))) (take (nat n) (drop (nat (posi - 1)) s))))"

fun char_loop :: "int list \<Rightarrow> luaL_Buffer \<Rightarrow> luaL_Buffer result" where
  "char_loop [] b = Inr b"
| "char_loop (c # cs) b =
     (if uint (cast_byte c) = c then char_loop cs (luaL_addchar b (cast_byte c)) else Inl (ErrRun ''invalid value''))"

definition str_char :: "byte list list \<Rightarrow> int list \<Rightarrow> luaL_Buffer result" where
  "str_char st cs = bnd (char_loop cs (luaL_buffinit st)) (\<lambda>b. Inr (luaL_pushresult b))"

section \<open>Pattern items\<close>

definition LUA_MAXCAPTURES :: int where "LUA_MAXCAPTURES = 32"
definition CAP_UNFINISHED :: int where "CAP_UNFINISHED = - 1"
definition CAP_POSITION :: int where "CAP_POSITION = - 2"
definition L_ESC :: byte where "L_ESC = 37"
definition SPECIALS :: "byte list" where "SPECIALS = bytes_of ''^$*+?.([%-''"

record MatchState =
  src :: "byte list"
  mlevel :: int
  capture :: "(nat \<times> int) list"

text \<open>\<open>*(p + i)\<close> in the pattern and \<open>*s\<close> in the subject.\<close>

definition pat_at :: "byte list \<Rightarrow> nat \<Rightarrow> byte" where
  "pat_at p i = (if i < length p then p ! i else 0)"

definition src_at :: "MatchState \<Rightarrow> nat \<Rightarrow> byte" where
  "src_at ms s = (if s < length (src ms) then src ms ! s else 0)"

definition check_capture :: "MatchState \<Rightarrow> int \<Rightarrow> nat result" where
  "check_capture ms l =
     (let l = l - 49
      in if l < 0 \<or> l \<ge> mlevel ms \<or> snd (capture ms ! nat l) = CAP_UNFINISHED
         then Inl (ErrRun ''invalid capture index'') else Inr (nat l))"

fun capture_loop :: "MatchState \<Rightarrow> nat \<Rightarrow> nat result" where
  "capture_loop ms 0 = Inl (ErrRun ''invalid pattern capture'')"
| "capture_loop ms (Suc level) =
     (if snd (capture ms ! level) = CAP_UNFINISHED then Inr level else capture_loop ms level)"

definition capture_to_close :: "MatchState \<Rightarrow> nat result" where
  "capture_to_close ms = capture_loop ms (nat (mlevel ms))"

text \<open>The loop of \<open>classend\<close> over a set, from its first member.\<close>

function class_loop :: "byte list \<Rightarrow> byte list result" where
  "class_loop [] = Inl (ErrRun (''malformed pattern (missing '' @ LUA_QL '']'' @ '')''))"
| "class_loop (c # p) =
     (let p = (if c = L_ESC \<and> p \<noteq> [] then tl p else p)
      in if pat_at p 0 = 93 then Inr (tl p) else class_loop p)"
  by pat_completeness auto
termination by (relation "measure length") auto

declare class_loop.simps [simp del]

definition classend :: "byte list \<Rightarrow> byte list result" where
  "classend p =
     (if pat_at p 0 = L_ESC
      then if pat_at p 1 = 0 then Inl (ErrRun (''malformed pattern (ends with '' @ LUA_QL ''%'' @ '')''))
           else Inr (drop 2 p)
      else if pat_at p 0 = 91 then class_loop (if pat_at p 1 = 94 then drop 2 p else drop 1 p)
      else Inr (drop 1 p))"

definition match_class :: "int \<Rightarrow> int \<Rightarrow> bool" where
  "match_class c cl =
     (let l = tolower cl;
          neg = (\<lambda>res. if islower cl then res else \<not> res)
      in if l = 97 then neg (isalpha c) else if l = 99 then neg (iscntrl c)
         else if l = 100 then neg (isdigit c) else if l = 108 then neg (islower c)
         else if l = 112 then neg (ispunct c) else if l = 115 then neg (isspace c)
         else if l = 117 then neg (isupper c) else if l = 119 then neg (isalnum c)
         else if l = 120 then neg (isxdigit c) else if l = 122 then neg (c = 0)
         else cl = c)"

text \<open>The members of a set, up to the bracket that closes it.\<close>

function bracket_loop :: "bool \<Rightarrow> int \<Rightarrow> byte list \<Rightarrow> bool" where
  "bracket_loop sig c [] = (\<not> sig)"
| "bracket_loop sig c (x # cs) =
     (if x = L_ESC
      then if match_class c (if cs = [] then 93 else uint (hd cs)) then sig else bracket_loop sig c (tl cs)
      else if length cs \<ge> 2 \<and> hd cs = 45
      then if uint x \<le> c \<and> c \<le> uint (cs ! 1) then sig else bracket_loop sig c (drop 2 cs)
      else if uint x = c then sig else bracket_loop sig c cs)"
  by pat_completeness auto
termination by (relation "measure (\<lambda>(sig, c, cs). length cs)") auto

declare bracket_loop.simps [simp del]

text \<open>\<open>p\<close> is at the opening bracket of the set and \<open>ep\<close> after the closing one.\<close>

definition matchbracketclass :: "int \<Rightarrow> byte list \<Rightarrow> byte list \<Rightarrow> bool" where
  "matchbracketclass c p ep =
     (let cs = take (length p - length ep - 2) (tl p)
      in if pat_at p 1 = 94 then bracket_loop False c (tl cs) else bracket_loop True c cs)"

definition singlematch :: "int \<Rightarrow> byte list \<Rightarrow> byte list \<Rightarrow> bool" where
  "singlematch c p ep =
     (if pat_at p 0 = 46 then True
      else if pat_at p 0 = L_ESC then match_class c (uint (pat_at p 1))
      else if pat_at p 0 = 91 then matchbracketclass c p ep
      else uint (pat_at p 0) = c)"

fun balance_loop :: "byte \<Rightarrow> byte \<Rightarrow> int \<Rightarrow> nat \<Rightarrow> byte list \<Rightarrow> nat option" where
  "balance_loop b e cont s [] = None"
| "balance_loop b e cont s (x # xs) =
     (if x = e then if cont - 1 = 0 then Some (s + 1) else balance_loop b e (cont - 1) (s + 1) xs
      else balance_loop b e (if x = b then cont + 1 else cont) (s + 1) xs)"

definition matchbalance :: "MatchState \<Rightarrow> nat \<Rightarrow> byte list \<Rightarrow> nat option result" where
  "matchbalance ms s p =
     (if pat_at p 0 = 0 \<or> pat_at p 1 = 0 then Inl (ErrRun ''unbalanced pattern'')
      else if src_at ms s \<noteq> pat_at p 0 then Inr None
      else Inr (balance_loop (pat_at p 0) (pat_at p 1) 1 (s + 1) (drop (s + 1) (src ms))))"

definition match_capture :: "MatchState \<Rightarrow> nat \<Rightarrow> int \<Rightarrow> nat option result" where
  "match_capture ms s l =
     bnd (check_capture ms l) (\<lambda>l.
     let (init, len) = capture ms ! l; n = unat (c_uint len)
     in Inr (if length (src ms) - s \<ge> n \<and> take n (drop init (src ms)) = take n (drop s (src ms))
             then Some (s + n) else None))"

section \<open>Matching\<close>

type_synonym matcher = "MatchState \<Rightarrow> nat \<Rightarrow> byte list \<Rightarrow> (nat option \<times> MatchState) result"

text \<open>The functions that call \<open>match\<close> have it as their argument \<open>m\<close>.\<close>

primrec max_loop :: "matcher \<Rightarrow> MatchState \<Rightarrow> nat \<Rightarrow> byte list \<Rightarrow> nat \<Rightarrow> (nat option \<times> MatchState) result" where
  "max_loop m ms s ep 0 = m ms s ep"
| "max_loop m ms s ep (Suc i) =
     bnd (m ms (s + Suc i) ep) (\<lambda>(res, ms).
     case res of Some e \<Rightarrow> Inr (Some e, ms) | None \<Rightarrow> max_loop m ms s ep i)"

definition max_expand :: "matcher \<Rightarrow> MatchState \<Rightarrow> nat \<Rightarrow> byte list \<Rightarrow> byte list \<Rightarrow> (nat option \<times> MatchState) result" where
  "max_expand m ms s p ep =
     max_loop m ms s (tl ep) (length (takeWhile (\<lambda>c. singlematch (uint c) p ep) (drop s (src ms))))"

text \<open>\<open>cs\<close> are the characters from \<open>s\<close> on.\<close>

fun min_loop :: "matcher \<Rightarrow> MatchState \<Rightarrow> nat \<Rightarrow> byte list \<Rightarrow> byte list \<Rightarrow> byte list \<Rightarrow> (nat option \<times> MatchState) result" where
  "min_loop m ms s p ep [] = m ms s (tl ep)"
| "min_loop m ms s p ep (c # cs) =
     bnd (m ms s (tl ep)) (\<lambda>(res, ms).
     case res of
       Some e \<Rightarrow> Inr (Some e, ms)
     | None \<Rightarrow> if singlematch (uint c) p ep then min_loop m ms (s + 1) p ep cs else Inr (None, ms))"

definition min_expand :: "matcher \<Rightarrow> MatchState \<Rightarrow> nat \<Rightarrow> byte list \<Rightarrow> byte list \<Rightarrow> (nat option \<times> MatchState) result" where
  "min_expand m ms s p ep = min_loop m ms s p ep (drop s (src ms))"

definition start_capture :: "matcher \<Rightarrow> MatchState \<Rightarrow> nat \<Rightarrow> byte list \<Rightarrow> int \<Rightarrow> (nat option \<times> MatchState) result" where
  "start_capture m ms s p what =
     (let level = mlevel ms
      in if level \<ge> LUA_MAXCAPTURES then Inl (ErrRun ''too many captures'')
         else bnd (m (ms\<lparr>capture := (capture ms)[nat level := (s, what)], mlevel := level + 1\<rparr>) s p) (\<lambda>(res, ms).
              Inr (res, if res = None then ms\<lparr>mlevel := mlevel ms - 1\<rparr> else ms)))"

definition end_capture :: "matcher \<Rightarrow> MatchState \<Rightarrow> nat \<Rightarrow> byte list \<Rightarrow> (nat option \<times> MatchState) result" where
  "end_capture m ms s p =
     bnd (capture_to_close ms) (\<lambda>l.
     let (init, _) = capture ms ! l
     in bnd (m (ms\<lparr>capture := (capture ms)[l := (init, int s - int init)]\<rparr>) s p) (\<lambda>(res, ms).
        Inr (res, if res = None then ms\<lparr>capture := (capture ms)[l := (fst (capture ms ! l), CAP_UNFINISHED)]\<rparr> else ms)))"

text \<open>A pattern item and what follows it.\<close>

definition match_item :: "matcher \<Rightarrow> matcher" where
  "match_item mt ms s p =
     bnd (classend p) (\<lambda>ep.
     let m = s < length (src ms) \<and> singlematch (uint (src_at ms s)) p ep
     in if pat_at ep 0 = 63
        then bnd (if m then mt ms (s + 1) (tl ep) else Inr (None, ms)) (\<lambda>(res, ms).
             case res of Some e \<Rightarrow> Inr (Some e, ms) | None \<Rightarrow> mt ms s (tl ep))
        else if pat_at ep 0 = 42 then max_expand mt ms s p ep
        else if pat_at ep 0 = 43 then if m then max_expand mt ms (s + 1) p ep else Inr (None, ms)
        else if pat_at ep 0 = 45 then min_expand mt ms s p ep
        else if m then mt ms (s + 1) ep else Inr (None, ms))"

definition match_frontier :: "matcher \<Rightarrow> matcher" where
  "match_frontier mt ms s p =
     (if pat_at p 0 \<noteq> 91 then Inl (ErrRun (''missing '' @ LUA_QL ''['' @ '' after '' @ LUA_QL ''%f'' @ '' in pattern''))
      else bnd (classend p) (\<lambda>ep.
           let previous = (if s = 0 then 0 else src_at ms (s - 1))
           in if matchbracketclass (uint previous) p ep \<or> \<not> matchbracketclass (uint (src_at ms s)) p ep
              then Inr (None, ms) else mt ms s ep))"

definition match_step :: "matcher \<Rightarrow> matcher" where
  "match_step mt ms s p =
     (if pat_at p 0 = 40
      then if pat_at p 1 = 41 then start_capture mt ms s (drop 2 p) CAP_POSITION
           else start_capture mt ms s (drop 1 p) CAP_UNFINISHED
      else if pat_at p 0 = 41 then end_capture mt ms s (drop 1 p)
      else if pat_at p 0 = L_ESC
      then if pat_at p 1 = 98
           then bnd (matchbalance ms s (drop 2 p)) (\<lambda>r.
                case r of None \<Rightarrow> Inr (None, ms) | Some s \<Rightarrow> mt ms s (drop 4 p))
           else if pat_at p 1 = 102 then match_frontier mt ms s (drop 2 p)
           else if isdigit (uint (pat_at p 1))
           then bnd (match_capture ms s (uint (pat_at p 1))) (\<lambda>r.
                case r of None \<Rightarrow> Inr (None, ms) | Some s \<Rightarrow> mt ms s (drop 2 p))
           else match_item mt ms s p
      else if pat_at p 0 = 0 then Inr (Some s, ms)
      else if pat_at p 0 = 36 \<and> pat_at p 1 = 0
      then Inr (if s = length (src ms) then Some s else None, ms)
      else match_item mt ms s p)"

primrec match_n :: "nat \<Rightarrow> matcher" where
  "match_n 0 = (\<lambda>ms s p. Inl OutOfFuel)"
| "match_n (Suc n) = match_step (match_n n)"

text \<open>Every item takes at least one character of the pattern.\<close>

definition lmatch :: matcher where
  "lmatch ms s p = match_n (length p + 1) ms s p"

section \<open>Finding\<close>

text \<open>\<open>lmemfind\<close>: the loop goes from one occurrence of the first character to the next (\<open>memchr\<close>).\<close>

fun memchr :: "byte list \<Rightarrow> byte \<Rightarrow> nat \<Rightarrow> nat option" where
  "memchr [] c n = None"
| "memchr (x # xs) c n =
     (if n = 0 then None else if x = c then Some 0 else map_option Suc (memchr xs c (n - 1)))"

lemma memchr_bound: "memchr xs c n = Some k \<Longrightarrow> k < n \<and> k < length xs \<and> xs ! k = c"
  by (induction xs c n arbitrary: k rule: memchr.induct) (auto split: if_splits)

function memfind_loop :: "byte list \<Rightarrow> nat \<Rightarrow> nat \<Rightarrow> byte list \<Rightarrow> nat option" where
  "memfind_loop s1 pos l1 s2 =
     (if l1 > 0
      then case memchr (drop pos s1) (hd s2) l1 of
             None \<Rightarrow> None
           | Some k \<Rightarrow>
               if take (length s2 - 1) (drop (pos + k + 1) s1) = tl s2 then Some (pos + k)
               else memfind_loop s1 (pos + k + 1) (l1 - (k + 1)) s2
      else None)"
  by pat_completeness auto
termination by (relation "measure (\<lambda>(s1, pos, l1, s2). l1)") auto

declare memfind_loop.simps [simp del]

definition lmemfind :: "byte list \<Rightarrow> byte list \<Rightarrow> nat option" where
  "lmemfind s1 s2 =
     (if length s2 = 0 then Some 0
      else if length s2 > length s1 then None
      else memfind_loop s1 0 (length s1 - (length s2 - 1)) s2)"

text \<open>What the captures of a match from \<open>s\<close> to \<open>e\<close> are.\<close>

definition push_onecapture :: "MatchState \<Rightarrow> int \<Rightarrow> nat \<Rightarrow> nat \<Rightarrow> TValue result" where
  "push_onecapture ms i s e =
     (if i \<ge> mlevel ms
      then if i = 0 then Inr (LString (take (e - s) (drop s (src ms)))) else Inl (ErrRun ''invalid capture index'')
      else if i < 0 then Inl OutOfBounds
      else let (init, l) = capture ms ! nat i
           in if l = CAP_UNFINISHED then Inl (ErrRun ''unfinished capture'')
              else if l = CAP_POSITION then Inr (LNumber (cast_num (int init + 1)))
              else Inr (LString (take (nat l) (drop init (src ms)))))"

fun push_loop :: "MatchState \<Rightarrow> nat \<Rightarrow> nat \<Rightarrow> int list \<Rightarrow> (TValue list) result" where
  "push_loop ms s e [] = Inr []"
| "push_loop ms s e (i # is) =
     bnd (push_onecapture ms i s e) (\<lambda>v. bnd (push_loop ms s e is) (\<lambda>vs. Inr (v # vs)))"

definition push_captures :: "MatchState \<Rightarrow> (nat \<times> nat) option \<Rightarrow> (TValue list) result" where
  "push_captures ms se =
     (let nlevels = (if mlevel ms = 0 \<and> se \<noteq> None then 1 else mlevel ms);
          (s, e) = (case se of Some p \<Rightarrow> p | None \<Rightarrow> (0, 0))
      in push_loop ms s e [0..nlevels - 1])"

text \<open>The loop over the positions at which a match may start; \<open>n\<close> is the number of those left.\<close>

fun find_loop :: "nat \<Rightarrow> bool \<Rightarrow> MatchState \<Rightarrow> nat \<Rightarrow> byte list \<Rightarrow> ((nat \<times> nat) option \<times> MatchState) result" where
  "find_loop n anch ms s1 p =
     bnd (lmatch (ms\<lparr>mlevel := 0\<rparr>) s1 p) (\<lambda>(res, ms).
     case res of
       Some e \<Rightarrow> Inr (Some (s1, e), ms)
     | None \<Rightarrow> if n > 0 \<and> \<not> anch then find_loop (n - 1) anch ms (s1 + 1) p else Inr (None, ms))"

declare find_loop.simps [simp del]

text \<open>\<open>cap0\<close> stands for the contents of the array of captures before anything is stored in it.\<close>

definition str_find_aux ::
  "(nat \<times> int) list \<Rightarrow> bool \<Rightarrow> byte list \<Rightarrow> byte list \<Rightarrow> int \<Rightarrow> bool \<Rightarrow> (TValue list) result" where
  "str_find_aux cap0 isfind s p init plain =
     (let l1 = length s; init = posrelat init l1 - 1;
          init = (if init < 0 then 0 else if init > int l1 then int l1 else init);
          pat = c_str p
      in if isfind \<and> (plain \<or> (\<forall>c\<in>set pat. c \<notin> set SPECIALS))
         then case lmemfind (drop (nat init) s) p of
                Some k \<Rightarrow> Inr [LNumber (cast_num (init + int k + 1)), LNumber (cast_num (init + int k + int (length p)))]
              | None \<Rightarrow> Inr [LNil]
         else let anch = pat_at pat 0 = 94; pat = (if anch then tl pat else pat);
                  ms = \<lparr>src = s, mlevel = 0, capture = cap0\<rparr>
              in bnd (find_loop (l1 - nat init) anch ms (nat init) pat) (\<lambda>(res, ms).
                 case res of
                   None \<Rightarrow> Inr [LNil]
                 | Some (s1, e) \<Rightarrow>
                     if isfind
                     then bnd (push_captures ms None) (\<lambda>vs.
                          Inr (LNumber (cast_num (int s1 + 1)) # LNumber (cast_num (int e)) # vs))
                     else push_captures ms (Some (s1, e))))"

definition str_find :: "(nat \<times> int) list \<Rightarrow> byte list \<Rightarrow> byte list \<Rightarrow> int \<Rightarrow> bool \<Rightarrow> (TValue list) result" where
  "str_find cap0 s p init plain = str_find_aux cap0 True s p init plain"

definition str_match :: "(nat \<times> int) list \<Rightarrow> byte list \<Rightarrow> byte list \<Rightarrow> int \<Rightarrow> (TValue list) result" where
  "str_match cap0 s p init = str_find_aux cap0 False s p init False"

text \<open>
  \<open>gmatch_aux\<close>: one call of the iterator. \<open>pos\<close> is its upvalue, the position to go on from, and the result
  its next value with the captures.
\<close>

definition gmatch_aux ::
  "(nat \<times> int) list \<Rightarrow> byte list \<Rightarrow> byte list \<Rightarrow> nat \<Rightarrow> (nat \<times> TValue list) option result" where
  "gmatch_aux cap0 s p pos =
     (if pos > length s then Inr None
      else bnd (find_loop (length s - pos) False \<lparr>src = s, mlevel = 0, capture = cap0\<rparr> pos (c_str p)) (\<lambda>(res, ms).
           case res of
             None \<Rightarrow> Inr None
           | Some (s1, e) \<Rightarrow>
               bnd (push_captures ms (Some (s1, e))) (\<lambda>vs.
               Inr (Some (if e = s1 then e + 1 else e, vs)))))"

section \<open>Substitution\<close>

text \<open>
  The replacement: a string (or number), a function or a table. A function is given the captures and a
  table the first one; \<open>num2str\<close> is the conversion of a number to a string (\<open>sprintf\<close>).
\<close>

datatype repl = RString "byte list" | RFunction "TValue list \<Rightarrow> TValue result" | RTable "TValue \<Rightarrow> TValue result" | ROther

definition lua_tostr :: "(lua_Number \<Rightarrow> byte list) \<Rightarrow> TValue \<Rightarrow> byte list option" where
  "lua_tostr num2str v = (case v of LString b \<Rightarrow> Some b | LNumber n \<Rightarrow> Some (num2str n) | _ \<Rightarrow> None)"

text \<open>\<open>lua_push\<dots>\<close> of a string and \<open>luaL_addvalue\<close>.\<close>

definition push_addvalue :: "luaL_Buffer \<Rightarrow> byte list \<Rightarrow> luaL_Buffer" where
  "push_addvalue b v = luaL_addvalue (b\<lparr>bstack := v # bstack b\<rparr>)"

function add_s_loop ::
  "(lua_Number \<Rightarrow> byte list) \<Rightarrow> MatchState \<Rightarrow> nat \<Rightarrow> nat \<Rightarrow> byte list \<Rightarrow> luaL_Buffer \<Rightarrow> luaL_Buffer result" where
  "add_s_loop num2str ms s e [] b = Inr b"
| "add_s_loop num2str ms s e (c # news) b =
     (if c \<noteq> L_ESC then add_s_loop num2str ms s e news (luaL_addchar b c)
      else let d = pat_at news 0; rest = tl news
           in if \<not> isdigit (uint d) then add_s_loop num2str ms s e rest (luaL_addchar b d)
              else if d = 48 then add_s_loop num2str ms s e rest (luaL_addlstring b (take (e - s) (drop s (src ms))))
              else bnd (push_onecapture ms (uint d - 49) s e) (\<lambda>v.
                   add_s_loop num2str ms s e rest (push_addvalue b (the (lua_tostr num2str v)))))"
  by pat_completeness auto
termination by (relation "measure (\<lambda>(num2str, ms, s, e, news, b). length news)") auto

definition add_s ::
  "(lua_Number \<Rightarrow> byte list) \<Rightarrow> MatchState \<Rightarrow> luaL_Buffer \<Rightarrow> nat \<Rightarrow> nat \<Rightarrow> byte list \<Rightarrow> luaL_Buffer result" where
  "add_s num2str ms b s e news = add_s_loop num2str ms s e news b"

definition luaT_typenames :: "string list" where
  "luaT_typenames = [''nil'', ''boolean'', ''userdata'', ''number'', ''string'', ''table'', ''function'', ''userdata'',
     ''thread'', ''wstring'', ''proto'', ''upval'']"

definition add_value ::
  "(lua_Number \<Rightarrow> byte list) \<Rightarrow> repl \<Rightarrow> MatchState \<Rightarrow> luaL_Buffer \<Rightarrow> nat \<Rightarrow> nat \<Rightarrow> luaL_Buffer result" where
  "add_value num2str r ms b s e =
     (let whole = take (e - s) (drop s (src ms));
          add = (\<lambda>v. if l_isfalse v then Inr (push_addvalue b whole)
                     else case lua_tostr num2str v of
                            None \<Rightarrow> Inl (ErrRun (''invalid replacement value (a '' @ luaT_typenames ! nat (ttype v) @ '')''))
                          | Some t \<Rightarrow> Inr (push_addvalue b t))
      in case r of
           RString news \<Rightarrow> add_s num2str ms b s e news
         | RFunction f \<Rightarrow> bnd (push_captures ms (Some (s, e))) (\<lambda>vs. bnd (f vs) add)
         | RTable t \<Rightarrow> bnd (push_onecapture ms 0 s e) (\<lambda>v. bnd (t v) add)
         | ROther \<Rightarrow> Inl (ErrRun ''string/function/table expected''))"

text \<open>The loop of \<open>str_gsub\<close>; every round but the last moves on in the subject.\<close>

fun gsub_loop ::
  "nat \<Rightarrow> (lua_Number \<Rightarrow> byte list) \<Rightarrow> repl \<Rightarrow> int \<Rightarrow> bool \<Rightarrow> byte list \<Rightarrow> MatchState \<Rightarrow> nat \<Rightarrow> int \<Rightarrow> luaL_Buffer
     \<Rightarrow> (nat \<times> int \<times> luaL_Buffer) result" where
  "gsub_loop 0 num2str r max_s anch p ms s n b = Inl OutOfFuel"
| "gsub_loop (Suc fuel) num2str r max_s anch p ms s n b =
     (if n < max_s
      then bnd (lmatch (ms\<lparr>mlevel := 0\<rparr>) s p) (\<lambda>(e, ms).
           bnd (case e of None \<Rightarrow> Inr (n, b) | Some e \<Rightarrow> bnd (add_value num2str r ms b s e) (\<lambda>b. Inr (n + 1, b))) (\<lambda>(n, b).
           case (if (case e of Some e \<Rightarrow> e > s | None \<Rightarrow> False) then Some (the e, b)
                 else if s < length (src ms) then Some (s + 1, luaL_addchar b (src ms ! s)) else None) of
             None \<Rightarrow> Inr (s, n, b)
           | Some (s, b) \<Rightarrow>
               if anch then Inr (s, n, b) else gsub_loop fuel num2str r max_s anch p ms s n b))
      else Inr (s, n, b))"

definition str_gsub ::
  "(nat \<times> int) list \<Rightarrow> (lua_Number \<Rightarrow> byte list) \<Rightarrow> byte list list \<Rightarrow> byte list \<Rightarrow> byte list \<Rightarrow> repl \<Rightarrow> int
     \<Rightarrow> (luaL_Buffer \<times> TValue) result" where
  "str_gsub cap0 num2str st s p r max_s =
     (let pat = c_str p; anch = pat_at pat 0 = 94; pat = (if anch then tl pat else pat);
          ms = \<lparr>src = s, mlevel = 0, capture = cap0\<rparr>
      in bnd (gsub_loop (length s + 2) num2str r max_s anch pat ms 0 0 (luaL_buffinit st)) (\<lambda>(s', n, b).
         Inr (luaL_pushresult (luaL_addlstring b (drop s' s)), LNumber (cast_num n))))"

end
