(* ===== verification/StrMatchFacts.thy ===== *)
theory StrMatchFacts
  imports StrMatch
begin

text \<open>
  Facts on pattern matching: it ends and stays inside the subject, and the matcher with its array of
  captures that is undone on failure finds what a search without state finds first.
\<close>

section \<open>Bounds\<close>

text \<open>What a match from \<open>s\<close> returns.\<close>

definition match_in :: "MatchState \<Rightarrow> nat \<Rightarrow> nat option \<times> MatchState \<Rightarrow> bool" where
  "match_in ms s r \<longleftrightarrow> src (snd r) = src ms \<and> (\<forall>e. fst r = Some e \<longrightarrow> s \<le> e \<and> e \<le> length (src ms))"

lemma match_in_None [simp]: "match_in ms s (None, ms') \<longleftrightarrow> src ms' = src ms"
  by (simp add: match_in_def)

lemma match_in_Some [simp]: "match_in ms s (Some e, ms') \<longleftrightarrow> src ms' = src ms \<and> s \<le> e \<and> e \<le> length (src ms)"
  by (simp add: match_in_def)

lemma yields_no_fuel [simp]: "yields P (Inl (ErrRun m))"
  by simp

lemma class_loop_yields: "yields (\<lambda>ep. length ep < length p) (class_loop p)"
proof (induction p rule: class_loop.induct)
  case 1
  then show ?case by (simp add: class_loop.simps)
next
  case (2 c p)
  define q where "q = (if c = L_ESC \<and> p \<noteq> [] then tl p else p)"
  have q: "length q \<le> length p" by (simp add: q_def)
  have "yields (\<lambda>ep. length ep < length q) (class_loop q)"
    if "pat_at q 0 \<noteq> 93" using 2 [OF q_def that] .
  then have "yields (\<lambda>ep. length ep < length (c # p)) (if pat_at q 0 = 93 then Inr (tl q) else class_loop q)"
    using q by (auto elim!: yields_mono)
  then show ?case by (subst class_loop.simps) (simp only: q_def Let_def)
qed

lemma pat_at_nonempty: "pat_at p i \<noteq> 0 \<Longrightarrow> i < length p"
  by (simp add: pat_at_def split: if_splits)

lemma classend_yields: "pat_at p 0 \<noteq> 0 \<Longrightarrow> yields (\<lambda>ep. length ep < length p) (classend p)"
proof -
  assume "pat_at p 0 \<noteq> 0"
  then have p: "0 < length p" by (rule pat_at_nonempty)
  have "yields (\<lambda>ep. length ep < length p) (class_loop q)" if "length q \<le> length p" for q
    using yields_mono [OF class_loop_yields [of q]] that by fastforce
  with p show ?thesis by (auto simp: classend_def)
qed

lemma balance_loop_range: "balance_loop b e cont s xs = Some r \<Longrightarrow> s < r \<and> r \<le> s + length xs"
  by (induction b e cont s xs rule: balance_loop.induct) (fastforce split: if_splits)+

lemma matchbalance_yields:
  "yields (\<lambda>r. \<forall>e. r = Some e \<longrightarrow> s \<le> e \<and> e \<le> length (src ms)) (matchbalance ms s p)"
proof (cases "src_at ms s = pat_at p 0 \<and> pat_at p 0 \<noteq> 0")
  case True
  then have "s < length (src ms)" by (auto simp: src_at_def split: if_splits)
  then show ?thesis by (auto simp: matchbalance_def dest!: balance_loop_range)
qed (auto simp: matchbalance_def)

lemma match_capture_yields:
  "s \<le> length (src ms) \<Longrightarrow> yields (\<lambda>r. \<forall>e. r = Some e \<longrightarrow> s \<le> e \<and> e \<le> length (src ms)) (match_capture ms s l)"
  by (auto simp: match_capture_def check_capture_def Let_def split_beta)

text \<open>A matcher that respects the bounds on patterns shorter than \<open>k\<close>.\<close>

definition in_bounds :: "nat \<Rightarrow> matcher \<Rightarrow> bool" where
  "in_bounds k m \<longleftrightarrow> (\<forall>ms s p. length p < k \<longrightarrow> s \<le> length (src ms) \<longrightarrow> yields (match_in ms s) (m ms s p))"

lemma in_boundsD: "in_bounds k m \<Longrightarrow> length p < k \<Longrightarrow> s \<le> length (src ms) \<Longrightarrow> yields (match_in ms s) (m ms s p)"
  by (simp add: in_bounds_def)

lemma match_in_mono: "match_in ms s r \<Longrightarrow> s' \<le> s \<Longrightarrow> src ms' = src ms \<Longrightarrow> match_in ms' s' r"
  by (auto simp: match_in_def)

lemma yields_or_else:
  assumes "yields (match_in ms s1) m1" and "s \<le> s1"
    and "\<And>ms'. src ms' = src ms \<Longrightarrow> yields (match_in ms s) (m2 ms')"
  shows "yields (match_in ms s) (bnd m1 (\<lambda>(res, ms). case res of Some e \<Rightarrow> Inr (Some e, ms) | None \<Rightarrow> m2 ms))"
  by (rule yields_bnd [OF assms(1)]) (use assms(2,3) in \<open>auto split: option.split\<close>)

lemma max_loop_yields:
  assumes "in_bounds k m" "length ep < k"
  shows "s + i \<le> length (src ms) \<Longrightarrow> yields (match_in ms s) (max_loop m ms s ep i)"
proof (induction i arbitrary: ms)
  case 0
  then show ?case using in_boundsD [OF assms] by simp
next
  case (Suc i)
  have "yields (match_in ms s) (max_loop m ms' s ep i)" if "src ms' = src ms" for ms'
    using Suc.IH [of ms'] Suc.prems that by (auto elim!: yields_mono intro: match_in_mono)
  then show ?case unfolding max_loop.simps
    using in_boundsD [OF assms, of "s + Suc i" ms] Suc.prems by (intro yields_or_else) auto
qed

lemma max_expand_yields:
  assumes "in_bounds k m" "length ep \<le> k" "0 < length ep" "s \<le> length (src ms)"
  shows "yields (match_in ms s) (max_expand m ms s p ep)"
proof -
  have "length (takeWhile (\<lambda>c. singlematch (uint c) p ep) (drop s (src ms))) \<le> length (src ms) - s"
    by (metis length_drop length_takeWhile_le)
  moreover have "length (tl ep) < k" using assms(2,3) by (cases ep) auto
  ultimately show ?thesis unfolding max_expand_def
    using assms(4) by (intro max_loop_yields [OF assms(1)]) auto
qed

lemma min_loop_yields:
  assumes "in_bounds k m" "length ep \<le> k" "0 < length ep"
  shows "s + length cs \<le> length (src ms) \<Longrightarrow> yields (match_in ms s) (min_loop m ms s p ep cs)"
proof (induction cs arbitrary: ms s)
  case Nil
  have "length (tl ep) < k" using assms(2,3) by (cases ep) auto
  with Nil show ?case using in_boundsD [OF assms(1)] by simp
next
  case (Cons c cs)
  have t: "length (tl ep) < k" using assms(2,3) by (cases ep) auto
  have "yields (match_in ms s) (min_loop m ms' (s + 1) p ep cs)" if "src ms' = src ms" for ms'
    using Cons.IH [of "s + 1" ms'] Cons.prems that by (auto elim!: yields_mono intro: match_in_mono)
  then show ?case unfolding min_loop.simps
    using in_boundsD [OF assms(1) t, of s ms] Cons.prems by (intro yields_or_else) auto
qed

lemma min_expand_yields:
  assumes "in_bounds k m" "length ep \<le> k" "0 < length ep" "s \<le> length (src ms)"
  shows "yields (match_in ms s) (min_expand m ms s p ep)"
  unfolding min_expand_def using assms by (intro min_loop_yields [OF assms(1)]) auto

lemma match_item_yields:
  assumes m: "in_bounds (length p) m" and p: "pat_at p 0 \<noteq> 0" and s: "s \<le> length (src ms)"
  shows "yields (match_in ms s) (match_item m ms s p)"
  unfolding match_item_def
proof (rule yields_bnd [OF classend_yields [OF p]])
  fix ep :: "byte list" assume ep: "length ep < length p"
  let ?m = "s < length (src ms) \<and> singlematch (uint (src_at ms s)) p ep"
  have up: "yields (match_in ms s) x" if "yields (match_in ms (s + 1)) x" for x :: "(nat option \<times> MatchState) result"
    using that by (rule yields_mono) (fastforce simp: match_in_def)
  have t: "length (tl ep) < length p" using ep by simp
  have ne: "pat_at ep 0 \<in> {63, 42, 43, 45} \<Longrightarrow> 0 < length ep" using pat_at_nonempty [of ep 0] by auto
  have opt: "yields (match_in ms s) (bnd (if ?m then m ms (s + 1) (tl ep) else Inr (None, ms)) (\<lambda>(res, ms).
             case res of Some e \<Rightarrow> Inr (Some e, ms) | None \<Rightarrow> m ms s (tl ep)))"
  proof (rule yields_or_else)
    show "yields (match_in ms s) (if ?m then m ms (s + 1) (tl ep) else Inr (None, ms))"
      using up in_boundsD [OF m t, of "s + 1" ms] by auto
    show "yields (match_in ms s) (m ms' s (tl ep))" if "src ms' = src ms" for ms'
      using in_boundsD [OF m t, of s ms'] s that by (auto elim!: yields_mono intro: match_in_mono)
  qed simp
  have star: "yields (match_in ms s) (max_expand m ms s p ep)" if "0 < length ep"
    using max_expand_yields [OF m _ that s] ep by simp
  have plus: "yields (match_in ms s) (max_expand m ms (s + 1) p ep)" if "0 < length ep" ?m
    using max_expand_yields [OF m _ that(1), of "s + 1" ms] that(2) ep by (intro up) simp
  have minus: "yields (match_in ms s) (min_expand m ms s p ep)" if "0 < length ep"
    using min_expand_yields [OF m _ that s] ep by simp
  have one: "yields (match_in ms s) (m ms (s + 1) ep)" if ?m
    using in_boundsD [OF m ep, of "s + 1" ms] that by (intro up) simp
  show "yields (match_in ms s) (let ma = ?m
     in if pat_at ep 0 = 63
        then bnd (if ma then m ms (s + 1) (tl ep) else Inr (None, ms)) (\<lambda>(res, ms).
             case res of Some e \<Rightarrow> Inr (Some e, ms) | None \<Rightarrow> m ms s (tl ep))
        else if pat_at ep 0 = 42 then max_expand m ms s p ep
        else if pat_at ep 0 = 43 then if ma then max_expand m ms (s + 1) p ep else Inr (None, ms)
        else if pat_at ep 0 = 45 then min_expand m ms s p ep
        else if ma then m ms (s + 1) ep else Inr (None, ms))"
    unfolding Let_def using opt star plus minus one ne by simp
qed

lemma start_capture_yields:
  assumes "in_bounds k m" "length p < k" "s \<le> length (src ms)"
  shows "yields (match_in ms s) (start_capture m ms s p what)"
  unfolding start_capture_def Let_def
  using in_boundsD [OF assms(1,2), of s "ms\<lparr>capture := (capture ms)[nat (mlevel ms) := (s, what)], mlevel := mlevel ms + 1\<rparr>"] assms(3)
  by (auto intro!: yields_bnd simp: match_in_def)

lemma capture_loop_yields: "yields (\<lambda>l. l < n \<and> snd (capture ms ! l) = CAP_UNFINISHED) (capture_loop ms n)"
  by (induction n) (auto elim!: yields_mono)

lemma end_capture_yields:
  assumes "in_bounds k m" "length p < k" "s \<le> length (src ms)"
  shows "yields (match_in ms s) (end_capture m ms s p)"
  unfolding end_capture_def capture_to_close_def
proof (rule yields_bnd [OF capture_loop_yields])
  fix l
  show "yields (match_in ms s) (let (init, _) = capture ms ! l
     in bnd (m (ms\<lparr>capture := (capture ms)[l := (init, int s - int init)]\<rparr>) s p) (\<lambda>(res, ms).
        Inr (res, if res = None then ms\<lparr>capture := (capture ms)[l := (fst (capture ms ! l), CAP_UNFINISHED)]\<rparr> else ms)))"
    using in_boundsD [OF assms(1,2), of s "ms\<lparr>capture := (capture ms)[l := (fst (capture ms ! l), int s - int (fst (capture ms ! l)))]\<rparr>"] assms(3)
    by (auto intro!: yields_bnd simp: match_in_def split_beta)
qed

lemma match_frontier_yields:
  assumes m: "in_bounds k m" "length p \<le> k" and s: "s \<le> length (src ms)"
  shows "yields (match_in ms s) (match_frontier m ms s p)"
proof (cases "pat_at p 0 = 91")
  case True
  then have "pat_at p 0 \<noteq> 0" by simp
  from classend_yields [OF this] show ?thesis
    unfolding match_frontier_def using True m s
    by (auto intro!: yields_bnd [of _ "classend p"] in_boundsD [OF m(1)])
qed (simp add: match_frontier_def)

lemma match_step_yields:
  assumes m: "in_bounds (length p) m" and s: "s \<le> length (src ms)"
  shows "yields (match_in ms s) (match_step m ms s p)"
proof -
  have d: "length (drop (Suc i) p) < length p" if "pat_at p 0 \<noteq> 0" for i
    using pat_at_nonempty [OF that] by simp
  have step: "yields (match_in ms s) (bnd r (\<lambda>r. case r of None \<Rightarrow> Inr (None, ms) | Some s \<Rightarrow> m ms s (drop (Suc i) p)))"
    if "yields (\<lambda>r. \<forall>e. r = Some e \<longrightarrow> s \<le> e \<and> e \<le> length (src ms)) r" "pat_at p 0 \<noteq> 0" for r i
  proof (rule yields_bnd [OF that(1)])
    fix x assume x: "\<forall>e. x = Some e \<longrightarrow> s \<le> e \<and> e \<le> length (src ms)"
    show "yields (match_in ms s) (case x of None \<Rightarrow> Inr (None, ms) | Some s \<Rightarrow> m ms s (drop (Suc i) p))"
    proof (cases x)
      case (Some e)
      then have "yields (match_in ms e) (m ms e (drop (Suc i) p))" "s \<le> e"
        using in_boundsD [OF m d [OF that(2)], of e ms] x by simp_all
      then have "yields (match_in ms s) (m ms e (drop (Suc i) p))"
        by (elim yields_mono) (fastforce simp: match_in_def)
      with Some show ?thesis by simp
    qed simp
  qed
  have n: "pat_at p 0 = 40 \<Longrightarrow> pat_at p 0 \<noteq> 0" "pat_at p 0 = 41 \<Longrightarrow> pat_at p 0 \<noteq> 0" "pat_at p 0 = L_ESC \<Longrightarrow> pat_at p 0 \<noteq> 0"
    by (simp_all add: L_ESC_def)
  have d2: "length (drop 2 p) < length p" and d1: "length (drop 1 p) < length p" if "pat_at p 0 \<noteq> 0"
    using d [OF that, of 1] d [OF that, of 0] by (simp_all add: numeral_2_eq_2)
  have e: "drop 4 p = drop (Suc 3) p" "drop 2 p = drop (Suc 1) p" by (simp_all add: eval_nat_numeral)
  have A: "yields (match_in ms s) (start_capture m ms s (drop 2 p) w)" "yields (match_in ms s) (start_capture m ms s (drop 1 p) w)"
    "yields (match_in ms s) (end_capture m ms s (drop 1 p))" "yields (match_in ms s) (match_frontier m ms s (drop 2 p))"
    "yields (match_in ms s) (match_item m ms s p)"
    "yields (match_in ms s) (bnd (matchbalance ms s (drop 2 p)) (\<lambda>r. case r of None \<Rightarrow> Inr (None, ms) | Some s \<Rightarrow> m ms s (drop 4 p)))"
    "yields (match_in ms s) (bnd (match_capture ms s (uint (pat_at p 1))) (\<lambda>r. case r of None \<Rightarrow> Inr (None, ms) | Some s \<Rightarrow> m ms s (drop 2 p)))"
    if nz: "pat_at p 0 \<noteq> 0" for w
    using start_capture_yields [OF m d2 [OF nz] s] start_capture_yields [OF m d1 [OF nz] s] end_capture_yields [OF m d1 [OF nz] s]
      match_frontier_yields [OF m less_imp_le [OF d2 [OF nz]] s] match_item_yields [OF m nz s]
      step [OF matchbalance_yields nz, of "drop 2 p" 3] step [OF match_capture_yields [OF s] nz, of "uint (pat_at p 1)" 1]
    unfolding e by blast+
  have if_y: "yields (match_in ms s) (if c then x else y)" if "c \<Longrightarrow> yields (match_in ms s) x" "\<not> c \<Longrightarrow> yields (match_in ms s) y"
    for c and x y :: "(nat option \<times> MatchState) result" using that by simp
  show ?thesis
    unfolding match_step_def
    by (intro if_y; (rule A; use n in blast)?) (use s in auto)
qed

lemma match_n_yields: "length p < n \<Longrightarrow> s \<le> length (src ms) \<Longrightarrow> yields (match_in ms s) (match_n n ms s p)"
proof (induction n arbitrary: p s ms)
  case (Suc n)
  have "in_bounds (length p) (match_n n)"
    using Suc.IH Suc.prems(1) by (auto simp: in_bounds_def)
  then show ?case using match_step_yields Suc.prems(2) by simp
qed simp

section \<open>Matching as search\<close>

text \<open>
  The reference: all ways to match, in the order of preference, as a list, with the captures made so far
  as an argument. An error is an outcome like any other.
\<close>

type_synonym captures = "(nat \<times> int) list"
type_synonym outcome = "lua_error + nat \<times> captures"
type_synonym search = "captures \<Rightarrow> nat \<Rightarrow> byte list \<Rightarrow> outcome list"

definition ms_of :: "byte list \<Rightarrow> captures \<Rightarrow> MatchState" where
  "ms_of t cs = \<lparr>src = t, mlevel = int (length cs), capture = cs\<rparr>"

definition go_on :: "nat option result \<Rightarrow> (nat \<Rightarrow> outcome list) \<Rightarrow> outcome list" where
  "go_on r f = (case r of Inl e \<Rightarrow> [Inl e] | Inr None \<Rightarrow> [] | Inr (Some s) \<Rightarrow> f s)"

definition repeats :: "byte list \<Rightarrow> nat \<Rightarrow> byte list \<Rightarrow> byte list \<Rightarrow> nat" where
  "repeats t s p ep = length (takeWhile (\<lambda>c. singlematch (uint c) p ep) (drop s t))"

definition item_alts :: "byte list \<Rightarrow> search \<Rightarrow> search" where
  "item_alts t a cs s p =
     (case classend p of
        Inl e \<Rightarrow> [Inl e]
      | Inr ep \<Rightarrow>
          let m = s < length t \<and> singlematch (uint (t ! s)) p ep; rest = (\<lambda>k. a cs k (tl ep))
          in if pat_at ep 0 = 63 then (if m then rest (s + 1) else []) @ rest s
             else if pat_at ep 0 = 42 then concat (map rest (rev [s..<s + repeats t s p ep + 1]))
             else if pat_at ep 0 = 43 then if m then concat (map rest (rev [s + 1..<s + repeats t (s + 1) p ep + 2])) else []
             else if pat_at ep 0 = 45 then concat (map rest [s..<s + repeats t s p ep + 1])
             else if m then a cs (s + 1) ep else [])"

definition frontier_alts :: "byte list \<Rightarrow> search \<Rightarrow> search" where
  "frontier_alts t a cs s p =
     (if pat_at p 0 \<noteq> 91 then [Inl (ErrRun (''missing '' @ LUA_QL ''['' @ '' after '' @ LUA_QL ''%f'' @ '' in pattern''))]
      else case classend p of
             Inl e \<Rightarrow> [Inl e]
           | Inr ep \<Rightarrow>
               let previous = (if s = 0 then 0 else src_at (ms_of t cs) (s - 1)); next = src_at (ms_of t cs) s
               in if matchbracketclass (uint previous) p ep \<or> \<not> matchbracketclass (uint next) p ep then [] else a cs s ep)"

definition open_alts :: "search \<Rightarrow> int \<Rightarrow> search" where
  "open_alts a what cs s p =
     (if int (length cs) \<ge> LUA_MAXCAPTURES then [Inl (ErrRun ''too many captures'')] else a (cs @ [(s, what)]) s p)"

definition close_alts :: "byte list \<Rightarrow> search \<Rightarrow> search" where
  "close_alts t a cs s p =
     (case capture_to_close (ms_of t cs) of
        Inl e \<Rightarrow> [Inl e]
      | Inr l \<Rightarrow> a (cs[l := (fst (cs ! l), int s - int (fst (cs ! l)))]) s p)"

definition alts_step :: "byte list \<Rightarrow> search \<Rightarrow> search" where
  "alts_step t a cs s p =
     (if pat_at p 0 = 40
      then if pat_at p 1 = 41 then open_alts a CAP_POSITION cs s (drop 2 p) else open_alts a CAP_UNFINISHED cs s (drop 1 p)
      else if pat_at p 0 = 41 then close_alts t a cs s (drop 1 p)
      else if pat_at p 0 = L_ESC
      then if pat_at p 1 = 98 then go_on (matchbalance (ms_of t cs) s (drop 2 p)) (\<lambda>s. a cs s (drop 4 p))
           else if pat_at p 1 = 102 then frontier_alts t a cs s (drop 2 p)
           else if isdigit (uint (pat_at p 1)) then go_on (match_capture (ms_of t cs) s (uint (pat_at p 1))) (\<lambda>s. a cs s (drop 2 p))
           else item_alts t a cs s p
      else if pat_at p 0 = 0 then [Inr (s, cs)]
      else if pat_at p 0 = 36 \<and> pat_at p 1 = 0 then if s = length t then [Inr (s, cs)] else []
      else item_alts t a cs s p)"

primrec alts_n :: "byte list \<Rightarrow> nat \<Rightarrow> search" where
  "alts_n t 0 = (\<lambda>cs s p. [Inl OutOfFuel])"
| "alts_n t (Suc n) = alts_step t (alts_n t n)"

definition alts :: "byte list \<Rightarrow> search" where
  "alts t cs s p = alts_n t (length p + 1) cs s p"

text \<open>The state of the matcher holds the captures \<open>cs\<close>.\<close>

definition holds_caps :: "MatchState \<Rightarrow> captures \<Rightarrow> bool" where
  "holds_caps ms cs \<longleftrightarrow> mlevel ms = int (length cs) \<and> take (length cs) (capture ms) = cs \<and> length (capture ms) = nat LUA_MAXCAPTURES"

text \<open>The matcher returns the first outcome; on failure it holds the captures it began with.\<close>

definition first_of :: "byte list \<Rightarrow> captures \<Rightarrow> outcome list \<Rightarrow> (nat option \<times> MatchState) result \<Rightarrow> bool" where
  "first_of t cs xs r \<longleftrightarrow> (case xs of
     [] \<Rightarrow> \<exists>ms. r = Inr (None, ms) \<and> holds_caps ms cs \<and> src ms = t
   | Inl e # _ \<Rightarrow> r = Inl e
   | Inr (e, cs') # _ \<Rightarrow> \<exists>ms. r = Inr (Some e, ms) \<and> holds_caps ms cs' \<and> src ms = t)"

lemma first_of_simps [simp]:
  "first_of t cs [] r \<longleftrightarrow> (\<exists>ms. r = Inr (None, ms) \<and> holds_caps ms cs \<and> src ms = t)"
  "first_of t cs (Inl err # xs) r \<longleftrightarrow> r = Inl err"
  "first_of t cs (Inr (e, cs') # xs) r \<longleftrightarrow> (\<exists>ms. r = Inr (Some e, ms) \<and> holds_caps ms cs' \<and> src ms = t)"
  by (simp_all add: first_of_def)

definition finds :: "byte list \<Rightarrow> matcher \<Rightarrow> search \<Rightarrow> bool" where
  "finds t m a \<longleftrightarrow> (\<forall>ms cs s p. holds_caps ms cs \<longrightarrow> src ms = t \<longrightarrow> first_of t cs (a cs s p) (m ms s p))"

lemma findsD: "finds t m a \<Longrightarrow> holds_caps ms cs \<Longrightarrow> src ms = t \<Longrightarrow> first_of t cs (a cs s p) (m ms s p)"
  by (simp add: finds_def)

lemma first_of_append:
  assumes "first_of t cs xs r" and "\<And>ms. holds_caps ms cs \<Longrightarrow> src ms = t \<Longrightarrow> first_of t cs ys (k ms)"
  shows "first_of t cs (xs @ ys) (bnd r (\<lambda>(res, ms). case res of Some e \<Rightarrow> Inr (Some e, ms) | None \<Rightarrow> k ms))"
proof (cases xs)
  case Nil
  with assms show ?thesis by auto
next
  case (Cons x xs')
  with assms(1) show ?thesis by (cases x) (auto simp: split_paired_all)
qed

lemma max_loop_first:
  assumes "finds t m a"
  shows "holds_caps ms cs \<Longrightarrow> src ms = t \<Longrightarrow>
    first_of t cs (concat (map (\<lambda>k. a cs k ep) (rev [s..<s + i + 1]))) (max_loop m ms s ep i)"
proof (induction i arbitrary: ms)
  case 0
  then show ?case using findsD [OF assms] by simp
next
  case (Suc i)
  have "rev [s..<s + Suc i + 1] = (s + Suc i) # rev [s..<s + i + 1]" by simp
  then show ?case unfolding max_loop.simps
    using first_of_append [OF findsD [OF assms Suc.prems, of "s + Suc i" ep] Suc.IH] by simp
qed

lemma min_loop_first:
  assumes "finds t m a"
  shows "holds_caps ms cs \<Longrightarrow> src ms = t \<Longrightarrow>
    first_of t cs (concat (map (\<lambda>k. a cs k (tl ep)) [s..<s + length (takeWhile (\<lambda>c. singlematch (uint c) p ep) xs) + 1]))
      (min_loop m ms s p ep xs)"
proof (induction xs arbitrary: ms s)
  case Nil
  then show ?case using findsD [OF assms] by simp
next
  case (Cons x xs)
  let ?n = "length (takeWhile (\<lambda>c. singlematch (uint c) p ep) (x # xs))"
  have "s < s + ?n + 1" by linarith
  then have u: "[s..<s + ?n + 1] = s # [s + 1..<s + ?n + 1]" by (simp only: upt_conv_Cons Suc_eq_plus1)
  have "first_of t cs (concat (map (\<lambda>k. a cs k (tl ep)) [s + 1..<s + ?n + 1]))
      (if singlematch (uint x) p ep then min_loop m ms' (s + 1) p ep xs else Inr (None, ms'))"
    if "holds_caps ms' cs" "src ms' = t" for ms'
    using Cons.IH [OF that, of "s + 1"] that by auto
  then show ?case unfolding min_loop.simps u
    using first_of_append [OF findsD [OF assms Cons.prems, of s "tl ep"]] by simp
qed

lemma src_at_eq: "src ms = t \<Longrightarrow> src_at ms s = src_at (ms_of t cs) s"
  by (simp add: src_at_def ms_of_def)

lemma match_item_first:
  assumes f: "finds t m a" and h: "holds_caps ms cs" "src ms = t"
  shows "first_of t cs (item_alts t a cs s p) (match_item m ms s p)"
proof (cases "classend p")
  case (Inl e)
  then show ?thesis by (simp add: item_alts_def match_item_def)
next
  case (Inr ep)
  let ?m = "s < length t \<and> singlematch (uint (t ! s)) p ep"
  have m: "(s < length (src ms) \<and> singlematch (uint (src_at ms s)) p ep) = ?m"
    using h(2) by (auto simp: src_at_def)
  note F = findsD [OF f h]
  have opt: "first_of t cs ((if ?m then a cs (s + 1) (tl ep) else []) @ a cs s (tl ep))
      (bnd (if ?m then m ms (s + 1) (tl ep) else Inr (None, ms)) (\<lambda>(res, ms).
             case res of Some e \<Rightarrow> Inr (Some e, ms) | None \<Rightarrow> m ms s (tl ep)))"
    by (rule first_of_append) (use F h findsD [OF f] in auto)
  have star: "first_of t cs (concat (map (\<lambda>k. a cs k (tl ep)) (rev [i..<i + repeats t i p ep + 1]))) (max_expand m ms i p ep)" for i
    unfolding max_expand_def repeats_def h(2) by (rule max_loop_first [OF f h])
  have plus: "first_of t cs (concat (map (\<lambda>k. a cs k (tl ep)) (rev [s + 1..<s + repeats t (s + 1) p ep + 2])))
      (max_expand m ms (s + 1) p ep)"
    using star [of "s + 1"] by (simp add: add.commute add.left_commute)
  have minus: "first_of t cs (concat (map (\<lambda>k. a cs k (tl ep)) [s..<s + repeats t s p ep + 1])) (min_expand m ms s p ep)"
    unfolding min_expand_def repeats_def h(2) by (rule min_loop_first [OF f h])
  show ?thesis
    unfolding match_item_def item_alts_def Inr bnd_Inr sum.case Let_def m
    using opt star [of s] plus minus F [of "s + 1" ep] h by (auto simp del: upt_Suc)
qed

lemma open_first:
  assumes f: "finds t m a" and h: "holds_caps ms cs" "src ms = t"
  shows "first_of t cs (open_alts a what cs s p) (start_capture m ms s p what)"
proof (cases "int (length cs) \<ge> LUA_MAXCAPTURES")
  case True
  then show ?thesis using h by (simp add: open_alts_def start_capture_def holds_caps_def)
next
  case False
  have lev: "mlevel ms = int (length cs)" "take (length cs) (capture ms) = cs" "length (capture ms) = nat LUA_MAXCAPTURES"
    using h(1) by (simp_all add: holds_caps_def)
  let ?ms = "ms\<lparr>capture := (capture ms)[nat (mlevel ms) := (s, what)], mlevel := mlevel ms + 1\<rparr>"
  have "length cs < length (capture ms)" using False lev(3) by simp
  then have "holds_caps ?ms (cs @ [(s, what)])"
    using lev by (simp add: holds_caps_def take_Suc_conv_app_nth)
  from findsD [OF f this, of s p]
  have F: "first_of t (cs @ [(s, what)]) (a (cs @ [(s, what)]) s p) (m ?ms s p)" using h(2) by simp
  have undo: "holds_caps (ms'\<lparr>mlevel := mlevel ms' - 1\<rparr>) cs" if "holds_caps ms' (cs @ [(s, what)])" for ms'
  proof -
    have "take (Suc (length cs)) (capture ms') = cs @ [(s, what)]" using that by (simp add: holds_caps_def)
    then have "take (length cs) (take (Suc (length cs)) (capture ms')) = take (length cs) (cs @ [(s, what)])" by (rule arg_cong)
    then show ?thesis using that by (simp add: holds_caps_def)
  qed
  have e: "start_capture m ms s p what = bnd (m ?ms s p) (\<lambda>(res, ms).
      Inr (res, if res = None then ms\<lparr>mlevel := mlevel ms - 1\<rparr> else ms))"
    using False lev(1) by (simp add: start_capture_def Let_def)
  show ?thesis
  proof (cases "a (cs @ [(s, what)]) s p")
    case Nil
    then show ?thesis unfolding e using F False undo by (auto simp: open_alts_def)
  next
    case (Cons x xs)
    then show ?thesis unfolding e using F False by (cases x) (auto simp: open_alts_def)
  qed
qed

lemma capture_loop_same:
  "n \<le> k \<Longrightarrow> take k (capture ms) = take k (capture ms') \<Longrightarrow> k \<le> length (capture ms) \<Longrightarrow> k \<le> length (capture ms')
     \<Longrightarrow> capture_loop ms n = capture_loop ms' n"
proof (induction n)
  case (Suc n)
  then have "capture ms ! n = capture ms' ! n" by (metis Suc_le_lessD nth_take)
  with Suc show ?case by simp
qed simp

lemma holds_caps_loop: "holds_caps ms cs \<Longrightarrow> length cs \<le> nat LUA_MAXCAPTURES \<Longrightarrow> capture_to_close ms = capture_to_close (ms_of t cs)"
  unfolding capture_to_close_def
  using capture_loop_same [of "length cs" "length cs" ms "ms_of t cs"] by (simp add: holds_caps_def ms_of_def)

lemma holds_caps_length: "holds_caps ms cs \<Longrightarrow> length cs \<le> length (capture ms)"
proof -
  assume "holds_caps ms cs"
  then have "length (take (length cs) (capture ms)) = length cs" by (simp add: holds_caps_def)
  then show ?thesis by simp
qed

lemma holds_caps_nth: "holds_caps ms cs \<Longrightarrow> l < length cs \<Longrightarrow> capture ms ! l = cs ! l"
  unfolding holds_caps_def by (metis nth_take)

lemma holds_caps_update: "holds_caps ms cs \<Longrightarrow> holds_caps (ms\<lparr>capture := (capture ms)[l := x]\<rparr>) (cs[l := x])"
  by (simp add: holds_caps_def take_update_swap)

lemma close_first:
  assumes f: "finds t m a" and h: "holds_caps ms cs" "src ms = t"
  shows "first_of t cs (close_alts t a cs s p) (end_capture m ms s p)"
proof -
  have len: "length cs \<le> nat LUA_MAXCAPTURES" using holds_caps_length [OF h(1)] h(1) by (simp add: holds_caps_def)
  have c: "capture_to_close ms = capture_to_close (ms_of t cs)" using h(1) len by (rule holds_caps_loop)
  show ?thesis
  proof (cases "capture_to_close (ms_of t cs)")
    case (Inl e)
    then show ?thesis by (simp add: close_alts_def end_capture_def c)
  next
    case (Inr l)
    have "yields (\<lambda>l. l < length cs \<and> snd (cs ! l) = CAP_UNFINISHED) (capture_to_close (ms_of t cs))"
      using capture_loop_yields [of "length cs" "ms_of t cs"] by (simp add: capture_to_close_def ms_of_def)
    then have l: "l < length cs" "snd (cs ! l) = CAP_UNFINISHED" using Inr by simp_all
    let ?i = "fst (cs ! l)"
    let ?ms = "ms\<lparr>capture := (capture ms)[l := (?i, int s - int ?i)]\<rparr>" and ?cs = "cs[l := (?i, int s - int ?i)]"
    have F: "first_of t ?cs (a ?cs s p) (m ?ms s p)"
      using holds_caps_update [OF h(1)] h(2) by (intro findsD [OF f]) simp_all
    have undo: "holds_caps (ms'\<lparr>capture := (capture ms')[l := (fst (capture ms' ! l), CAP_UNFINISHED)]\<rparr>) cs"
      if "holds_caps ms' ?cs" for ms'
    proof -
      have "fst (capture ms' ! l) = ?i" using holds_caps_nth [OF that, of l] l(1) by simp
      moreover have "?cs[l := (?i, CAP_UNFINISHED)] = cs"
        by (metis l(2) list_update_id list_update_overwrite prod.collapse)
      ultimately show ?thesis using holds_caps_update [OF that, of l "(?i, CAP_UNFINISHED)"] by simp
    qed
    have e: "end_capture m ms s p = bnd (m ?ms s p) (\<lambda>(res, ms).
        Inr (res, if res = None then ms\<lparr>capture := (capture ms)[l := (fst (capture ms ! l), CAP_UNFINISHED)]\<rparr> else ms))"
      using holds_caps_nth [OF h(1) l(1)] Inr by (simp add: end_capture_def c split_beta)
    show ?thesis
    proof (cases "a ?cs s p")
      case Nil
      then show ?thesis unfolding e using F Inr undo by (auto simp: close_alts_def)
    next
      case (Cons x xs)
      then show ?thesis unfolding e using F Inr by (cases x) (auto simp: close_alts_def)
    qed
  qed
qed

lemma frontier_first:
  assumes f: "finds t m a" and h: "holds_caps ms cs" "src ms = t"
  shows "first_of t cs (frontier_alts t a cs s p) (match_frontier m ms s p)"
  using findsD [OF f h] h src_at_eq [OF h(2), of _ cs]
  by (cases "classend p") (auto simp: frontier_alts_def match_frontier_def Let_def)

lemma go_on_first:
  assumes f: "finds t m a" and h: "holds_caps ms cs" "src ms = t"
  shows "first_of t cs (go_on r (\<lambda>s. a cs s p)) (bnd r (\<lambda>r. case r of None \<Rightarrow> Inr (None, ms) | Some s \<Rightarrow> m ms s p))"
  using findsD [OF f h] h by (auto simp: go_on_def split: sum.split option.split)

lemma matchbalance_same: "src ms = t \<Longrightarrow> matchbalance ms s p = matchbalance (ms_of t cs) s p"
  by (simp add: matchbalance_def src_at_def ms_of_def)

lemma match_capture_same:
  assumes "holds_caps ms cs" "src ms = t"
  shows "match_capture ms s l = match_capture (ms_of t cs) s l"
proof -
  have "check_capture ms l = check_capture (ms_of t cs) l"
    using holds_caps_nth [OF assms(1), of "nat (l - 49)"] assms(1)
    by (auto simp: check_capture_def ms_of_def holds_caps_def Let_def)
  moreover have "n < length cs" if "check_capture (ms_of t cs) l = Inr n" for n
    using that by (auto simp: check_capture_def ms_of_def Let_def split: if_splits)
  ultimately show ?thesis
    using assms(2) holds_caps_nth [OF assms(1)]
    by (cases "check_capture (ms_of t cs) l") (auto simp: match_capture_def ms_of_def Let_def split_beta)
qed

lemma match_step_first:
  assumes "finds t m a"
  shows "finds t (match_step m) (alts_step t a)"
  unfolding finds_def
proof (intro allI impI)
  fix ms cs s p assume h: "holds_caps ms cs" "src ms = t"
  have if_f: "first_of t cs (if c then x else y) (if c then x' else y')"
    if "c \<Longrightarrow> first_of t cs x x'" "\<not> c \<Longrightarrow> first_of t cs y y'" for c x y x' y' using that by simp
  note facts = open_first [OF assms h] close_first [OF assms h] frontier_first [OF assms h] match_item_first [OF assms h]
    go_on_first [OF assms h]
  show "first_of t cs (alts_step t a cs s p) (match_step m ms s p)"
    unfolding alts_step_def match_step_def matchbalance_same [OF h(2), of s "drop 2 p" cs] match_capture_same [OF h]
    by (intro if_f facts) (use h in auto)
qed

lemma match_n_first: "finds t (match_n n) (alts_n t n)"
proof (induction n)
  case (Suc n)
  then show ?case using match_step_first by simp
qed (simp add: finds_def)

lemma lmatch_first:
  "holds_caps ms cs \<Longrightarrow> first_of (src ms) cs (alts (src ms) cs s p) (lmatch ms s p)"
  unfolding alts_def lmatch_def using findsD [OF match_n_first] by blast

end
