(* ===== verification/StrFind.thy ===== *)
theory StrFind
  imports StrMatchFacts
begin

text \<open>
  The searches and substitutions of \<open>lstrlib.c\<close> against the reference search \<open>alts\<close>: what they find, that
  they end, and what the shortcut for patterns without special characters leaves unchanged.
\<close>

lemma lmatch_yields: "s \<le> length (src ms) \<Longrightarrow> yields (match_in ms s) (lmatch ms s p)"
  unfolding lmatch_def by (rule match_n_yields) simp_all

lemma holds_no_caps: "length (capture ms) = nat LUA_MAXCAPTURES \<Longrightarrow> holds_caps (ms\<lparr>mlevel := 0\<rparr>) []"
  by (simp add: holds_caps_def)

section \<open>The first match\<close>

text \<open>The first of the places \<open>ks\<close> at which there is a way to match, and the preferred way there.\<close>

definition first_match :: "byte list \<Rightarrow> byte list \<Rightarrow> nat list \<Rightarrow> (nat \<times> nat \<times> captures) option result" where
  "first_match t p ks =
     (case List.find (\<lambda>k. alts t [] k p \<noteq> []) ks of
        None \<Rightarrow> Inr None
      | Some k \<Rightarrow> (case hd (alts t [] k p) of Inl e \<Rightarrow> Inl e | Inr (e, cs) \<Rightarrow> Inr (Some (k, e, cs))))"

definition places :: "bool \<Rightarrow> byte list \<Rightarrow> nat \<Rightarrow> nat list" where
  "places anch t i = (if anch then [i] else [i..<length t + 1])"

text \<open>The values of captures.\<close>

primrec collect :: "'a result list \<Rightarrow> 'a list result" where
  "collect [] = Inr []"
| "collect (r # rs) = bnd r (\<lambda>v. bnd (collect rs) (\<lambda>vs. Inr (v # vs)))"

definition capture_value :: "byte list \<Rightarrow> nat \<times> int \<Rightarrow> TValue result" where
  "capture_value t c =
     (if snd c = CAP_UNFINISHED then Inl (ErrRun ''unfinished capture'')
      else if snd c = CAP_POSITION then Inr (LNumber (cast_num (int (fst c) + 1)))
      else Inr (LString (take (nat (snd c)) (drop (fst c) t))))"

definition match_values :: "byte list \<Rightarrow> nat \<times> nat \<times> captures \<Rightarrow> TValue list result" where
  "match_values t m =
     (case m of (k, e, cs) \<Rightarrow>
        if cs = [] then Inr [LString (take (e - k) (drop k t))] else collect (map (capture_value t) cs))"

text \<open>The result of \<open>find_loop\<close> holds the same match.\<close>

definition shows_match :: "byte list \<Rightarrow> (nat \<times> nat \<times> captures) option result \<Rightarrow> ((nat \<times> nat) option \<times> MatchState) result \<Rightarrow> bool" where
  "shows_match t m r \<longleftrightarrow> (case m of
     Inl e \<Rightarrow> r = Inl e
   | Inr None \<Rightarrow> \<exists>ms. r = Inr (None, ms)
   | Inr (Some (k, e, cs)) \<Rightarrow> \<exists>ms. r = Inr (Some (k, e), ms) \<and> holds_caps ms cs \<and> src ms = t)"

lemma find_loop_first:
  "src ms = t \<Longrightarrow> length (capture ms) = nat LUA_MAXCAPTURES \<Longrightarrow> length t = s1 + n \<Longrightarrow>
     shows_match t (first_match t p (places anch t s1)) (find_loop n anch ms s1 p)"
proof (induction n anch ms s1 p rule: find_loop.induct)
  case (1 n anch ms s1 p)
  have f: "first_of t [] (alts t [] s1 p) (lmatch (ms\<lparr>mlevel := 0\<rparr>) s1 p)"
    using lmatch_first [OF holds_no_caps [OF 1(3)], of s1 p] 1(2) by simp
  have pl: "places anch t s1 = s1 # (if n > 0 \<and> \<not> anch then places anch t (s1 + 1) else [])"
    using 1(4) by (auto simp: places_def upt_conv_Cons)
  show ?case
  proof (cases "alts t [] s1 p")
    case Nil
    with f obtain ms' where l: "lmatch (ms\<lparr>mlevel := 0\<rparr>) s1 p = Inr (None, ms')" "holds_caps ms' []" "src ms' = t"
      by auto
    have m: "first_match t p (places anch t s1) = first_match t p (if n > 0 \<and> \<not> anch then places anch t (s1 + 1) else [])"
      unfolding pl by (simp add: first_match_def Nil)
    show ?thesis
    proof (cases "n > 0 \<and> \<not> anch")
      case True
      then have "shows_match t (first_match t p (places anch t (s1 + 1))) (find_loop (n - 1) anch ms' (s1 + 1) p)"
        using l 1(4) by (intro 1(1) [OF _ refl]) (auto simp: holds_caps_def)
      then show ?thesis unfolding m by (subst find_loop.simps) (use l True in simp)
    next
      case False
      then show ?thesis unfolding m if_not_P [OF False]
        by (subst find_loop.simps) (use l False in \<open>auto simp: shows_match_def first_match_def\<close>)
    qed
  next
    case (Cons x xs)
    have m: "first_match t p (places anch t s1) = (case x of Inl e \<Rightarrow> Inl e | Inr (e, cs) \<Rightarrow> Inr (Some (s1, e, cs)))"
      unfolding pl by (simp add: first_match_def Cons)
    show ?thesis unfolding m using f unfolding Cons
      by (subst find_loop.simps) (cases x; auto simp: shows_match_def)
  qed
qed

lemma push_loop_collect: "push_loop ms s e is = collect (map (\<lambda>i. push_onecapture ms i s e) is)"
  by (induction "is") simp_all

lemma upto_int_upt: "[0..int n - 1] = map int [0..<n]"
  by (rule nth_equalityI) simp_all

lemma push_captures_values:
  assumes h: "holds_caps ms cs" and t: "src ms = t"
  shows "push_captures ms None = collect (map (capture_value t) cs)"
    and "push_captures ms (Some (k, e)) = match_values t (k, e, cs)"
proof -
  have one: "push_onecapture ms (int i) s e = capture_value t (cs ! i)" if "i < length cs" for i s e
    using that t holds_caps_nth [OF h that] h
    by (simp add: push_onecapture_def capture_value_def holds_caps_def split_beta)
  have loop: "push_loop ms s e [0..mlevel ms - 1] = collect (map (capture_value t) cs)" for s e
  proof -
    have "map (\<lambda>i. push_onecapture ms i s e) [0..mlevel ms - 1] = map (capture_value t) cs"
      using h one unfolding holds_caps_def by (auto simp: upto_int_upt intro!: nth_equalityI)
    then show ?thesis by (simp add: push_loop_collect)
  qed
  show "push_captures ms None = collect (map (capture_value t) cs)" by (simp add: push_captures_def loop)
  have "push_captures ms (Some (k, e)) = push_loop ms k e [0..0]" if "cs = []"
    using h that by (simp add: push_captures_def holds_caps_def)
  then show "push_captures ms (Some (k, e)) = match_values t (k, e, cs)"
    using h t loop [of k e]
    by (cases "cs = []") (auto simp: match_values_def push_captures_def holds_caps_def push_onecapture_def)
qed

section \<open>Finding\<close>

text \<open>The position a search begins at, and the pattern without its anchor.\<close>

definition start_at :: "byte list \<Rightarrow> int \<Rightarrow> nat" where
  "start_at t init = (let i = posrelat init (length t) - 1 in if i < 0 then 0 else if i > int (length t) then length t else nat i)"

definition anchored :: "byte list \<Rightarrow> bool" where
  "anchored p \<longleftrightarrow> pat_at (c_str p) 0 = 94"

definition unanchored :: "byte list \<Rightarrow> byte list" where
  "unanchored p = (if anchored p then tl (c_str p) else c_str p)"

definition pattern_match :: "byte list \<Rightarrow> byte list \<Rightarrow> int \<Rightarrow> (nat \<times> nat \<times> captures) option result" where
  "pattern_match t p init = first_match t (unanchored p) (places (anchored p) t (start_at t init))"

definition found_values :: "byte list \<Rightarrow> (nat \<times> nat \<times> captures) option \<Rightarrow> TValue list result" where
  "found_values t m = (case m of None \<Rightarrow> Inr [LNil] | Some m \<Rightarrow> match_values t m)"

definition found_place :: "byte list \<Rightarrow> (nat \<times> nat \<times> captures) option \<Rightarrow> TValue list result" where
  "found_place t m = (case m of
     None \<Rightarrow> Inr [LNil]
   | Some (k, e, cs) \<Rightarrow> bnd (collect (map (capture_value t) cs)) (\<lambda>vs.
       Inr (LNumber (cast_num (int k + 1)) # LNumber (cast_num (int e)) # vs)))"

lemma start_at_le: "start_at t init \<le> length t"
  by (auto simp: start_at_def Let_def)

lemma find_aux_search:
  assumes "length cap0 = nat LUA_MAXCAPTURES" and "\<not> (isfind \<and> (plain \<or> (\<forall>c\<in>set (c_str p). c \<notin> set SPECIALS)))"
  shows "str_find_aux cap0 isfind t p init plain =
    bnd (pattern_match t p init) (if isfind then found_place t else found_values t)"
proof -
  let ?ms = "\<lparr>src = t, mlevel = 0, capture = cap0\<rparr>"
  let ?r = "find_loop (length t - start_at t init) (anchored p) ?ms (start_at t init) (unanchored p)"
  let ?i = "posrelat init (length t) - 1"
  have i: "nat (if ?i < 0 then 0 else if ?i > int (length t) then int (length t) else ?i) = start_at t init"
    by (simp add: start_at_def)
  have e: "str_find_aux cap0 isfind t p init plain = bnd ?r (\<lambda>(res, ms).
     case res of None \<Rightarrow> Inr [LNil]
     | Some (s1, e) \<Rightarrow> if isfind then bnd (push_captures ms None) (\<lambda>vs. Inr (LNumber (cast_num (int s1 + 1)) # LNumber (cast_num (int e)) # vs))
                       else push_captures ms (Some (s1, e)))"
    unfolding str_find_aux_def Let_def if_not_P [OF assms(2)] i
    by (simp add: anchored_def unanchored_def)
  have "shows_match t (pattern_match t p init) ?r"
    unfolding pattern_match_def
    using start_at_le [of t init] assms(1) by (intro find_loop_first) simp_all
  then show ?thesis unfolding e
    by (auto simp: shows_match_def found_place_def found_values_def push_captures_values split: sum.splits option.splits prod.splits)
qed

lemma gmatch_aux_search:
  assumes "length cap0 = nat LUA_MAXCAPTURES" "pos \<le> length t"
  shows "gmatch_aux cap0 t p pos =
    bnd (first_match t (c_str p) (places False t pos)) (\<lambda>m. case m of
      None \<Rightarrow> Inr None
    | Some (k, e, cs) \<Rightarrow> bnd (match_values t (k, e, cs)) (\<lambda>vs. Inr (Some (if e = k then e + 1 else e, vs))))"
proof -
  have "shows_match t (first_match t (c_str p) (places False t pos))
      (find_loop (length t - pos) False \<lparr>src = t, mlevel = 0, capture = cap0\<rparr> pos (c_str p))"
    using assms by (intro find_loop_first) simp_all
  then show ?thesis unfolding gmatch_aux_def using assms(2)
    by (auto simp: shows_match_def push_captures_values split: sum.splits option.splits prod.splits)
qed

section \<open>Patterns without special characters\<close>

definition occurs_at :: "byte list \<Rightarrow> byte list \<Rightarrow> nat \<Rightarrow> bool" where
  "occurs_at t p k \<longleftrightarrow> take (length p) (drop k t) = p"

lemma memchr_None: "memchr xs c n = None \<longleftrightarrow> (\<forall>k < min n (length xs). xs ! k \<noteq> c)"
proof (induction xs c n rule: memchr.induct)
  case (2 x xs c n)
  then show ?case by (cases n) (auto simp: less_Suc_eq_0_disj nth_Cons split: nat.splits)
qed simp

lemma memchr_first: "memchr xs c n = Some k \<Longrightarrow> j < k \<Longrightarrow> xs ! j \<noteq> c"
proof (induction xs c n arbitrary: k j rule: memchr.induct)
  case (2 x xs c n)
  then show ?case by (cases j) (auto split: if_splits)
qed simp

lemma find_skip: "(\<And>j. i \<le> j \<Longrightarrow> j < k \<Longrightarrow> \<not> P j) \<Longrightarrow> i \<le> k \<Longrightarrow> k \<le> n \<Longrightarrow> List.find P [i..<n] = List.find P [k..<n]"
proof (induction "k - i" arbitrary: i)
  case (Suc d)
  then have "List.find P [i..<n] = List.find P [Suc i..<n]"
    by (subst upt_conv_Cons) auto
  also have "\<dots> = List.find P [k..<n]" using Suc.hyps(2) Suc.prems by (intro Suc.hyps(1)) auto
  finally show ?case .
qed simp

lemma occurs_at_hd:
  assumes "occurs_at t p k" "p \<noteq> []"
  shows "k < length t" "t ! k = hd p"
proof -
  have "drop k t \<noteq> []" using assms by (auto simp: occurs_at_def)
  then show "k < length t" by simp
  then have "hd (take (length p) (drop k t)) = t ! k" using assms(2) by (simp add: hd_drop_conv_nth)
  with assms(1) show "t ! k = hd p" by (simp add: occurs_at_def)
qed

lemma occurs_at_Cons: "occurs_at t (c # p) k \<longleftrightarrow> k < length t \<and> t ! k = c \<and> occurs_at t p (k + 1)"
proof (cases "k < length t")
  case True
  then show ?thesis by (simp add: occurs_at_def Cons_nth_drop_Suc [symmetric])
qed (simp add: occurs_at_def)

lemma memfind_loop_first:
  "s2 \<noteq> [] \<Longrightarrow> pos + l1 \<le> length s1 \<Longrightarrow> memfind_loop s1 pos l1 s2 = List.find (occurs_at s1 s2) [pos..<pos + l1]"
proof (induction s1 pos l1 s2 rule: memfind_loop.induct)
  case (1 s1 pos l1 s2)
  obtain c s where s2: "s2 = c # s" using 1(2) by (cases s2) auto
  show ?case
  proof (cases "memchr (drop pos s1) c l1")
    case None
    have "\<not> occurs_at s1 s2 j" if "pos \<le> j" "j < pos + l1" for j
    proof
      assume "occurs_at s1 s2 j"
      then have "s1 ! j = c" using s2 by (simp add: occurs_at_Cons)
      moreover have "drop pos s1 ! (j - pos) \<noteq> c" using None [unfolded memchr_None, rule_format, of "j - pos"] that 1(3) by simp
      ultimately show False using that 1(3) by simp
    qed
    then have "List.find (occurs_at s1 s2) [pos..<pos + l1] = None" by (auto simp: find_None_iff)
    then show ?thesis using None s2 by (subst memfind_loop.simps) simp
  next
    case (Some k)
    from memchr_bound [OF Some] have k: "k < l1" "pos + k < length s1" "s1 ! (pos + k) = c" by auto
    have "\<not> occurs_at s1 s2 j" if "pos \<le> j" "j < pos + k" for j
      using memchr_first [OF Some, of "j - pos"] that k(2) s2 by (auto simp: occurs_at_Cons)
    then have "List.find (occurs_at s1 s2) [pos..<pos + l1] = List.find (occurs_at s1 s2) [pos + k..<pos + l1]"
      using k(1) by (intro find_skip) auto
    also have "\<dots> = (if occurs_at s1 s2 (pos + k) then Some (pos + k) else List.find (occurs_at s1 s2) [pos + k + 1..<pos + l1])"
      using k(1) by (subst upt_conv_Cons) auto
    also have "occurs_at s1 s2 (pos + k) \<longleftrightarrow> take (length s2 - 1) (drop (pos + k + 1) s1) = tl s2"
      using k s2 by (simp add: occurs_at_Cons) (simp add: occurs_at_def)
    finally have f: "List.find (occurs_at s1 s2) [pos..<pos + l1] =
        (if take (length s2 - 1) (drop (pos + k + 1) s1) = tl s2 then Some (pos + k)
         else List.find (occurs_at s1 s2) [pos + k + 1..<pos + l1])" .
    have ih: "memfind_loop s1 (pos + k + 1) (l1 - (k + 1)) s2 = List.find (occurs_at s1 s2) [pos + k + 1..<pos + l1]"
      if "take (length s2 - 1) (drop (pos + k + 1) s1) \<noteq> tl s2"
    proof -
      have "pos + k + 1 + (l1 - (k + 1)) = pos + l1" using k(1) by simp
      with 1(1) [OF _ _ that 1(2)] Some s2 k(1) 1(3) show ?thesis by simp
    qed
    show ?thesis unfolding f using Some s2 k(1) ih by (subst memfind_loop.simps) auto
  qed
qed

lemma find_append: "List.find P (xs @ ys) = (case List.find P xs of None \<Rightarrow> List.find P ys | Some x \<Rightarrow> Some x)"
  by (induction xs) simp_all

lemma lmemfind_first: "lmemfind t p = List.find (occurs_at t p) [0..<length t + 1]"
proof (cases "p = [] \<or> length p > length t")
  case True
  have "List.find (occurs_at t p) [0..<length t + 1] = None" if "length p > length t"
  proof -
    have "\<not> occurs_at t p k" for k using that by (auto simp: occurs_at_def dest!: arg_cong [of _ _ length])
    then show ?thesis by (auto simp: find_None_iff)
  qed
  moreover have "List.find (occurs_at t []) [0..<length t + 1] = Some 0" by (simp add: upt_conv_Cons occurs_at_def del: upt_Suc)
  ultimately show ?thesis using True by (auto simp: lmemfind_def)
next
  case False
  let ?n = "length t - (length p - 1)"
  have n: "?n \<le> length t" using False by simp
  have "lmemfind t p = List.find (occurs_at t p) [0..<?n]"
    using False memfind_loop_first [of p 0 ?n t] by (simp add: lmemfind_def)
  also have "\<dots> = List.find (occurs_at t p) ([0..<?n] @ [?n..<length t + 1])"
  proof -
    have "\<not> occurs_at t p k" if "?n \<le> k" for k
      using that False by (cases p) (auto simp: occurs_at_def dest!: arg_cong [of _ _ length])
    then have "List.find (occurs_at t p) [?n..<length t + 1] = None" by (auto simp: find_None_iff)
    then show ?thesis by (simp add: find_append split: option.split)
  qed
  also have "[0..<?n] @ [?n..<length t + 1] = [0..<length t + 1]" using upt_add_eq_append [of 0 ?n "length t + 1 - ?n"] n by simp
  finally show ?thesis .
qed

lemma plain_alts:
  assumes p: "\<forall>c\<in>set p. c \<notin> set SPECIALS \<and> c \<noteq> 0 \<and> c \<noteq> 41"
  shows "length p < n \<Longrightarrow> s \<le> length t \<Longrightarrow> alts_n t n cs s p = (if occurs_at t p s then [Inr (s + length p, cs)] else [])"
  using p
proof (induction n arbitrary: s p)
  case (Suc n)
  show ?case
  proof (cases p)
    case Nil
    then show ?thesis by (simp add: alts_step_def pat_at_def occurs_at_def L_ESC_def)
  next
    case (Cons c q)
    have c: "c \<notin> {94, 36, 42, 43, 63, 46, 40, 91, 37, 45, 0, 41}" and q: "\<forall>c\<in>set q. c \<notin> set SPECIALS \<and> c \<noteq> 0 \<and> c \<noteq> 41"
      using Suc.prems(3) Cons by (auto simp: SPECIALS_def bytes_of_def of_char_def)
    have q0: "pat_at q 0 \<notin> {63, 42, 43, 45}"
      using q by (cases q) (auto simp: pat_at_def SPECIALS_def bytes_of_def of_char_def)
    have "alts_n t (Suc n) cs s p = item_alts t (alts_n t n) cs s p"
      using c Cons by (simp add: alts_step_def pat_at_def L_ESC_def)
    also have "\<dots> = (if s < length t \<and> t ! s = c then alts_n t n cs (s + 1) q else [])"
      using c Cons q0
      by (auto simp: item_alts_def classend_def singlematch_def pat_at_def [of "c # q"] L_ESC_def Let_def simp flip: word_uint_eq_iff)
    finally show ?thesis
      using Suc.IH [of q "s + 1"] Suc.prems(1,2) Cons q by (auto simp: occurs_at_Cons)
  qed
qed simp

lemma plain_first_match:
  assumes p: "\<forall>c\<in>set p. c \<notin> set SPECIALS \<and> c \<noteq> 0 \<and> c \<noteq> 41"
  shows "first_match t p [i..<length t + 1] =
    Inr (case List.find (occurs_at t p) [i..<length t + 1] of None \<Rightarrow> None | Some k \<Rightarrow> Some (k, k + length p, []))"
proof -
  have a: "alts t [] k p = (if occurs_at t p k then [Inr (k + length p, [])] else [])" if "k < length t + 1" for k
    unfolding alts_def using plain_alts [OF p, of "length p + 1" k t "[]"] that by simp
  have "List.find (\<lambda>k. alts t [] k p \<noteq> []) [i..<length t + 1] = List.find (occurs_at t p) [i..<length t + 1]"
    by (rule find_cong [OF refl]) (auto simp: a simp del: upt_Suc)
  moreover have "k < length t + 1 \<and> occurs_at t p k" if "List.find (occurs_at t p) [i..<length t + 1] = Some k" for k
    using that by (auto simp: find_Some_iff simp del: upt_Suc)
  ultimately show ?thesis by (auto simp: first_match_def a split: option.split)
qed

lemma find_map: "List.find P (map f xs) = map_option f (List.find (P \<circ> f) xs)"
  by (induction xs) simp_all

lemma lmemfind_from: "i \<le> length t \<Longrightarrow> map_option ((+) i) (lmemfind (drop i t) p) = List.find (occurs_at t p) [i..<length t + 1]"
proof -
  assume i: "i \<le> length t"
  then have "[i..<length t + 1] = map ((+) i) [0..<length (drop i t) + 1]"
    by (intro nth_equalityI) (auto simp del: upt_Suc)
  moreover have "occurs_at t p \<circ> (+) i = occurs_at (drop i t) p" by (auto simp: occurs_at_def add.commute)
  ultimately show ?thesis by (simp add: lmemfind_first find_map del: upt_Suc)
qed

lemma plain_not_anchored: "\<forall>c\<in>set p. c \<notin> set SPECIALS \<and> c \<noteq> 0 \<and> c \<noteq> 41 \<Longrightarrow> c_str p = p \<and> \<not> anchored p"
  by (cases p) (auto simp: c_str_def anchored_def pat_at_def SPECIALS_def bytes_of_def of_char_def takeWhile_eq_all_conv)

lemma plain_search:
  assumes "isfind" "plain \<or> (\<forall>c\<in>set (c_str p). c \<notin> set SPECIALS)"
  shows "str_find_aux cap0 isfind t p init plain =
    Inr (case List.find (occurs_at t p) [start_at t init..<length t + 1] of
           None \<Rightarrow> [LNil]
         | Some k \<Rightarrow> [LNumber (cast_num (int k + 1)), LNumber (cast_num (int (k + length p)))])"
proof -
  let ?i = "posrelat init (length t) - 1"
  let ?j = "if ?i < 0 then 0 else if ?i > int (length t) then int (length t) else ?i"
  have i: "?j = int (start_at t init)" by (simp add: start_at_def Let_def)
  have "str_find_aux cap0 isfind t p init plain = (case lmemfind (drop (nat ?j) t) p of
        Some k \<Rightarrow> Inr [LNumber (cast_num (?j + int k + 1)), LNumber (cast_num (?j + int k + int (length p)))]
      | None \<Rightarrow> Inr [LNil])"
    unfolding str_find_aux_def Let_def using assms by simp
  then show ?thesis unfolding i using lmemfind_from [OF start_at_le, of t init p, symmetric]
    by (auto split: option.split simp: add.assoc)
qed

section \<open>Substitution\<close>

text \<open>The functions called for a replacement end.\<close>

definition calls_end :: "repl \<Rightarrow> bool" where
  "calls_end r \<longleftrightarrow> (case r of RFunction f \<Rightarrow> \<forall>vs. f vs \<noteq> Inl OutOfFuel | RTable f \<Rightarrow> \<forall>v. f v \<noteq> Inl OutOfFuel | _ \<Rightarrow> True)"

lemma yields_any: "yields (\<lambda>_. True) r \<longleftrightarrow> r \<noteq> Inl OutOfFuel"
  by (cases r) auto

lemma push_onecapture_yields: "yields (\<lambda>_. True) (push_onecapture ms i s e)"
  by (auto simp: push_onecapture_def split_beta Let_def)

lemma push_captures_yields: "yields (\<lambda>_. True) (push_captures ms se)"
proof -
  have "yields (\<lambda>_. True) (push_loop ms s e is)" for s e "is"
    by (induction "is") (auto intro!: yields_bnd [OF push_onecapture_yields] elim!: yields_bnd)
  then show ?thesis by (simp add: push_captures_def split_beta Let_def)
qed

lemma add_s_loop_yields: "yields (\<lambda>_. True) (add_s_loop num2str ms s e news b)"
proof (induction num2str ms s e news b rule: add_s_loop.induct)
  case (2 num2str ms s e c news b)
  show ?case unfolding add_s_loop.simps Let_def
    using 2 push_onecapture_yields [of ms "uint (pat_at news 0) - 49" s e]
    by (cases "push_onecapture ms (uint (pat_at news 0) - 49) s e") auto
qed simp

lemma add_value_yields: "calls_end r \<Longrightarrow> yields (\<lambda>_. True) (add_value num2str r ms b s e)"
proof (cases r)
  case (RFunction f)
  assume "calls_end r"
  then have "yields (\<lambda>_. True) (f vs)" for vs using RFunction by (simp add: calls_end_def yields_any)
  then show ?thesis using RFunction
    by (auto simp: add_value_def Let_def intro!: yields_bnd [OF push_captures_yields] yields_bnd [of _ "f _"] split: option.split)
next
  case (RTable f)
  assume "calls_end r"
  then have "yields (\<lambda>_. True) (f v)" for v using RTable by (simp add: calls_end_def yields_any)
  then show ?thesis using RTable
    by (auto simp: add_value_def Let_def intro!: yields_bnd [OF push_onecapture_yields] yields_bnd [of _ "f _"] split: option.split)
qed (auto simp: add_value_def add_s_def Let_def add_s_loop_yields)

text \<open>
  What the loop does from \<open>s\<close> with \<open>n\<close> substitutions done: it ends, does at most one substitution at
  each position left, and keeps a property \<open>I s b\<close> of the position and the buffer that its steps keep.
\<close>

lemma gsub_loop_yields:
  assumes r: "\<And>ms s e b. I s b \<Longrightarrow> src ms = t \<Longrightarrow> s \<le> e \<Longrightarrow> e \<le> length t \<Longrightarrow> yields (I e) (add_value num2str r ms b s e)"
    and c: "\<And>s b. I s b \<Longrightarrow> s < length t \<Longrightarrow> I (s + 1) (luaL_addchar b (t ! s))"
  shows "I s b \<Longrightarrow> src ms = t \<Longrightarrow> s \<le> length t \<Longrightarrow> length t < s + fuel \<Longrightarrow>
    yields (\<lambda>(s', n', b'). I s' b' \<and> s' \<le> length t \<and> n \<le> n' \<and> n' \<le> max n max_s \<and> n' \<le> n + int (length t) - int s + 1)
      (gsub_loop fuel num2str r max_s anch p ms s n b)"
proof (induction fuel arbitrary: ms s n b)
  case (Suc fuel)
  show ?case
  proof (cases "n < max_s")
    case True
    have again: "yields (\<lambda>(s', n', b'). I s' b' \<and> s' \<le> length t \<and> n \<le> n' \<and> n' \<le> max n max_s \<and> n' \<le> n + int (length t) - int s + 1)
        (if anch then Inr (s1, n1, b1) else gsub_loop fuel num2str r max_s anch p ms' s1 n1 b1)"
      if "I s1 b1" "src ms' = t" "s < s1" "s1 \<le> length t" "n \<le> n1" "n1 \<le> n + 1" for ms' s1 n1 b1
      using Suc.IH [of s1 b1 ms' n1] Suc.prems(4) that True by (auto elim!: yields_mono)
    have over: "yields (\<lambda>(s', n', b'). I s' b' \<and> s' \<le> length t \<and> n \<le> n' \<and> n' \<le> max n max_s \<and> n' \<le> n + int (length t) - int s + 1)
        (case (if (case e of Some e \<Rightarrow> e > s | None \<Rightarrow> False) then Some (the e, b1)
               else if s < length (src ms') then Some (s + 1, luaL_addchar b1 (src ms' ! s)) else None) of
           None \<Rightarrow> Inr (s, n1, b1)
         | Some (s, b) \<Rightarrow> if anch then Inr (s, n1, b) else gsub_loop fuel num2str r max_s anch p ms' s n1 b)"
      if "match_in (ms\<lparr>mlevel := 0\<rparr>) s (e, ms')" "I (case e of Some e \<Rightarrow> e | None \<Rightarrow> s) b1" "n \<le> n1" "n1 \<le> n + 1" for e ms' b1 n1
    proof -
      have t: "src ms' = t" "\<And>k. e = Some k \<Longrightarrow> s \<le> k \<and> k \<le> length t" using that(1) Suc.prems(2) by (auto simp: match_in_def)
      show ?thesis
      proof (cases "case e of Some e \<Rightarrow> e > s | None \<Rightarrow> False")
        case True
        then obtain k where "e = Some k" "s < k" by (auto split: option.splits)
        then show ?thesis using again [of k b1 ms' n1] t that(2-4) by auto
      next
        case False
        then have "I s b1" using t(2) that(2) by (cases e) auto
        then show ?thesis unfolding if_not_P [OF False] t(1)
          using again [of "s + 1" "luaL_addchar b1 (t ! s)" ms' n1] c [of s b1] t(1) that(3,4) Suc.prems(3) True \<open>n < max_s\<close>
          by auto
      qed
    qed
    have add: "yields (\<lambda>(n1, b1). I (case e of Some e \<Rightarrow> e | None \<Rightarrow> s) b1 \<and> n \<le> n1 \<and> n1 \<le> n + 1)
        (case e of None \<Rightarrow> Inr (n, b) | Some e \<Rightarrow> bnd (add_value num2str r ms' b s e) (\<lambda>b. Inr (n + 1, b)))"
      if "match_in (ms\<lparr>mlevel := 0\<rparr>) s (e, ms')" for e ms'
      using r [OF Suc.prems(1), of ms'] that Suc.prems(1,2)
      by (cases e) (auto simp: match_in_def intro!: yields_bnd)
    have l: "yields (match_in (ms\<lparr>mlevel := 0\<rparr>) s) (lmatch (ms\<lparr>mlevel := 0\<rparr>) s p)"
      using lmatch_yields [of s "ms\<lparr>mlevel := 0\<rparr>" p] Suc.prems(2,3) by simp
    show ?thesis
      unfolding gsub_loop.simps if_P [OF True]
      by (rule yields_bnd [OF l]) (auto intro!: yields_bnd [OF add] over)
  next
    case False
    then show ?thesis using Suc.prems by simp
  qed
qed simp

text \<open>Replacements that put the match back: \<open>%0\<close>, or a function or table whose values are false.\<close>

definition keeps_match :: "repl \<Rightarrow> bool" where
  "keeps_match r \<longleftrightarrow> (case r of
     RString news \<Rightarrow> news = [37, 48]
   | RFunction f \<Rightarrow> \<forall>vs v. f vs = Inr v \<longrightarrow> l_isfalse v
   | RTable f \<Rightarrow> \<forall>k v. f k = Inr v \<longrightarrow> l_isfalse v
   | ROther \<Rightarrow> True)"

lemma push_addvalue_ok:
  "buffer_ok b \<Longrightarrow> buffer_ok (push_addvalue b v) \<and> buffer_content (push_addvalue b v) = buffer_content b @ v
    \<and> below_buffer (push_addvalue b v) = below_buffer b"
  unfolding push_addvalue_def using addvalue_ok [where B = "b\<lparr>bstack := v # bstack b\<rparr>" and st = "bstack b" and s = v] by simp

text \<open>The buffer holds the subject up to \<open>s\<close>.\<close>

definition copied :: "byte list list \<Rightarrow> byte list \<Rightarrow> nat \<Rightarrow> luaL_Buffer \<Rightarrow> bool" where
  "copied st t s b \<longleftrightarrow> buffer_ok b \<and> below_buffer b = st \<and> buffer_content b = take s t"

lemma copied_char: "copied st t s b \<Longrightarrow> s < length t \<Longrightarrow> copied st t (s + 1) (luaL_addchar b (t ! s))"
  using addchar_ok [of b "t ! s"] by (simp add: copied_def take_Suc_conv_app_nth)

lemma copied_part:
  assumes "copied st t s b" "s \<le> e"
  shows "copied st t e (luaL_addlstring b (take (e - s) (drop s t)))" "copied st t e (push_addvalue b (take (e - s) (drop s t)))"
proof -
  have "take s t @ take (e - s) (drop s t) = take e t" using assms(2) take_add [of s "e - s" t] by simp
  then show "copied st t e (luaL_addlstring b (take (e - s) (drop s t)))" "copied st t e (push_addvalue b (take (e - s) (drop s t)))"
    using assms(1) addlstring_ok [of b "take (e - s) (drop s t)"] push_addvalue_ok [of b "take (e - s) (drop s t)"]
    by (simp_all add: copied_def)
qed

lemma add_value_copies:
  assumes k: "keeps_match r" "calls_end r" and b: "copied st t s b" and t: "src ms = t" "s \<le> e"
  shows "yields (copied st t e) (add_value num2str r ms b s e)"
proof (cases r)
  case (RString news)
  then have "add_value num2str r ms b s e = Inr (luaL_addlstring b (take (e - s) (drop s t)))"
    using k(1) t(1) by (simp add: add_value_def add_s_def keeps_match_def pat_at_def L_ESC_def isdigit_def)
  then show ?thesis using copied_part [OF b t(2)] by simp
next
  case (RFunction f)
  have "yields (\<lambda>v. l_isfalse v) (f vs)" for vs
    using k RFunction by (cases "f vs") (auto simp: keeps_match_def calls_end_def)
  then show ?thesis using RFunction copied_part [OF b t(2)] t(1)
    by (auto simp: add_value_def Let_def intro!: yields_bnd [OF push_captures_yields] yields_bnd [of _ "f _"])
next
  case (RTable f)
  have "yields (\<lambda>v. l_isfalse v) (f v)" for v
    using k RTable by (cases "f v") (auto simp: keeps_match_def calls_end_def)
  then show ?thesis using RTable copied_part [OF b t(2)] t(1)
    by (auto simp: add_value_def Let_def intro!: yields_bnd [OF push_onecapture_yields] yields_bnd [of _ "f _"])
qed (simp add: add_value_def)

lemma gsub_copies:
  assumes "keeps_match r" "calls_end r"
  shows "yields (\<lambda>(b, n). bstack b = t # st) (str_gsub cap0 num2str st t p r max_s)"
proof -
  have "copied st t 0 (luaL_buffinit st)" using buffinit_ok [of st] by (simp add: copied_def)
  then have y: "yields (\<lambda>(s', n', b'). copied st t s' b' \<and> s' \<le> length t)
      (gsub_loop (length t + 2) num2str r max_s anch q \<lparr>src = t, mlevel = 0, capture = cap0\<rparr> 0 0 (luaL_buffinit st))" for anch q
    using add_value_copies [OF assms] copied_char
    by (intro yields_mono [OF gsub_loop_yields [where I = "copied st t"]]) auto
  have "bstack (luaL_pushresult (luaL_addlstring b (drop s t))) = t # st" if "copied st t s b" for s b
    using addlstring_ok [of b "drop s t"] that pushresult_ok by (simp add: copied_def)
  then show ?thesis unfolding str_gsub_def Let_def by (intro yields_bnd [OF y]) auto
qed

lemma gsub_bounds:
  assumes "calls_end r"
  shows "yields (\<lambda>(b, n). \<exists>k. n = LNumber (cast_num k) \<and> 0 \<le> k \<and> k \<le> max 0 max_s \<and> k \<le> int (length t) + 1)
    (str_gsub cap0 num2str st t p r max_s)"
proof -
  have y: "yields (\<lambda>(s', n', b'). 0 \<le> n' \<and> n' \<le> max 0 max_s \<and> n' \<le> int (length t) + 1)
      (gsub_loop (length t + 2) num2str r max_s anch q \<lparr>src = t, mlevel = 0, capture = cap0\<rparr> 0 0 (luaL_buffinit st))" for anch q
    using add_value_yields [OF assms]
    by (intro yields_mono [OF gsub_loop_yields [where I = "\<lambda>_ _. True"]]) auto
  then show ?thesis unfolding str_gsub_def Let_def by (intro yields_bnd [OF y]) auto
qed

section \<open>Properties\<close>

text \<open>
  C11: The matcher (\<open>match\<close> and the functions it calls back and forth) ends, and returns the preferred one of
  the ways to match, with the captures of that way, or fails with the captures it was given as they were.
\<close>

theorem match_is_search:
  assumes "holds_caps ms cs" and "s \<le> length (src ms)"
  shows "lmatch ms s p \<noteq> Inl OutOfFuel \<and> first_of (src ms) cs (alts (src ms) cs s p) (lmatch ms s p)"
  using lmatch_first [OF assms(1)] lmatch_yields [OF assms(2), of p] by auto

lemma match_is_search_witness:
  "lmatch \<lparr>src = bytes_of ''aab'', mlevel = 0, capture = replicate 32 (0, 0)\<rparr> 0 (bytes_of ''(a-)ab'') \<noteq> Inl OutOfFuel
   \<and> first_of (bytes_of ''aab'') [] [Inr (3, [(0, 1)])]
       (lmatch \<lparr>src = bytes_of ''aab'', mlevel = 0, capture = replicate 32 (0, 0)\<rparr> 0 (bytes_of ''(a-)ab''))"
proof -
  have "alts (bytes_of ''aab'') [] 0 (bytes_of ''(a-)ab'') = [Inr (3, [(0, 1)])]" by code_simp
  then show ?thesis
    using match_is_search [of "\<lparr>src = bytes_of ''aab'', mlevel = 0, capture = replicate 32 (0, 0)\<rparr>" "[]" 0 "bytes_of ''(a-)ab''"]
    by (simp add: holds_caps_def LUA_MAXCAPTURES_def)
qed

text \<open>
  C12: \<open>str_match\<close>, \<open>str_find\<close> with a pattern and the iterator of \<open>gmatch\<close> return the match at the leftmost
  position at which there is a way to match, and there the preferred way; what the array of captures
  held before does not matter.
\<close>

theorem finds_leftmost:
  assumes "length cap0 = nat LUA_MAXCAPTURES"
  shows "str_match cap0 t p init = bnd (pattern_match t p init) (found_values t)
    \<and> ((\<exists>c\<in>set (c_str p). c \<in> set SPECIALS) \<longrightarrow>
        str_find cap0 t p init False = bnd (pattern_match t p init) (found_place t))
    \<and> (pos \<le> length t \<longrightarrow> gmatch_aux cap0 t p pos =
        bnd (first_match t (c_str p) (places False t pos)) (\<lambda>m. case m of
          None \<Rightarrow> Inr None
        | Some (k, e, cs) \<Rightarrow> bnd (match_values t (k, e, cs)) (\<lambda>vs. Inr (Some (if e = k then e + 1 else e, vs)))))"
  using find_aux_search [OF assms, of False False] find_aux_search [OF assms, of True False p] gmatch_aux_search [OF assms]
  by (auto simp: str_match_def str_find_def)

lemma finds_leftmost_witness:
  "str_match (replicate 32 (0, 0)) (bytes_of ''say hello'') (bytes_of ''(l+)(o?)'') (- 6) = Inr [LString (bytes_of ''ll''), LString (bytes_of ''o'')]
   \<and> str_find (replicate 32 (0, 0)) (bytes_of ''say hello'') (bytes_of ''l+'') 1 False =
      bnd (pattern_match (bytes_of ''say hello'') (bytes_of ''l+'') 1) (found_place (bytes_of ''say hello''))
   \<and> gmatch_aux (replicate 32 (0, 0)) (bytes_of ''aab'') (bytes_of ''a*'') 0 = Inr (Some (2, [LString (bytes_of ''aa'')]))"
proof -
  have c: "length (replicate 32 (0 :: nat, 0 :: int)) = nat LUA_MAXCAPTURES" by (simp add: LUA_MAXCAPTURES_def)
  have "\<exists>c\<in>set (c_str (bytes_of ''l+'')). c \<in> set SPECIALS" by code_simp
  moreover have "bnd (pattern_match (bytes_of ''say hello'') (bytes_of ''(l+)(o?)'') (- 6)) (found_values (bytes_of ''say hello''))
      = Inr [LString (bytes_of ''ll''), LString (bytes_of ''o'')]" by code_simp
  moreover have "bnd (first_match (bytes_of ''aab'') (c_str (bytes_of ''a*'')) (places False (bytes_of ''aab'') 0)) (\<lambda>m. case m of
        None \<Rightarrow> Inr None
      | Some (k, e, cs) \<Rightarrow> bnd (match_values (bytes_of ''aab'') (k, e, cs)) (\<lambda>vs. Inr (Some (if e = k then e + 1 else e, vs))))
      = Inr (Some (2, [LString (bytes_of ''aa'')]))" by code_simp
  moreover have "(0 :: nat) \<le> length (bytes_of ''aab'')" by simp
  ultimately show ?thesis
    using finds_leftmost [OF c, of "bytes_of ''say hello''" "bytes_of ''(l+)(o?)''" "- 6" 0]
      finds_leftmost [OF c, of "bytes_of ''say hello''" "bytes_of ''l+''" 1 0]
      finds_leftmost [OF c, of "bytes_of ''aab''" "bytes_of ''a*''" 1 0] by simp
qed

text \<open>
  C37: The shortcut of \<open>str_find\<close> is sound: for a pattern without special characters the plain search with
  \<open>lmemfind\<close> returns what matching the pattern would. (A closing parenthesis counts as special here;
  \<open>SPECIALS\<close> leaves it out.)
\<close>

theorem plain_shortcut:
  assumes "\<forall>c\<in>set p. c \<notin> set SPECIALS \<and> c \<noteq> 0 \<and> c \<noteq> 41"
  shows "str_find cap0 t p init plain = bnd (pattern_match t p init) (found_place t)"
proof -
  have p: "c_str p = p" "\<not> anchored p" using plain_not_anchored [OF assms] by simp_all
  have "pattern_match t p init =
      Inr (case List.find (occurs_at t p) [start_at t init..<length t + 1] of None \<Rightarrow> None | Some k \<Rightarrow> Some (k, k + length p, []))"
    using plain_first_match [OF assms] p by (simp add: pattern_match_def unanchored_def places_def del: upt_Suc)
  moreover have "plain \<or> (\<forall>c\<in>set (c_str p). c \<notin> set SPECIALS)" using assms p by simp
  ultimately show ?thesis
    using plain_search [where isfind = True and plain = plain and p = p and t = t and init = init] by (simp add: str_find_def found_place_def split: option.split)
qed

lemma plain_shortcut_witness:
  "str_find [] (bytes_of ''hello'') (bytes_of ''ll'') 1 False =
    bnd (pattern_match (bytes_of ''hello'') (bytes_of ''ll'') 1) (found_place (bytes_of ''hello''))
   \<and> pattern_match (bytes_of ''hello'') (bytes_of ''ll'') 1 = Inr (Some (2, 4, []))"
proof -
  have "\<forall>c\<in>set (bytes_of ''ll''). c \<notin> set SPECIALS \<and> c \<noteq> 0 \<and> c \<noteq> 41" by code_simp
  moreover have "pattern_match (bytes_of ''hello'') (bytes_of ''ll'') 1 = Inr (Some (2, 4, []))" by code_simp
  ultimately show ?thesis using plain_shortcut by simp
qed

text \<open>
  C13: \<open>str_gsub\<close> ends whatever the pattern, does at most \<open>max_s\<close> substitutions and at most one at each
  position of the subject, and with a replacement that puts each match back its result is the subject.
\<close>

theorem gsub_ends:
  assumes "calls_end r"
  shows "yields (\<lambda>(b, n). (\<exists>k. n = LNumber (cast_num k) \<and> 0 \<le> k \<and> k \<le> max 0 max_s \<and> k \<le> int (length t) + 1)
      \<and> (keeps_match r \<longrightarrow> bstack b = t # st)) (str_gsub cap0 num2str st t p r max_s)"
  using gsub_bounds [OF assms, where t = t and st = st and max_s = max_s and ?cap0.0 = cap0 and num2str = num2str and p = p]
    gsub_copies [OF _ assms, where t = t and st = st and max_s = max_s and ?cap0.0 = cap0 and num2str = num2str and p = p]
  by (cases "str_gsub cap0 num2str st t p r max_s") auto

lemma gsub_ends_witness:
  "yields (\<lambda>(b, n). (\<exists>k. n = LNumber (cast_num k) \<and> 0 \<le> k \<and> k \<le> 9 \<and> k \<le> 4) \<and> bstack b = [bytes_of ''abc''])
    (str_gsub (replicate 32 (0, 0)) (\<lambda>_. []) [] (bytes_of ''abc'') (bytes_of ''b*'') (RString (bytes_of ''%0'')) 9)"
proof -
  have "calls_end (RString (bytes_of ''%0''))" "keeps_match (RString (bytes_of ''%0''))"
    by (simp_all add: calls_end_def keeps_match_def bytes_of_def of_char_def)
  from gsub_ends [OF this(1), of 9 "bytes_of ''abc''" "[]" "replicate 32 (0, 0)" "\<lambda>_. []" "bytes_of ''b*''"] this(2)
  show ?thesis by (auto elim!: yields_mono)
qed

section \<open>Negative positions\<close>

text \<open>
  The test of \<open>pose\<close> in \<open>str_byte\<close> is unsigned: an end before the first character becomes the end of the
  string, where \<open>str_sub\<close> with the same positions is empty.
\<close>

lemma str_byte_wraps:
  "int (length s) < 2 ^ 31 \<Longrightarrow> - (2 ^ 31) \<le> j \<Longrightarrow> j < - int (length s) - 1 \<Longrightarrow>
    str_byte s 1 j = Inr (map (\<lambda>c. LNumber (cast_num (uint c))) s) \<and> str_sub s 1 j = []"
proof -
  assume len: "int (length s) < 2 ^ 31" and j: "- (2 ^ 31) \<le> j" "j < - int (length s) - 1"
  let ?e = "int (length s) + j + 1"
  have "uint (c_uint x) = x + 2 ^ 32" if "- (2 ^ 32) \<le> x" "x < 0" for x
  proof -
    have "x mod 2 ^ 32 = (x + 2 ^ 32) mod 2 ^ 32" by (simp only: mod_add_self2)
    also have "\<dots> = x + 2 ^ 32" using that by (intro mod_pos_pos_trivial) simp_all
    finally show ?thesis by (simp add: c_uint_def uint_word_of_int take_bit_eq_mod)
  qed
  then have "uint (c_uint ?e) = ?e + 2 ^ 32" using j by simp
  then have w: "uint (c_uint ?e) > int (length s)" using len j by simp
  have "posrelat 1 (length s) = 1" "posrelat j (length s) = ?e" using j by (simp_all add: posrelat_def)
  with w j show ?thesis by (auto simp: str_byte_def str_sub_def Let_def)
qed

end
