(* ===== verification/VMCompare.thy ===== *)
theory VMCompare
  imports StrMatch
begin

text \<open>
  Comparison in the virtual machine (\<open>lvm.c\<close>, with \<open>luaG_ordererror\<close> of \<open>ldebug.c\<close>). What the objects
  of the program do is a parameter: \<open>tm\<close> is the metamethod of a value for an event
  (\<open>luaT_gettmbyobj\<close>), \<open>call\<close> the call of a metamethod with two arguments (\<open>callTMres\<close>), and \<open>strcoll\<close> the
  comparison of zero-terminated strings in the locale of the host.
\<close>

datatype TMS = TM_INDEX | TM_NEWINDEX | TM_GC | TM_MODE | TM_EQ | TM_ADD | TM_SUB | TM_MUL | TM_DIV | TM_MOD
  | TM_POW | TM_UNM | TM_LEN | TM_LT | TM_LE | TM_CONCAT | TM_CALL

type_synonym metamethods = "TValue \<Rightarrow> TMS \<Rightarrow> TValue"
type_synonym caller = "TValue \<Rightarrow> TValue \<Rightarrow> TValue \<Rightarrow> TValue result"
type_synonym collation = "byte list \<Rightarrow> byte list \<Rightarrow> int"

definition luaG_ordererror :: "TValue \<Rightarrow> TValue \<Rightarrow> bool result" where
  "luaG_ordererror p1 p2 =
     (let t1 = luaT_typenames ! nat (ttype p1); t2 = luaT_typenames ! nat (ttype p2)
      in if t1 ! 2 = t2 ! 2 then Inl (ErrRun (''attempt to compare two '' @ t1 @ '' values''))
         else Inl (ErrRun (''attempt to compare '' @ t1 @ '' with '' @ t2)))"

text \<open>\<open>None\<close> is the result -1.\<close>

definition call_orderTM :: "metamethods \<Rightarrow> caller \<Rightarrow> TValue \<Rightarrow> TValue \<Rightarrow> TMS \<Rightarrow> bool option result" where
  "call_orderTM tm call p1 p2 event =
     (let tm1 = tm p1 event; tm2 = tm p2 event
      in if ttisnil tm1 then Inr None
         else if \<not> luaO_rawequalObj tm1 tm2 then Inr None
         else bnd (call tm1 p1 p2) (\<lambda>v. Inr (Some (\<not> l_isfalse v))))"

text \<open>
  A string goes on after each of its zeros. \<open>strlen\<close> stops at the zero after the last byte at the latest,
  so that \<open>len\<close> is at most the length of both.
\<close>

function l_strcmp :: "collation \<Rightarrow> byte list \<Rightarrow> byte list \<Rightarrow> int" where
  "l_strcmp strcoll l r =
     (let temp = strcoll (c_str l) (c_str r)
      in if temp \<noteq> 0 then temp
         else let len = length (c_str l)
              in if len = length r then if len = length l then 0 else 1
                 else if len = length l then - 1
                 else l_strcmp strcoll (drop (len + 1) l) (drop (len + 1) r))"
  by pat_completeness auto
termination
proof (relation "measure (\<lambda>(strcoll, l, r). length l)")
  fix strcoll :: collation and l r :: "byte list" and temp len
  assume "len = length (c_str l)" "len \<noteq> length l"
  then have "len < length l" using length_c_str [of l] by simp
  then show "((strcoll, drop (len + 1) l, drop (len + 1) r), strcoll, l, r) \<in> measure (\<lambda>(strcoll, l, r). length l)"
    by simp
qed simp

declare l_strcmp.simps [simp del]

definition luaV_lessthan :: "metamethods \<Rightarrow> caller \<Rightarrow> collation \<Rightarrow> TValue \<Rightarrow> TValue \<Rightarrow> bool result" where
  "luaV_lessthan tm call strcoll l r =
     (if ttype l \<noteq> ttype r then luaG_ordererror l r
      else case (l, r) of
             (LNumber a, LNumber b) \<Rightarrow> Inr (luai_numlt a b)
           | (LString a, LString b) \<Rightarrow> Inr (l_strcmp strcoll a b < 0)
           | _ \<Rightarrow> bnd (call_orderTM tm call l r TM_LT) (\<lambda>res.
                  case res of Some b \<Rightarrow> Inr b | None \<Rightarrow> luaG_ordererror l r))"

definition lessequal :: "metamethods \<Rightarrow> caller \<Rightarrow> collation \<Rightarrow> TValue \<Rightarrow> TValue \<Rightarrow> bool result" where
  "lessequal tm call strcoll l r =
     (if ttype l \<noteq> ttype r then luaG_ordererror l r
      else case (l, r) of
             (LNumber a, LNumber b) \<Rightarrow> Inr (luai_numle a b)
           | (LString a, LString b) \<Rightarrow> Inr (l_strcmp strcoll a b \<le> 0)
           | _ \<Rightarrow> bnd (call_orderTM tm call l r TM_LE) (\<lambda>res.
                  case res of
                    Some b \<Rightarrow> Inr b
                  | None \<Rightarrow> bnd (call_orderTM tm call r l TM_LT) (\<lambda>res.
                      case res of Some b \<Rightarrow> Inr (\<not> b) | None \<Rightarrow> luaG_ordererror l r)))"

end
