(* ===== verification/TabLib.thy ===== *)
theory TabLib
  imports VMCompare TableScan
begin

text \<open>
  The table library (\<open>ltablib.c\<close>) over the table that is the first argument, with the raw access of
  \<open>lapi.c\<close> to integer keys. The functions a program passes are parameters that give a result or raise an
  error; they do not change the table meanwhile.
\<close>

section \<open>Access by integer keys\<close>

definition lua_rawgeti :: "Table \<Rightarrow> int \<Rightarrow> TValue result" where
  "lua_rawgeti t n = bnd (luaH_getnum t n) (\<lambda>p. Inr (case p of None \<Rightarrow> LNil | Some s \<Rightarrow> slot_value t s))"

definition lua_rawseti :: "Table \<Rightarrow> int \<Rightarrow> TValue \<Rightarrow> Table result" where
  "lua_rawseti t n v = bnd (luaH_setnum t n) (\<lambda>(s, t). Inr (set_slot t s v))"

section \<open>Iteration\<close>

text \<open>A call that returns a value that is not nil ends the iteration with it.\<close>

fun foreachi_loop :: "(int \<Rightarrow> TValue \<Rightarrow> TValue result) \<Rightarrow> Table \<Rightarrow> int list \<Rightarrow> TValue option result" where
  "foreachi_loop f t [] = Inr None"
| "foreachi_loop f t (i # is) =
     bnd (lua_rawgeti t i) (\<lambda>v. bnd (f i v) (\<lambda>r. if \<not> ttisnil r then Inr (Some r) else foreachi_loop f t is))"

definition foreachi :: "(int \<Rightarrow> TValue \<Rightarrow> TValue result) \<Rightarrow> Table \<Rightarrow> TValue option result" where
  "foreachi f t = bnd (luaH_getn t) (\<lambda>n. foreachi_loop f t [1..n])"

text \<open>A traversal has at most one round for each slot of the table; \<open>gca\<close> is the parameter of \<open>luaH_next\<close>.\<close>

definition slots :: "Table \<Rightarrow> nat" where
  "slots t = length (tarray t) + length (tnode t)"

fun foreach_loop :: "nat \<Rightarrow> (TValue \<Rightarrow> addr) \<Rightarrow> (TValue \<Rightarrow> TValue \<Rightarrow> TValue result) \<Rightarrow> Table \<Rightarrow> TValue \<Rightarrow> TValue option result" where
  "foreach_loop 0 gca f t k = Inl OutOfFuel"
| "foreach_loop (Suc n) gca f t k =
     bnd (luaH_next gca t k) (\<lambda>more.
     case more of
       None \<Rightarrow> Inr None
     | Some (k, v) \<Rightarrow> bnd (f k v) (\<lambda>r. if \<not> ttisnil r then Inr (Some r) else foreach_loop n gca f t k))"

definition foreach :: "(TValue \<Rightarrow> addr) \<Rightarrow> (TValue \<Rightarrow> TValue \<Rightarrow> TValue result) \<Rightarrow> Table \<Rightarrow> TValue option result" where
  "foreach gca f t = foreach_loop (slots t + 1) gca f t LNil"

fun maxn_loop :: "nat \<Rightarrow> (TValue \<Rightarrow> addr) \<Rightarrow> Table \<Rightarrow> TValue \<Rightarrow> lua_Number \<Rightarrow> lua_Number result" where
  "maxn_loop 0 gca t k m = Inl OutOfFuel"
| "maxn_loop (Suc n) gca t k m =
     bnd (luaH_next gca t k) (\<lambda>more.
     case more of
       None \<Rightarrow> Inr m
     | Some (k, _) \<Rightarrow> maxn_loop n gca t k (case k of LNumber v \<Rightarrow> if luai_numlt m v then v else m | _ \<Rightarrow> m))"

definition maxn :: "(TValue \<Rightarrow> addr) \<Rightarrow> Table \<Rightarrow> lua_Number result" where
  "maxn gca t = maxn_loop (slots t + 1) gca t LNil (cast_num 0)"

definition getn :: "Table \<Rightarrow> TValue result" where
  "getn t = bnd (luaH_getn t) (\<lambda>n. Inr (LNumber (cast_num n)))"

section \<open>Insertion, removal, concatenation\<close>

text \<open>\<open>t[i] = t[i - 1]\<close> for the \<open>i\<close> of the list.\<close>

fun move_up :: "Table \<Rightarrow> int list \<Rightarrow> Table result" where
  "move_up t [] = Inr t"
| "move_up t (i # is) = bnd (lua_rawgeti t (i - 1)) (\<lambda>v. bnd (lua_rawseti t i v) (\<lambda>t. move_up t is))"

text \<open>\<open>pos\<close> is the second of three arguments.\<close>

definition tinsert :: "Table \<Rightarrow> int option \<Rightarrow> TValue \<Rightarrow> Table result" where
  "tinsert t pos v =
     bnd (luaH_getn t) (\<lambda>n.
     let e = n + 1
     in case pos of
          None \<Rightarrow> lua_rawseti t e v
        | Some pos \<Rightarrow>
            let e = (if pos > e then pos else e)
            in bnd (move_up t (rev [pos + 1..e])) (\<lambda>t. lua_rawseti t pos v))"

text \<open>\<open>t[pos] = t[pos + 1]\<close> for the positions of the list.\<close>

fun move_down :: "Table \<Rightarrow> int list \<Rightarrow> Table result" where
  "move_down t [] = Inr t"
| "move_down t (i # is) = bnd (lua_rawgeti t (i + 1)) (\<lambda>v. bnd (lua_rawseti t i v) (\<lambda>t. move_down t is))"

text \<open>The result, unless the table is empty, and the table.\<close>

definition tremove :: "Table \<Rightarrow> int option \<Rightarrow> (TValue option \<times> Table) result" where
  "tremove t pos =
     bnd (luaH_getn t) (\<lambda>e.
     let pos = (case pos of None \<Rightarrow> e | Some p \<Rightarrow> p)
     in if e = 0 then Inr (None, t)
        else bnd (lua_rawgeti t pos) (\<lambda>v.
             bnd (move_down t [pos..e - 1]) (\<lambda>t.
             bnd (lua_rawseti t e LNil) (\<lambda>t. Inr (Some v, t)))))"

fun concat_loop :: "(lua_Number \<Rightarrow> byte list) \<Rightarrow> byte list \<Rightarrow> int \<Rightarrow> Table \<Rightarrow> int list \<Rightarrow> luaL_Buffer \<Rightarrow> luaL_Buffer result" where
  "concat_loop num2str sep lst t [] b = Inr b"
| "concat_loop num2str sep lst t (i # is) b =
     bnd (lua_rawgeti t i) (\<lambda>v.
     case lua_tostr num2str v of
       None \<Rightarrow> Inl (ErrRun ''table contains non-strings'')
     | Some s \<Rightarrow>
         let b = push_addvalue b s; b = (if i \<noteq> lst then luaL_addlstring b sep else b)
         in concat_loop num2str sep lst t is b)"

definition tconcat ::
  "(lua_Number \<Rightarrow> byte list) \<Rightarrow> byte list list \<Rightarrow> Table \<Rightarrow> byte list \<Rightarrow> int \<Rightarrow> int option \<Rightarrow> luaL_Buffer result" where
  "tconcat num2str st t sep i lst =
     bnd (case lst of None \<Rightarrow> luaH_getn t | Some l \<Rightarrow> Inr l) (\<lambda>lst.
     bnd (concat_loop num2str sep lst t [i..lst] (luaL_buffinit st)) (\<lambda>b. Inr (luaL_pushresult b)))"

section \<open>Sorting\<close>

text \<open>\<open>set2\<close> with \<open>a\<close> on top of the stack and \<open>b\<close> below it.\<close>

definition set2 :: "Table \<Rightarrow> int \<Rightarrow> int \<Rightarrow> TValue \<Rightarrow> TValue \<Rightarrow> Table result" where
  "set2 t i j a b = bnd (lua_rawseti t i a) (\<lambda>t. lua_rawseti t j b)"

type_synonym comparison = "TValue \<Rightarrow> TValue \<Rightarrow> bool result"

text \<open>\<open>f\<close> is the function passed to \<open>sort\<close>, if any.\<close>

definition sort_comp :: "metamethods \<Rightarrow> caller \<Rightarrow> collation \<Rightarrow> (TValue \<Rightarrow> TValue \<Rightarrow> TValue result) option \<Rightarrow> comparison" where
  "sort_comp tm call strcoll f a b =
     (case f of
        Some f \<Rightarrow> bnd (f a b) (\<lambda>v. Inr (\<not> l_isfalse v))
      | None \<Rightarrow> luaV_lessthan tm call strcoll a b)"

text \<open>
  The loops over \<open>i\<close> and \<open>j\<close>: the index reached and its element. \<open>P\<close> is the pivot.
\<close>

function up_loop :: "comparison \<Rightarrow> Table \<Rightarrow> int \<Rightarrow> TValue \<Rightarrow> int \<Rightarrow> (int \<times> TValue) result" where
  "up_loop cmp t u P i =
     (let i = i + 1
      in bnd (lua_rawgeti t i) (\<lambda>v.
         bnd (cmp v P) (\<lambda>less.
         if less
         then if i > u then Inl (ErrRun ''invalid order function for sorting'') else up_loop cmp t u P i
         else Inr (i, v))))"
  by pat_completeness auto
termination by (relation "measure (\<lambda>(cmp, t, u, P, i). nat (u + 1 - i))") auto

function down_loop :: "comparison \<Rightarrow> Table \<Rightarrow> int \<Rightarrow> TValue \<Rightarrow> int \<Rightarrow> (int \<times> TValue) result" where
  "down_loop cmp t l P j =
     (let j = j - 1
      in bnd (lua_rawgeti t j) (\<lambda>v.
         bnd (cmp P v) (\<lambda>less.
         if less
         then if j < l then Inl (ErrRun ''invalid order function for sorting'') else down_loop cmp t l P j
         else Inr (j, v))))"
  by pat_completeness auto
termination by (relation "measure (\<lambda>(cmp, t, l, P, j). nat (j - l + 1))") auto

declare up_loop.simps [simp del] down_loop.simps [simp del]

text \<open>The partition: one round for each exchange; the index at which the pivot goes.\<close>

fun partition_loop :: "nat \<Rightarrow> comparison \<Rightarrow> int \<Rightarrow> int \<Rightarrow> TValue \<Rightarrow> Table \<Rightarrow> int \<Rightarrow> int \<Rightarrow> (int \<times> Table) result" where
  "partition_loop 0 cmp l u P t i j = Inl OutOfFuel"
| "partition_loop (Suc n) cmp l u P t i j =
     bnd (up_loop cmp t u P i) (\<lambda>(i, a).
     bnd (down_loop cmp t l P j) (\<lambda>(j, b).
     if j < i then Inr (i, t)
     else bnd (set2 t i j b a) (\<lambda>t. partition_loop n cmp l u P t i j)))"

text \<open>
  The exchanges before the partition, of the first, the middle and the last element; \<open>None\<close> for the index
  of the pivot when they are all there is.
\<close>

definition sort_ends :: "comparison \<Rightarrow> Table \<Rightarrow> int \<Rightarrow> int \<Rightarrow> Table result" where
  "sort_ends cmp t l u =
     bnd (lua_rawgeti t l) (\<lambda>a. bnd (lua_rawgeti t u) (\<lambda>b.
     bnd (cmp b a) (\<lambda>less. if less then set2 t l u b a else Inr t)))"

definition sort_middle :: "comparison \<Rightarrow> Table \<Rightarrow> int \<Rightarrow> int \<Rightarrow> int \<Rightarrow> Table result" where
  "sort_middle cmp t l i u =
     bnd (lua_rawgeti t i) (\<lambda>b. bnd (lua_rawgeti t l) (\<lambda>a.
     bnd (cmp b a) (\<lambda>less.
     if less then set2 t i l a b
     else bnd (lua_rawgeti t u) (\<lambda>c.
          bnd (cmp c b) (\<lambda>less. if less then set2 t i u c b else Inr t)))))"

definition swap_with :: "Table \<Rightarrow> int \<Rightarrow> int \<Rightarrow> Table result" where
  "swap_with t i j = bnd (lua_rawgeti t i) (\<lambda>a. bnd (lua_rawgeti t j) (\<lambda>b. set2 t i j b a))"

fun auxsort :: "nat \<Rightarrow> comparison \<Rightarrow> Table \<Rightarrow> int \<Rightarrow> int \<Rightarrow> Table result" where
  "auxsort 0 cmp t l u = Inl OutOfFuel"
| "auxsort (Suc n) cmp t l u =
     (if l < u
      then bnd (sort_ends cmp t l u) (\<lambda>t.
           if u - l = 1 then Inr t
           else let i = (l + u) div 2
                in bnd (sort_middle cmp t l i u) (\<lambda>t.
                   if u - l = 2 then Inr t
                   else bnd (lua_rawgeti t i) (\<lambda>P.
                        bnd (lua_rawgeti t (u - 1)) (\<lambda>b.
                        bnd (set2 t i (u - 1) b P) (\<lambda>t.
                        bnd (partition_loop (nat (u - l) + 2) cmp l u P t l (u - 1)) (\<lambda>(i, t).
                        bnd (swap_with t (u - 1) i) (\<lambda>t.
                        let (j, i, l, u) = (if i - l < u - i then (l, i - 1, i + 1, u) else (i + 1, u, l, i - 1))
                        in bnd (auxsort n cmp t j i) (\<lambda>t. auxsort n cmp t l u))))))))
      else Inr t)"

text \<open>Every level of the sort has fewer elements than the one above.\<close>

definition tsort :: "metamethods \<Rightarrow> caller \<Rightarrow> collation \<Rightarrow> (TValue \<Rightarrow> TValue \<Rightarrow> TValue result) option \<Rightarrow> Table \<Rightarrow> Table result" where
  "tsort tm call strcoll f t =
     bnd (luaH_getn t) (\<lambda>n. auxsort (nat n + 1) (sort_comp tm call strcoll f) t 1 n)"

end
