(* ===== verification/TabFacts.thy ===== *)
theory TabFacts
  imports TabLib StrFind
begin

text \<open>
  The raw access to integer keys as an indexed store, on which the table library works, and the facts
  on its functions that hold for every such store.
\<close>

section \<open>Indexed stores\<close>

text \<open>
  What the library relies on: a value can be stored at an index that holds one already, and that changes
  the value there and nothing else. \<open>rest\<close> is what is not under an index.
\<close>

locale indexed =
  fixes ok :: "'t \<Rightarrow> bool" and idx :: "int \<Rightarrow> bool" and at :: "'t \<Rightarrow> int \<Rightarrow> 'v" and nil :: 'v
    and put :: "'t \<Rightarrow> int \<Rightarrow> 'v \<Rightarrow> 't result" and rest :: "'t \<Rightarrow> 'r"
  assumes put_present: "ok t \<Longrightarrow> idx i \<Longrightarrow> at t i \<noteq> nil \<Longrightarrow>
    \<exists>t'. put t i v = Inr t' \<and> ok t' \<and> (\<forall>j. idx j \<longrightarrow> at t' j = (if j = i then v else at t j)) \<and> rest t' = rest t"
begin

lemma put_two:
  assumes "ok t" "idx i" "idx j" "at t i \<noteq> nil" "at t j \<noteq> nil" "a \<noteq> nil"
  shows "\<exists>t'. bnd (put t i a) (\<lambda>t. put t j b) = Inr t' \<and> ok t'
    \<and> (\<forall>k. idx k \<longrightarrow> at t' k = (if k = j then b else if k = i then a else at t k)) \<and> rest t' = rest t"
proof -
  obtain t1 where t1: "put t i a = Inr t1" "ok t1" "\<forall>k. idx k \<longrightarrow> at t1 k = (if k = i then a else at t k)" "rest t1 = rest t"
    using put_present [OF assms(1,2,4)] by blast
  then have "at t1 j \<noteq> nil" using assms(3,5,6) by simp
  from put_present [OF t1(2) assms(3) this, of b] obtain t2 where
    t2: "put t1 j b = Inr t2" "ok t2" "\<forall>k. idx k \<longrightarrow> at t2 k = (if k = j then b else at t1 k)" "rest t2 = rest t1"
    by blast
  with t1 show ?thesis by auto
qed

end

text \<open>The integers a key can be given as, and the contents under other keys.\<close>

definition int32 :: "int \<Rightarrow> bool" where
  "int32 i \<longleftrightarrow> - 2147483648 \<le> i \<and> i < 2147483648"

definition others :: "Table \<Rightarrow> TValue \<Rightarrow> TValue" where
  "others t k = (if \<exists>i. int32 i \<and> luaO_rawequalObj (LNumber (cast_num i)) k then LNil else raw_get t k)"

lemma rawequal_int: "int32 i \<Longrightarrow> int32 j \<Longrightarrow> luaO_rawequalObj (LNumber (cast_num i)) (LNumber (cast_num j)) \<longleftrightarrow> i = j"
  using numeq_cast_num [of i j] by (auto simp: rawequal_cases int32_def)

lemma rawgeti_num: "table_ok t \<Longrightarrow> int32 i \<Longrightarrow> lua_rawgeti t i = Inr (num_at t i)"
  by (simp add: lua_rawgeti_def int32_def luaH_getnum_eq num_at_def raw_get_slot)

text \<open>\<open>t'\<close> is \<open>t\<close> with \<open>v\<close> at \<open>i\<close>.\<close>

definition stored :: "Table \<Rightarrow> int \<Rightarrow> TValue \<Rightarrow> Table \<Rightarrow> bool" where
  "stored t i v t' \<longleftrightarrow> table_ok t' \<and> (\<forall>j. int32 j \<longrightarrow> num_at t' j = (if j = i then v else num_at t j)) \<and> others t' = others t"

lemma stored_intro:
  assumes "table_ok t'" "\<forall>k. raw_get t' k = (if luaO_rawequalObj (LNumber (cast_num i)) k then v else raw_get t k)" "int32 i"
  shows "stored t i v t'"
proof -
  have "others t' = others t" by (rule ext) (use assms(2,3) in \<open>auto simp: others_def\<close>)
  then show ?thesis unfolding stored_def num_at_def using assms rawequal_int [OF assms(3)] by auto
qed

lemma rawseti_any:
  assumes "table_ok t" "int32 i"
  shows "lua_rawseti t i v = Inl (ErrRun ''table overflow'') \<and> crowded t \<or> (\<exists>t'. lua_rawseti t i v = Inr t' \<and> stored t i v t')"
proof -
  have "luaH_setnum t i = Inl (ErrRun ''table overflow'') \<and> crowded t
      \<or> (\<exists>s t'. luaH_setnum t i = Inr (s, t') \<and> slot_found t (LNumber (cast_num i)) s t')"
    using setnum_with_any [OF assms(1), of i 0] assms(2) by (simp add: luaH_setnum_def int32_def del: newkey.simps)
  then show ?thesis
  proof (elim disjE exE conjE)
    fix s t' assume r: "luaH_setnum t i = Inr (s, t')" "slot_found t (LNumber (cast_num i)) s t'"
    from slot_found_store [OF r(2), of v] have "stored t i v (set_slot t' s v)"
      by (intro stored_intro [OF _ _ assms(2)]) (simp_all add: upd_def)
    with r(1) show ?thesis by (simp add: lua_rawseti_def)
  qed (simp add: lua_rawseti_def)
qed

lemma rawseti_present:
  assumes "table_ok t" "int32 i" "num_at t i \<noteq> LNil"
  shows "\<exists>t'. lua_rawseti t i v = Inr t' \<and> stored t i v t'"
proof -
  obtain s where s: "table_slot t (LNumber (cast_num i)) = Some s"
    using assms(3) by (auto simp: num_at_def raw_get_slot [OF assms(1)] split: option.splits)
  then have "luaH_setnum t i = Inr (s, t)"
    using assms by (simp add: luaH_setnum_def luaH_setnum_with_def luaH_getnum_eq int32_def)
  then have "lua_rawseti t i v \<noteq> Inl (ErrRun ''table overflow'')" by (simp add: lua_rawseti_def)
  with rawseti_any [OF assms(1,2), of v] show ?thesis by blast
qed

interpretation array: indexed table_ok int32 num_at LNil lua_rawseti others
proof
  fix t i v assume "table_ok t" "int32 i" "num_at t i \<noteq> LNil"
  from rawseti_present [OF this, of v] show "\<exists>t'. lua_rawseti t i v = Inr t' \<and> table_ok t'
      \<and> (\<forall>j. int32 j \<longrightarrow> num_at t' j = (if j = i then v else num_at t j)) \<and> others t' = others t"
    by (simp add: stored_def)
qed

section \<open>Sequences\<close>

text \<open>
  The table holds the list: its elements are under the indices from 1, and there is nothing under larger
  ones. No element is nil. Then its length is the only border.
\<close>

definition holds_list :: "Table \<Rightarrow> TValue list \<Rightarrow> bool" where
  "holds_list t xs \<longleftrightarrow> table_ok t \<and> LNil \<notin> set xs \<and> int (length xs) < 2147483646
    \<and> (\<forall>i. 1 \<le> i \<longrightarrow> int32 i \<longrightarrow> num_at t i = (if i \<le> int (length xs) then xs ! nat (i - 1) else LNil))"

lemma holds_list_nth: "holds_list t xs \<Longrightarrow> 1 \<le> i \<Longrightarrow> i \<le> int (length xs) \<Longrightarrow> num_at t i = xs ! nat (i - 1) \<and> xs ! nat (i - 1) \<noteq> LNil"
  by (auto simp: holds_list_def int32_def in_set_conv_nth)

lemma holds_list_length:
  assumes "holds_list t xs"
  shows "luaH_getn t = Inr (int (length xs))"
proof -
  have ok: "table_ok t" and len: "int (length xs) < 2147483646" using assms by (simp_all add: holds_list_def)
  have at: "1 \<le> i \<Longrightarrow> i < 2147483648 \<Longrightarrow> num_at t i = LNil \<longleftrightarrow> int (length xs) < i" for i
    using holds_list_nth [OF assms, of i] assms by (auto simp: holds_list_def int32_def)
  obtain n where n: "luaH_getn t = Inr n" "0 \<le> n" "n = 0 \<or> num_at t n \<noteq> LNil" "num_at t (n + 1) = LNil"
    using getn_finds_border [OF ok] by blast
  have lt: "n < 2147483648"
    using n(1) sint_lt [of "_ :: u32"] by (auto simp: luaH_getn_def bnd_eq_Inr c_int_def Let_def)
  then have "n \<le> int (length xs)" using n(2,3) at [of n] by fastforce
  moreover have "int (length xs) < n + 1" using at [of "n + 1"] n(2,4) len \<open>n \<le> int (length xs)\<close> by simp
  ultimately show ?thesis using n(1) by simp
qed

lemma holds_list_stored:
  assumes "holds_list t xs" "stored t i v t'" "1 \<le> i" "i \<le> int (length xs)" "v \<noteq> LNil"
  shows "holds_list t' (xs[nat (i - 1) := v])"
proof -
  have "LNil \<notin> set (xs[nat (i - 1) := v])"
    using assms(1,5) set_update_subset_insert [of xs "nat (i - 1)" v] by (auto simp: holds_list_def)
  moreover have "int32 i" using assms(1,3,4) by (auto simp: holds_list_def int32_def)
  ultimately show ?thesis using assms by (auto simp: holds_list_def stored_def nth_list_update)
qed

lemma holds_list_append:
  assumes "holds_list t xs" "stored t (int (length xs) + 1) v t'" "v \<noteq> LNil" "int (length xs) < 2147483645"
  shows "holds_list t' (xs @ [v])"
proof -
  have "nat (i - 1) = length xs \<longleftrightarrow> i = int (length xs) + 1" "nat (i - 1) < length xs \<longleftrightarrow> i \<le> int (length xs)" if "1 \<le> i" for i
    using that by auto
  with assms show ?thesis by (auto simp: holds_list_def stored_def int32_def nth_append)
qed

lemma move_up_ok:
  "table_ok t \<Longrightarrow> int32 p \<Longrightarrow> int32 (p + int d) \<Longrightarrow> (\<forall>i. p < i \<longrightarrow> i \<le> p + int d \<longrightarrow> num_at t i \<noteq> LNil) \<Longrightarrow>
    \<exists>t'. move_up t (rev [p + 1..p + int d]) = Inr t' \<and> table_ok t' \<and> others t' = others t
      \<and> (\<forall>j. int32 j \<longrightarrow> num_at t' j = (if p < j \<and> j \<le> p + int d then num_at t (j - 1) else num_at t j))"
proof (induction d arbitrary: t)
  case (Suc d)
  let ?i = "p + int (Suc d)"
  have r: "rev [p + 1..?i] = ?i # rev [p + 1..p + int d]"
    using upto_rec2 [of "p + 1" ?i] by simp
  have i: "int32 ?i" "int32 (?i - 1)" "int32 (p + int d)" using Suc.prems(2,3) by (auto simp: int32_def)
  obtain t1 where t1: "lua_rawseti t ?i (num_at t (?i - 1)) = Inr t1" "stored t ?i (num_at t (?i - 1)) t1"
    using rawseti_present [OF Suc.prems(1) i(1), of "num_at t (?i - 1)"] Suc.prems(4) by auto
  have s: "table_ok t1" "others t1 = others t" "\<And>j. int32 j \<Longrightarrow> num_at t1 j = (if j = ?i then num_at t (?i - 1) else num_at t j)"
    using t1(2) by (simp_all add: stored_def)
  have "\<forall>i. p < i \<longrightarrow> i \<le> p + int d \<longrightarrow> num_at t1 i \<noteq> LNil"
    using s(3) Suc.prems(2-4) by (auto simp: int32_def)
  from Suc.IH [OF s(1) Suc.prems(2) i(3) this] obtain t2 where
    t2: "move_up t1 (rev [p + 1..p + int d]) = Inr t2" "table_ok t2" "others t2 = others t1"
      "\<forall>j. int32 j \<longrightarrow> num_at t2 j = (if p < j \<and> j \<le> p + int d then num_at t1 (j - 1) else num_at t1 j)" by blast
  have "num_at t2 j = (if p < j \<and> j \<le> ?i then num_at t (j - 1) else num_at t j)" if j: "int32 j" for j
  proof (cases "p < j \<and> j \<le> p + int d")
    case True
    then have "int32 (j - 1)" using j Suc.prems(2) by (auto simp: int32_def)
    then show ?thesis using t2(4) s(3) j True by auto
  qed (use t2(4) s(3) j in auto)
  then show ?case unfolding r using t1(1) t2 s(2) rawgeti_num [OF Suc.prems(1) i(2)] by auto
qed auto

lemma move_down_ok:
  "table_ok t \<Longrightarrow> int32 p \<Longrightarrow> int32 (p + int d) \<Longrightarrow> (\<forall>i. p \<le> i \<longrightarrow> i < p + int d \<longrightarrow> num_at t i \<noteq> LNil) \<Longrightarrow>
    \<exists>t'. move_down t [p..p + int d - 1] = Inr t' \<and> table_ok t' \<and> others t' = others t
      \<and> (\<forall>j. int32 j \<longrightarrow> num_at t' j = (if p \<le> j \<and> j < p + int d then num_at t (j + 1) else num_at t j))"
proof (induction d arbitrary: t p)
  case (Suc d)
  have r: "[p..p + int (Suc d) - 1] = p # [p + 1..p + 1 + int d - 1]"
    using upto_rec1 [of p "p + int (Suc d) - 1"] by (simp add: algebra_simps)
  have i: "int32 (p + 1)" "int32 (p + 1 + int d)" using Suc.prems(2,3) by (auto simp: int32_def)
  obtain t1 where t1: "lua_rawseti t p (num_at t (p + 1)) = Inr t1" "stored t p (num_at t (p + 1)) t1"
    using rawseti_present [OF Suc.prems(1,2), of "num_at t (p + 1)"] Suc.prems(4) by auto
  have s: "table_ok t1" "others t1 = others t" "\<And>j. int32 j \<Longrightarrow> num_at t1 j = (if j = p then num_at t (p + 1) else num_at t j)"
    using t1(2) by (simp_all add: stored_def)
  have "\<forall>i. p + 1 \<le> i \<longrightarrow> i < p + 1 + int d \<longrightarrow> num_at t1 i \<noteq> LNil"
    using s(3) Suc.prems(2-4) by (auto simp: int32_def)
  from Suc.IH [OF s(1) i this] obtain t2 where
    t2: "move_down t1 [p + 1..p + 1 + int d - 1] = Inr t2" "table_ok t2" "others t2 = others t1"
      "\<forall>j. int32 j \<longrightarrow> num_at t2 j = (if p + 1 \<le> j \<and> j < p + 1 + int d then num_at t1 (j + 1) else num_at t1 j)" by blast
  have "num_at t2 j = (if p \<le> j \<and> j < p + int (Suc d) then num_at t (j + 1) else num_at t j)" if j: "int32 j" for j
  proof (cases "p + 1 \<le> j \<and> j < p + 1 + int d")
    case True
    then have "int32 (j + 1)" using j i by (auto simp: int32_def)
    then show ?thesis using t2(4) s(3) j True by auto
  qed (use t2(4) s(3) j in auto)
  then show ?case unfolding r using t1(1) t2 s(2) rawgeti_num [OF Suc.prems(1) i(1)] by auto
qed auto

text \<open>What the two functions do to the list.\<close>

definition insert_at :: "nat \<Rightarrow> 'a \<Rightarrow> 'a list \<Rightarrow> 'a list" where
  "insert_at k v xs = take k xs @ v # drop k xs"

definition remove_at :: "nat \<Rightarrow> 'a list \<Rightarrow> 'a list" where
  "remove_at k xs = take k xs @ drop (k + 1) xs"

lemma set_insert_at: "set (insert_at k v xs) = insert v (set xs)"
  by (metis Un_insert_right append_take_drop_id insert_at_def list.simps(15) set_append)

lemma insert_at_nth: "k \<le> length xs \<Longrightarrow> j \<le> length xs \<Longrightarrow>
    insert_at k v xs ! j = (if j < k then xs ! j else if j = k then v else xs ! (j - 1))"
  by (auto simp: insert_at_def nth_append nth_Cons' min_def)

lemma remove_at_nth: "j < length xs - 1 \<Longrightarrow> remove_at k xs ! j = (if j < k then xs ! j else xs ! (j + 1))"
  by (auto simp: remove_at_def nth_append min_def)

lemma set_remove_at: "set (remove_at k xs) \<subseteq> set xs"
  unfolding remove_at_def using set_take_subset [of k xs] set_drop_subset [of "k + 1" xs] by auto

lemma tinsert_ok:
  assumes h: "holds_list t xs" and p: "1 \<le> pos" "pos \<le> int (length xs) + 1" and v: "v \<noteq> LNil" "int (length xs) < 2147483645"
  shows "tinsert t (Some pos) v = Inl (ErrRun ''table overflow'') \<and> crowded t
    \<or> (\<exists>t'. tinsert t (Some pos) v = Inr t' \<and> holds_list t' (insert_at (nat (pos - 1)) v xs) \<and> others t' = others t)"
proof -
  let ?n = "int (length xs)"
  have ok: "table_ok t" using h by (simp add: holds_list_def)
  have e: "tinsert t (Some pos) v = bnd (move_up t (rev [pos + 1..?n + 1])) (\<lambda>t. lua_rawseti t pos v)"
    using p by (simp add: tinsert_def holds_list_length [OF h])
  have at: "num_at t i = (if i \<le> ?n then xs ! nat (i - 1) else LNil)" if "1 \<le> i" "i < 2147483648" for i
    using h that by (auto simp: holds_list_def int32_def)
  have i: "int32 pos" "int32 (?n + 1)" "int32 ?n" using p v(2) by (auto simp: int32_def)
  have fin: "holds_list t' (insert_at (nat (pos - 1)) v xs)"
    if t': "table_ok t'" "\<And>j. int32 j \<Longrightarrow> num_at t' j = (if j = pos then v else if pos < j \<and> j \<le> ?n + 1 then num_at t (j - 1) else num_at t j)" for t'
  proof -
    have "num_at t' j = (if j \<le> int (length (insert_at (nat (pos - 1)) v xs)) then insert_at (nat (pos - 1)) v xs ! nat (j - 1) else LNil)"
      if j: "1 \<le> j" "int32 j" for j
    proof (cases "j \<le> ?n + 1")
      case True
      then have "insert_at (nat (pos - 1)) v xs ! nat (j - 1) =
          (if j < pos then xs ! nat (j - 1) else if j = pos then v else xs ! nat (j - 2))"
        using p j(1) by (subst insert_at_nth) (auto simp: nat_diff_distrib nat_less_iff numeral_2_eq_2)
      then show ?thesis using t'(2) [OF j(2)] at [of j] at [of "j - 1"] True p j
        by (auto simp: insert_at_def int32_def)
    qed (use t'(2) [OF j(2)] at [of j] p j in \<open>auto simp: insert_at_def int32_def\<close>)
    moreover have "LNil \<notin> set (insert_at (nat (pos - 1)) v xs)" using h v(1) by (simp add: set_insert_at holds_list_def)
    ultimately show ?thesis using t'(1) v(2) p by (auto simp: holds_list_def insert_at_def)
  qed
  show ?thesis
  proof (cases "pos = ?n + 1")
    case True
    then have "tinsert t (Some pos) v = lua_rawseti t pos v" unfolding e by simp
    with rawseti_any [OF ok i(1), of v] show ?thesis using True fin by (auto simp: stored_def)
  next
    case False
    have r: "rev [pos + 1..?n + 1] = (?n + 1) # rev [pos + 1..?n]" using upto_rec2 [of "pos + 1" "?n + 1"] p False by simp
    from rawseti_any [OF ok i(2), of "num_at t ?n"] show ?thesis
    proof (elim disjE exE conjE)
      fix t1 assume t1: "lua_rawseti t (?n + 1) (num_at t ?n) = Inr t1" "stored t (?n + 1) (num_at t ?n) t1"
      have s: "table_ok t1" "others t1 = others t" "\<And>j. int32 j \<Longrightarrow> num_at t1 j = (if j = ?n + 1 then num_at t ?n else num_at t j)"
        using t1(2) by (simp_all add: stored_def)
      define d where "d = nat (?n - pos)"
      have d: "?n = pos + int d" using p False by (simp add: d_def)
      have "\<forall>i. pos < i \<longrightarrow> i \<le> pos + int d \<longrightarrow> num_at t1 i \<noteq> LNil"
        using s(3) holds_list_nth [OF h] p v(2) unfolding d [symmetric] by (auto simp: int32_def)
      from move_up_ok [OF s(1) i(1) _ this] i(3) d obtain t2 where
        t2: "move_up t1 (rev [pos + 1..?n]) = Inr t2" "table_ok t2" "others t2 = others t1"
          "\<forall>j. int32 j \<longrightarrow> num_at t2 j = (if pos < j \<and> j \<le> ?n then num_at t1 (j - 1) else num_at t1 j)" by auto
      have "num_at t2 pos \<noteq> LNil" using t2(4) s(3) holds_list_nth [OF h, of pos] i(1) p False by auto
      from rawseti_present [OF t2(2) i(1) this, of v] obtain t3 where t3: "lua_rawseti t2 pos v = Inr t3" "stored t2 pos v t3" by blast
      have "num_at t3 j = (if j = pos then v else if pos < j \<and> j \<le> ?n + 1 then num_at t (j - 1) else num_at t j)" if "int32 j" for j
        using t3(2) t2(4) s(3) that s(3) [of "j - 1"] i p by (auto simp: stored_def int32_def)
      with fin t3 have "holds_list t3 (insert_at (nat (pos - 1)) v xs)" by (simp add: stored_def)
      moreover have "others t3 = others t" using t3(2) t2(3) s(2) by (simp add: stored_def)
      moreover have "tinsert t (Some pos) v = Inr t3"
        unfolding e r using rawgeti_num [OF ok i(3)] t1(1) t2(1) t3(1) by simp
      ultimately show ?thesis by blast
    qed (use rawgeti_num [OF ok i(3)] in \<open>simp add: e r\<close>)
  qed
qed

lemma tinsert_end:
  assumes h: "holds_list t xs" and v: "v \<noteq> LNil" "int (length xs) < 2147483645"
  shows "tinsert t None v = Inl (ErrRun ''table overflow'') \<and> crowded t
    \<or> (\<exists>t'. tinsert t None v = Inr t' \<and> holds_list t' (xs @ [v]) \<and> others t' = others t)"
proof -
  have "tinsert t None v = lua_rawseti t (int (length xs) + 1) v"
    by (simp add: tinsert_def holds_list_length [OF h])
  moreover have "table_ok t" "int32 (int (length xs) + 1)" using h v(2) by (simp_all add: holds_list_def int32_def)
  ultimately show ?thesis
    using rawseti_any [of t "int (length xs) + 1" v] holds_list_append [OF h _ v] by (auto simp: stored_def)
qed

lemma tremove_ok:
  assumes h: "holds_list t xs" and p: "1 \<le> pos" "pos \<le> int (length xs)"
  shows "\<exists>t'. tremove t (Some pos) = Inr (Some (xs ! nat (pos - 1)), t')
    \<and> holds_list t' (remove_at (nat (pos - 1)) xs) \<and> others t' = others t"
proof -
  let ?n = "int (length xs)"
  have ok: "table_ok t" and len: "?n < 2147483646" using h by (simp_all add: holds_list_def)
  have i: "int32 pos" "int32 ?n" using p len by (auto simp: int32_def)
  have at: "num_at t i = (if i \<le> ?n then xs ! nat (i - 1) else LNil)" if "1 \<le> i" "i < 2147483648" for i
    using h that by (auto simp: holds_list_def int32_def)
  define d where "d = nat (?n - pos)"
  have d: "?n = pos + int d" using p by (simp add: d_def)
  have "\<forall>i. pos \<le> i \<longrightarrow> i < pos + int d \<longrightarrow> num_at t i \<noteq> LNil"
    using holds_list_nth [OF h] p unfolding d [symmetric] by auto
  from move_down_ok [OF ok i(1) _ this] i(2) d obtain t1 where
    t1: "move_down t [pos..?n - 1] = Inr t1" "table_ok t1" "others t1 = others t"
      "\<forall>j. int32 j \<longrightarrow> num_at t1 j = (if pos \<le> j \<and> j < ?n then num_at t (j + 1) else num_at t j)" by auto
  have "num_at t1 ?n \<noteq> LNil" using t1(4) i(2) holds_list_nth [OF h, of ?n] p by auto
  from rawseti_present [OF t1(2) i(2) this, of LNil] obtain t2 where t2: "lua_rawseti t1 ?n LNil = Inr t2" "stored t1 ?n LNil t2" by blast
  have g: "num_at t2 j = (if j = ?n then LNil else if pos \<le> j \<and> j < ?n then num_at t (j + 1) else num_at t j)" if "int32 j" for j
    using t2(2) t1(4) that by (auto simp: stored_def)
  have len': "length (remove_at (nat (pos - 1)) xs) = length xs - 1" using p by (auto simp: remove_at_def)
  have "num_at t2 j = (if j \<le> int (length xs - 1) then remove_at (nat (pos - 1)) xs ! nat (j - 1) else LNil)"
    if j: "1 \<le> j" "int32 j" for j
  proof (cases "j \<le> ?n - 1")
    case True
    then have "remove_at (nat (pos - 1)) xs ! nat (j - 1) = (if j < pos then xs ! nat (j - 1) else xs ! nat j)"
      using p j(1) by (subst remove_at_nth) (auto simp: nat_less_iff Suc_nat_eq_nat_zadd1)
    then show ?thesis using g [OF j(2)] at [of j] at [of "j + 1"] True j len by (auto simp: int32_def)
  qed (use g [OF j(2)] at [of j] p j in \<open>auto simp: int32_def\<close>)
  then have "holds_list t2 (remove_at (nat (pos - 1)) xs)"
    using t2(2) len' len h set_remove_at [of "nat (pos - 1)" xs] by (auto simp: holds_list_def stored_def)
  moreover have "tremove t (Some pos) = Inr (Some (xs ! nat (pos - 1)), t2)"
    using p rawgeti_num [OF ok i(1)] at [of pos] len t1(1) t2(1) by (auto simp: tremove_def holds_list_length [OF h])
  ultimately show ?thesis using t2(2) t1(3) by (auto simp: stored_def)
qed

lemma tremove_last: "tremove t None = bnd (luaH_getn t) (\<lambda>e. tremove t (Some e))"
  by (cases "luaH_getn t") (simp_all add: tremove_def)

section \<open>Concatenation\<close>

primrec join :: "byte list \<Rightarrow> byte list list \<Rightarrow> byte list" where
  "join sep [] = []"
| "join sep (x # xs) = (if xs = [] then x else x @ sep @ join sep xs)"

lemma concat_loop_ok:
  assumes "\<And>k. k < length xs \<Longrightarrow> lua_rawgeti t (i + int k) = Inr (xs ! k) \<and> lua_tostr num2str (xs ! k) = Some (ss ! k)"
    and "length ss = length xs" "buffer_ok b"
  shows "\<exists>b'. concat_loop num2str sep (i + int (length xs) - 1) t [i..i + int (length xs) - 1] b = Inr b'
    \<and> buffer_ok b' \<and> buffer_content b' = buffer_content b @ join sep ss \<and> below_buffer b' = below_buffer b"
  using assms
proof (induction xs arbitrary: i ss b)
  case (Cons x xs)
  obtain s ss' where ss: "ss = s # ss'" "length ss' = length xs" using Cons.prems(2) by (cases ss) auto
  let ?l = "i + int (length (x # xs)) - 1"
  have r: "[i..?l] = i # [i + 1..i + 1 + int (length xs) - 1]" using upto_rec1 [of i ?l] by (simp add: algebra_simps)
  let ?b = "if i \<noteq> ?l then luaL_addlstring (push_addvalue b s) sep else push_addvalue b s"
  have b: "buffer_ok ?b \<and> below_buffer ?b = below_buffer b \<and> buffer_content ?b = buffer_content b @ s @ (if xs = [] then [] else sep)"
    using push_addvalue_ok [OF Cons.prems(3), of s] addlstring_ok [of "push_addvalue b s" sep] by auto
  have "lua_rawgeti t (i + 1 + int k) = Inr (xs ! k) \<and> lua_tostr num2str (xs ! k) = Some (ss' ! k)" if "k < length xs" for k
    using Cons.prems(1) [of "Suc k"] that ss by (simp add: add.assoc)
  from Cons.IH [OF this ss(2), of ?b] b obtain b' where
    b': "concat_loop num2str sep (i + 1 + int (length xs) - 1) t [i + 1..i + 1 + int (length xs) - 1] ?b = Inr b'"
      "buffer_ok b'" "buffer_content b' = buffer_content ?b @ join sep ss'" "below_buffer b' = below_buffer ?b" by blast
  have l: "i + 1 + int (length xs) - 1 = ?l" by simp
  have "concat_loop num2str sep ?l t [i..?l] b = Inr b'"
    unfolding r concat_loop.simps using Cons.prems(1) [of 0] ss b'(1) unfolding l by (simp add: Let_def)
  then show ?case using b' b ss by auto
qed simp

end
