(* ===== verification/TabSort.thy ===== *)
theory TabSort
  imports TabFacts
begin

text \<open>
  The sort of the table library: what \<open>auxsort\<close> does on a range of a table whose elements a comparison puts
  in a strict weak order.
\<close>

section \<open>Rearranging a range\<close>

lemma mset_swap:
  assumes "i \<in> set xs" "j \<in> set xs" "distinct xs" "\<And>k. k \<in> set xs \<Longrightarrow> g k = (if k = i then f j else if k = j then f i else f k)"
  shows "mset (map g xs) = mset (map f xs)"
proof (cases "i = j")
  case True
  then have "map g xs = map f xs" using assms(4) by simp
  then show ?thesis by (simp only:)
next
  case False
  let ?m = "mset xs - {#i#} - {#j#}"
  have "j \<in># mset xs - {#i#}" using assms(2) False by (simp add: in_diff_count)
  then have "add_mset j ?m = mset xs - {#i#}" by (rule insert_DiffM)
  moreover have "add_mset i (mset xs - {#i#}) = mset xs" using assms(1) by (simp del: diff_single_eq_union)
  ultimately have m: "mset xs = {#i, j#} + ?m" by (metis add_mset_add_single union_assoc union_commute)
  have "k \<noteq> i \<and> k \<noteq> j" if "k \<in># ?m" for k
    using that assms(3) False by (auto simp: distinct_count_atmost_1 in_diff_count split: if_splits)
  then have "image_mset g ?m = image_mset f ?m"
    using assms(4) by (intro image_mset_cong) (metis in_diffD set_mset_mset)
  then have "image_mset g ({#i, j#} + ?m) = image_mset f ({#i, j#} + ?m)"
    using assms(1,2,4) False by simp
  then show ?thesis unfolding m [symmetric] by simp
qed

text \<open>\<open>t'\<close> has the elements of \<open>t\<close> from \<open>l\<close> to \<open>u\<close> in another order, and everything else as it was.\<close>

definition shuffled :: "int \<Rightarrow> int \<Rightarrow> Table \<Rightarrow> Table \<Rightarrow> bool" where
  "shuffled l u t t' \<longleftrightarrow> table_ok t' \<and> others t' = others t
     \<and> mset (map (num_at t') [l..u]) = mset (map (num_at t) [l..u])
     \<and> (\<forall>k. int32 k \<longrightarrow> k < l \<or> u < k \<longrightarrow> num_at t' k = num_at t k)"

lemma shuffled_refl: "table_ok t \<Longrightarrow> shuffled l u t t"
  by (simp add: shuffled_def)

lemma shuffled_trans: "shuffled l u t t' \<Longrightarrow> shuffled l u t' t'' \<Longrightarrow> shuffled l u t t''"
  by (simp add: shuffled_def)

lemma shuffled_all:
  assumes "shuffled l u t t'" "\<forall>k. l \<le> k \<longrightarrow> k \<le> u \<longrightarrow> P (num_at t k)" "l \<le> k" "k \<le> u"
  shows "P (num_at t' k)"
proof -
  have "num_at t' k \<in># mset (map (num_at t') [l..u])" using assms(3,4) by auto
  then have "num_at t' k \<in># mset (map (num_at t) [l..u])" using assms(1) unfolding shuffled_def by metis
  then show ?thesis using assms(2) by auto
qed

lemma shuffled_widen:
  assumes "shuffled l u t t'" "l' \<le> l" "u \<le> u'" "int32 l'" "int32 u'"
  shows "shuffled l' u' t t'"
proof (cases "l \<le> u")
  case True
  have e: "[l'..u'] = [l'..l - 1] @ [l..u] @ [u + 1..u']"
    using assms(2,3) True by (metis add_le_cancel_right diff_add_cancel order_trans upto_split1 upto_split2)
  have "map (num_at t') [l'..l - 1] = map (num_at t) [l'..l - 1]" "map (num_at t') [u + 1..u'] = map (num_at t) [u + 1..u']"
    using assms True by (auto simp: shuffled_def int32_def)
  then have "mset (map (num_at t') [l'..u']) = mset (map (num_at t) [l'..u'])"
    unfolding e map_append mset_append using assms(1) by (simp only: shuffled_def)
  with assms(1-3) show ?thesis by (auto simp: shuffled_def)
next
  case False
  then have a: "num_at t' k = num_at t k" if "int32 k" for k using assms(1) that by (auto simp: shuffled_def)
  then have "map (num_at t') [l'..u'] = map (num_at t) [l'..u']" using assms(4,5) by (auto simp: int32_def)
  then have "mset (map (num_at t') [l'..u']) = mset (map (num_at t) [l'..u'])" by (rule arg_cong)
  with a assms(1) show ?thesis by (simp add: shuffled_def)
qed

lemma set2_swaps:
  assumes ok: "table_ok t" and i: "int32 l" "int32 u" "l \<le> i" "i \<le> u" "l \<le> j" "j \<le> u"
    and v: "num_at t i \<noteq> LNil" "num_at t j \<noteq> LNil"
  shows "\<exists>t'. set2 t i j (num_at t j) (num_at t i) = Inr t' \<and> shuffled l u t t'
    \<and> (\<forall>k. int32 k \<longrightarrow> num_at t' k = (if k = i then num_at t j else if k = j then num_at t i else num_at t k))"
proof -
  have "int32 i" "int32 j" using i by (auto simp: int32_def)
  from array.put_two [OF ok this v v(2), of "num_at t i"] obtain t' where
    t': "set2 t i j (num_at t j) (num_at t i) = Inr t'" "table_ok t'" "others t' = others t"
      "\<forall>k. int32 k \<longrightarrow> num_at t' k = (if k = j then num_at t i else if k = i then num_at t j else num_at t k)"
    by (auto simp: set2_def)
  have at: "num_at t' k = (if k = i then num_at t j else if k = j then num_at t i else num_at t k)" if "int32 k" for k
    using t'(4) that by auto
  have "mset (map (num_at t') [l..u]) = mset (map (num_at t) [l..u])"
    by (rule mset_swap [of i _ j]) (use i at in \<open>auto simp: int32_def\<close>)
  moreover have "num_at t' k = num_at t k" if "int32 k" "k < l \<or> u < k" for k using at [OF that(1)] that(2) i by auto
  ultimately show ?thesis using t' at by (auto simp: shuffled_def)
qed

section \<open>Comparisons\<close>

text \<open>
  The contract of the comparison on the values \<open>V\<close>: it returns, and says whether the first comes before the
  second in a strict weak order.
\<close>

locale weak_order =
  fixes cmp :: comparison and V :: "TValue set" and lt :: "TValue \<Rightarrow> TValue \<Rightarrow> bool"
  assumes cmp: "x \<in> V \<Longrightarrow> y \<in> V \<Longrightarrow> cmp x y = Inr (lt x y)"
    and irrefl: "x \<in> V \<Longrightarrow> \<not> lt x x"
    and trans: "x \<in> V \<Longrightarrow> y \<in> V \<Longrightarrow> z \<in> V \<Longrightarrow> lt x y \<Longrightarrow> lt y z \<Longrightarrow> lt x z"
    and neg_trans: "x \<in> V \<Longrightarrow> y \<in> V \<Longrightarrow> z \<in> V \<Longrightarrow> \<not> lt x y \<Longrightarrow> \<not> lt y z \<Longrightarrow> \<not> lt x z"
    and no_nil: "LNil \<notin> V"
begin

definition le :: "TValue \<Rightarrow> TValue \<Rightarrow> bool" where
  "le x y \<longleftrightarrow> \<not> lt y x"

text \<open>The range is within the integers and its elements are values of the order.\<close>

definition range_ok :: "Table \<Rightarrow> int \<Rightarrow> int \<Rightarrow> bool" where
  "range_ok t l u \<longleftrightarrow> table_ok t \<and> int32 (l - 1) \<and> int32 (u + 1) \<and> (\<forall>k. l \<le> k \<longrightarrow> k \<le> u \<longrightarrow> num_at t k \<in> V)"

lemma range_okD: "range_ok t l u \<Longrightarrow> l \<le> k \<Longrightarrow> k \<le> u \<Longrightarrow> num_at t k \<in> V \<and> num_at t k \<noteq> LNil \<and> lua_rawgeti t k = Inr (num_at t k)"
  using no_nil rawgeti_num [of t k] by (auto simp: range_ok_def int32_def)

lemma range_ok_shuffled: "range_ok t l u \<Longrightarrow> shuffled l u t t' \<Longrightarrow> range_ok t' l u"
  using shuffled_all [of l u t t' "\<lambda>v. v \<in> V"] by (auto simp: range_ok_def shuffled_def)

lemma le_refl: "x \<in> V \<Longrightarrow> le x x"
  by (simp add: le_def irrefl)

lemma le_trans: "x \<in> V \<Longrightarrow> y \<in> V \<Longrightarrow> z \<in> V \<Longrightarrow> le x y \<Longrightarrow> le y z \<Longrightarrow> le x z"
  using neg_trans [of z y x] by (auto simp: le_def)

lemma lt_le: "x \<in> V \<Longrightarrow> y \<in> V \<Longrightarrow> lt x y \<Longrightarrow> le x y"
  using trans [of x y x] irrefl by (auto simp: le_def)

text \<open>An exchange within the range.\<close>

lemma exchange:
  assumes "range_ok t l u" "l \<le> i" "i \<le> u" "l \<le> j" "j \<le> u"
  shows "\<exists>t'. set2 t i j (num_at t j) (num_at t i) = Inr t' \<and> shuffled l u t t' \<and> range_ok t' l u
    \<and> (\<forall>k. l \<le> k \<longrightarrow> k \<le> u \<longrightarrow> num_at t' k = (if k = i then num_at t j else if k = j then num_at t i else num_at t k))"
proof -
  have r: "table_ok t" "int32 l" "int32 u" using assms by (auto simp: range_ok_def int32_def)
  obtain t' where t': "set2 t i j (num_at t j) (num_at t i) = Inr t'" "shuffled l u t t'"
    "\<forall>k. int32 k \<longrightarrow> num_at t' k = (if k = i then num_at t j else if k = j then num_at t i else num_at t k)"
    using set2_swaps [OF r assms(2-5)] range_okD [OF assms(1)] assms(2-5) by blast
  moreover have "l \<le> k \<Longrightarrow> k \<le> u \<Longrightarrow> int32 k" for k using r by (auto simp: int32_def)
  ultimately show ?thesis using range_ok_shuffled [OF assms(1)] by blast
qed

lemma sort_ends_ok:
  assumes r: "range_ok t l u" and lu: "l < u"
  shows "\<exists>t'. sort_ends cmp t l u = Inr t' \<and> shuffled l u t t' \<and> range_ok t' l u \<and> le (num_at t' l) (num_at t' u)"
proof (cases "lt (num_at t u) (num_at t l)")
  case True
  obtain t' where t': "set2 t l u (num_at t u) (num_at t l) = Inr t'" "shuffled l u t t'" "range_ok t' l u"
    "\<forall>k. l \<le> k \<longrightarrow> k \<le> u \<longrightarrow> num_at t' k = (if k = l then num_at t u else if k = u then num_at t l else num_at t k)"
    using exchange [OF r, of l u] lu by auto
  have "le (num_at t' l) (num_at t' u)" using t'(4) lu True range_okD [OF r, of l] range_okD [OF r, of u] by (simp add: lt_le)
  with t' True show ?thesis
    using range_okD [OF r, of l] range_okD [OF r, of u] lu by (simp add: sort_ends_def cmp)
next
  case False
  with r show ?thesis
    using range_okD [OF r, of l] range_okD [OF r, of u] lu shuffled_refl
    by (simp add: sort_ends_def cmp le_def range_ok_def)
qed

lemma sort_middle_ok:
  assumes r: "range_ok t l u" and i: "l < i" "i < u" and e: "le (num_at t l) (num_at t u)"
  shows "\<exists>t'. sort_middle cmp t l i u = Inr t' \<and> shuffled l u t t' \<and> range_ok t' l u
    \<and> le (num_at t' l) (num_at t' i) \<and> le (num_at t' i) (num_at t' u)"
proof -
  note l = range_okD [OF r, of l] and m = range_okD [OF r, of i] and u = range_okD [OF r, of u]
  consider "lt (num_at t i) (num_at t l)" | "le (num_at t l) (num_at t i)" "lt (num_at t u) (num_at t i)"
    | "le (num_at t l) (num_at t i)" "le (num_at t i) (num_at t u)" by (auto simp: le_def)
  then show ?thesis
  proof cases
    case 1
    obtain t' where t': "set2 t i l (num_at t l) (num_at t i) = Inr t'" "shuffled l u t t'" "range_ok t' l u"
      "\<forall>k. l \<le> k \<longrightarrow> k \<le> u \<longrightarrow> num_at t' k = (if k = i then num_at t l else if k = l then num_at t i else num_at t k)"
      using exchange [OF r, of i l] i by auto
    have "le (num_at t' l) (num_at t' i)" using t'(4) i 1 l m by (simp add: lt_le)
    moreover have "le (num_at t' i) (num_at t' u)" using t'(4) i e by simp
    ultimately show ?thesis using t'(1-3) 1 l m i by (simp add: sort_middle_def cmp)
  next
    case 2
    obtain t' where t': "set2 t i u (num_at t u) (num_at t i) = Inr t'" "shuffled l u t t'" "range_ok t' l u"
      "\<forall>k. l \<le> k \<longrightarrow> k \<le> u \<longrightarrow> num_at t' k = (if k = i then num_at t u else if k = u then num_at t i else num_at t k)"
      using exchange [OF r, of i u] i by auto
    have "le (num_at t' i) (num_at t' u)" using t'(4) i 2 u m by (simp add: lt_le)
    moreover have "le (num_at t' l) (num_at t' i)" using t'(4) i e by simp
    ultimately show ?thesis using t'(1-3) 2 l m u i by (simp add: sort_middle_def cmp le_def)
  next
    case 3
    with r show ?thesis using l m u i shuffled_refl by (simp add: sort_middle_def cmp le_def range_ok_def)
  qed
qed

text \<open>The loops stop at the first element that is not on the wrong side; there is one at \<open>s\<close>.\<close>

lemma up_loop_ok:
  assumes r: "range_ok t l u" and P: "P \<in> V" and s: "s \<le> u" "le P (num_at t s)"
  shows "l - 1 \<le> i \<Longrightarrow> i < s \<Longrightarrow> \<exists>i'. up_loop cmp t u P i = Inr (i', num_at t i') \<and> i < i' \<and> i' \<le> s
    \<and> le P (num_at t i') \<and> (\<forall>k. i < k \<longrightarrow> k < i' \<longrightarrow> le (num_at t k) P)"
proof (induction "nat (s - i)" arbitrary: i)
  case (Suc n)
  note v = range_okD [OF r, of "i + 1"]
  have r1: "lua_rawgeti t (i + 1) = Inr (num_at t (i + 1))" "cmp (num_at t (i + 1)) P = Inr (lt (num_at t (i + 1)) P)"
    "num_at t (i + 1) \<in> V" using v Suc.prems s(1) P by (simp_all add: cmp)
  show ?case
  proof (cases "lt (num_at t (i + 1)) P")
    case True
    then have "i + 1 < s" using Suc.prems s(2) by (auto simp: le_def order.strict_iff_order)
    moreover have "n = nat (s - (i + 1))" using Suc.hyps(2) by simp
    ultimately obtain i' where i': "up_loop cmp t u P (i + 1) = Inr (i', num_at t i')" "i + 1 < i'" "i' \<le> s"
      "le P (num_at t i')" "\<forall>k. i + 1 < k \<longrightarrow> k < i' \<longrightarrow> le (num_at t k) P"
      using Suc.hyps(1) [of "i + 1"] Suc.prems(1) by auto
    have "up_loop cmp t u P i = Inr (i', num_at t i')"
      using r1 True i'(1) \<open>i + 1 < s\<close> s(1) by (subst up_loop.simps) simp
    moreover have "le (num_at t k) P" if "i < k" "k < i'" for k
      using i'(5) that lt_le [OF r1(3) P True] by (cases "k = i + 1") auto
    ultimately show ?thesis using i'(2-4) by auto
  next
    case False
    then have "up_loop cmp t u P i = Inr (i + 1, num_at t (i + 1))" using r1 by (subst up_loop.simps) (simp add: Let_def)
    with False Suc.prems show ?thesis by (auto simp: le_def)
  qed
qed simp

lemma down_loop_ok:
  assumes r: "range_ok t l u" and P: "P \<in> V" and s: "l \<le> s" "le (num_at t s) P"
  shows "j \<le> u + 1 \<Longrightarrow> s < j \<Longrightarrow> \<exists>j'. down_loop cmp t l P j = Inr (j', num_at t j') \<and> j' < j \<and> s \<le> j'
    \<and> le (num_at t j') P \<and> (\<forall>k. j' < k \<longrightarrow> k < j \<longrightarrow> le P (num_at t k))"
proof (induction "nat (j - s)" arbitrary: j)
  case (Suc n)
  note v = range_okD [OF r, of "j - 1"]
  have r1: "lua_rawgeti t (j - 1) = Inr (num_at t (j - 1))" "cmp P (num_at t (j - 1)) = Inr (lt P (num_at t (j - 1)))"
    "num_at t (j - 1) \<in> V" using v Suc.prems s(1) P by (simp_all add: cmp)
  show ?case
  proof (cases "lt P (num_at t (j - 1))")
    case True
    then have "s < j - 1" using Suc.prems s(2) by (auto simp: le_def order.strict_iff_order)
    moreover have "n = nat (j - 1 - s)" using Suc.hyps(2) by simp
    ultimately obtain j' where j': "down_loop cmp t l P (j - 1) = Inr (j', num_at t j')" "j' < j - 1" "s \<le> j'"
      "le (num_at t j') P" "\<forall>k. j' < k \<longrightarrow> k < j - 1 \<longrightarrow> le P (num_at t k)"
      using Suc.hyps(1) [of "j - 1"] Suc.prems(1) by auto
    have "down_loop cmp t l P j = Inr (j', num_at t j')"
      using r1 True j'(1) \<open>s < j - 1\<close> s(1) by (subst down_loop.simps) simp
    moreover have "le P (num_at t k)" if "j' < k" "k < j" for k
      using j'(5) that lt_le [OF P r1(3) True] by (cases "k = j - 1") auto
    ultimately show ?thesis using j'(2-4) by auto
  next
    case False
    then have "down_loop cmp t l P j = Inr (j - 1, num_at t (j - 1))" using r1 by (subst down_loop.simps) (simp add: Let_def)
    with False Suc.prems show ?thesis by (auto simp: le_def)
  qed
qed simp

text \<open>The partition of the elements between the ends, with the pivot at \<open>u - 1\<close>.\<close>

definition split_at :: "Table \<Rightarrow> int \<Rightarrow> int \<Rightarrow> TValue \<Rightarrow> int \<Rightarrow> int \<Rightarrow> bool" where
  "split_at t l u P i j \<longleftrightarrow> num_at t (u - 1) = P
     \<and> (\<forall>k. l \<le> k \<longrightarrow> k \<le> i \<longrightarrow> le (num_at t k) P) \<and> (\<forall>k. j \<le> k \<longrightarrow> k \<le> u \<longrightarrow> le P (num_at t k))"

lemma partition_ok:
  "range_ok t l u \<Longrightarrow> split_at t l u P i j \<Longrightarrow> l \<le> i \<Longrightarrow> i \<le> j \<Longrightarrow> l < j \<Longrightarrow> i < u - 1 \<Longrightarrow> j \<le> u - 1 \<Longrightarrow> nat (j - i) < n \<Longrightarrow>
    \<exists>i' t'. partition_loop n cmp l u P t i j = Inr (i', t') \<and> shuffled l u t t' \<and> range_ok t' l u
      \<and> l < i' \<and> i' < u \<and> split_at t' l u P (i' - 1) i'"
proof (induction n arbitrary: t i j)
  case (Suc n)
  note r = Suc.prems(1)
  have P: "P \<in> V" "num_at t (u - 1) = P" using Suc.prems range_okD [OF r, of "u - 1"] by (auto simp: split_at_def)
  have le_i: "le (num_at t k) P" if "l \<le> k" "k \<le> i" for k using Suc.prems(2) that by (simp add: split_at_def)
  have le_j: "le P (num_at t k)" if "j \<le> k" "k \<le> u" for k using Suc.prems(2) that by (simp add: split_at_def)
  obtain i' where i': "up_loop cmp t u P i = Inr (i', num_at t i')" "i < i'" "i' \<le> u - 1" "le P (num_at t i')"
    "\<forall>k. i < k \<longrightarrow> k < i' \<longrightarrow> le (num_at t k) P"
    using up_loop_ok [OF r P(1), of "u - 1" i] P le_refl Suc.prems by auto
  obtain j' where j': "down_loop cmp t l P j = Inr (j', num_at t j')" "j' < j" "l \<le> j'" "le (num_at t j') P"
    "\<forall>k. j' < k \<longrightarrow> k < j \<longrightarrow> le P (num_at t k)"
    using down_loop_ok [OF r P(1), of l j] le_i [of l] Suc.prems by auto
  show ?case
  proof (cases "j' < i'")
    case True
    have "le (num_at t k) P" if "l \<le> k" "k \<le> i' - 1" for k using le_i [of k] i'(5) that by force
    moreover have "le P (num_at t k)" if "i' \<le> k" "k \<le> u" for k using le_j [of k] j'(5) True that by force
    ultimately have "split_at t l u P (i' - 1) i'" using P by (simp add: split_at_def)
    then show ?thesis using True i' j' r Suc.prems shuffled_refl by (simp add: range_ok_def)
  next
    case False
    obtain t1 where t1: "set2 t i' j' (num_at t j') (num_at t i') = Inr t1" "shuffled l u t t1" "range_ok t1 l u"
      "\<forall>k. l \<le> k \<longrightarrow> k \<le> u \<longrightarrow> num_at t1 k = (if k = i' then num_at t j' else if k = j' then num_at t i' else num_at t k)"
      using exchange [OF r, of i' j'] i' j' False Suc.prems by auto
    have "split_at t1 l u P i' j'"
      unfolding split_at_def
    proof (intro conjI allI impI)
      show "num_at t1 (u - 1) = P" using t1(4) P(2) i' j' False Suc.prems by auto
      show "le (num_at t1 k) P" if "l \<le> k" "k \<le> i'" for k
        using t1(4) that i' j' False Suc.prems le_i [of k] by (cases "k = i'"; cases "k \<le> i") auto
      show "le P (num_at t1 k)" if "j' \<le> k" "k \<le> u" for k
        using t1(4) that i' j' False Suc.prems le_j [of k] by (cases "k = i'"; cases "k = j'"; cases "j \<le> k") auto
    qed
    moreover have "nat (j' - i') < n" "i' \<le> j'" "l < j'" "i' < u - 1" "j' \<le> u - 1" "l \<le> i'"
      using i'(2) j'(2) False Suc.prems(3-8) by linarith+
    ultimately obtain i2 t2 where
      "partition_loop n cmp l u P t1 i' j' = Inr (i2, t2)" "shuffled l u t1 t2" "range_ok t2 l u" "l < i2" "i2 < u"
      "split_at t2 l u P (i2 - 1) i2"
      using Suc.IH [OF t1(3)] by blast
    then show ?thesis using t1(1,2) i'(1) j'(1) False shuffled_trans by (auto simp: split_beta)
  qed
qed simp

text \<open>Sorting: every element is at most the ones after it.\<close>

definition sorted_on :: "Table \<Rightarrow> int \<Rightarrow> int \<Rightarrow> bool" where
  "sorted_on t l u \<longleftrightarrow> (\<forall>i k. l \<le> i \<longrightarrow> i \<le> k \<longrightarrow> k \<le> u \<longrightarrow> le (num_at t i) (num_at t k))"

lemma sorted_on_same: "sorted_on t l u \<Longrightarrow> (\<And>k. l \<le> k \<Longrightarrow> k \<le> u \<Longrightarrow> num_at t' k = num_at t k) \<Longrightarrow> sorted_on t' l u"
  by (simp add: sorted_on_def)

text \<open>Both sides of the pivot sorted: the whole is.\<close>

lemma sorted_on_halves:
  assumes r: "range_ok t l u" and i: "l < i" "i < u" and P: "num_at t i = P"
    and s: "sorted_on t l (i - 1)" "sorted_on t (i + 1) u"
    and lo: "\<And>k. l \<le> k \<Longrightarrow> k < i \<Longrightarrow> le (num_at t k) P" and hi: "\<And>k. i < k \<Longrightarrow> k \<le> u \<Longrightarrow> le P (num_at t k)"
  shows "sorted_on t l u"
  unfolding sorted_on_def
proof (intro allI impI)
  fix a b assume ab: "l \<le> a" "a \<le> b" "b \<le> u"
  have v: "num_at t a \<in> V" "num_at t b \<in> V" "P \<in> V"
    using range_okD [OF r, of a] range_okD [OF r, of b] range_okD [OF r, of i] ab i P by auto
  consider "b < i" | "i < a" | "a = i" "b = i" | "a < i" "i < b" | "a = i" "i < b" | "a < i" "b = i" using ab(2) by linarith
  then show "le (num_at t a) (num_at t b)"
  proof cases
    case 4
    then show ?thesis using le_trans [OF v(1,3,2)] lo [of a] hi [of b] ab by simp
  qed (use s lo [of a] hi [of b] ab P v le_refl in \<open>auto simp: sorted_on_def\<close>)
qed

text \<open>One level: the range is split around the pivot, or has at most three elements and is sorted.\<close>

lemma sort_small:
  assumes r: "range_ok t l u" and "u - l \<le> 2" "le (num_at t l) (num_at t u)"
    and "u - l = 2 \<Longrightarrow> le (num_at t l) (num_at t (l + 1)) \<and> le (num_at t (l + 1)) (num_at t u)"
  shows "sorted_on t l u"
  unfolding sorted_on_def
proof (intro allI impI)
  fix i k assume ik: "l \<le> i" "i \<le> k" "k \<le> u"
  have "le (num_at t i) (num_at t i)" using range_okD [OF r, of i] ik le_refl by simp
  moreover consider "i = k" | "i = l" "k = u" | "u - l = 2" "i = l" "k = l + 1" | "u - l = 2" "i = l + 1" "k = u"
    using ik assms(2) by linarith
  ultimately show "le (num_at t i) (num_at t k)" using assms(3,4) by cases auto
qed

lemma sort_split:
  assumes r: "range_ok t l u" and lu: "2 < u - l"
    and e: "le (num_at t l) (num_at t ((l + u) div 2))" "le (num_at t ((l + u) div 2)) (num_at t u)"
  shows "\<exists>i t1 t2 t3. set2 t ((l + u) div 2) (u - 1) (num_at t (u - 1)) (num_at t ((l + u) div 2)) = Inr t1
    \<and> partition_loop (nat (u - l) + 2) cmp l u (num_at t ((l + u) div 2)) t1 l (u - 1) = Inr (i, t2)
    \<and> swap_with t2 (u - 1) i = Inr t3 \<and> shuffled l u t t3 \<and> range_ok t3 l u \<and> l < i \<and> i < u
    \<and> (\<forall>k. l \<le> k \<longrightarrow> k < i \<longrightarrow> le (num_at t3 k) (num_at t3 i)) \<and> (\<forall>k. i < k \<longrightarrow> k \<le> u \<longrightarrow> le (num_at t3 i) (num_at t3 k))"
proof -
  let ?i = "(l + u) div 2"
  let ?P = "num_at t ?i"
  have i: "l < ?i" "?i < u - 1" using lu by auto
  have P: "?P \<in> V" using range_okD [OF r, of ?i] i by simp
  obtain t1 where t1: "set2 t ?i (u - 1) (num_at t (u - 1)) ?P = Inr t1" "shuffled l u t t1" "range_ok t1 l u"
    "\<forall>k. l \<le> k \<longrightarrow> k \<le> u \<longrightarrow> num_at t1 k = (if k = ?i then num_at t (u - 1) else if k = u - 1 then ?P else num_at t k)"
    using exchange [OF r, of ?i "u - 1"] i lu by auto
  have "le ?P (num_at t1 k)" if "u - 1 \<le> k" "k \<le> u" for k
    using t1(4) that i e(2) le_refl [OF P] by (cases "k = u - 1"; cases "k = u") auto
  moreover have "le (num_at t1 k) ?P" if "l \<le> k" "k \<le> l" for k using t1(4) that i e(1) by auto
  ultimately have "split_at t1 l u ?P l (u - 1)" using t1(4) i by (simp add: split_at_def)
  moreover have "l \<le> u - 1" "l < u - 1" "nat (u - 1 - l) < nat (u - l) + 2" using lu by linarith+
  ultimately obtain m t2 where
    t2: "partition_loop (nat (u - l) + 2) cmp l u ?P t1 l (u - 1) = Inr (m, t2)" "shuffled l u t1 t2" "range_ok t2 l u"
      "l < m" "m < u" "split_at t2 l u ?P (m - 1) m"
    using partition_ok [OF t1(3), of ?P l "u - 1" "nat (u - l) + 2"] by blast
  obtain t3 where t3: "set2 t2 (u - 1) m (num_at t2 m) (num_at t2 (u - 1)) = Inr t3" "shuffled l u t2 t3" "range_ok t3 l u"
    "\<forall>k. l \<le> k \<longrightarrow> k \<le> u \<longrightarrow> num_at t3 k = (if k = u - 1 then num_at t2 m else if k = m then num_at t2 (u - 1) else num_at t2 k)"
    using exchange [OF t2(3), of "u - 1" m] t2(4,5) lu by auto
  have sw: "swap_with t2 (u - 1) m = Inr t3"
    using t3(1) range_okD [OF t2(3), of "u - 1"] range_okD [OF t2(3), of m] t2(4,5) lu by (simp add: swap_with_def)
  have m: "num_at t3 m = ?P" using t3(4) t2(4-6) by (simp add: split_at_def)
  have "le (num_at t3 k) ?P" if "l \<le> k" "k < m" for k using t3(4) t2(4-6) that by (simp add: split_at_def)
  moreover have "le ?P (num_at t3 k)" if "m < k" "k \<le> u" for k
    using t3(4) t2(4-6) that by (cases "k = u - 1") (auto simp: split_at_def)
  moreover have "shuffled l u t t3" using shuffled_trans [OF t1(2) shuffled_trans [OF t2(2) t3(2)]] .
  ultimately show ?thesis
    unfolding m [symmetric] using t1(1) t2(1,4,5) sw t3(3) by (intro exI [of _ m] exI [of _ t1] exI [of _ t2] exI [of _ t3]) (simp add: m)
qed

text \<open>Sorting one side of the pivot and then the other.\<close>

lemma shuffled_side:
  assumes r: "range_ok t l u" and s: "shuffled l' u' t t'" "l \<le> l'" "u' \<le> u" and m: "l \<le> m" "m \<le> u" "m < l' \<or> u' < m"
    and lo: "\<forall>k. l \<le> k \<longrightarrow> k < m \<longrightarrow> le (num_at t k) (num_at t m)" and hi: "\<forall>k. m < k \<longrightarrow> k \<le> u \<longrightarrow> le (num_at t m) (num_at t k)"
  shows "shuffled l u t t'" "range_ok t' l u" "\<forall>k. l \<le> k \<longrightarrow> k \<le> u \<longrightarrow> k < l' \<or> u' < k \<longrightarrow> num_at t' k = num_at t k"
    "\<forall>k. l \<le> k \<longrightarrow> k < m \<longrightarrow> le (num_at t' k) (num_at t' m)" "\<forall>k. m < k \<longrightarrow> k \<le> u \<longrightarrow> le (num_at t' m) (num_at t' k)"
proof -
  have i: "int32 l" "int32 u" using r m by (auto simp: range_ok_def int32_def)
  then show w: "shuffled l u t t'" using s by (intro shuffled_widen [OF s(1)]) auto
  show "range_ok t' l u" by (rule range_ok_shuffled [OF r w])
  show out: "\<forall>k. l \<le> k \<longrightarrow> k \<le> u \<longrightarrow> k < l' \<or> u' < k \<longrightarrow> num_at t' k = num_at t k"
    using s(1) i by (auto simp: shuffled_def int32_def)
  have mm: "num_at t' m = num_at t m" using out m by blast
  show "\<forall>k. l \<le> k \<longrightarrow> k < m \<longrightarrow> le (num_at t' k) (num_at t' m)"
  proof (intro allI impI)
    fix k assume k: "l \<le> k" "k < m"
    show "le (num_at t' k) (num_at t' m)"
    proof (cases "l' \<le> k \<and> k \<le> u'")
      case True
      then have "\<forall>j. l' \<le> j \<longrightarrow> j \<le> u' \<longrightarrow> le (num_at t j) (num_at t m)" using lo k m(3) s(2) by auto
      from shuffled_all [OF s(1) this] True mm show ?thesis by simp
    next
      case False
      then show ?thesis using out lo k m(2) mm by auto
    qed
  qed
  show "\<forall>k. m < k \<longrightarrow> k \<le> u \<longrightarrow> le (num_at t' m) (num_at t' k)"
  proof (intro allI impI)
    fix k assume k: "m < k" "k \<le> u"
    show "le (num_at t' m) (num_at t' k)"
    proof (cases "l' \<le> k \<and> k \<le> u'")
      case True
      then have "\<forall>j. l' \<le> j \<longrightarrow> j \<le> u' \<longrightarrow> le (num_at t m) (num_at t j)" using hi k m(3) s(3) by auto
      from shuffled_all [OF s(1) this] True mm show ?thesis by simp
    next
      case False
      then show ?thesis using out hi k m(1) mm by auto
    qed
  qed
qed

lemma sort_sides:
  assumes r: "range_ok t l u" and m: "l < m" "m < u"
    and lo: "\<forall>k. l \<le> k \<longrightarrow> k < m \<longrightarrow> le (num_at t k) (num_at t m)" and hi: "\<forall>k. m < k \<longrightarrow> k \<le> u \<longrightarrow> le (num_at t m) (num_at t k)"
    and f: "\<And>t l' u'. range_ok t l' u' \<Longrightarrow> l \<le> l' \<Longrightarrow> u' \<le> u \<Longrightarrow> u' - l' < u - l \<Longrightarrow> \<exists>t'. f t l' u' = Inr t' \<and> shuffled l' u' t t' \<and> sorted_on t' l' u'"
  shows "\<exists>t'. bnd (f t l (m - 1)) (\<lambda>t. f t (m + 1) u) = Inr t' \<and> shuffled l u t t' \<and> sorted_on t' l u"
    and "\<exists>t'. bnd (f t (m + 1) u) (\<lambda>t. f t l (m - 1)) = Inr t' \<and> shuffled l u t t' \<and> sorted_on t' l u"
proof -
  have sub: "range_ok t l (m - 1) \<and> range_ok t (m + 1) u" if "range_ok t l u" for t
    using that m by (auto simp: range_ok_def int32_def)
  obtain ta where a: "f t l (m - 1) = Inr ta" "shuffled l (m - 1) t ta" "sorted_on ta l (m - 1)"
    using f [of t l "m - 1"] sub [OF r] m by auto
  note A = shuffled_side [OF r a(2) _ _ _ _ _ lo hi]
  obtain tb where b: "f ta (m + 1) u = Inr tb" "shuffled (m + 1) u ta tb" "sorted_on tb (m + 1) u"
    using f [of ta "m + 1" u] sub [of ta] A(2) m by auto
  note B = shuffled_side [OF A(2) b(2) _ _ _ _ _ A(4,5)]
  have "sorted_on tb l (m - 1)" using sorted_on_same [OF a(3)] B(3) m by auto
  then have "sorted_on tb l u" using sorted_on_halves [OF B(2) m refl _ b(3)] B(4,5) m by auto
  then show "\<exists>t'. bnd (f t l (m - 1)) (\<lambda>t. f t (m + 1) u) = Inr t' \<and> shuffled l u t t' \<and> sorted_on t' l u"
    using a(1) b(1) shuffled_trans [OF A(1) B(1)] m by simp
next
  have sub: "range_ok t l (m - 1) \<and> range_ok t (m + 1) u" if "range_ok t l u" for t
    using that m by (auto simp: range_ok_def int32_def)
  obtain ta where a: "f t (m + 1) u = Inr ta" "shuffled (m + 1) u t ta" "sorted_on ta (m + 1) u"
    using f [of t "m + 1" u] sub [OF r] m by auto
  note A = shuffled_side [OF r a(2) _ _ _ _ _ lo hi]
  obtain tb where b: "f ta l (m - 1) = Inr tb" "shuffled l (m - 1) ta tb" "sorted_on tb l (m - 1)"
    using f [of ta l "m - 1"] sub [of ta] A(2) m by auto
  note B = shuffled_side [OF A(2) b(2) _ _ _ _ _ A(4,5)]
  have "sorted_on tb (m + 1) u" using sorted_on_same [OF a(3)] B(3) m by auto
  then have "sorted_on tb l u" using sorted_on_halves [OF B(2) m refl b(3)] B(4,5) m by auto
  then show "\<exists>t'. bnd (f t (m + 1) u) (\<lambda>t. f t l (m - 1)) = Inr t' \<and> shuffled l u t t' \<and> sorted_on t' l u"
    using a(1) b(1) shuffled_trans [OF A(1) B(1)] m by simp
qed

lemma auxsort_ok:
  "range_ok t l u \<Longrightarrow> 0 < n \<Longrightarrow> u - l < int n \<Longrightarrow> \<exists>t'. auxsort n cmp t l u = Inr t' \<and> shuffled l u t t' \<and> sorted_on t' l u"
proof (induction n arbitrary: t l u)
  case (Suc n)
  note r = Suc.prems(1)
  have ok: "table_ok t" using r by (simp add: range_ok_def)
  show ?case
  proof (cases "l < u")
    case False
    then have "i = k" if "l \<le> i" "i \<le> k" "k \<le> u" for i k using that by linarith
    then have "sorted_on t l u" using range_okD [OF r] le_refl by (metis order_refl sorted_on_def)
    then show ?thesis using False shuffled_refl [OF ok] by simp
  next
    case True
    obtain t1 where t1: "sort_ends cmp t l u = Inr t1" "shuffled l u t t1" "range_ok t1 l u" "le (num_at t1 l) (num_at t1 u)"
      using sort_ends_ok [OF r True] by blast
    show ?thesis
    proof (cases "u - l = 1")
      case True
      with t1 have "auxsort (Suc n) cmp t l u = Inr t1" "sorted_on t1 l u" using sort_small [OF t1(3)] by simp_all
      with t1(2) show ?thesis by blast
    next
      case False
      let ?i = "(l + u) div 2"
      have i: "l < ?i" "?i < u" using False \<open>l < u\<close> by auto
      obtain t2 where t2: "sort_middle cmp t1 l ?i u = Inr t2" "shuffled l u t1 t2" "range_ok t2 l u"
        "le (num_at t2 l) (num_at t2 ?i)" "le (num_at t2 ?i) (num_at t2 u)"
        using sort_middle_ok [OF t1(3) i t1(4)] by blast
      have lu2: "le (num_at t2 l) (num_at t2 u)"
        using le_trans [OF _ _ _ t2(4,5)] range_okD [OF t2(3)] i by simp
      show ?thesis
      proof (cases "u - l = 2")
        case True
        then have "?i = l + 1" by auto
        then have "sorted_on t2 l u" using sort_small [OF t2(3) _ lu2] t2(4,5) True by simp
        moreover have "auxsort (Suc n) cmp t l u = Inr t2" using t1(1) t2(1) True \<open>l < u\<close> by simp
        ultimately show ?thesis using shuffled_trans [OF t1(2) t2(2)] by blast
      next
        case big: False
        then have lu: "2 < u - l" using \<open>l < u\<close> False by linarith
        obtain m t3 t4 t5 where s: "set2 t2 ?i (u - 1) (num_at t2 (u - 1)) (num_at t2 ?i) = Inr t3"
          "partition_loop (nat (u - l) + 2) cmp l u (num_at t2 ?i) t3 l (u - 1) = Inr (m, t4)"
          "swap_with t4 (u - 1) m = Inr t5" "shuffled l u t2 t5" "range_ok t5 l u" "l < m" "m < u"
          "\<forall>k. l \<le> k \<longrightarrow> k < m \<longrightarrow> le (num_at t5 k) (num_at t5 m)" "\<forall>k. m < k \<longrightarrow> k \<le> u \<longrightarrow> le (num_at t5 m) (num_at t5 k)"
          using sort_split [OF t2(3) lu t2(4,5)] by blast
        have eq: "auxsort (Suc n) cmp t l u = (if m - l < u - m
            then bnd (auxsort n cmp t5 l (m - 1)) (\<lambda>t. auxsort n cmp t (m + 1) u)
            else bnd (auxsort n cmp t5 (m + 1) u) (\<lambda>t. auxsort n cmp t l (m - 1)))"
          using t1(1) t2(1) s(1-3) \<open>l < u\<close> False big range_okD [OF t2(3), of ?i] range_okD [OF t2(3), of "u - 1"] i lu
          by (simp add: Let_def del: partition_loop.simps)
        have "\<exists>t'. auxsort n cmp t l' u' = Inr t' \<and> shuffled l' u' t t' \<and> sorted_on t' l' u'"
          if "range_ok t l' u'" "u' - l' < u - l" for t l' u'
          using Suc.IH [OF that(1)] that(2) Suc.prems(3) \<open>l < u\<close> by force
        from sort_sides [OF s(5-9), where f = "auxsort n cmp", OF this] shuffled_trans [OF t1(2) shuffled_trans [OF t2(2) s(4)]]
        show ?thesis unfolding eq using shuffled_trans by (metis (no_types, lifting))
      qed
    qed
  qed
qed simp

end

section \<open>Properties\<close>

text \<open>Numbers that are not NaN, compared by \<open>luaV_lessthan\<close>, are in a strict weak order.\<close>

definition numbers :: "TValue set" where
  "numbers = {LNumber n |n. \<not> is_nan n}"

fun number_less :: "TValue \<Rightarrow> TValue \<Rightarrow> bool" where
  "number_less (LNumber a) (LNumber b) = luai_numlt a b"
| "number_less _ _ = False"

interpretation by_number: weak_order "sort_comp tm call strcoll None" numbers number_less for tm call strcoll
  by unfold_locales (auto simp: numbers_def sort_comp_def luaV_lessthan_def luai_numlt_def)

lemma tsort_ok:
  assumes w: "weak_order (sort_comp tm call strcoll f) V lt" and h: "holds_list t xs" and v: "set xs \<subseteq> V"
  shows "\<exists>t' ys. tsort tm call strcoll f t = Inr t' \<and> holds_list t' ys \<and> mset ys = mset xs \<and> sorted_wrt (\<lambda>x y. \<not> lt y x) ys
    \<and> others t' = others t \<and> (\<forall>i. int32 i \<longrightarrow> i \<le> 0 \<longrightarrow> num_at t' i = num_at t i)"
proof -
  let ?n = "int (length xs)"
  have ok: "table_ok t" and len: "?n < 2147483646" using h by (simp_all add: holds_list_def)
  have nil: "LNil \<notin> V" using w by (simp add: weak_order.no_nil)
  have xs: "map (num_at t) [1..?n] = xs"
    using holds_list_nth [OF h] by (intro nth_equalityI) auto
  have "weak_order.range_ok V t 1 ?n"
    unfolding weak_order.range_ok_def [OF w] using ok len v holds_list_nth [OF h] by (fastforce simp: int32_def)
  from weak_order.auxsort_ok [OF w this, of "nat ?n + 1"] obtain t' where
    t': "auxsort (nat ?n + 1) (sort_comp tm call strcoll f) t 1 ?n = Inr t'" "shuffled 1 ?n t t'"
      "weak_order.sorted_on lt t' 1 ?n" by auto
  define ys where "ys = map (num_at t') [1..?n]"
  have ms: "mset ys = mset xs" using t'(2) unfolding ys_def shuffled_def xs by simp
  then have ys: "length ys = length xs" "set ys = set xs" by (metis size_mset, metis set_mset_mset)
  have "num_at t' i = (if i \<le> int (length ys) then ys ! nat (i - 1) else LNil)" if "1 \<le> i" "int32 i" for i
  proof (cases "i \<le> ?n")
    case True
    then show ?thesis using that(1) ys(1) by (simp add: ys_def)
  next
    case False
    then have "num_at t' i = num_at t i" using t'(2) that by (simp add: shuffled_def)
    with False that h ys(1) show ?thesis by (simp add: holds_list_def)
  qed
  then have "holds_list t' ys" using t'(2) len ys v nil by (auto simp: holds_list_def shuffled_def)
  moreover have "sorted_wrt (\<lambda>x y. \<not> lt y x) ys"
    using t'(3) ys(1) unfolding weak_order.sorted_on_def [OF w] weak_order.le_def [OF w]
    by (auto simp: sorted_wrt_iff_nth_less ys_def)
  moreover have "tsort tm call strcoll f t = Inr t'" by (simp only: tsort_def holds_list_length [OF h] bnd_Inr t'(1))
  ultimately show ?thesis using ms t'(2) by (auto simp: shuffled_def)
qed

text \<open>
  C6: \<open>sort\<close> sorts: whatever strict weak order the comparison decides on the elements of the list, it ends
  without an error, and the table then holds the same elements with none less than one before it. The
  other keys of the table keep their values.
\<close>

theorem sort_sorts:
  assumes "weak_order (sort_comp tm call strcoll f) V lt" and "holds_list t xs" and "set xs \<subseteq> V"
  shows "\<exists>t' ys. tsort tm call strcoll f t = Inr t' \<and> holds_list t' ys \<and> mset ys = mset xs \<and> sorted_wrt (\<lambda>x y. \<not> lt y x) ys
    \<and> others t' = others t \<and> (\<forall>i. int32 i \<longrightarrow> i \<le> 0 \<longrightarrow> num_at t' i = num_at t i)"
  using assms by (rule tsort_ok)

text \<open>A list in an array part.\<close>

definition array_table :: "TValue list \<Rightarrow> Table" where
  "array_table xs = \<lparr>flags = 0, lsizenode = 0, metatable = None, tarray = xs, tspare = [], tnode = [dummynode], isdummy = False, lastfree = 1\<rparr>"

lemma array_table_holds:
  assumes "LNil \<notin> set xs" "int (length xs) \<le> MAXASIZE"
  shows "holds_list (array_table xs) xs"
proof -
  have f: "fresh_hash (array_table xs)"
    by (auto simp: fresh_hash_def node_size_def array_table_def MAXBITS_def intro!: exI [of _ 0] exI [of _ 1])
  have ok: "table_ok (array_table xs)" using fresh_table_ok [OF f] assms(2) by (simp add: array_table_def)
  have "num_at (array_table xs) i = (if i \<le> int (length xs) then xs ! nat (i - 1) else LNil)" if "1 \<le> i" "int32 i" for i
    using fresh_raw_get [OF f, of "LNumber (cast_num i)"] assms(2) that arrayindex_int [of i]
    by (auto simp: num_at_def in_array_def int32_def array_table_def)
  then show ?thesis using ok assms by (simp add: holds_list_def MAXASIZE_def MAXBITS_def)
qed

lemma sort_sorts_witness:
  "\<exists>t' ys. tsort (\<lambda>_ _. LNil) (\<lambda>_ _ _. Inr LNil) (\<lambda>_ _. 0) None (array_table [LNumber (cast_num 2), LNumber (cast_num 3), LNumber (cast_num 1)]) = Inr t'
    \<and> holds_list t' ys \<and> mset ys = mset [LNumber (cast_num 2), LNumber (cast_num 3), LNumber (cast_num 1)]
    \<and> sorted_wrt (\<lambda>x y. \<not> number_less y x) ys"
proof -
  let ?xs = "[LNumber (cast_num 2), LNumber (cast_num 3), LNumber (cast_num 1)]"
  have "holds_list (array_table ?xs) ?xs" by (rule array_table_holds) (simp_all add: MAXASIZE_def MAXBITS_def)
  moreover have "set ?xs \<subseteq> numbers" by (simp add: numbers_def cast_num_parts)
  ultimately show ?thesis
    using sort_sorts [OF by_number.weak_order_axioms, of "array_table ?xs" ?xs "\<lambda>_ _. LNil" "\<lambda>_ _ _. Inr LNil" "\<lambda>_ _. 0"]
    by blast
qed

text \<open>
  C38: \<open>table.insert\<close> and \<open>table.remove\<close> are insertion and removal in the list a table holds. In a table
  with fewer than \<open>2 ^ 26\<close> slots an element can be inserted at every position up to the one behind the
  list, which moves the later elements up, and removing it there returns it and restores the list;
  removing the element at a position of the list returns it and moves the later ones down. Other keys are
  not touched.
\<close>

theorem insert_then_remove:
  assumes "holds_list t xs" and "slots t < 2 ^ 26" and "v \<noteq> LNil" and "1 \<le> pos" and "pos \<le> int (length xs) + 1"
  shows "(\<exists>t1 t2. tinsert t (Some pos) v = Inr t1 \<and> holds_list t1 (insert_at (nat (pos - 1)) v xs) \<and> others t1 = others t
        \<and> tremove t1 (Some pos) = Inr (Some v, t2) \<and> holds_list t2 xs \<and> others t2 = others t)
    \<and> (pos \<le> int (length xs) \<longrightarrow> (\<exists>t'. tremove t (Some pos) = Inr (Some (xs ! nat (pos - 1)), t')
        \<and> holds_list t' (remove_at (nat (pos - 1)) xs) \<and> others t' = others t))"
proof (intro conjI impI)
  have "length xs \<le> slots t"
    using present_le [of t "length xs"] holds_list_nth [OF assms(1)] assms(1) by (auto simp: holds_list_def slots_def)
  then have "int (length xs) < 2147483645" "\<not> crowded t" using assms(2) by (simp_all add: crowded_def slots_def)
  with tinsert_ok [OF assms(1,4,5,3)] obtain t1 where
    t1: "tinsert t (Some pos) v = Inr t1" "holds_list t1 (insert_at (nat (pos - 1)) v xs)" "others t1 = others t" by blast
  have e: "insert_at (nat (pos - 1)) v xs ! nat (pos - 1) = v" "remove_at (nat (pos - 1)) (insert_at (nat (pos - 1)) v xs) = xs"
    "pos \<le> int (length (insert_at (nat (pos - 1)) v xs))"
    using assms(4,5) by (auto simp: insert_at_def remove_at_def nth_append min_def)
  from tremove_ok [OF t1(2) assms(4) e(3)] t1
  show "\<exists>t1 t2. tinsert t (Some pos) v = Inr t1 \<and> holds_list t1 (insert_at (nat (pos - 1)) v xs) \<and> others t1 = others t
      \<and> tremove t1 (Some pos) = Inr (Some v, t2) \<and> holds_list t2 xs \<and> others t2 = others t"
    unfolding e(1,2) by auto
qed (rule tremove_ok [OF assms(1,4)])

lemma insert_then_remove_witness:
  "(\<exists>t1 t2. tinsert (array_table [LBool 0, LBool 1]) (Some 1) (LBool 1) = Inr t1 \<and> holds_list t1 [LBool 1, LBool 0, LBool 1]
      \<and> tremove t1 (Some 1) = Inr (Some (LBool 1), t2) \<and> holds_list t2 [LBool 0, LBool 1])
   \<and> (\<exists>t'. tremove (array_table [LBool 0, LBool 1]) (Some 1) = Inr (Some (LBool 0), t') \<and> holds_list t' [LBool 1])"
proof -
  have "holds_list (array_table [LBool 0, LBool 1]) [LBool 0, LBool 1]"
    by (rule array_table_holds) (simp_all add: MAXASIZE_def MAXBITS_def)
  from insert_then_remove [OF this, of "LBool 1" 1] show ?thesis
    by (auto simp: insert_at_def remove_at_def slots_def array_table_def)
qed

end
