(* ===== verification/Spec2Isabelle.thy ===== *)
theory Spec2Isabelle
  imports Prelude Opcodes LuaNumber LuaObject LuaProto CodeCheck Zio Dump AuxBuffer Undump Lexer
    StrLib LexerFacts StringTable LuaTable TableFacts
    TableRehash TableResize TableCount TableMap TableScan CodeGen CodeJumps CodeEmit CodeConst CodeExpr
    StrMatch StrMatchFacts StrFind VMCompare TabLib TabFacts TabSort
begin

text \<open>
  A model of the core of LuaPlus, the scripting engine of the landscape program: the C files under
  \<open>src/LuaPlus/Src/LuaPlus/src\<close>, a fork of Lua 5.1 with wide strings and bitwise
  operators. The rest of the repository draws, plays and wraps; this is the part that computes. File
  names below are relative to that directory.

  How the parts work together. Source text comes through a reader into a buffered stream (\<open>lzio.c\<close>), which
  the lexical analyzer (\<open>llex.c\<close>) turns into tokens; the parser calls the code generator (\<open>lcode.c\<close>), which
  fills a function prototype with 32-bit instructions (\<open>lopcodes.h\<close>). A prototype is saved as a binary chunk
  (\<open>ldump.c\<close>) and loaded from one (\<open>lundump.c\<close>); a loaded one is checked by the bytecode verifier
  (\<open>ldebug.c\<close>) before it runs. At run time values (\<open>lobject.h\<close>) live in tables (\<open>ltable.c\<close>), strings are
  shared through the string table (\<open>lstring.c\<close>), the string library (\<open>lstrlib.c\<close>) works on bytes and
  collects its results in buffers on the stack (\<open>lauxlib.c\<close>), and the table library (\<open>ltablib.c\<close>) inserts,
  removes and sorts through the raw operations of tables and the comparisons of the virtual machine (\<open>lvm.c\<close>).

  \<^bold>\<open>The theories.\<close>
  \<^item> \<open>Prelude\<close>: the integer types of the 32-bit target, errors as values (\<open>lua_error + 'a\<close>, sequenced with
    \<open>bnd\<close>), \<open>yields\<close> for operations that must not run out of their bound, lists and C strings.
  \<^item> \<open>Opcodes\<close> (\<open>lopcodes.h\<close>, \<open>lopcodes.c\<close>), \<open>LuaNumber\<close> (\<open>luaconf.h\<close>: doubles as their 64 bits),
    \<open>LuaObject\<close> (\<open>lobject.h\<close>, \<open>lobject.c\<close>: \<open>TValue\<close>), \<open>LuaProto\<close> (\<open>Proto\<close>, \<open>LocVar\<close>).
  \<^item> \<open>CodeCheck\<close> (\<open>ldebug.c\<close>): \<open>luaG_checkcode\<close> with its symbolic execution, and a step relation for what the
    program counter can reach. An accepted function stays inside its code, registers, constants and
    upvalues, the words after a \<open>CLOSURE\<close> included; the registers to which \<open>TFORLOOP\<close> copies the arguments
    of its call are bounded only by the \<open>EXTRA_STACK\<close> slots behind the registers. The same theory shows
    which programs the verifier wrongly accepts and when it reads outside the code itself.
  \<^item> \<open>Zio\<close> (\<open>lzio.c\<close>, \<open>lzio.h\<close>, \<open>getS\<close> and \<open>getF\<close> of \<open>lauxlib.c\<close>): a stream refines the list of the bytes its
    reader still delivers.
  \<^item> \<open>Dump\<close> (\<open>ldump.c\<close>), \<open>Undump\<close> (\<open>lundump.c\<close>): the chunk format as a function from prototypes to bytes, for
    hosts of both byte orders, and the round trip.
  \<^item> \<open>AuxBuffer\<close> (\<open>luaL_Buffer\<close>): a buffer spread over the stack holds the concatenation of what was added.
  \<^item> \<open>Lexer\<close> (\<open>llex.c\<close>), \<open>LexerFacts\<close>: tokens over any reader; on a text of less than \<open>2 ^ 28\<close> bytes that does
    not end in \<open>x\<close> or \<open>L\<close> every call returns a token and advances or raises a syntax error (after these two
    letters the code can read a character past the end); quoted strings read back, names.
  \<^item> \<open>StringTable\<close> (\<open>lstring.c\<close>): hashing, resizing and interning, for narrow and wide strings; it refines
    a set of strings, so that equality is equality of pointers.
  \<^item> \<open>LuaTable\<close> (\<open>ltable.c\<close>): the array part and the scatter table. While \<open>resize\<close> shrinks the array
    part, the field \<open>tspare\<close> holds the slots of the block behind \<open>sizearray\<close>, which the re-insertion reads one
    by one: a rehash on the way may have freed them. \<open>TableFacts\<close> has the invariant of the
    chains, \<open>TableRehash\<close>, \<open>TableResize\<close> and \<open>TableCount\<close> the reorganisation, \<open>TableMap\<close> the refinement to maps
    (the locale \<open>key_map\<close>, interpreted on the model's tables), \<open>TableScan\<close> length and traversal.
  \<^item> \<open>CodeGen\<close> (\<open>lcode.c\<close>, \<open>luaM_growaux_\<close>): the state of a function being compiled. \<open>CodeJumps\<close> has the jump
    lists threaded through the instructions, \<open>CodeEmit\<close> the invariant of emission and what patching does,
    \<open>CodeConst\<close> constants and registers, \<open>CodeExpr\<close> that every expression is put where it has to be.
  \<^item> \<open>StrLib\<close> (\<open>%q\<close>), \<open>StrMatch\<close> (\<open>lstrlib.c\<close>): string functions and pattern matching. \<open>StrMatchFacts\<close> relates the
    backtracking matcher, which changes an array of captures and undoes it, to a search without state;
    \<open>StrFind\<close> has what find, match, gmatch and gsub return.
  \<^item> \<open>VMCompare\<close> (\<open>luaV_lessthan\<close>, \<open>lessequal\<close> and \<open>l_strcmp\<close> of \<open>lvm.c\<close>): order tests, metamethods included.
    \<open>TabLib\<close> (\<open>ltablib.c\<close>) has the table library over \<open>LuaTable\<close>, \<open>TabFacts\<close> the table seen as a sequence (the
    locale \<open>indexed\<close>), \<open>TabSort\<close> what \<open>sort\<close> does for any order function that is a weak order (the locale
    \<open>weak_order\<close>, interpreted on the comparison of numbers) and what \<open>insert\<close> and \<open>remove\<close> do.

  \<^bold>\<open>State and errors.\<close> A struct is a record and a function that changes it returns it changed. A raised
  error is a value of \<open>lua_error\<close>: the message where the code gives one (without the position that
  \<open>luaL_error\<close> puts in front), \<open>OutOfBounds\<close> where the code would index outside an array, and \<open>OutOfFuel\<close>
  where a loop exceeds the bound of the model. A pointer into an array is an index, a linked list threaded
  through objects is either modelled as such (jump lists, hash chains) or the list of its members.

  \<^bold>\<open>Bounds.\<close> Loops over lists of jumps have one round for each instruction (\<open>jump_fuel\<close>), the matcher one
  level for each character of the pattern, \<open>str_gsub\<close> one round for each position and one more, loops over the
  input a bound the caller gives. The theorems say that the bound suffices: \<open>patch_retargets\<close>,
  \<open>operand_generated\<close>, \<open>match_is_search\<close>, \<open>gsub_ends\<close>, \<open>llex_progress\<close>, \<open>getn_border\<close> and \<open>next_visits_all\<close> have a
  result, not only a condition on one.

  \<^bold>\<open>Parameters.\<close> \<open>pow\<close> of the C library, the conversion of numbers to text (\<open>sprintf\<close>), the readers and
  writers the host supplies, the functions that \<open>gsub\<close> calls, and what uninitialised memory holds are
  arguments of the definitions; the byte order of the host is the argument \<open>le\<close>.

  \<^bold>\<open>Not modelled.\<close> The parser (\<open>lparser.c\<close>), the interpreter loop (the rest of \<open>lvm.c\<close>), calls and coroutines (\<open>ldo.c\<close>), the
  garbage collector (\<open>lgc.c\<close>) and the API over the stack (\<open>lapi.c\<close>) are not part of it yet. The thin libraries
  over the C library (\<open>liolib.c\<close>, \<open>loslib.c\<close>, \<open>lmathlib.c\<close>), the command-line programs, the C++ wrappers
  (\<open>LuaObject.cpp\<close>, \<open>LuaState.cpp\<close>), the third-party modules and the graphics engine (Direct3D, the scene, the
  editor) only call what is not in the repository and are left out.
\<close>

end
